(* ===== verification/Prelude.thy ===== *)
theory Prelude
  imports Main "HOL-Library.Word" "HOL-Library.Monad_Syntax"
begin

text \<open>
  Shared vocabulary of the development: the machine integer types of the Rust code, the
  result of a fallible call, state passing for the methods that take \<open>&mut self\<close>, loops
  over a list or an integer range with an early exit, and the lemma collections that carry
  the proofs of the components.
\<close>

unbundle bit_operations_syntax

named_theorems codec_simps "parsing what was just written, and lengths of encodings"
named_theorems codec_inv "the bytes a successful parse consumed"
named_theorems result_simps "computation rules of the result and state combinators"

section \<open>Machine integers\<close>

type_synonym u8 = "8 word"
type_synonym u16 = "16 word"
type_synonym u32 = "32 word"
type_synonym u64 = "64 word"
type_synonym bytes = "u8 list"

text \<open>
  \<open>begin..end\<close> over \<open>u64\<close>: the half open range, empty when \<open>end <= begin\<close>.
\<close>

lemma unat_lt2p: "unat (x :: 'a::len word) < 2 ^ LENGTH('a)"
  by (rule unsigned_less)

lemma unat_of_nat_eq: "n < 2 ^ LENGTH('a) \<Longrightarrow> unat (word_of_nat n :: 'a::len word) = n"
  by (simp add: unat_of_nat)

definition range64 :: "u64 \<Rightarrow> u64 \<Rightarrow> u64 list" where
  "range64 b e = map word_of_nat [unat b ..< unat e]"

lemma length_range64 [simp]: "length (range64 b e) = unat e - unat b"
  by (simp add: range64_def)

lemma set_range64: "set (range64 b e) = {x. b \<le> x \<and> x < e}"
proof -
  have "x \<in> word_of_nat ` {unat b ..< unat e}" if "b \<le> x" "x < e" for x
    using that by (intro image_eqI [of _ _ "unat x"]) (auto simp: word_le_nat_alt word_less_nat_alt)
  moreover have "b \<le> word_of_nat n \<and> word_of_nat n < e" if "unat b \<le> n" "n < unat e" for n
  proof -
    have "n < 2 ^ LENGTH(64)" using that(2) unat_lt2p [of e] by linarith
    then have "unat (word_of_nat n :: u64) = n" by (simp add: unat_of_nat_eq)
    with that show ?thesis by (simp add: word_le_nat_alt word_less_nat_alt)
  qed
  ultimately show ?thesis by (auto simp: range64_def)
qed

lemma range64_empty [simp]: "e \<le> b \<Longrightarrow> range64 b e = []"
  by (simp add: range64_def word_le_nat_alt)

lemma range64_Cons: "b < e \<Longrightarrow> range64 b e = b # range64 (b + 1) e"
proof -
  assume be: "b < e"
  then have "unat b < unat e" by (simp add: word_less_nat_alt)
  moreover from be have "unat (b + 1) = Suc (unat b)"
    by unat_arith
  ultimately show ?thesis by (simp add: range64_def upt_conv_Cons)
qed

lemma range64_append: "b \<le> k \<Longrightarrow> k \<le> e \<Longrightarrow> range64 b e = range64 b k @ range64 k e"
  using upt_add_eq_append [of "unat b" "unat k" "unat e - unat k"]
  by (simp add: range64_def word_le_nat_alt)

lemma unat_plus_no_overflow:
  "unat (a :: 'a::len word) + unat b < 2 ^ LENGTH('a) \<Longrightarrow> unat (a + b) = unat a + unat b"
  by (simp add: unat_word_ariths)

lemma unat_dec: "0 < unat w \<Longrightarrow> unat (w - 1 :: 'a::len word) = unat w - 1"
  by (metis unat_eq_0 unat_minus_one not_less_iff_gr_or_eq)

lemma unat_of_nat64: "n < 2 ^ 64 \<Longrightarrow> unat (word_of_nat n :: u64) = n"
  by (simp add: unat_of_nat_eq)

lemma unat_drop_div: "unat (drop_bit k (w :: 'a::len word)) = unat w div 2 ^ k"
  by (rule trans [OF unat_drop_bit_eq drop_bit_eq_div])

lemma unat_take_mod: "unat (take_bit k (w :: 'a::len word)) = unat w mod 2 ^ k"
  by (rule trans [OF unsigned_take_bit_eq take_bit_eq_mod])

lemma take_bit_small: "unat w < 2 ^ n \<Longrightarrow> take_bit n w = (w :: 'a::len word)"
  by (simp add: word_eq_iff_unsigned [where ?'a = nat] unsigned_take_bit_eq take_bit_nat_eq_self)

lemma small_no_bit: "unat w < 2 ^ n \<Longrightarrow> n \<le> k \<Longrightarrow> \<not> bit (w :: 'a::len word) k"
  by (metis bit_take_bit_iff not_less take_bit_small)

lemma unat_ucast_small:
  "unat (w :: 'a::len word) < 2 ^ LENGTH('b) \<Longrightarrow> unat (ucast w :: 'b::len word) = unat w"
  by (simp add: unsigned_ucast_eq take_bit_nat_eq_self)

lemma ucast_ucast_small:
  "unat (w :: 'a::len word) < 2 ^ LENGTH('b) \<Longrightarrow> ucast (ucast w :: 'b::len word) = w"
  by (simp add: word_eq_iff_unsigned [where ?'a = nat] unsigned_ucast_eq take_bit_small)

text \<open>\<open>math::div_up\<close>, on \<open>u64\<close>: the sum wraps.\<close>

definition div_up :: "u64 \<Rightarrow> u64 \<Rightarrow> u64" where
  "div_up v divisor = (v + (divisor - 1)) div divisor"

text \<open>\<open>saturating_add\<close> and \<open>saturating_sub\<close> of \<open>u64\<close>.\<close>

definition sat_add64 :: "u64 \<Rightarrow> u64 \<Rightarrow> u64" where
  "sat_add64 x y = (if unat x + unat y < 2 ^ 64 then x + y else - 1)"

definition sat_sub64 :: "u64 \<Rightarrow> u64 \<Rightarrow> u64" where
  "sat_sub64 x y = (if y \<le> x then x - y else 0)"

lemma find_append: "find P (xs @ ys) = (case find P xs of None \<Rightarrow> find P ys | Some x \<Rightarrow> Some x)"
  by (induction xs) auto

lemma find_SomeD: "find P xs = Some x \<Longrightarrow> x \<in> set xs \<and> P x"
  by (auto simp: find_Some_iff)

section \<open>Numbers in text\<close>

text \<open>Decimal output of the formatting macros.\<close>

fun decimal :: "nat \<Rightarrow> string" where
  "decimal n = (if n < 10 then [char_of (48 + n)] else decimal (n div 10) @ [char_of (48 + n mod 10)])"

declare decimal.simps [simp del]

text \<open>\<open>str::parse\<close> of an unsigned number of digits only; the bound is that of the type.\<close>

definition is_digit :: "char \<Rightarrow> bool" where
  "is_digit c \<longleftrightarrow> 48 \<le> (of_char c :: nat) \<and> (of_char c :: nat) \<le> 57"

definition digits_value :: "string \<Rightarrow> nat" where
  "digits_value s = foldl (\<lambda>n c. n * 10 + (of_char c - 48)) 0 s"

definition parse_nat :: "nat \<Rightarrow> string \<Rightarrow> nat option" where
  "parse_nat bound s = (if s \<noteq> [] \<and> list_all is_digit s \<and> digits_value s < bound then Some (digits_value s) else None)"

lemma is_digit_char: "d < 10 \<Longrightarrow> is_digit (char_of (48 + d :: nat))"
  by (simp add: is_digit_def)

lemma decimal_digits: "list_all is_digit (decimal n) \<and> decimal n \<noteq> []"
proof (induction n rule: decimal.induct)
  case (1 n)
  show ?case
  proof (cases "n < 10")
    case False
    with 1 show ?thesis by (subst (1 2) decimal.simps) (simp add: is_digit_char)
  qed (subst (1 2) decimal.simps, simp add: is_digit_char)
qed

lemma digits_value_decimal: "digits_value (decimal n) = n"
proof (induction n rule: decimal.induct)
  case (1 n)
  show ?case
  proof (cases "n < 10")
    case False
    with 1 show ?thesis by (subst decimal.simps) (simp add: digits_value_def)
  qed (subst decimal.simps, simp add: digits_value_def)
qed

lemma parse_decimal [simp]: "n < bound \<Longrightarrow> parse_nat bound (decimal n) = Some n"
  using decimal_digits [of n] by (simp add: parse_nat_def digits_value_decimal)

section \<open>Results\<close>

text \<open>
  A call of the Rust code returns \<open>Ok\<close>, returns \<open>Err\<close>, or panics (a failed assertion, an
  index out of range, an \<open>unwrap\<close> of nothing). Integer overflow is not a panic: the tools
  are built with the release profile, where \<open>+\<close>, \<open>-\<close> and \<open>*\<close> wrap.
\<close>

datatype ('e, 'a) result = Ok 'a | Err 'e | Panic

fun is_ok :: "('e, 'a) result \<Rightarrow> bool" where
  "is_ok (Ok _) = True"
| "is_ok _ = False"

fun bindr :: "('e, 'a) result \<Rightarrow> ('a \<Rightarrow> ('e, 'b) result) \<Rightarrow> ('e, 'b) result" where
  "bindr (Ok a) f = f a"
| "bindr (Err e) f = Err e"
| "bindr Panic f = Panic"

lemma bindr_cong [fundef_cong]:
  "r = r' \<Longrightarrow> (\<And>a. r' = Ok a \<Longrightarrow> f a = f' a) \<Longrightarrow> bindr r f = bindr r' f'"
  by (cases r') auto

definition mapr :: "('a \<Rightarrow> 'b) \<Rightarrow> ('e, 'a) result \<Rightarrow> ('e, 'b) result" where
  "mapr f r = bindr r (\<lambda>a. Ok (f a))"

definition assertr :: "bool \<Rightarrow> ('e, 'a) result \<Rightarrow> ('e, 'a) result" where
  "assertr b r = (if b then r else Panic)"

definition of_opt :: "'e \<Rightarrow> 'a option \<Rightarrow> ('e, 'a) result" where
  "of_opt e x = (case x of Some a \<Rightarrow> Ok a | None \<Rightarrow> Err e)"

lemma bindr_eq_Ok [simp]: "bindr r f = Ok b \<longleftrightarrow> (\<exists>a. r = Ok a \<and> f a = Ok b)"
  by (cases r) auto

lemma bindr_assoc: "bindr (bindr r f) g = bindr r (\<lambda>a. bindr (f a) g)"
  by (cases r) auto

lemma mapr_simps [simp]:
  "mapr f (Ok a) = Ok (f a)" "mapr f (Err e) = Err e" "mapr f Panic = Panic"
  by (simp_all add: mapr_def)

lemma mapr_eq_Ok [simp]: "mapr f r = Ok b \<longleftrightarrow> (\<exists>a. r = Ok a \<and> b = f a)"
  by (cases r) auto

lemma bindr_Panic: "bindr m f = Panic \<longleftrightarrow> m = Panic \<or> (\<exists>a. m = Ok a \<and> f a = Panic)"
  by (cases m) auto

lemma mapr_eq_Panic [simp]: "mapr f r = Panic \<longleftrightarrow> r = Panic"
  by (cases r) auto

lemma assertr_simps [simp]: "assertr True r = r" "assertr False r = Panic"
  by (simp_all add: assertr_def)

lemma assertr_Ok [simp]: "assertr b r = Ok a \<longleftrightarrow> b \<and> r = Ok a"
  by (cases b) auto

lemma of_opt_simps [simp]: "of_opt e (Some a) = Ok a" "of_opt e None = Err e"
  by (simp_all add: of_opt_def)

lemma of_opt_eq_Ok [simp]: "of_opt e x = Ok a \<longleftrightarrow> x = Some a"
  by (cases x) auto

section \<open>Methods with a mutable receiver\<close>

text \<open>
  A method on \<open>&mut self\<close> returns its result together with the receiver it leaves behind.
  The receiver is there on an error return as well: what the method wrote before the error
  stays written.
\<close>

fun binds :: "('e, 'a) result \<times> 's \<Rightarrow> ('a \<Rightarrow> 's \<Rightarrow> ('e, 'b) result \<times> 's) \<Rightarrow> ('e, 'b) result \<times> 's"
where
  "binds (Ok a, s) f = f a s"
| "binds (Err e, s) f = (Err e, s)"
| "binds (Panic, s) f = (Panic, s)"

lemma binds_Ok:
  "binds m f = (Ok b, t) \<longleftrightarrow> (\<exists>a s. m = (Ok a, s) \<and> f a s = (Ok b, t))"
  by (cases m; cases "fst m") auto

lemma binds_cong [fundef_cong]:
  "m = m' \<Longrightarrow> (\<And>a s. m' = (Ok a, s) \<Longrightarrow> f a s = f' a s) \<Longrightarrow> binds m f = binds m' f'"
  by (cases m'; cases "fst m'") auto

text \<open>An operation on the second part of the state; the end of the scope of a local variable.\<close>

definition on_snd :: "('s \<Rightarrow> ('e, 'a) result \<times> 's) \<Rightarrow> 'x \<times> 's \<Rightarrow> ('e, 'a) result \<times> 'x \<times> 's" where
  "on_snd f = (\<lambda>(x, s). case f s of (r, s) \<Rightarrow> (r, (x, s)))"

fun binds_local ::
    "('e, 'a) result \<times> 'x \<times> 's \<Rightarrow> ('x \<Rightarrow> 's \<Rightarrow> ('e, 'b) result \<times> 's) \<Rightarrow> ('e, 'b) result \<times> 's" where
  "binds_local (Ok a, x, s) f = f x s"
| "binds_local (Err e, x, s) f = (Err e, s)"
| "binds_local (Panic, x, s) f = (Panic, s)"

lemma on_snd_simp [simp]: "f s = (r, s') \<Longrightarrow> on_snd f (x, s) = (r, (x, s'))"
  by (simp add: on_snd_def)

text \<open>A \<open>for\<close> loop whose body may return early with an error.\<close>

fun for_each :: "('x \<Rightarrow> 's \<Rightarrow> ('e, unit) result \<times> 's) \<Rightarrow> 'x list \<Rightarrow> 's \<Rightarrow> ('e, unit) result \<times> 's"
where
  "for_each f [] s = (Ok (), s)"
| "for_each f (x # xs) s = binds (f x s) (\<lambda>_. for_each f xs)"

lemma for_each_map: "for_each f (map g xs) = for_each (\<lambda>x. f (g x)) xs"
proof (induction xs)
  case (Cons x xs)
  then show ?case by (intro ext) simp
qed (simp add: fun_eq_iff)

lemma for_each_append:
  "for_each f (xs @ ys) s = binds (for_each f xs s) (\<lambda>_. for_each f ys)"
proof (induction xs arbitrary: s)
  case (Cons x xs)
  then show ?case by (cases "f x s"; cases "fst (f x s)") auto
qed simp

lemma binds_return: "binds m (\<lambda>_. Pair (Ok ())) = m"
proof -
  obtain r s where "m = (r, s)" by fastforce
  then show ?thesis by (cases r) auto
qed

lemma for_each_snoc: "for_each f (xs @ [x]) s = binds (for_each f xs s) (\<lambda>_. f x)"
proof -
  have e: "for_each f [] = Pair (Ok ())" by (simp add: fun_eq_iff)
  have "for_each f [x] = f x" by (rule ext) (simp add: e binds_return)
  then show ?thesis by (simp only: for_each_append)
qed

lemma for_each_invariant:
  assumes "P s" and step: "\<And>x s r t. P s \<Longrightarrow> f x s = (r, t) \<Longrightarrow> P t"
  shows "P (snd (for_each f xs s))"
  using assms(1)
proof (induction xs arbitrary: s)
  case (Cons x xs)
  obtain r t where ft: "f x s = (r, t)" by fastforce
  with Cons.prems have "P t" by (rule step)
  with Cons.IH ft show ?case by (cases r) auto
qed simp

fun foldr_res :: "('x \<Rightarrow> 's \<Rightarrow> ('e, 's) result) \<Rightarrow> 'x list \<Rightarrow> 's \<Rightarrow> ('e, 's) result" where
  "foldr_res f [] s = Ok s"
| "foldr_res f (x # xs) s = bindr (f x s) (foldr_res f xs)"

lemma foldr_res_append:
  "foldr_res f (xs @ ys) s = bindr (foldr_res f xs s) (foldr_res f ys)"
proof (induction xs arbitrary: s)
  case (Cons x xs)
  then show ?case by (cases "f x s") auto
qed simp

declare binds_Ok [result_simps] bindr_assoc [result_simps] foldr_res_append [result_simps]

end
