(* ===== verification/Space_Map.thy ===== *)
theory Space_Map
  imports Prelude
begin

text \<open>
  \<open>src/pdata/space_map/base.rs\<close>: the in-core reference counts of blocks. \<open>CoreSpaceMap\<close> counts
  up to the largest value of its counter type, \<open>RestrictedSpaceMap\<close> to one,
  \<open>RestrictedTwoSpaceMap\<close> to two. Indices are \<open>u64\<close> and their arithmetic wraps, as in a release
  build. The \<open>fixedbitset\<close> crate is a parameter, a record of its operations, with its
  documented laws as the hypothesis \<open>bitset_laws\<close>.
\<close>

datatype sm_error = BlockOutOfBounds | CountTooLarge | EnsureFailed

type_synonym ('s, 'a) sm_op = "(sm_error, 'a) result \<times> 's"

section \<open>The interface\<close>

text \<open>The provided method \<open>dec\<close> of the trait \<open>RefCount\<close>: true if the block is now free.\<close>

definition dec_default :: "('s \<Rightarrow> u64 \<Rightarrow> (sm_error, u32) result) \<Rightarrow>
    ('s \<Rightarrow> u64 \<Rightarrow> u32 \<Rightarrow> ('s, u32) sm_op) \<Rightarrow> 's \<Rightarrow> u64 \<Rightarrow> ('s, bool) sm_op" where
  "dec_default rc_get rc_set sm b =
    binds (rc_get sm b, sm) (\<lambda>old sm.
    if \<not> 0 < old then (Err EnsureFailed, sm)
    else binds (rc_set sm b (old - 1)) (\<lambda>_ sm. (Ok (old = 1), sm)))"

text \<open>
  What every reference counter promises: \<open>count\<close> is the abstract state. A counter that stops
  at a bound \<open>cap\<close> keeps the law up to the bound.
\<close>

locale ref_counter =
  fixes rc_get :: "'s \<Rightarrow> u64 \<Rightarrow> (sm_error, u32) result"
    and rc_set :: "'s \<Rightarrow> u64 \<Rightarrow> u32 \<Rightarrow> ('s, u32) sm_op"
    and inv :: "'s \<Rightarrow> bool"
    and count :: "'s \<Rightarrow> nat list"
    and cap :: nat
  assumes get_count: "inv s \<Longrightarrow> unat b < length (count s) \<Longrightarrow>
      \<exists>v. rc_get s b = Ok v \<and> unat v = count s ! unat b"
    and set_count: "inv s \<Longrightarrow> unat b < length (count s) \<Longrightarrow> unat v \<le> cap \<Longrightarrow>
      \<exists>old s'. rc_set s b v = (Ok old, s') \<and> unat old = count s ! unat b \<and> inv s' \<and>
        count s' = (count s)[unat b := unat v]"
    and count_cap: "inv s \<Longrightarrow> i < length (count s) \<Longrightarrow> count s ! i \<le> cap"
begin

lemma dec_zero:
  assumes "inv s" "unat b < length (count s)" "count s ! unat b = 0"
  shows "dec_default rc_get rc_set s b = (Err EnsureFailed, s)"
  using get_count [OF assms(1,2)] assms(3) by (auto simp: dec_default_def unat_eq_0)

lemma dec_positive:
  assumes "inv s" "unat b < length (count s)" "0 < count s ! unat b"
  obtains s' where "dec_default rc_get rc_set s b = (Ok (count s ! unat b = 1), s')" "inv s'"
    "count s' = (count s)[unat b := count s ! unat b - 1]"
proof -
  obtain v where v: "rc_get s b = Ok v" "unat v = count s ! unat b"
    using get_count [OF assms(1,2)] by blast
  have pos: "0 < v" using v(2) assms(3) by (simp add: word_less_nat_alt)
  have v1: "unat (v - 1) = unat v - 1" using pos by (simp add: unat_minus_one)
  have "unat (v - 1) \<le> cap" using count_cap [OF assms(1,2)] v v1 by simp
  from set_count [OF assms(1,2) this] obtain old s' where
    s': "rc_set s b (v - 1) = (Ok old, s')" "inv s'" "count s' = (count s)[unat b := unat v - 1]"
    using v1 by auto
  have "(v = 1) = (count s ! unat b = 1)"
    using v(2) by (metis unat_1 word_unat_eq_iff)
  with s' v pos that show thesis by (simp add: dec_default_def)
qed

lemma set_then_get:
  assumes "inv s" "unat b < length (count s)" "unat v \<le> cap"
  obtains old s' where "rc_set s b v = (Ok old, s')" "rc_get s b = Ok old" "rc_get s' b = Ok v"
    "\<And>b'. b' \<noteq> b \<Longrightarrow> unat b' < length (count s) \<Longrightarrow> rc_get s' b' = rc_get s b'"
proof -
  obtain old s' where s': "rc_set s b v = (Ok old, s')" "unat old = count s ! unat b" "inv s'"
    "count s' = (count s)[unat b := unat v]"
    using set_count [OF assms] by blast
  have eqI: "r = Ok x" if "\<exists>v. r = Ok v \<and> unat v = n" "unat x = n" for r n and x :: u32
    using that by (metis word_unat_eq_iff)
  have "rc_get s b = Ok old" by (rule eqI [OF get_count [OF assms(1,2)] s'(2)])
  moreover have "rc_get s' b = Ok v"
    by (rule eqI [OF get_count [OF s'(3)]]) (use s'(4) assms(2) in simp_all)
  moreover have "rc_get s' b' = rc_get s b'" if b': "b' \<noteq> b" "unat b' < length (count s)" for b'
  proof -
    obtain w where w: "rc_get s b' = Ok w" "unat w = count s ! unat b'"
      using get_count [OF assms(1) b'(2)] by blast
    have "unat b' \<noteq> unat b" using b'(1) by (simp add: word_unat_eq_iff)
    then have "rc_get s' b' = Ok w"
      by (intro eqI [OF get_count [OF s'(3)]]) (use s'(4) w b' in simp_all)
    with w show ?thesis by simp
  qed
  ultimately show thesis using that s'(1) by blast
qed

end

section \<open>CoreSpaceMap\<close>

record 'v core_sm =
  nr_allocated :: u64
  alloc_begin :: u64
  counts :: "'v list"

definition core_new :: "u64 \<Rightarrow> 'v::len word core_sm" where
  "core_new nr_entries = \<lparr>nr_allocated = 0, alloc_begin = 0, counts = replicate (unat nr_entries) 0\<rparr>"

definition core_get_nr_blocks :: "'v::len word core_sm \<Rightarrow> u64" where
  "core_get_nr_blocks sm = word_of_nat (length (counts sm))"

definition core_get :: "'v::len word core_sm \<Rightarrow> u64 \<Rightarrow> (sm_error, u32) result" where
  "core_get sm b =
    (if length (counts sm) \<le> unat b then Err BlockOutOfBounds
     else Ok (ucast (counts sm ! unat b)))"

text \<open>\<open>v.try_into()\<close> fails when the counter type is too narrow for \<open>v\<close>.\<close>

definition core_set :: "'v::len word core_sm \<Rightarrow> u64 \<Rightarrow> u32 \<Rightarrow> ('v word core_sm, u32) sm_op" where
  "core_set sm b v =
    (if length (counts sm) \<le> unat b then (Err BlockOutOfBounds, sm)
     else binds (core_get sm b, sm) (\<lambda>old sm.
       if 2 ^ LENGTH('v) \<le> unat v then (Err CountTooLarge, sm)
       else
         let sm = sm\<lparr>counts := (counts sm)[unat b := ucast v]\<rparr>;
             sm = (if old = 0 \<and> v \<noteq> 0 then sm\<lparr>nr_allocated := nr_allocated sm + 1\<rparr>
                   else if old \<noteq> 0 \<and> v = 0 then sm\<lparr>nr_allocated := nr_allocated sm - 1\<rparr>
                   else sm)
         in (Ok old, sm)))"

text \<open>The body of the loop of \<open>inc\<close>; \<open>- 1\<close> is the largest value of the counter type.\<close>

definition core_inc_one :: "u64 \<Rightarrow> 'v::len word core_sm \<Rightarrow> ('v word core_sm, unit) sm_op" where
  "core_inc_one b sm =
    (if length (counts sm) \<le> unat b then (Panic, sm)
     else let c = counts sm ! unat b in
       if \<not> c < - 1 then (Err EnsureFailed, sm)
       else if c = 0 then
         (Ok (), sm\<lparr>nr_allocated := nr_allocated sm + 1, counts := (counts sm)[unat b := 1]\<rparr>)
       else (Ok (), sm\<lparr>counts := (counts sm)[unat b := c + 1]\<rparr>))"

definition core_inc :: "'v::len word core_sm \<Rightarrow> u64 \<Rightarrow> u64 \<Rightarrow> ('v word core_sm, unit) sm_op" where
  "core_inc sm begin len =
    (if length (counts sm) < unat (begin + len) then (Err BlockOutOfBounds, sm)
     else for_each core_inc_one (range64 begin (begin + len)) sm)"

definition core_dec :: "'v::len word core_sm \<Rightarrow> u64 \<Rightarrow> ('v word core_sm, bool) sm_op" where
  "core_dec = dec_default core_get core_set"

fun find_first :: "(u64 \<Rightarrow> (sm_error, bool) result) \<Rightarrow> u64 list \<Rightarrow> (sm_error, u64 option) result" where
  "find_first free [] = Ok None"
| "find_first free (b # bs) =
    bindr (free b) (\<lambda>f. if f then Ok (Some b) else find_first free bs)"

definition core_find_free :: "'v::len word core_sm \<Rightarrow> u64 \<Rightarrow> u64 \<Rightarrow> (sm_error, u64 option) result" where
  "core_find_free sm begin e = find_first (\<lambda>b.
     if length (counts sm) \<le> unat b then Panic else Ok (counts sm ! unat b = 0)) (range64 begin e)"

definition core_alloc :: "'v::len word core_sm \<Rightarrow> ('v word core_sm, u64 option) sm_op" where
  "core_alloc sm =
    binds (core_find_free sm (alloc_begin sm) (word_of_nat (length (counts sm))), sm) (\<lambda>b sm.
    binds (if b = None then core_find_free sm 0 (alloc_begin sm) else Ok b, sm) (\<lambda>b sm.
    case b of None \<Rightarrow> (Ok None, sm)
    | Some b \<Rightarrow>
        if length (counts sm) \<le> unat b then (Panic, sm)
        else (Ok (Some b), sm\<lparr>counts := (counts sm)[unat b := 1],
               nr_allocated := nr_allocated sm + 1, alloc_begin := b + 1\<rparr>)))"

text \<open>The dynamic choice of the counter type.\<close>

datatype any_core_sm = Core8 "8 word core_sm" | Core16 "16 word core_sm" | Core32 "32 word core_sm"

definition core_sm_for :: "u64 \<Rightarrow> u32 \<Rightarrow> any_core_sm" where
  "core_sm_for nr_entries max_count =
    (if max_count \<le> 0xff then Core8 (core_new nr_entries)
     else if max_count \<le> 0xffff then Core16 (core_new nr_entries)
     else Core32 (core_new nr_entries))"

subsection \<open>Invariant and abstract counts\<close>

definition nonzero :: "'v::zero list \<Rightarrow> nat" where
  "nonzero xs = length (filter (\<lambda>x. x \<noteq> 0) xs)"

definition core_inv :: "'v::len word core_sm \<Rightarrow> bool" where
  "core_inv sm \<longleftrightarrow> LENGTH('v) \<le> 32 \<and> length (counts sm) < 2 ^ 63 \<and>
    unat (nr_allocated sm) = nonzero (counts sm) \<and> unat (alloc_begin sm) \<le> length (counts sm)"

definition core_count :: "'v::len word core_sm \<Rightarrow> nat list" where
  "core_count sm = map unat (counts sm)"

lemma nonzero_le: "nonzero xs \<le> length xs"
  by (simp add: nonzero_def)

lemma nonzero_update:
  "i < length xs \<Longrightarrow> nonzero (xs[i := x]) + (if xs ! i = 0 then 0 else 1) =
     nonzero xs + (if x = 0 then 0 else 1)"
proof (induction xs arbitrary: i)
  case (Cons a xs)
  then show ?case
  proof (cases i)
    case (Suc n)
    with Cons.prems Cons.IH [of n] show ?thesis by (auto simp: nonzero_def split: if_splits)
  qed (simp add: nonzero_def)
qed simp

lemma nonzero_lt: "i < length xs \<Longrightarrow> xs ! i = 0 \<Longrightarrow> nonzero xs < length xs"
  unfolding nonzero_def using nth_mem [of i xs] by (intro length_filter_less [of "xs ! i"]) simp_all

lemma nonzero_pos: "i < length xs \<Longrightarrow> xs ! i \<noteq> 0 \<Longrightarrow> 0 < nonzero xs"
  using nonzero_update [of i xs 0] by auto

lemma length_core_count [simp]: "length (core_count sm) = length (counts sm)"
  by (simp add: core_count_def)


lemma core_inv_new:
  "LENGTH('v) \<le> 32 \<Longrightarrow> unat n < 2 ^ 63 \<Longrightarrow> core_inv (core_new n :: 'v::len word core_sm)"
  by (simp add: core_inv_def core_new_def nonzero_def)

lemma core_inv_update:
  fixes sm :: "'v::len word core_sm"
  assumes "core_inv sm" "i < length (counts sm)"
    "counts s' = (counts sm)[i := x]" "unat (alloc_begin s') \<le> length (counts sm)"
    "unat (nr_allocated s') + (if counts sm ! i = 0 then 0 else 1) =
     unat (nr_allocated sm) + (if x = 0 then 0 else 1)"
  shows "core_inv s'"
  using assms nonzero_update [OF assms(2), of x] by (simp add: core_inv_def)

lemma core_allocated_bounds:
  assumes "core_inv sm" "i < length (counts sm)"
  shows "counts sm ! i = 0 \<Longrightarrow> unat (nr_allocated sm + 1) = unat (nr_allocated sm) + 1"
    and "counts sm ! i \<noteq> 0 \<Longrightarrow> unat (nr_allocated sm - 1) + 1 = unat (nr_allocated sm)"
proof -
  assume "counts sm ! i = 0"
  with assms nonzero_le [of "counts sm"] show "unat (nr_allocated sm + 1) = unat (nr_allocated sm) + 1"
    by (intro trans [OF unat_plus_no_overflow]) (simp_all add: core_inv_def)
next
  assume "counts sm ! i \<noteq> 0"
  with assms nonzero_pos [OF assms(2)] have "0 < unat (nr_allocated sm)" by (simp add: core_inv_def)
  then show "unat (nr_allocated sm - 1) + 1 = unat (nr_allocated sm)"
    by (simp add: unat_minus_one unat_gt_0)
qed

lemma core_get_count:
  assumes "core_inv sm" "unat b < length (core_count sm)"
  shows "core_get sm b = Ok (ucast (counts sm ! unat b))"
    "unat (ucast (counts sm ! unat b) :: u32) = core_count sm ! unat b"
proof -
  have "unat (counts sm ! unat b) < 2 ^ LENGTH('a)" by (rule unat_lt2p)
  also have "\<dots> \<le> 2 ^ LENGTH(32)" using assms(1)
    by (intro power_increasing) (simp_all add: core_inv_def)
  finally show "unat (ucast (counts sm ! unat b) :: u32) = core_count sm ! unat b"
    using assms(2) by (simp add: core_count_def unat_ucast_small)
  show "core_get sm b = Ok (ucast (counts sm ! unat b))"
    using assms(2) by (simp add: core_get_def)
qed

lemma core_set_count:
  fixes sm :: "'v::len word core_sm"
  assumes inv: "core_inv sm" and b: "unat b < length (core_count sm)" and v: "unat v < 2 ^ LENGTH('v)"
  obtains s' where "core_set sm b v = (Ok (ucast (counts sm ! unat b)), s')" "core_inv s'"
    "core_count s' = (core_count sm)[unat b := unat v]" "alloc_begin s' = alloc_begin sm"
proof -
  let ?old = "counts sm ! unat b" and ?new = "ucast v :: 'v word"
  have u: "unat ?new = unat v" using v by (rule unat_ucast_small)
  have z: "?new = 0 \<longleftrightarrow> v = 0" using u by (metis unat_0 unat_eq_0)
  have old0: "(ucast ?old :: u32) = 0 \<longleftrightarrow> ?old = 0"
    using core_get_count(2) [OF inv b] b by (simp add: core_count_def unat_eq_0 flip: unat_eq_0)
  have bl: "unat b < length (counts sm)" using b by simp
  define n where "n = (if ?old = 0 \<and> v \<noteq> 0 then nr_allocated sm + 1
     else if ?old \<noteq> 0 \<and> v = 0 then nr_allocated sm - 1 else nr_allocated sm)"
  let ?s = "sm\<lparr>counts := (counts sm)[unat b := ?new], nr_allocated := n\<rparr>"
  have "core_inv ?s"
    using core_allocated_bounds [OF inv bl] z inv
    by (intro core_inv_update [OF inv bl, of _ ?new]) (auto simp: n_def core_inv_def)
  moreover have "core_set sm b v = (Ok (ucast ?old), ?s)"
    using v bl old0 by (simp add: core_set_def core_get_def n_def Let_def)
  moreover have "core_count ?s = (core_count sm)[unat b := unat v]"
    using u by (simp add: core_count_def map_update)
  ultimately show thesis using that by simp
qed

lemma core_count_cap: "i < length (core_count sm) \<Longrightarrow> core_count (sm :: 'v::len word core_sm) ! i \<le> 2 ^ LENGTH('v) - 1"
proof -
  assume "i < length (core_count sm)"
  then have "core_count sm ! i < 2 ^ LENGTH('v)"
    using unat_lt2p [of "counts sm ! i"] by (simp add: core_count_def)
  then show ?thesis by linarith
qed

interpretation core: ref_counter "core_get :: 'v::len word core_sm \<Rightarrow> u64 \<Rightarrow> (sm_error, u32) result"
    core_set core_inv core_count "2 ^ LENGTH('v) - 1"
proof unfold_locales
  fix s :: "'v word core_sm" and b :: u64
  assume "core_inv s" "unat b < length (core_count s)"
  then show "\<exists>v. core_get s b = Ok v \<and> unat v = core_count s ! unat b"
    using core_get_count by blast
next
  fix s :: "'v word core_sm" and b :: u64 and v :: u32
  assume a: "core_inv s" "unat b < length (core_count s)" "unat v \<le> 2 ^ LENGTH('v) - 1"
  then have "unat v < 2 ^ LENGTH('v)" by (metis Suc_pred' le_simps(2) zero_less_numeral zero_less_power)
  with core_set_count [OF a(1,2)] core_get_count(2) [OF a(1,2)]
  show "\<exists>old s'. core_set s b v = (Ok old, s') \<and> unat old = core_count s ! unat b \<and> core_inv s' \<and>
      core_count s' = (core_count s)[unat b := unat v]" by metis
next
  fix s :: "'v word core_sm" and i
  assume "i < length (core_count s)"
  then show "core_count s ! i \<le> 2 ^ LENGTH('v) - 1" by (rule core_count_cap)
qed


subsection \<open>Incrementing a range\<close>

text \<open>\<open>bump b e cs\<close>: one more for every index of the range.\<close>

definition bump :: "nat \<Rightarrow> nat \<Rightarrow> nat list \<Rightarrow> nat list" where
  "bump b e cs = map (\<lambda>i. cs ! i + (if b \<le> i \<and> i < e then 1 else 0)) [0..<length cs]"

lemma length_bump [simp]: "length (bump b e cs) = length cs"
  by (simp add: bump_def)

lemma nth_bump: "i < length cs \<Longrightarrow> bump b e cs ! i = cs ! i + (if b \<le> i \<and> i < e then 1 else 0)"
  by (simp add: bump_def)

lemma bump_empty: "e \<le> b \<Longrightarrow> bump b e cs = cs"
  by (intro nth_equalityI) (auto simp: nth_bump)

lemma bump_step: "b < e \<Longrightarrow> bump (Suc b) e (cs[b := Suc (cs ! b)]) = bump b e cs"
  by (intro nth_equalityI) (auto simp: nth_bump nth_list_update dest: le_antisym [OF _ leI] simp: not_le)

lemma core_inc_one_inv:
  assumes "core_inv sm" "core_inc_one b sm = (r, sm')"
  shows "core_inv sm' \<and> length (counts sm') = length (counts sm) \<and> alloc_begin sm' = alloc_begin sm"
proof (cases "unat b < length (counts sm)")
  case True
  let ?c = "counts sm ! unat b"
  have "core_inv (sm\<lparr>nr_allocated := nr_allocated sm + 1, counts := (counts sm)[unat b := 1]\<rparr>)"
    if "?c = 0"
    using core_allocated_bounds(1) [OF assms(1) True that] that assms(1)
    by (intro core_inv_update [OF assms(1) True, of _ 1]) (simp_all add: core_inv_def)
  moreover have "core_inv (sm\<lparr>counts := (counts sm)[unat b := ?c + 1]\<rparr>)" if "?c \<noteq> 0" "?c < - 1"
  proof -
    have "?c + 1 \<noteq> 0" using that(2) by (metis add_eq_0_iff2 less_irrefl)
    with that assms(1) show ?thesis
      by (intro core_inv_update [OF assms(1) True, of _ "?c + 1"]) (simp_all add: core_inv_def)
  qed
  ultimately show ?thesis using assms True
    by (auto simp: core_inc_one_def Let_def split: if_splits)
next
  case False
  with assms show ?thesis by (auto simp: core_inc_one_def)
qed

lemma core_inc_one_count:
  assumes "core_inv sm" "unat b < length (counts sm)" "counts sm ! unat b < - 1"
  obtains sm' where "core_inc_one b sm = (Ok (), sm')"
    "core_count sm' = (core_count sm)[unat b := Suc (core_count sm ! unat b)]"
proof -
  let ?c = "counts sm ! unat b"
  have "?c + 1 \<noteq> 0" using assms(3) by (metis add_eq_0_iff2 less_irrefl)
  then have "unat (?c + 1) = Suc (unat ?c)" by (metis Suc_eq_plus1 add.commute unatSuc)
  with assms that show thesis
    by (cases "?c = 0") (auto simp: core_inc_one_def Let_def core_count_def map_update)
qed

lemma core_inc_loop:
  assumes "core_inv sm" "unat e \<le> length (counts sm)"
    "\<And>i. unat b \<le> i \<Longrightarrow> i < unat e \<Longrightarrow> counts sm ! i < - 1"
  shows "\<exists>sm'. for_each core_inc_one (range64 b e) sm = (Ok (), sm') \<and> core_inv sm' \<and>
    core_count sm' = bump (unat b) (unat e) (core_count sm) \<and> alloc_begin sm' = alloc_begin sm"
  using assms
proof (induction "unat e - unat b" arbitrary: b sm)
  case 0
  then show ?case by (simp add: word_le_nat_alt bump_empty)
next
  case (Suc n)
  then have be: "b < e" by (simp add: word_less_nat_alt)
  then have ub: "unat (b + 1) = Suc (unat b)" by unat_arith
  have bl: "unat b < length (counts sm)" using be Suc.prems(2) by (simp add: word_less_nat_alt)
  obtain s1 where s1: "core_inc_one b sm = (Ok (), s1)"
    "core_count s1 = (core_count sm)[unat b := Suc (core_count sm ! unat b)]"
    using core_inc_one_count [OF Suc.prems(1) bl] Suc.prems(3) [of "unat b"] be
    by (auto simp: word_less_nat_alt)
  note inv1 = core_inc_one_inv [OF Suc.prems(1) s1(1)]
  have n1: "n = unat e - unat (b + 1)" using Suc.hyps(2) ub by linarith
  have same: "counts s1 ! i = counts sm ! i" if "unat (b + 1) \<le> i" "i < unat e" for i
    using arg_cong [OF s1(2), of "\<lambda>xs. xs ! i"] that ub Suc.prems(2) inv1
    by (simp add: core_count_def word_unat_eq_iff)
  obtain s2 where "for_each core_inc_one (range64 (b + 1) e) s1 = (Ok (), s2)" "core_inv s2"
    "core_count s2 = bump (unat (b + 1)) (unat e) (core_count s1)" "alloc_begin s2 = alloc_begin s1"
    using Suc.hyps(1) [OF n1, of s1] Suc.prems(2,3) inv1 same ub by auto
  then show ?case
    using be ub inv1 s1 bump_step [of "unat b" "unat e" "core_count sm"]
    by (simp add: range64_Cons word_less_nat_alt)
qed

text \<open>The first saturated counter stops the loop; what was incremented before it stays.\<close>

lemma core_inc_loop_saturated:
  assumes "core_inv sm" "unat e \<le> length (counts sm)" "b \<le> k" "k < e"
    "\<And>i. unat b \<le> i \<Longrightarrow> i < unat k \<Longrightarrow> counts sm ! i < - 1" "counts sm ! unat k = - 1"
  obtains sm' where "for_each core_inc_one (range64 b e) sm = (Err EnsureFailed, sm')" "core_inv sm'"
    "core_count sm' = bump (unat b) (unat k) (core_count sm)"
proof -
  have ke: "unat b \<le> unat k" "unat k < unat e" using assms(3,4) by (simp_all add: word_le_nat_alt word_less_nat_alt)
  have split: "range64 b e = range64 b k @ k # range64 (k + 1) e"
    using assms(3,4) range64_append [of b k e] by (simp add: range64_Cons)
  obtain s1 where s1: "for_each core_inc_one (range64 b k) sm = (Ok (), s1)" "core_inv s1"
    "core_count s1 = bump (unat b) (unat k) (core_count sm)"
    using core_inc_loop [OF assms(1), of k b] assms(2,5) ke by auto
  have l: "length (counts s1) = length (counts sm)" using arg_cong [OF s1(3), of length] by simp
  have "counts s1 ! unat k = - 1"
    using arg_cong [OF s1(3), of "\<lambda>xs. xs ! unat k"] ke assms(2,6) l
    by (simp add: nth_bump core_count_def word_unat_eq_iff)
  then have "core_inc_one k s1 = (Err EnsureFailed, s1)"
    using ke assms(2) l by (simp add: core_inc_one_def Let_def)
  with s1 that show thesis by (simp add: split for_each_append)
qed


subsection \<open>Allocation\<close>

lemma find_first_total:
  "(\<And>b. b \<in> set bs \<Longrightarrow> free b = Ok (P b)) \<Longrightarrow> find_first free bs = Ok (find P bs)"
  by (induction bs) simp_all

lemma core_find_free_eq:
  assumes "unat e \<le> length (counts sm)"
  shows "core_find_free sm b e = Ok (find (\<lambda>b. counts sm ! unat b = 0) (range64 b e))"
  unfolding core_find_free_def
proof (rule find_first_total)
  fix x assume "x \<in> set (range64 b e)"
  with assms have "unat x < length (counts sm)" by (simp add: set_range64 word_less_nat_alt)
  then show "(if length (counts sm) \<le> unat x then Panic else Ok (counts sm ! unat x = 0)) =
      Ok (counts sm ! unat x = 0)" by simp
qed

text \<open>Allocation takes the first free block from \<open>alloc_begin\<close> on, then from the start.\<close>

definition alloc_order :: "u64 \<Rightarrow> nat \<Rightarrow> u64 list" where
  "alloc_order begin n = range64 begin (word_of_nat n) @ range64 0 begin"

lemma set_alloc_order:
  "unat begin \<le> n \<Longrightarrow> n < 2 ^ 64 \<Longrightarrow> set (alloc_order begin n) = {b. unat b < n}"
  by (auto simp: alloc_order_def set_range64 word_le_nat_alt word_less_nat_alt unat_of_nat64)

lemma core_alloc_eq:
  assumes "core_inv sm"
  shows "core_alloc sm =
    (case find (\<lambda>b. counts sm ! unat b = 0) (alloc_order (alloc_begin sm) (length (counts sm))) of
       None \<Rightarrow> (Ok None, sm)
     | Some b \<Rightarrow> (Ok (Some b), sm\<lparr>counts := (counts sm)[unat b := 1],
                  nr_allocated := nr_allocated sm + 1, alloc_begin := b + 1\<rparr>))"
proof -
  let ?P = "\<lambda>b. counts sm ! unat b = 0" and ?n = "word_of_nat (length (counts sm)) :: u64"
  have n: "unat ?n = length (counts sm)" "length (counts sm) < 2 ^ 64"
    using assms by (simp_all add: core_inv_def unat_of_nat64)
  have in_range: "unat b < length (counts sm)"
    if "find ?P (alloc_order (alloc_begin sm) (length (counts sm))) = Some b" for b
    using that assms n(2) set_alloc_order [of "alloc_begin sm" "length (counts sm)"]
    by (auto simp: find_Some_iff core_inv_def dest: nth_mem)
  show ?thesis
    using in_range n assms
    by (auto simp: core_alloc_def core_find_free_eq alloc_order_def find_append core_inv_def
        split: option.splits)
qed

lemma core_alloc_None:
  assumes "core_inv sm"
  shows "fst (core_alloc sm) = Ok None \<longleftrightarrow> (\<forall>i < length (counts sm). core_count sm ! i \<noteq> 0)"
proof -
  have "length (counts sm) < 2 ^ 64" using assms by (simp add: core_inv_def)
  then have idx: "(\<forall>b \<in> {b :: u64. unat b < length (counts sm)}. counts sm ! unat b \<noteq> 0) \<longleftrightarrow>
      (\<forall>i < length (counts sm). counts sm ! i \<noteq> 0)"
    by (auto, metis less_trans unat_of_nat64)
  have "fst (core_alloc sm) = Ok None \<longleftrightarrow>
      (\<forall>b \<in> set (alloc_order (alloc_begin sm) (length (counts sm))). counts sm ! unat b \<noteq> 0)"
    by (auto simp: core_alloc_eq [OF assms] find_None_iff dest: find_SomeD split: option.splits)
  also have "set (alloc_order (alloc_begin sm) (length (counts sm))) = {b. unat b < length (counts sm)}"
    using assms by (intro set_alloc_order) (simp_all add: core_inv_def)
  finally show ?thesis using idx by (simp add: core_count_def unat_eq_0)
qed

lemma core_alloc_Some:
  assumes "core_inv sm" "core_alloc sm = (Ok (Some b), sm')"
  shows "unat b < length (core_count sm)" "core_count sm ! unat b = 0" "core_inv sm'"
    "core_count sm' = (core_count sm)[unat b := 1]"
    "unat (nr_allocated sm') = unat (nr_allocated sm) + 1"
proof -
  let ?order = "alloc_order (alloc_begin sm) (length (counts sm))"
  from assms have f: "find (\<lambda>b. counts sm ! unat b = 0) ?order = Some b"
    and sm': "sm' = sm\<lparr>counts := (counts sm)[unat b := 1],
                  nr_allocated := nr_allocated sm + 1, alloc_begin := b + 1\<rparr>"
    by (auto simp: core_alloc_eq split: option.splits)
  from f have m: "b \<in> set ?order" and free: "counts sm ! unat b = 0"
    by (auto simp: find_Some_iff in_set_conv_nth)
  have l: "length (counts sm) < 2 ^ 63" using assms(1) by (simp add: core_inv_def)
  from m l assms(1) have b: "unat b < length (counts sm)"
    using set_alloc_order [of "alloc_begin sm" "length (counts sm)"] by (auto simp: core_inv_def)
  note bounds = core_allocated_bounds(1) [OF assms(1) b free]
  have "unat (b + 1) = unat b + 1"
    using b l by (intro trans [OF unat_plus_no_overflow]) simp_all
  then show "core_inv sm'"
    using b free bounds unfolding sm' by (intro core_inv_update [OF assms(1) b, of _ 1]) simp_all
  show "unat b < length (core_count sm)" "core_count sm ! unat b = 0"
    "core_count sm' = (core_count sm)[unat b := 1]"
    "unat (nr_allocated sm') = unat (nr_allocated sm) + 1"
    using b free bounds by (simp_all add: core_count_def sm' map_update)
qed

section \<open>Properties\<close>

text \<open>A call of the interface, and a sequence of calls; the results are dropped.\<close>

datatype sm_call = CGet u64 | CSet u64 u32 | CInc u64 u64 | CDec u64 | CAlloc

fun core_call :: "'v::len word core_sm \<Rightarrow> sm_call \<Rightarrow> (sm_error, unit) result \<times> 'v word core_sm" where
  "core_call sm (CGet b) = (mapr (\<lambda>_. ()) (core_get sm b), sm)"
| "core_call sm (CSet b v) = map_prod (mapr (\<lambda>_. ())) id (core_set sm b v)"
| "core_call sm (CInc b n) = core_inc sm b n"
| "core_call sm (CDec b) = map_prod (mapr (\<lambda>_. ())) id (core_dec sm b)"
| "core_call sm CAlloc = map_prod (mapr (\<lambda>_. ())) id (core_alloc sm)"

fun core_calls :: "'v::len word core_sm \<Rightarrow> sm_call list \<Rightarrow> (sm_error, unit) result list \<times> 'v word core_sm" where
  "core_calls sm [] = ([], sm)"
| "core_calls sm (c # cs) =
    (let (r, sm) = core_call sm c; (rs, sm) = core_calls sm cs in (r # rs, sm))"

lemma core_set_cases:
  fixes sm :: "'v::len word core_sm"
  assumes inv: "core_inv sm" and r: "core_set sm b v = (r, sm')"
  shows "core_inv sm' \<and> r \<noteq> Panic"
proof (cases "unat b < length (counts sm) \<and> unat v < 2 ^ LENGTH('v)")
  case True
  then show ?thesis using core_set_count [OF inv, of b v] r by auto
next
  case False
  then show ?thesis using r inv by (auto simp: core_set_def core_get_def split: if_splits)
qed

lemma core_inc_panic_free:
  fixes sm :: "'v::len word core_sm"
  assumes "core_inv sm" "unat e \<le> length (counts sm)"
  shows "core_inv (snd (for_each core_inc_one (range64 b e) sm)) \<and>
    fst (for_each core_inc_one (range64 b e) sm) \<noteq> Panic"
  using assms
proof (induction "unat e - unat b" arbitrary: b sm)
  case 0
  then show ?case by (simp add: word_le_nat_alt)
next
  case (Suc n)
  then have be: "b < e" by (simp add: word_less_nat_alt)
  then have ub: "unat (b + 1) = Suc (unat b)" by unat_arith
  have bl: "unat b < length (counts sm)" using be Suc.prems(2) by (simp add: word_less_nat_alt)
  obtain r s1 where s1: "core_inc_one b sm = (r, s1)" by fastforce
  note inv1 = core_inc_one_inv [OF Suc.prems(1) s1]
  have "r \<noteq> Panic" using s1 bl by (auto simp: core_inc_one_def Let_def split: if_splits)
  moreover have "n = unat e - unat (b + 1)" using Suc.hyps(2) ub by linarith
  ultimately show ?case
    using Suc.hyps(1) [of "b + 1" s1] Suc.prems(2) inv1 be s1
    by (cases r) (simp_all add: range64_Cons)
qed

lemma core_call_inv:
  fixes sm :: "'v::len word core_sm"
  assumes inv: "core_inv sm" and r: "core_call sm c = (r, sm')"
  shows "core_inv sm' \<and> r \<noteq> Panic"
proof (cases c)
  case (CGet b)
  then show ?thesis using r inv by (auto simp: core_get_def mapr_def split: if_splits)
next
  case (CSet b v)
  then show ?thesis using r core_set_cases [OF inv, of b v]
    by (cases "core_set sm b v"; cases "fst (core_set sm b v)") (auto simp: mapr_def)
next
  case (CInc b n)
  show ?thesis
  proof (cases "length (counts sm) < unat (b + n)")
    case False
    with CInc r core_inc_panic_free [OF inv, of "b + n" b] show ?thesis by (simp add: core_inc_def)
  qed (use CInc r inv in \<open>auto simp: core_inc_def\<close>)
next
  case (CDec b)
  show ?thesis
  proof (cases "unat b < length (counts sm)")
    case True
    then have b: "unat b < length (core_count sm)" by simp
    show ?thesis
    proof (cases "core_count sm ! unat b = 0")
      case True
      then have "core_dec sm b = (Err EnsureFailed, sm)"
        unfolding core_dec_def by (rule core.dec_zero [OF inv b])
      with CDec r inv show ?thesis by (auto simp: mapr_def)
    next
      case False
      then obtain s' where "core_dec sm b = (Ok (core_count sm ! unat b = 1), s')" "core_inv s'"
        using core.dec_positive [OF inv b] unfolding core_dec_def by blast
      with CDec r show ?thesis by (auto simp: mapr_def)
    qed
  next
    case False
    with CDec r inv show ?thesis
      by (auto simp: core_dec_def dec_default_def core_get_def mapr_def)
  qed
next
  case CAlloc
  obtain r1 where a: "core_alloc sm = (r1, sm')" "r = mapr (\<lambda>_. ()) r1"
    using CAlloc r by (cases "core_alloc sm") auto
  then show ?thesis
    using inv core_alloc_Some(3) [OF inv] unfolding core_alloc_eq [OF inv]
    by (auto simp: mapr_def split: option.splits)
qed



text \<open>C26: \<open>CoreSpaceMap::inc\<close> on a range that does not wrap: out of bounds is refused with
  nothing changed; otherwise every count of the range goes up by one, or, if some count of the range is
  at the largest value of the counter type, the call fails having incremented exactly the
  blocks before the first such count.\<close>

theorem core_inc_spec:
  fixes sm :: "'v::len word core_sm"
  assumes inv: "core_inv sm" and len: "unat begin + unat len < 2 ^ 64"
  shows "let e = unat begin + unat len; (r, sm') = core_inc sm begin len in core_inv sm' \<and>
    (if length (counts sm) < e then r = Err BlockOutOfBounds \<and> sm' = sm
     else case find (\<lambda>i. core_count sm ! i = 2 ^ LENGTH('v) - 1) [unat begin..<e] of
         None \<Rightarrow> r = Ok () \<and> core_count sm' = bump (unat begin) e (core_count sm)
       | Some k \<Rightarrow> r = Err EnsureFailed \<and> core_count sm' = bump (unat begin) k (core_count sm))"
proof -
  define e where "e = begin + len"
  have e: "unat e = unat begin + unat len" using len unfolding e_def by (intro unat_plus_no_overflow) simp
  have sat: "counts sm ! i = - 1 \<longleftrightarrow> core_count sm ! i = 2 ^ LENGTH('v) - 1"
    "counts sm ! i < - 1 \<longleftrightarrow> core_count sm ! i \<noteq> 2 ^ LENGTH('v) - 1" if "i < length (counts sm)" for i
    using that by (simp_all add: core_count_def word_unat_eq_iff unsigned_minus_1_eq_mask
        mask_eq_exp_minus_1 word_order.not_eq_extremum [symmetric])
  show ?thesis
  proof (cases "length (counts sm) < unat e")
    case True
    then show ?thesis using inv by (simp add: core_inc_def e flip: e_def)
  next
    case False
    then have le: "unat e \<le> length (counts sm)" by simp
    show ?thesis
    proof (cases "find (\<lambda>i. core_count sm ! i = 2 ^ LENGTH('v) - 1) [unat begin..<unat e]")
      case None
      then have low: "counts sm ! i < - 1" if "unat begin \<le> i" "i < unat e" for i
        using that sat le by (auto simp: find_None_iff)
      obtain sm' where "for_each core_inc_one (range64 begin e) sm = (Ok (), sm')" "core_inv sm'"
        "core_count sm' = bump (unat begin) (unat e) (core_count sm)"
        using core_inc_loop [OF inv le, of "begin"] low by blast
      with False None show ?thesis by (auto simp: core_inc_def e simp flip: e_def)
    next
      case (Some k)
      then obtain j where j: "j < unat e - unat begin" "k = unat begin + j"
        "core_count sm ! k = 2 ^ LENGTH('v) - 1"
        "\<And>i. i < j \<Longrightarrow> core_count sm ! (unat begin + i) \<noteq> 2 ^ LENGTH('v) - 1"
        by (auto simp: find_Some_iff)
      define kw :: u64 where "kw = word_of_nat k"
      have k: "unat begin \<le> k" "k < unat e" using j by simp_all
      then have kw: "unat kw = k" using unat_lt2p [of e] unfolding kw_def by (intro unat_of_nat64) simp
      have below: "counts sm ! i < - 1" if "unat begin \<le> i" "i < unat kw" for i
        using that j(4) [of "i - unat begin"] sat(2) [of i] k le kw j(2) by auto
      have ks: "begin \<le> kw" "kw < e" "counts sm ! unat kw = - 1"
        using k kw j(3) sat(1) [of k] le by (simp_all add: word_le_nat_alt word_less_nat_alt)
      obtain sm' where "for_each core_inc_one (range64 begin e) sm = (Err EnsureFailed, sm')" "core_inv sm'"
        "core_count sm' = bump (unat begin) (unat kw) (core_count sm)"
        by (rule core_inc_loop_saturated [OF inv le ks(1,2) below ks(3)])
      with False Some kw show ?thesis by (auto simp: core_inc_def e simp flip: e_def)
    qed
  qed
qed


theorem core_inc_spec_witness:
  "core_inv (\<lparr>nr_allocated = 2, alloc_begin = 0, counts = [0, 255, 7]\<rparr> :: u8 core_sm) \<and>
   (unat (0 :: u64) + unat (3 :: u64) < 2 ^ 64) \<and>
   fst (core_inc (\<lparr>nr_allocated = 2, alloc_begin = 0, counts = [0, 255, 7]\<rparr> :: u8 core_sm) 0 3) = Err EnsureFailed"
proof -
  let ?s = "\<lparr>nr_allocated = 2, alloc_begin = 0, counts = [0, 255, 7]\<rparr> :: u8 core_sm"
  have i: "core_inv ?s" by (simp add: core_inv_def nonzero_def)
  have "find (\<lambda>i. core_count ?s ! i = 2 ^ LENGTH(8) - 1) [0..<3] = Some 1" by code_simp
  with core_inc_spec [OF i, of 0 3] i show ?thesis by (auto simp: Let_def split: prod.splits)
qed



end
