(* ===== verification/Restricted_Space_Map.thy ===== *)
theory Restricted_Space_Map
  imports Space_Map
begin

text \<open>
  The space maps of \<open>src/pdata/space_map/base.rs\<close> that keep their counts in bit sets: one bit
  per block (\<open>RestrictedSpaceMap\<close>), two bits per block of which at most one is set
  (\<open>RestrictedTwoSpaceMap\<close>), and the map that keeps nothing.
\<close>

section \<open>The bit set crate\<close>

text \<open>
  The operations of \<open>fixedbitset::FixedBitSet\<close> the tools use. \<open>insert\<close>, \<open>set\<close> and \<open>toggle\<close> panic on an
  index outside the set, which is \<open>None\<close> here; \<open>contains\<close> is false there.
\<close>

record 'b bitset =
  bs_with_capacity :: "nat \<Rightarrow> 'b"
  bs_len :: "'b \<Rightarrow> nat"
  bs_contains :: "'b \<Rightarrow> nat \<Rightarrow> bool"
  bs_insert :: "'b \<Rightarrow> nat \<Rightarrow> 'b option"
  bs_set :: "'b \<Rightarrow> nat \<Rightarrow> bool \<Rightarrow> 'b option"
  bs_toggle :: "'b \<Rightarrow> nat \<Rightarrow> 'b option"
  bs_ones :: "'b \<Rightarrow> nat list"

definition bits :: "'b bitset \<Rightarrow> 'b \<Rightarrow> bool list" where
  "bits bs s = map (bs_contains bs s) [0..<bs_len bs s]"

text \<open>The documented behaviour the code relies on.\<close>

definition bitset_laws :: "'b bitset \<Rightarrow> bool" where
  "bitset_laws bs \<longleftrightarrow>
    (\<forall>n. bits bs (bs_with_capacity bs n) = replicate n False) \<and>
    (\<forall>s i. bs_contains bs s i \<longrightarrow> i < bs_len bs s) \<and>
    (\<forall>s i v. if i < bs_len bs s then \<exists>t. bs_set bs s i v = Some t \<and> bits bs t = (bits bs s)[i := v]
            else bs_set bs s i v = None) \<and>
    (\<forall>s i. if i < bs_len bs s then \<exists>t. bs_insert bs s i = Some t \<and> bits bs t = (bits bs s)[i := True]
            else bs_insert bs s i = None) \<and>
    (\<forall>s i. if i < bs_len bs s then \<exists>t. bs_toggle bs s i = Some t \<and> bits bs t = (bits bs s)[i := \<not> bits bs s ! i]
            else bs_toggle bs s i = None) \<and>
    (\<forall>s. bs_ones bs s = filter (bs_contains bs s) [0..<bs_len bs s])"

text \<open>A concrete bit set, for the witnesses.\<close>

definition list_bitset :: "bool list bitset" where
  "list_bitset = \<lparr>bs_with_capacity = (\<lambda>n. replicate n False), bs_len = length,
     bs_contains = (\<lambda>s i. i < length s \<and> s ! i),
     bs_insert = (\<lambda>s i. if i < length s then Some (s[i := True]) else None),
     bs_set = (\<lambda>s i v. if i < length s then Some (s[i := v]) else None),
     bs_toggle = (\<lambda>s i. if i < length s then Some (s[i := \<not> s ! i]) else None),
     bs_ones = (\<lambda>s. filter (\<lambda>i. s ! i) [0..<length s])\<rparr>"

lemma bits_list_bitset: "bits list_bitset s = s"
  by (intro nth_equalityI) (simp_all add: bits_def list_bitset_def)

lemma bitset_laws_list: "bitset_laws list_bitset"
  by (simp add: bitset_laws_def bits_list_bitset) (auto simp: list_bitset_def intro: filter_cong)

lemma length_bits [simp]: "length (bits bs s) = bs_len bs s"
  by (simp add: bits_def)

lemma bits_nth: "i < bs_len bs s \<Longrightarrow> bits bs s ! i = bs_contains bs s i"
  by (simp add: bits_def)

lemma bitset_contains:
  "bitset_laws bs \<Longrightarrow> bs_contains bs s i \<longleftrightarrow> i < bs_len bs s \<and> bits bs s ! i"
  by (auto simp: bitset_laws_def bits_nth)

lemma bitset_set:
  assumes "bitset_laws bs" "i < bs_len bs s"
  obtains t where "bs_set bs s i v = Some t" "bits bs t = (bits bs s)[i := v]" "bs_len bs t = bs_len bs s"
proof -
  from assms have "\<exists>t. bs_set bs s i v = Some t \<and> bits bs t = (bits bs s)[i := v]"
    by (auto simp: bitset_laws_def)
  then obtain t where t: "bs_set bs s i v = Some t" "bits bs t = (bits bs s)[i := v]" by blast
  moreover from arg_cong [OF t(2), of length] have "bs_len bs t = bs_len bs s" by simp
  ultimately show thesis using that by blast
qed

lemma bitset_insert:
  assumes "bitset_laws bs" "i < bs_len bs s"
  obtains t where "bs_insert bs s i = Some t" "bits bs t = (bits bs s)[i := True]"
    "bs_len bs t = bs_len bs s"
proof -
  from assms have "\<exists>t. bs_insert bs s i = Some t \<and> bits bs t = (bits bs s)[i := True]"
    by (auto simp: bitset_laws_def)
  then obtain t where t: "bs_insert bs s i = Some t" "bits bs t = (bits bs s)[i := True]" by blast
  moreover from arg_cong [OF t(2), of length] have "bs_len bs t = bs_len bs s" by simp
  ultimately show thesis using that by blast
qed

lemma bitset_toggle:
  assumes "bitset_laws bs" "i < bs_len bs s"
  obtains t where "bs_toggle bs s i = Some t" "bits bs t = (bits bs s)[i := \<not> bits bs s ! i]"
    "bs_len bs t = bs_len bs s"
proof -
  from assms have "\<exists>t. bs_toggle bs s i = Some t \<and> bits bs t = (bits bs s)[i := \<not> bits bs s ! i]"
    by (auto simp: bitset_laws_def)
  then obtain t where t: "bs_toggle bs s i = Some t" "bits bs t = (bits bs s)[i := \<not> bits bs s ! i]" by blast
  moreover from arg_cong [OF t(2), of length] have "bs_len bs t = bs_len bs s" by simp
  ultimately show thesis using that by blast
qed

lemma bitset_new: "bitset_laws bs \<Longrightarrow> bits bs (bs_with_capacity bs n) = replicate n False"
  by (simp add: bitset_laws_def)

lemma bitset_new_len: "bitset_laws bs \<Longrightarrow> bs_len bs (bs_with_capacity bs n) = n"
  using arg_cong [OF bitset_new [of bs n], of length] by simp

lemma bitset_new_contains: "bitset_laws bs \<Longrightarrow> \<not> bs_contains bs (bs_with_capacity bs n) i"
  by (simp add: bitset_contains bitset_new bitset_new_len)

lemma bitset_ones: "bitset_laws bs \<Longrightarrow> set (bs_ones bs s) = {i. bs_contains bs s i}"
  by (auto simp: bitset_laws_def)

lemma bitset_insert_None: "bitset_laws bs \<Longrightarrow> bs_len bs s \<le> i \<Longrightarrow> bs_insert bs s i = None"
  by (auto simp: bitset_laws_def split: if_splits)

section \<open>RestrictedSpaceMap\<close>

record 'b rsm =
  r_nr_allocated :: u64
  r_alloc_begin :: u64
  r_counts :: 'b

definition r_new :: "'b bitset \<Rightarrow> u64 \<Rightarrow> 'b rsm" where
  "r_new bs nr_entries = \<lparr>r_nr_allocated = 0, r_alloc_begin = 0,
     r_counts = bs_with_capacity bs (unat nr_entries)\<rparr>"

definition r_check_index :: "'b bitset \<Rightarrow> 'b rsm \<Rightarrow> u64 \<Rightarrow> (sm_error, unit) result" where
  "r_check_index bs sm b =
    (if bs_len bs (r_counts sm) \<le> unat b then Err BlockOutOfBounds else Ok ())"

definition r_get :: "'b bitset \<Rightarrow> 'b rsm \<Rightarrow> u64 \<Rightarrow> (sm_error, u32) result" where
  "r_get bs sm b = bindr (r_check_index bs sm b) (\<lambda>_.
     if bs_contains bs (r_counts sm) (unat b) then Ok 1 else Ok 0)"

definition r_set :: "'b bitset \<Rightarrow> 'b rsm \<Rightarrow> u64 \<Rightarrow> u32 \<Rightarrow> ('b rsm, u32) sm_op" where
  "r_set bs sm b v = binds (r_check_index bs sm b, sm) (\<lambda>_ sm.
    let old = bs_contains bs (r_counts sm) (unat b) in
    if 0 < v then
      let sm = (if \<not> old then sm\<lparr>r_nr_allocated := r_nr_allocated sm + 1\<rparr> else sm) in
      case bs_insert bs (r_counts sm) (unat b) of None \<Rightarrow> (Panic, sm)
      | Some c \<Rightarrow> (Ok (of_bool old), sm\<lparr>r_counts := c\<rparr>)
    else
      let sm = (if old then sm\<lparr>r_nr_allocated := r_nr_allocated sm - 1\<rparr> else sm) in
      case bs_set bs (r_counts sm) (unat b) False of None \<Rightarrow> (Panic, sm)
      | Some c \<Rightarrow> (Ok (of_bool old), sm\<lparr>r_counts := c\<rparr>))"

definition r_inc_one :: "'b bitset \<Rightarrow> u64 \<Rightarrow> 'b rsm \<Rightarrow> ('b rsm, unit) sm_op" where
  "r_inc_one bs b sm =
    (if \<not> bs_contains bs (r_counts sm) (unat b) then
       let sm = sm\<lparr>r_nr_allocated := r_nr_allocated sm + 1\<rparr> in
       case bs_insert bs (r_counts sm) (unat b) of None \<Rightarrow> (Panic, sm)
       | Some c \<Rightarrow> (Ok (), sm\<lparr>r_counts := c\<rparr>)
     else (Ok (), sm))"

definition r_inc :: "'b bitset \<Rightarrow> 'b rsm \<Rightarrow> u64 \<Rightarrow> u64 \<Rightarrow> ('b rsm, unit) sm_op" where
  "r_inc bs sm begin len = binds (r_check_index bs sm (begin + len - 1), sm) (\<lambda>_.
     for_each (r_inc_one bs) (range64 begin (begin + len)))"

definition r_find_free :: "'b bitset \<Rightarrow> 'b rsm \<Rightarrow> u64 \<Rightarrow> u64 \<Rightarrow> (sm_error, u64 option) result" where
  "r_find_free bs sm begin e = bindr (r_check_index bs sm (e - 1)) (\<lambda>_.
     find_first (\<lambda>b. Ok (\<not> bs_contains bs (r_counts sm) (unat b))) (range64 begin e))"

definition r_alloc :: "'b bitset \<Rightarrow> 'b rsm \<Rightarrow> ('b rsm, u64 option) sm_op" where
  "r_alloc bs sm =
    binds (r_find_free bs sm (r_alloc_begin sm) (word_of_nat (bs_len bs (r_counts sm))), sm) (\<lambda>b sm.
    binds (if b = None then r_find_free bs sm 0 (r_alloc_begin sm) else Ok b, sm) (\<lambda>b sm.
    case b of None \<Rightarrow> (Ok None, sm)
    | Some b \<Rightarrow> (case bs_insert bs (r_counts sm) (unat b) of None \<Rightarrow> (Panic, sm)
        | Some c \<Rightarrow> (Ok (Some b), sm\<lparr>r_counts := c, r_nr_allocated := r_nr_allocated sm + 1,
                          r_alloc_begin := b + 1\<rparr>))))"

definition r_dec :: "'b bitset \<Rightarrow> 'b rsm \<Rightarrow> u64 \<Rightarrow> ('b rsm, bool) sm_op" where
  "r_dec bs = dec_default (r_get bs) (r_set bs)"

definition ones :: "bool list \<Rightarrow> nat" where
  "ones xs = length (filter (\<lambda>x. x) xs)"

lemma ones_le: "ones xs \<le> length xs"
  by (simp add: ones_def)

lemma ones_update:
  "i < length xs \<Longrightarrow> ones (xs[i := x]) + of_bool (xs ! i) = ones xs + of_bool x"
proof (induction xs arbitrary: i)
  case (Cons a xs)
  then show ?case by (cases i) (auto simp: ones_def split: if_splits)
qed simp

definition r_inv :: "'b bitset \<Rightarrow> 'b rsm \<Rightarrow> bool" where
  "r_inv bs sm \<longleftrightarrow> bitset_laws bs \<and> bs_len bs (r_counts sm) < 2 ^ 63 \<and>
    unat (r_nr_allocated sm) = ones (bits bs (r_counts sm)) \<and>
    unat (r_alloc_begin sm) \<le> bs_len bs (r_counts sm)"

definition r_count :: "'b bitset \<Rightarrow> 'b rsm \<Rightarrow> nat list" where
  "r_count bs sm = map of_bool (bits bs (r_counts sm))"

lemma length_r_count [simp]: "length (r_count bs sm) = bs_len bs (r_counts sm)"
  by (simp add: r_count_def)

lemma r_inv_new: "bitset_laws bs \<Longrightarrow> unat n < 2 ^ 63 \<Longrightarrow> r_inv bs (r_new bs n)"
proof -
  assume a: "bitset_laws bs" "unat n < 2 ^ 63"
  then have b: "bits bs (bs_with_capacity bs (unat n)) = replicate (unat n) False"
    by (simp add: bitset_laws_def)
  from arg_cong [OF b, of length] have "bs_len bs (bs_with_capacity bs (unat n)) = unat n" by simp
  with a b show ?thesis by (simp add: r_inv_def r_new_def ones_def)
qed

text \<open>One bit changes: what happens to the number of allocated blocks.\<close>

lemma r_inv_update:
  assumes "r_inv bs sm" "i < bs_len bs (r_counts sm)" "bits bs c = (bits bs (r_counts sm))[i := x]"
    "unat n + of_bool (bits bs (r_counts sm) ! i) = unat (r_nr_allocated sm) + of_bool x"
    "unat a \<le> bs_len bs (r_counts sm)"
  shows "r_inv bs \<lparr>r_nr_allocated = n, r_alloc_begin = a, r_counts = c\<rparr>"
proof -
  have l: "bs_len bs c = bs_len bs (r_counts sm)"
    using arg_cong [OF assms(3), of length] by simp
  have "ones (bits bs c) + of_bool (bits bs (r_counts sm) ! i) = ones (bits bs (r_counts sm)) + of_bool x"
    unfolding assms(3) using assms(2) by (intro ones_update) simp
  with assms l show ?thesis by (auto simp: r_inv_def)
qed

lemma r_allocated_bounds:
  assumes "r_inv bs sm" "i < bs_len bs (r_counts sm)"
  shows "\<not> bits bs (r_counts sm) ! i \<Longrightarrow> unat (r_nr_allocated sm + 1) = unat (r_nr_allocated sm) + 1"
    and "bits bs (r_counts sm) ! i \<Longrightarrow> unat (r_nr_allocated sm - 1) + 1 = unat (r_nr_allocated sm)"
proof -
  show "unat (r_nr_allocated sm + 1) = unat (r_nr_allocated sm) + 1"
    using assms ones_le [of "bits bs (r_counts sm)"]
    by (intro trans [OF unat_plus_no_overflow]) (simp_all add: r_inv_def)
next
  assume "bits bs (r_counts sm) ! i"
  then have "0 < unat (r_nr_allocated sm)"
    using assms ones_update [of i "bits bs (r_counts sm)" False] by (simp add: r_inv_def)
  then show "unat (r_nr_allocated sm - 1) + 1 = unat (r_nr_allocated sm)"
    by (simp add: unat_minus_one unat_gt_0)
qed

lemma r_set_count:
  assumes inv: "r_inv bs sm" and b: "unat b < bs_len bs (r_counts sm)"
  obtains sm' where "r_set bs sm b v = (Ok (of_bool (bits bs (r_counts sm) ! unat b)), sm')"
    "r_inv bs sm'" "bits bs (r_counts sm') = (bits bs (r_counts sm))[unat b := 0 < v]"
    "r_alloc_begin sm' = r_alloc_begin sm"
proof -
  have laws: "bitset_laws bs" and ab: "unat (r_alloc_begin sm) \<le> bs_len bs (r_counts sm)"
    using inv by (simp_all add: r_inv_def)
  define old where "old = bits bs (r_counts sm) ! unat b"
  have c: "bs_contains bs (r_counts sm) (unat b) = old"
    using b by (simp add: old_def bits_nth)
  define n where "n = (if 0 < v \<and> \<not> old then r_nr_allocated sm + 1
      else if \<not> 0 < v \<and> old then r_nr_allocated sm - 1 else r_nr_allocated sm)"
  obtain ci cs where ci: "bs_insert bs (r_counts sm) (unat b) = Some ci"
    "bits bs ci = (bits bs (r_counts sm))[unat b := True]"
    and cs: "bs_set bs (r_counts sm) (unat b) False = Some cs"
    "bits bs cs = (bits bs (r_counts sm))[unat b := False]"
    using bitset_insert [OF laws b] bitset_set [OF laws b] by metis
  define c' where "c' = (if 0 < v then ci else cs)"
  let ?s = "\<lparr>r_nr_allocated = n, r_alloc_begin = r_alloc_begin sm, r_counts = c'\<rparr>"
  have bits: "bits bs c' = (bits bs (r_counts sm))[unat b := 0 < v]"
    using ci cs by (simp add: c'_def)
  moreover have "r_inv bs ?s"
    using r_allocated_bounds [OF inv b] ab bits
    by (intro r_inv_update [OF inv b]) (auto simp: n_def old_def)
  moreover have "r_set bs sm b v = (Ok (of_bool old), ?s)"
    using b c ci cs by (cases sm) (auto simp: r_set_def r_check_index_def Let_def n_def c'_def)
  ultimately show thesis using that [of ?s] by (simp add: old_def)
qed

text \<open>The counts saturate at one, so the counter laws hold with that bound.\<close>

interpretation restricted: ref_counter "r_get bs" "r_set bs" "r_inv bs" "r_count bs" 1
  for bs :: "'b bitset"
proof unfold_locales
  fix s :: "'b rsm" and b :: u64
  assume "r_inv bs s" "unat b < length (r_count bs s)"
  then show "\<exists>v. r_get bs s b = Ok v \<and> unat v = r_count bs s ! unat b"
    by (auto simp: r_get_def r_check_index_def r_count_def bits_nth)
next
  fix s :: "'b rsm" and b :: u64 and v :: u32
  assume a: "r_inv bs s" "unat b < length (r_count bs s)" "unat v \<le> 1"
  then have "of_bool (0 < v) = unat v" by (cases "v = 0") (auto simp: word_greater_zero_iff unat_gt_0
      unat_eq_0 simp flip: unat_gt_0)
  moreover obtain sm' where "r_set bs s b v = (Ok (of_bool (bits bs (r_counts s) ! unat b)), sm')"
    "r_inv bs sm'" "bits bs (r_counts sm') = (bits bs (r_counts s))[unat b := 0 < v]"
    using r_set_count [OF a(1), of b v] a(2) by auto
  ultimately show "\<exists>old s'. r_set bs s b v = (Ok old, s') \<and> unat old = r_count bs s ! unat b \<and>
      r_inv bs s' \<and> r_count bs s' = (r_count bs s)[unat b := unat v]"
    using a(2) by (auto simp: r_count_def map_update)
next
  fix s :: "'b rsm" and i
  assume "i < length (r_count bs s)"
  then show "r_count bs s ! i \<le> 1" by (simp add: r_count_def)
qed

subsection \<open>Ranges and allocation\<close>

lemma r_inc_one_count:
  assumes inv: "r_inv bs sm" and b: "unat b < bs_len bs (r_counts sm)"
  obtains sm' where "r_inc_one bs b sm = (Ok (), sm')" "r_inv bs sm'"
    "bits bs (r_counts sm') = (bits bs (r_counts sm))[unat b := True]"
    "r_alloc_begin sm' = r_alloc_begin sm"
proof (cases "bits bs (r_counts sm) ! unat b")
  case True
  then have "(bits bs (r_counts sm))[unat b := True] = bits bs (r_counts sm)"
    by (metis list_update_id)
  with True assms that [of sm] show thesis by (simp add: r_inc_one_def bits_nth)
next
  case False
  have laws: "bitset_laws bs" using inv by (simp add: r_inv_def)
  obtain c where c: "bs_insert bs (r_counts sm) (unat b) = Some c"
    "bits bs c = (bits bs (r_counts sm))[unat b := True]"
    using bitset_insert [OF laws b] by metis
  let ?s = "\<lparr>r_nr_allocated = r_nr_allocated sm + 1, r_alloc_begin = r_alloc_begin sm, r_counts = c\<rparr>"
  have "r_inv bs ?s"
    using r_allocated_bounds(1) [OF inv b False] inv False c
    by (intro r_inv_update [OF inv b]) (auto simp: r_inv_def)
  moreover have "r_inc_one bs b sm = (Ok (), ?s)"
    using False b c by (cases sm) (simp add: r_inc_one_def bits_nth)
  ultimately show thesis using that [of ?s] c by simp
qed

definition fill :: "nat \<Rightarrow> nat \<Rightarrow> bool list \<Rightarrow> bool list" where
  "fill b e xs = map (\<lambda>i. xs ! i \<or> (b \<le> i \<and> i < e)) [0..<length xs]"

lemma length_fill [simp]: "length (fill b e xs) = length xs"
  by (simp add: fill_def)

lemma nth_fill: "i < length xs \<Longrightarrow> fill b e xs ! i \<longleftrightarrow> xs ! i \<or> (b \<le> i \<and> i < e)"
  by (simp add: fill_def)

lemma fill_empty: "e \<le> b \<Longrightarrow> fill b e xs = xs"
  by (intro nth_equalityI) (auto simp: nth_fill)

lemma fill_step: "b < e \<Longrightarrow> fill (Suc b) e (xs[b := True]) = fill b e xs"
proof (intro nth_equalityI)
  fix i assume "b < e" "i < length (fill (Suc b) e (xs[b := True]))"
  then show "fill (Suc b) e (xs[b := True]) ! i = fill b e xs ! i"
    by (cases "i = b") (auto simp: nth_fill)
qed simp

lemma r_inc_loop:
  assumes "r_inv bs sm" "unat e \<le> bs_len bs (r_counts sm)"
  shows "\<exists>sm'. for_each (r_inc_one bs) (range64 b e) sm = (Ok (), sm') \<and> r_inv bs sm' \<and>
    bits bs (r_counts sm') = fill (unat b) (unat e) (bits bs (r_counts sm)) \<and>
    r_alloc_begin sm' = r_alloc_begin sm"
  using assms
proof (induction "unat e - unat b" arbitrary: b sm)
  case 0
  then show ?case by (simp add: word_le_nat_alt fill_empty)
next
  case (Suc n)
  then have be: "b < e" by (simp add: word_less_nat_alt)
  then have ub: "unat (b + 1) = Suc (unat b)" by unat_arith
  have bl: "unat b < bs_len bs (r_counts sm)" using be Suc.prems(2) by (simp add: word_less_nat_alt)
  obtain s1 where s1: "r_inc_one bs b sm = (Ok (), s1)" "r_inv bs s1"
    "bits bs (r_counts s1) = (bits bs (r_counts sm))[unat b := True]"
    "r_alloc_begin s1 = r_alloc_begin sm"
    using r_inc_one_count [OF Suc.prems(1) bl] by blast
  have l: "bs_len bs (r_counts s1) = bs_len bs (r_counts sm)"
    using arg_cong [OF s1(3), of length] by simp
  have n1: "n = unat e - unat (b + 1)" using Suc.hyps(2) ub by linarith
  obtain s2 where "for_each (r_inc_one bs) (range64 (b + 1) e) s1 = (Ok (), s2)" "r_inv bs s2"
    "bits bs (r_counts s2) = fill (unat (b + 1)) (unat e) (bits bs (r_counts s1))"
    "r_alloc_begin s2 = r_alloc_begin s1"
    using Suc.hyps(1) [OF n1 s1(2)] Suc.prems(2) l by auto
  then show ?case
    using be ub s1 fill_step [of "unat b" "unat e" "bits bs (r_counts sm)"]
    by (simp add: range64_Cons word_less_nat_alt)
qed

lemma count_fill: "map of_bool (fill b e xs) = map (min 1) (bump b e (map of_bool xs :: nat list))"
  by (intro nth_equalityI) (auto simp: nth_fill nth_bump)

lemma r_find_free_eq:
  assumes "unat (e - 1) < bs_len bs (r_counts sm)"
  shows "r_find_free bs sm b e =
    Ok (find (\<lambda>b. \<not> bs_contains bs (r_counts sm) (unat b)) (range64 b e))"
  using assms by (simp add: r_find_free_def r_check_index_def find_first_total
      [where P = "\<lambda>b. \<not> bs_contains bs (r_counts sm) (unat b)"])

lemma r_alloc_eq:
  assumes inv: "r_inv bs sm" and ne: "0 < bs_len bs (r_counts sm)"
  defines "full_tail \<equiv> \<forall>i. unat (r_alloc_begin sm) \<le> i \<and> i < bs_len bs (r_counts sm) \<longrightarrow> bits bs (r_counts sm) ! i"
  shows "r_alloc bs sm = (if full_tail \<and> r_alloc_begin sm = 0 then (Err BlockOutOfBounds, sm) else
    (case find (\<lambda>b. \<not> bits bs (r_counts sm) ! unat b)
        (alloc_order (r_alloc_begin sm) (bs_len bs (r_counts sm))) of
       None \<Rightarrow> (Ok None, sm)
     | Some b \<Rightarrow> (Ok (Some b), sm\<lparr>r_counts := the (bs_insert bs (r_counts sm) (unat b)),
                  r_nr_allocated := r_nr_allocated sm + 1, r_alloc_begin := b + 1\<rparr>)))"
proof -
  let ?n = "bs_len bs (r_counts sm)" and ?free = "\<lambda>b :: u64. \<not> bits bs (r_counts sm) ! unat b"
  have laws: "bitset_laws bs" and n: "unat (word_of_nat ?n :: u64) = ?n" "?n < 2 ^ 63"
    and ab: "unat (r_alloc_begin sm) \<le> ?n"
    using inv by (simp_all add: r_inv_def unat_of_nat64)
  have last: "unat (word_of_nat ?n - 1 :: u64) < ?n"
    using ne n(1) by (subst unat_dec) simp_all
  have lift: "find (\<lambda>b. \<not> bs_contains bs (r_counts sm) (unat b)) xs = find ?free xs"
    if "set xs \<subseteq> {b. unat b < ?n}" for xs
    using that by (intro find_cong) (auto simp: bits_nth)
  have tail: "r_find_free bs sm (r_alloc_begin sm) (word_of_nat ?n) =
      Ok (find ?free (range64 (r_alloc_begin sm) (word_of_nat ?n)))"
    using n(1) by (subst r_find_free_eq [OF last], subst lift) (auto simp: set_range64 word_less_nat_alt)
  have tail_None: "find ?free (range64 (r_alloc_begin sm) (word_of_nat ?n)) = None \<longleftrightarrow> full_tail"
  proof -
    have "(\<forall>b. r_alloc_begin sm \<le> b \<and> b < word_of_nat ?n \<longrightarrow> bits bs (r_counts sm) ! unat b) \<longleftrightarrow> full_tail"
      unfolding full_tail_def
    proof (intro iffI allI impI)
      fix i assume all: "\<forall>b. r_alloc_begin sm \<le> b \<and> b < word_of_nat ?n \<longrightarrow> bits bs (r_counts sm) ! unat b"
        and i: "unat (r_alloc_begin sm) \<le> i \<and> i < ?n"
      then have "unat (word_of_nat i :: u64) = i" using n(2) by (intro unat_of_nat64) simp
      with i n(1) show "bits bs (r_counts sm) ! i"
        using all [rule_format, of "word_of_nat i"] by (simp add: word_le_nat_alt word_less_nat_alt)
    qed (use n(1) in \<open>simp add: word_le_nat_alt word_less_nat_alt\<close>)
    then show ?thesis by (auto simp: find_None_iff set_range64)
  qed
  have head: "r_find_free bs sm 0 (r_alloc_begin sm) = Ok (find ?free (range64 0 (r_alloc_begin sm)))"
    if "r_alloc_begin sm \<noteq> 0"
  proof -
    have "0 < unat (r_alloc_begin sm)" using that by (simp add: unat_gt_0)
    with ab have "unat (r_alloc_begin sm - 1) < ?n" by (subst unat_dec) simp_all
    then show ?thesis using ab
      by (subst r_find_free_eq, simp, subst lift) (auto simp: set_range64 word_less_nat_alt)
  qed
  have head0: "r_find_free bs sm 0 0 = Err BlockOutOfBounds"
  proof -
    have "?n \<le> unat (- 1 :: u64)" using n(2) by (simp add: unsigned_minus_1_eq_mask mask_eq_exp_minus_1)
    then show ?thesis by (simp add: r_find_free_def r_check_index_def)
  qed
  have ins: "\<exists>c. bs_insert bs (r_counts sm) (unat b) = Some c"
    if "find ?free (alloc_order (r_alloc_begin sm) ?n) = Some b" for b
  proof -
    have "b \<in> set (alloc_order (r_alloc_begin sm) ?n)" using find_SomeD [OF that] by simp
    then have "unat b < ?n" using ab n(2) by (subst (asm) set_alloc_order) simp_all
    then show ?thesis using bitset_insert [OF laws] by metis
  qed
  show ?thesis
    using ins tail_None head0 head tail
    by (cases "r_alloc_begin sm = 0")
       (auto simp: r_alloc_def alloc_order_def find_append split: option.splits)
qed

lemma r_alloc_Some:
  assumes inv: "r_inv bs sm" and r: "r_alloc bs sm = (Ok (Some b), sm')"
    and ne: "0 < bs_len bs (r_counts sm)"
  shows "unat b < bs_len bs (r_counts sm)" "\<not> bits bs (r_counts sm) ! unat b" "r_inv bs sm'"
    "bits bs (r_counts sm') = (bits bs (r_counts sm))[unat b := True]"
proof -
  let ?n = "bs_len bs (r_counts sm)"
  from r have f: "find (\<lambda>b. \<not> bits bs (r_counts sm) ! unat b) (alloc_order (r_alloc_begin sm) ?n) = Some b"
    and sm': "sm' = sm\<lparr>r_counts := the (bs_insert bs (r_counts sm) (unat b)),
                  r_nr_allocated := r_nr_allocated sm + 1, r_alloc_begin := b + 1\<rparr>"
    by (auto simp: r_alloc_eq [OF inv ne] split: option.splits if_splits)
  have l: "?n < 2 ^ 63" "unat (r_alloc_begin sm) \<le> ?n" "bitset_laws bs" using inv by (simp_all add: r_inv_def)
  show b: "unat b < ?n" and free: "\<not> bits bs (r_counts sm) ! unat b"
    using find_SomeD [OF f] l set_alloc_order [of "r_alloc_begin sm" ?n] by auto
  obtain c where c: "bs_insert bs (r_counts sm) (unat b) = Some c"
    "bits bs c = (bits bs (r_counts sm))[unat b := True]"
    using bitset_insert [OF l(3) b] by metis
  then show "bits bs (r_counts sm') = (bits bs (r_counts sm))[unat b := True]" by (simp add: sm')
  have "unat (b + 1) = unat b + 1"
    using b l by (intro trans [OF unat_plus_no_overflow]) simp_all
  then have "r_inv bs \<lparr>r_nr_allocated = r_nr_allocated sm + 1, r_alloc_begin = b + 1, r_counts = c\<rparr>"
    using b free r_allocated_bounds(1) [OF inv b free] c by (intro r_inv_update [OF inv b]) simp_all
  then show "r_inv bs sm'" using c by (cases sm) (simp add: sm')
qed

section \<open>RestrictedTwoSpaceMap\<close>

definition t_new :: "'b bitset \<Rightarrow> u64 \<Rightarrow> 'b rsm" where
  "t_new bs nr_entries = \<lparr>r_nr_allocated = 0, r_alloc_begin = 0,
     r_counts = bs_with_capacity bs (unat (push_bit 1 nr_entries))\<rparr>"

definition t_get_nr_blocks :: "'b bitset \<Rightarrow> 'b rsm \<Rightarrow> u64" where
  "t_get_nr_blocks bs sm = word_of_nat (drop_bit 1 (bs_len bs (r_counts sm)))"

definition t_get :: "'b bitset \<Rightarrow> 'b rsm \<Rightarrow> u64 \<Rightarrow> u32" where
  "t_get bs sm b = (let idx = push_bit 1 b in
     if bs_contains bs (r_counts sm) (unat idx) then 1
     else if bs_contains bs (r_counts sm) (unat (idx + 1)) then 2 else 0)"

text \<open>Two writes of a bit, each of which may panic.\<close>

definition t_insert :: "'b bitset \<Rightarrow> u64 \<Rightarrow> 'b rsm \<Rightarrow> ('b rsm, unit) sm_op" where
  "t_insert bs idx sm = (case bs_insert bs (r_counts sm) (unat idx) of None \<Rightarrow> (Panic, sm)
     | Some c \<Rightarrow> (Ok (), sm\<lparr>r_counts := c\<rparr>))"

definition t_clear :: "'b bitset \<Rightarrow> u64 \<Rightarrow> 'b rsm \<Rightarrow> ('b rsm, unit) sm_op" where
  "t_clear bs idx sm = (case bs_set bs (r_counts sm) (unat idx) False of None \<Rightarrow> (Panic, sm)
     | Some c \<Rightarrow> (Ok (), sm\<lparr>r_counts := c\<rparr>))"

definition t_set :: "'b bitset \<Rightarrow> 'b rsm \<Rightarrow> u64 \<Rightarrow> u32 \<Rightarrow> ('b rsm, u32) sm_op" where
  "t_set bs sm b v = (let old = t_get bs sm b; idx = push_bit 1 b in
    binds
      (if 0 < v then
         let sm = (if old = 0 then sm\<lparr>r_nr_allocated := r_nr_allocated sm + 1\<rparr> else sm) in
         if v = 1 then binds (t_insert bs idx sm) (\<lambda>_. t_clear bs (idx + 1))
         else if v = 2 then binds (t_clear bs idx sm) (\<lambda>_. t_insert bs (idx + 1))
         else (Ok (), sm)
       else
         let sm = (if old = 1 then sm\<lparr>r_nr_allocated := r_nr_allocated sm - 1\<rparr> else sm) in
         binds (t_clear bs idx sm) (\<lambda>_. t_clear bs (idx + 1)))
      (\<lambda>_ sm. (Ok old, sm)))"

definition t_inc_one :: "'b bitset \<Rightarrow> u64 \<Rightarrow> 'b rsm \<Rightarrow> ('b rsm, unit) sm_op" where
  "t_inc_one bs b sm = (let idx = push_bit 1 b in
     if bs_contains bs (r_counts sm) (unat (idx + 1)) then (Ok (), sm)
     else if bs_contains bs (r_counts sm) (unat idx) then
       binds (t_clear bs idx sm) (\<lambda>_. t_insert bs (idx + 1))
     else t_insert bs idx (sm\<lparr>r_nr_allocated := r_nr_allocated sm + 1\<rparr>))"

definition t_inc :: "'b bitset \<Rightarrow> 'b rsm \<Rightarrow> u64 \<Rightarrow> u64 \<Rightarrow> ('b rsm, unit) sm_op" where
  "t_inc bs sm begin len = for_each (t_inc_one bs) (range64 begin (begin + len)) sm"

definition t_find_free :: "'b bitset \<Rightarrow> 'b rsm \<Rightarrow> u64 \<Rightarrow> u64 \<Rightarrow> u64 option" where
  "t_find_free bs sm begin e = find (\<lambda>b. let idx = push_bit 1 b in
     \<not> bs_contains bs (r_counts sm) (unat idx) \<and> \<not> bs_contains bs (r_counts sm) (unat (idx + 1)))
     (range64 begin e)"

definition t_alloc :: "'b bitset \<Rightarrow> 'b rsm \<Rightarrow> ('b rsm, u64 option) sm_op" where
  "t_alloc bs sm =
    (let b = t_find_free bs sm (r_alloc_begin sm) (word_of_nat (bs_len bs (r_counts sm)));
         b = (if b = None then t_find_free bs sm 0 (r_alloc_begin sm) else b)
     in case b of None \<Rightarrow> (Ok None, sm)
        | Some b \<Rightarrow> binds (t_insert bs (push_bit 1 b) sm) (\<lambda>_ sm.
            (Ok (Some b), sm\<lparr>r_nr_allocated := r_nr_allocated sm + 1, r_alloc_begin := b + 1\<rparr>)))"

definition t_dec :: "'b bitset \<Rightarrow> 'b rsm \<Rightarrow> u64 \<Rightarrow> ('b rsm, bool) sm_op" where
  "t_dec bs = dec_default (\<lambda>sm b. Ok (t_get bs sm b)) (t_set bs)"

subsection \<open>Abstract counts\<close>

fun pairs_count :: "bool list \<Rightarrow> nat list" where
  "pairs_count (x # y # bs) = (if x then 1 else if y then 2 else 0) # pairs_count bs"
| "pairs_count _ = []"

fun pairs_ok :: "bool list \<Rightarrow> bool" where
  "pairs_ok (x # y # bs) \<longleftrightarrow> \<not> (x \<and> y) \<and> pairs_ok bs"
| "pairs_ok [] \<longleftrightarrow> True"
| "pairs_ok [_] \<longleftrightarrow> False"

definition t_count :: "'b bitset \<Rightarrow> 'b rsm \<Rightarrow> nat list" where
  "t_count bs sm = pairs_count (bits bs (r_counts sm))"

definition t_wf :: "'b bitset \<Rightarrow> 'b rsm \<Rightarrow> bool" where
  "t_wf bs sm \<longleftrightarrow> bitset_laws bs \<and> bs_len bs (r_counts sm) < 2 ^ 63 \<and> pairs_ok (bits bs (r_counts sm))"

definition t_inv :: "'b bitset \<Rightarrow> 'b rsm \<Rightarrow> bool" where
  "t_inv bs sm \<longleftrightarrow> t_wf bs sm \<and> unat (r_nr_allocated sm) = nonzero (t_count bs sm)"

lemma pairs_ok_even: "pairs_ok xs \<Longrightarrow> length xs = 2 * length (pairs_count xs)"
  by (induction xs rule: pairs_ok.induct) auto

lemma pairs_nth:
  "pairs_ok xs \<Longrightarrow> i < length (pairs_count xs) \<Longrightarrow>
    (xs ! (2 * i) \<longleftrightarrow> pairs_count xs ! i = 1) \<and> (xs ! Suc (2 * i) \<longleftrightarrow> pairs_count xs ! i = 2) \<and>
    pairs_count xs ! i \<le> 2"
proof (induction xs arbitrary: i rule: pairs_ok.induct)
  case (1 x y bs)
  then show ?case by (cases i) auto
qed auto

lemma pairs_update:
  "pairs_ok xs \<Longrightarrow> i < length (pairs_count xs) \<Longrightarrow> \<not> (x \<and> y) \<Longrightarrow>
    pairs_ok (xs[2 * i := x, Suc (2 * i) := y]) \<and>
    pairs_count (xs[2 * i := x, Suc (2 * i) := y]) =
      (pairs_count xs)[i := if x then 1 else if y then 2 else 0]"
proof (induction xs arbitrary: i rule: pairs_ok.induct)
  case (1 a b bs)
  then show ?case by (cases i) auto
qed auto

lemma t_indices:
  fixes b :: u64
  assumes "t_wf bs sm" "unat b < length (t_count bs sm)"
  shows "unat (push_bit 1 b) = 2 * unat b" "unat (push_bit 1 b + 1) = Suc (2 * unat b)"
    "Suc (2 * unat b) < bs_len bs (r_counts sm)"
proof -
  show l: "Suc (2 * unat b) < bs_len bs (r_counts sm)"
    using assms pairs_ok_even [of "bits bs (r_counts sm)"] by (simp add: t_wf_def t_count_def)
  then have s: "2 * unat b < 2 ^ 63" using assms(1) by (simp add: t_wf_def)
  have "unat b + unat b < 2 ^ LENGTH(64)" using s by simp
  then have "unat (b + b) = unat b + unat b" by (rule unat_plus_no_overflow)
  moreover have "push_bit 1 b = b + b" by (simp add: push_bit_eq_mult mult_2_right)
  ultimately show u: "unat (push_bit 1 b) = 2 * unat b" by (simp only: mult_2)
  show "unat (push_bit 1 b + 1) = Suc (2 * unat b)"
    using u s by (subst unat_plus_no_overflow) simp_all
qed

lemma t_get_count:
  assumes "t_wf bs sm" "unat b < length (t_count bs sm)"
  shows "unat (t_get bs sm b) = t_count bs sm ! unat b"
proof -
  have ok: "pairs_ok (bits bs (r_counts sm))" using assms(1) by (simp add: t_wf_def)
  note n = pairs_nth [OF ok, of "unat b"]
  show ?thesis
    using n assms(2) t_indices [OF assms] unfolding t_get_def Let_def t_count_def
    by (auto simp: bits_nth)
qed

lemma t_insert_Ok:
  assumes "bitset_laws bs" "unat i < bs_len bs (r_counts sm)"
  obtains c where "t_insert bs i sm = (Ok (), sm\<lparr>r_counts := c\<rparr>)"
    "bits bs c = (bits bs (r_counts sm))[unat i := True]" "bs_len bs c = bs_len bs (r_counts sm)"
proof -
  obtain c where "bs_insert bs (r_counts sm) (unat i) = Some c"
    "bits bs c = (bits bs (r_counts sm))[unat i := True]" "bs_len bs c = bs_len bs (r_counts sm)"
    using bitset_insert [OF assms] by blast
  with that show thesis by (simp add: t_insert_def)
qed

lemma t_clear_Ok:
  assumes "bitset_laws bs" "unat i < bs_len bs (r_counts sm)"
  obtains c where "t_clear bs i sm = (Ok (), sm\<lparr>r_counts := c\<rparr>)"
    "bits bs c = (bits bs (r_counts sm))[unat i := False]" "bs_len bs c = bs_len bs (r_counts sm)"
proof -
  obtain c where "bs_set bs (r_counts sm) (unat i) False = Some c"
    "bits bs c = (bits bs (r_counts sm))[unat i := False]" "bs_len bs c = bs_len bs (r_counts sm)"
    using bitset_set [OF assms] by blast
  with that show thesis by (simp add: t_clear_def)
qed

text \<open>Writing both bits of a block, in the order of the code.\<close>

definition t_put :: "'b bitset \<Rightarrow> u64 \<Rightarrow> bool \<Rightarrow> 'b rsm \<Rightarrow> ('b rsm, unit) sm_op" where
  "t_put bs i x = (if x then t_insert bs i else t_clear bs i)"

lemma t_put_Ok:
  assumes "bitset_laws bs" "unat i < bs_len bs (r_counts sm)"
  obtains c where "t_put bs i x sm = (Ok (), sm\<lparr>r_counts := c\<rparr>)"
    "bits bs c = (bits bs (r_counts sm))[unat i := x]" "bs_len bs c = bs_len bs (r_counts sm)"
proof (cases x)
  case True
  obtain c where "t_insert bs i sm = (Ok (), sm\<lparr>r_counts := c\<rparr>)"
    "bits bs c = (bits bs (r_counts sm))[unat i := True]" "bs_len bs c = bs_len bs (r_counts sm)"
    using t_insert_Ok [OF assms] by blast
  with that [of c] True show thesis by (simp add: t_put_def)
next
  case False
  obtain c where "t_clear bs i sm = (Ok (), sm\<lparr>r_counts := c\<rparr>)"
    "bits bs c = (bits bs (r_counts sm))[unat i := False]" "bs_len bs c = bs_len bs (r_counts sm)"
    using t_clear_Ok [OF assms] by blast
  with that [of c] False show thesis by (simp add: t_put_def)
qed

lemma t_put_pair:
  assumes wf: "t_wf bs sm" and b: "unat b < length (t_count bs sm)" and xy: "\<not> (x \<and> y)"
  obtains c where
    "binds (t_put bs (push_bit 1 b) x sm) (\<lambda>_. t_put bs (push_bit 1 b + 1) y) = (Ok (), sm\<lparr>r_counts := c\<rparr>)"
    "\<And>n a. t_wf bs \<lparr>r_nr_allocated = n, r_alloc_begin = a, r_counts = c\<rparr>"
    "pairs_count (bits bs c) = (t_count bs sm)[unat b := if x then 1 else if y then 2 else 0]"
proof -
  note ix = t_indices [OF wf b]
  have laws: "bitset_laws bs" and small: "bs_len bs (r_counts sm) < 2 ^ 63"
    and ok: "pairs_ok (bits bs (r_counts sm))" using wf by (simp_all add: t_wf_def)
  have i1: "unat (push_bit 1 b) < bs_len bs (r_counts sm)" using ix by linarith
  obtain c1 where c1: "t_put bs (push_bit 1 b) x sm = (Ok (), sm\<lparr>r_counts := c1\<rparr>)"
    "bits bs c1 = (bits bs (r_counts sm))[2 * unat b := x]" "bs_len bs c1 = bs_len bs (r_counts sm)"
    using t_put_Ok [OF laws i1, of x] ix(1) by auto
  have i2: "unat (push_bit 1 b + 1) < bs_len bs (r_counts (sm\<lparr>r_counts := c1\<rparr>))"
    using ix c1(3) by simp
  obtain c2 where c2: "t_put bs (push_bit 1 b + 1) y (sm\<lparr>r_counts := c1\<rparr>) = (Ok (), sm\<lparr>r_counts := c2\<rparr>)"
    "bits bs c2 = (bits bs c1)[Suc (2 * unat b) := y]" "bs_len bs c2 = bs_len bs c1"
    using t_put_Ok [OF laws i2, of y] ix(2) by auto
  note u = pairs_update [OF ok, of "unat b" x y]
  show thesis
  proof (rule that [of c2])
    show "binds (t_put bs (push_bit 1 b) x sm) (\<lambda>_. t_put bs (push_bit 1 b + 1) y) =
        (Ok (), sm\<lparr>r_counts := c2\<rparr>)" using c1 c2 by simp
    show "t_wf bs \<lparr>r_nr_allocated = n, r_alloc_begin = a, r_counts = c2\<rparr>" for n a
      using u b xy laws small c1 c2 by (simp add: t_wf_def t_count_def)
    show "pairs_count (bits bs c2) = (t_count bs sm)[unat b := if x then 1 else if y then 2 else 0]"
      using u b xy c1 c2 by (simp add: t_count_def)
  qed
qed

lemma t_set_count:
  assumes wf: "t_wf bs sm" and b: "unat b < length (t_count bs sm)" and v: "unat v \<le> 2"
  obtains sm' where "t_set bs sm b v = (Ok (t_get bs sm b), sm')" "t_wf bs sm'"
    "t_count bs sm' = (t_count bs sm)[unat b := unat v]"
    "r_nr_allocated sm' = r_nr_allocated sm + (if v \<noteq> 0 \<and> t_count bs sm ! unat b = 0 then 1
      else if v = 0 \<and> t_count bs sm ! unat b = 1 then - 1 else 0)"
proof -
  have vv: "v = 0 \<or> v = 1 \<or> v = 2"
    using v by (auto simp: word_unat_eq_iff)
  have old: "t_get bs sm b = 0 \<longleftrightarrow> t_count bs sm ! unat b = 0"
    "t_get bs sm b = 1 \<longleftrightarrow> t_count bs sm ! unat b = 1"
    using t_get_count [OF wf b] by (simp_all add: word_unat_eq_iff)
  define n where "n = r_nr_allocated sm + (if v \<noteq> 0 \<and> t_count bs sm ! unat b = 0 then 1
      else if v = 0 \<and> t_count bs sm ! unat b = 1 then - 1 else 0)"
  define sn where "sn = sm\<lparr>r_nr_allocated := n\<rparr>"
  have wfn: "t_wf bs sn" and bn: "unat b < length (t_count bs sn)"
    and cn: "t_count bs sn = t_count bs sm"
    using wf b by (simp_all add: sn_def t_wf_def t_count_def)
  obtain c where c: "binds (t_put bs (push_bit 1 b) (v = 1) sn) (\<lambda>_. t_put bs (push_bit 1 b + 1) (v = 2)) =
      (Ok (), sn\<lparr>r_counts := c\<rparr>)"
    "\<And>n a. t_wf bs \<lparr>r_nr_allocated = n, r_alloc_begin = a, r_counts = c\<rparr>"
    "pairs_count (bits bs c) = (t_count bs sm)[unat b := if v = 1 then 1 else if v = 2 then 2 else 0]"
    using t_put_pair [OF wfn bn, of "v = 1" "v = 2"] unfolding cn by auto
  have "t_set bs sm b v = (Ok (t_get bs sm b), sn\<lparr>r_counts := c\<rparr>)"
    using vv c(1) unfolding t_set_def Let_def old
    by (elim disjE) (auto simp: t_put_def sn_def n_def simp del: push_bit_of_1)
  moreover have "t_wf bs (sn\<lparr>r_counts := c\<rparr>)" using c(2) by (cases sn) simp
  moreover have "t_count bs (sn\<lparr>r_counts := c\<rparr>) = (t_count bs sm)[unat b := unat v]"
    using c(3) vv by (auto simp: t_count_def)
  ultimately show thesis using that by (simp add: sn_def n_def)
qed

interpretation two: ref_counter "\<lambda>sm b. Ok (t_get bs sm b)" "t_set bs" "t_wf bs" "t_count bs" 2
  for bs :: "'b bitset"
proof unfold_locales
  fix s :: "'b rsm" and b :: u64
  assume "t_wf bs s" "unat b < length (t_count bs s)"
  then show "\<exists>v. (Ok (t_get bs s b) :: (sm_error, u32) result) = Ok v \<and> unat v = t_count bs s ! unat b"
    by (simp add: t_get_count)
next
  fix s :: "'b rsm" and b :: u64 and v :: u32
  assume a: "t_wf bs s" "unat b < length (t_count bs s)" "unat v \<le> 2"
  from t_set_count [OF this] t_get_count [OF a(1,2)]
  show "\<exists>old s'. t_set bs s b v = (Ok old, s') \<and> unat old = t_count bs s ! unat b \<and>
      t_wf bs s' \<and> t_count bs s' = (t_count bs s)[unat b := unat v]" by metis
next
  fix s :: "'b rsm" and i
  assume "t_wf bs s" "i < length (t_count bs s)"
  then show "t_count bs s ! i \<le> 2" by (simp add: t_count_def t_wf_def pairs_nth)
qed

lemma t_inc_one_count:
  assumes wf: "t_wf bs sm" and b: "unat b < length (t_count bs sm)"
  obtains sm' where "t_inc_one bs b sm = (Ok (), sm')" "t_wf bs sm'"
    "t_count bs sm' = (t_count bs sm)[unat b := min 2 (Suc (t_count bs sm ! unat b))]"
    "r_nr_allocated sm' = r_nr_allocated sm + of_bool (t_count bs sm ! unat b = 0)"
    "r_alloc_begin sm' = r_alloc_begin sm"
proof -
  note ix = t_indices [OF wf b]
  have laws: "bitset_laws bs" and ok: "pairs_ok (bits bs (r_counts sm))" using wf by (simp_all add: t_wf_def)
  note n = pairs_nth [OF ok, of "unat b", folded t_count_def, OF b]
  have c: "bs_contains bs (r_counts sm) (2 * unat b) \<longleftrightarrow> t_count bs sm ! unat b = 1"
    "bs_contains bs (r_counts sm) (Suc (2 * unat b)) \<longleftrightarrow> t_count bs sm ! unat b = 2"
    using n ix(3) by (auto simp flip: bits_nth)
  consider "t_count bs sm ! unat b = 0" | "t_count bs sm ! unat b = 1" | "t_count bs sm ! unat b = 2"
    using n by linarith
  then show thesis
  proof cases
    case 1
    define sn where "sn = sm\<lparr>r_nr_allocated := r_nr_allocated sm + 1\<rparr>"
    have sn: "t_wf bs sn" "t_count bs sn = t_count bs sm" using wf by (simp_all add: sn_def t_wf_def t_count_def)
    obtain d where d: "t_insert bs (push_bit 1 b) sn = (Ok (), sn\<lparr>r_counts := d\<rparr>)"
      "bits bs d = (bits bs (r_counts sm))[2 * unat b := True]" "bs_len bs d = bs_len bs (r_counts sm)"
      using t_insert_Ok [OF laws, of "push_bit 1 b" sn] ix by (auto simp: sn_def)
    have "bits bs (r_counts sm) ! Suc (2 * unat b) = False" using n 1 by simp
    then have "bits bs d = (bits bs (r_counts sm))[2 * unat b := True, Suc (2 * unat b) := False]"
      unfolding d(2) using list_update_id [of "bits bs (r_counts sm)" "Suc (2 * unat b)"]
      by (simp add: list_update_swap [of "2 * unat b"])
    with pairs_update [OF ok, of "unat b" True False, folded t_count_def, OF b] 1 d wf c ix
    show ?thesis
      by (intro that [of "sn\<lparr>r_counts := d\<rparr>"])
         (simp_all add: t_inc_one_def sn_def t_wf_def t_count_def)
  next
    case 2
    obtain d where d: "binds (t_put bs (push_bit 1 b) False sm) (\<lambda>_. t_put bs (push_bit 1 b + 1) True) =
      (Ok (), sm\<lparr>r_counts := d\<rparr>)"
      "\<And>n a. t_wf bs \<lparr>r_nr_allocated = n, r_alloc_begin = a, r_counts = d\<rparr>"
      "pairs_count (bits bs d) = (t_count bs sm)[unat b := 2]"
      using t_put_pair [OF wf b, of False True] by auto
    have "t_wf bs (sm\<lparr>r_counts := d\<rparr>)" using d(2) by (cases sm) simp
    with 2 d c ix show ?thesis
      by (intro that [of "sm\<lparr>r_counts := d\<rparr>"])
         (simp_all add: t_inc_one_def t_put_def t_count_def numeral_2_eq_2)
  next
    case 3
    with that [of sm] wf c ix list_update_id [of "t_count bs sm" "unat b"] show ?thesis
      by (simp add: t_inc_one_def)
  qed
qed

definition sat_bump :: "nat \<Rightarrow> nat \<Rightarrow> nat \<Rightarrow> nat list \<Rightarrow> nat list" where
  "sat_bump m b e cs = map (min m) (bump b e cs)"

lemma length_sat_bump [simp]: "length (sat_bump m b e cs) = length cs"
  by (simp add: sat_bump_def)

lemma nth_sat_bump:
  "i < length cs \<Longrightarrow> sat_bump m b e cs ! i = min m (cs ! i + (if b \<le> i \<and> i < e then 1 else 0))"
  by (simp add: sat_bump_def nth_bump)

lemma sat_bump_empty: "e \<le> b \<Longrightarrow> \<forall>c \<in> set cs. c \<le> m \<Longrightarrow> sat_bump m b e cs = cs"
  by (intro nth_equalityI) (auto simp: nth_sat_bump intro!: min.absorb2)

lemma sat_bump_step:
  "b < e \<Longrightarrow> sat_bump m (Suc b) e (cs[b := min m (Suc (cs ! b))]) = sat_bump m b e cs"
proof (intro nth_equalityI)
  fix i assume "b < e" "i < length (sat_bump m (Suc b) e (cs[b := min m (Suc (cs ! b))]))"
  then show "sat_bump m (Suc b) e (cs[b := min m (Suc (cs ! b))]) ! i = sat_bump m b e cs ! i"
    by (cases "i = b") (auto simp: nth_sat_bump)
qed simp

lemma t_count_le: "t_wf bs sm \<Longrightarrow> c \<in> set (t_count bs sm) \<Longrightarrow> c \<le> 2"
  by (metis in_set_conv_nth two.count_cap)

lemma t_count_small: "t_wf bs sm \<Longrightarrow> length (t_count bs sm) < 2 ^ 62"
  using pairs_ok_even [of "bits bs (r_counts sm)"] by (simp add: t_wf_def t_count_def)

lemma t_inv_inc_one:
  assumes inv: "t_inv bs sm" and b: "unat b < length (t_count bs sm)"
  obtains sm' where "t_inc_one bs b sm = (Ok (), sm')" "t_inv bs sm'"
    "t_count bs sm' = (t_count bs sm)[unat b := min 2 (Suc (t_count bs sm ! unat b))]"
    "r_alloc_begin sm' = r_alloc_begin sm"
proof -
  have wf: "t_wf bs sm" and nr: "unat (r_nr_allocated sm) = nonzero (t_count bs sm)"
    using inv by (simp_all add: t_inv_def)
  obtain s1 where s1: "t_inc_one bs b sm = (Ok (), s1)" "t_wf bs s1"
    "t_count bs s1 = (t_count bs sm)[unat b := min 2 (Suc (t_count bs sm ! unat b))]"
    "r_nr_allocated s1 = r_nr_allocated sm + of_bool (t_count bs sm ! unat b = 0)"
    "r_alloc_begin s1 = r_alloc_begin sm"
    by (rule t_inc_one_count [OF wf b])
  have "unat (r_nr_allocated sm + 1) = unat (r_nr_allocated sm) + 1"
    using nr nonzero_le [of "t_count bs sm"] t_count_small [OF wf]
    by (intro trans [OF unat_plus_no_overflow]) simp_all
  then have "unat (r_nr_allocated s1) = nonzero (t_count bs s1)"
    using nonzero_update [OF b, of "min 2 (Suc (t_count bs sm ! unat b))"] nr s1
    by (cases "t_count bs sm ! unat b = 0") simp_all
  with s1 that show thesis by (simp add: t_inv_def)
qed

lemma t_inc_loop:
  assumes "t_inv bs sm" "unat e \<le> length (t_count bs sm)"
  shows "\<exists>sm'. for_each (t_inc_one bs) (range64 b e) sm = (Ok (), sm') \<and> t_inv bs sm' \<and>
    t_count bs sm' = sat_bump 2 (unat b) (unat e) (t_count bs sm) \<and>
    r_alloc_begin sm' = r_alloc_begin sm"
  using assms
proof (induction "unat e - unat b" arbitrary: b sm)
  case 0
  then have "sat_bump 2 (unat b) (unat e) (t_count bs sm) = t_count bs sm"
    by (intro sat_bump_empty) (auto simp: t_inv_def dest: t_count_le)
  with 0 show ?case by (simp add: word_le_nat_alt)
next
  case (Suc n)
  then have be: "b < e" by (simp add: word_less_nat_alt)
  then have ub: "unat (b + 1) = Suc (unat b)" by unat_arith
  have bl: "unat b < length (t_count bs sm)" using be Suc.prems(2) by (simp add: word_less_nat_alt)
  obtain s1 where s1: "t_inc_one bs b sm = (Ok (), s1)" "t_inv bs s1"
    "t_count bs s1 = (t_count bs sm)[unat b := min 2 (Suc (t_count bs sm ! unat b))]"
    "r_alloc_begin s1 = r_alloc_begin sm"
    by (rule t_inv_inc_one [OF Suc.prems(1) bl])
  have n1: "n = unat e - unat (b + 1)" using Suc.hyps(2) ub by linarith
  obtain s2 where "for_each (t_inc_one bs) (range64 (b + 1) e) s1 = (Ok (), s2)" "t_inv bs s2"
    "t_count bs s2 = sat_bump 2 (unat (b + 1)) (unat e) (t_count bs s1)"
    "r_alloc_begin s2 = r_alloc_begin s1"
    using Suc.hyps(1) [OF n1 s1(2)] Suc.prems(2) s1(3) by auto
  then show ?case
    using be ub s1 sat_bump_step [of "unat b" "unat e" 2 "t_count bs sm"]
    by (simp add: range64_Cons word_less_nat_alt)
qed

text \<open>
  The search for a free block runs to the length of the bit set, twice the number of blocks, and
  a block outside the map looks free. When no block from \<open>alloc_begin\<close> on is free, the block just
  behind the last one is found and writing it panics.
\<close>

lemma t_free_beyond:
  assumes wf: "t_wf bs sm" and n: "unat b = length (t_count bs sm)"
  shows "\<not> bs_contains bs (r_counts sm) (unat (push_bit 1 b))"
    "\<not> bs_contains bs (r_counts sm) (unat (push_bit 1 b + 1))"
    "t_insert bs (push_bit 1 b) sm = (Panic, sm)"
proof -
  have laws: "bitset_laws bs" and ok: "pairs_ok (bits bs (r_counts sm))" using wf by (simp_all add: t_wf_def)
  have l: "bs_len bs (r_counts sm) = 2 * unat b"
    using pairs_ok_even [OF ok] n by (simp add: t_count_def)
  have s: "unat b < 2 ^ 62" using t_count_small [OF wf] n by simp
  have "unat (b + b) = unat b + unat b" using s by (intro unat_plus_no_overflow) simp
  moreover have "push_bit 1 b = b + b" by (simp add: push_bit_eq_mult mult_2_right)
  ultimately have i: "unat (push_bit 1 b) = 2 * unat b" by (simp only: mult_2)
  moreover have i1: "unat (push_bit 1 b + 1) = Suc (2 * unat b)"
    using i s by (subst unat_plus_no_overflow) simp_all
  ultimately show "\<not> bs_contains bs (r_counts sm) (unat (push_bit 1 b))"
    "\<not> bs_contains bs (r_counts sm) (unat (push_bit 1 b + 1))"
    using bitset_contains [OF laws] l by (metis less_irrefl, metis Suc_lessD less_irrefl)
  show "t_insert bs (push_bit 1 b) sm = (Panic, sm)"
    using bitset_insert_None [OF laws] i l unfolding t_insert_def by simp
qed

lemma t_find_free_eq:
  assumes wf: "t_wf bs sm" and "unat e \<le> length (t_count bs sm)"
  shows "t_find_free bs sm b e = find (\<lambda>b. t_count bs sm ! unat b = 0) (range64 b e)"
  unfolding t_find_free_def
proof (rule find_cong [OF refl])
  fix x assume "x \<in> set (range64 b e)"
  then have x: "unat x < length (t_count bs sm)" using assms(2) by (simp add: set_range64 word_less_nat_alt)
  have "t_get bs sm x = 0 \<longleftrightarrow> t_count bs sm ! unat x = 0"
    using t_get_count [OF wf x] by (simp add: unat_eq_0 flip: unat_eq_0)
  then show "(let idx = push_bit 1 x in \<not> bs_contains bs (r_counts sm) (unat idx) \<and>
      \<not> bs_contains bs (r_counts sm) (unat (idx + 1))) = (t_count bs sm ! unat x = 0)"
    by (simp add: t_get_def Let_def split: if_splits)
qed

lemma t_find_free_tail:
  assumes wf: "t_wf bs sm" and ab: "unat b \<le> length (t_count bs sm)" "0 < length (t_count bs sm)"
  defines "n \<equiv> word_of_nat (length (t_count bs sm)) :: u64"
  shows "t_find_free bs sm b (word_of_nat (bs_len bs (r_counts sm))) =
    (case find (\<lambda>b. t_count bs sm ! unat b = 0) (range64 b n) of Some x \<Rightarrow> Some x | None \<Rightarrow> Some n)"
proof -
  let ?e = "word_of_nat (bs_len bs (r_counts sm)) :: u64"
  have s: "length (t_count bs sm) < 2 ^ 62" by (rule t_count_small [OF wf])
  have l: "bs_len bs (r_counts sm) = 2 * length (t_count bs sm)"
    using pairs_ok_even [of "bits bs (r_counts sm)"] wf by (simp add: t_wf_def t_count_def)
  have n: "unat n = length (t_count bs sm)" using s unfolding n_def by (intro unat_of_nat64) simp
  have e: "unat ?e = 2 * length (t_count bs sm)" using s unfolding l by (intro unat_of_nat64) simp
  have "range64 b ?e = range64 b n @ n # range64 (n + 1) ?e"
    using n e ab range64_append [of b n ?e] by (simp add: word_le_nat_alt word_less_nat_alt range64_Cons)
  moreover have "t_find_free bs sm b n = find (\<lambda>b. t_count bs sm ! unat b = 0) (range64 b n)"
    using n by (intro t_find_free_eq [OF wf]) simp
  ultimately show ?thesis
    using t_free_beyond(1,2) [OF wf n] by (simp add: t_find_free_def find_append split: option.splits)
qed

lemma t_alloc_eq:
  assumes wf: "t_wf bs sm" and ab: "unat (r_alloc_begin sm) \<le> length (t_count bs sm)"
    "0 < length (t_count bs sm)"
  shows "t_alloc bs sm = (case find (\<lambda>b. t_count bs sm ! unat b = 0)
      (range64 (r_alloc_begin sm) (word_of_nat (length (t_count bs sm)))) of
      None \<Rightarrow> (Panic, sm)
    | Some b \<Rightarrow> binds (t_insert bs (push_bit 1 b) sm) (\<lambda>_ sm.
        (Ok (Some b), sm\<lparr>r_nr_allocated := r_nr_allocated sm + 1, r_alloc_begin := b + 1\<rparr>)))"
proof -
  have "unat (word_of_nat (length (t_count bs sm)) :: u64) = length (t_count bs sm)"
    using t_count_small [OF wf] by (intro unat_of_nat64) simp
  then show ?thesis
    using t_free_beyond(3) [OF wf] by (simp add: t_alloc_def t_find_free_tail [OF wf ab] split: option.splits)
qed

lemma t_alloc_Some:
  assumes inv: "t_inv bs sm" and ab: "unat (r_alloc_begin sm) \<le> length (t_count bs sm)"
    and b: "find (\<lambda>b. t_count bs sm ! unat b = 0)
      (range64 (r_alloc_begin sm) (word_of_nat (length (t_count bs sm)))) = Some b"
  obtains sm' where "t_alloc bs sm = (Ok (Some b), sm')" "t_inv bs sm'"
    "t_count bs sm' = (t_count bs sm)[unat b := 1]" "unat b < length (t_count bs sm)"
    "t_count bs sm ! unat b = 0" "r_alloc_begin sm' = b + 1"
proof -
  have wf: "t_wf bs sm" and nr: "unat (r_nr_allocated sm) = nonzero (t_count bs sm)"
    using inv by (simp_all add: t_inv_def)
  have n: "unat (word_of_nat (length (t_count bs sm)) :: u64) = length (t_count bs sm)"
    using t_count_small [OF wf] by (intro unat_of_nat64) simp
  have free: "t_count bs sm ! unat b = 0" and bl: "unat b < length (t_count bs sm)"
    using find_SomeD [OF b] n by (simp_all add: set_range64 word_less_nat_alt)
  then have pos: "0 < length (t_count bs sm)" by linarith
  obtain s1 where s1: "t_inc_one bs b sm = (Ok (), s1)" "t_inv bs s1"
    "t_count bs s1 = (t_count bs sm)[unat b := min 2 (Suc (t_count bs sm ! unat b))]"
    by (rule t_inv_inc_one [OF inv bl])
  have "t_get bs sm b = 0" using t_get_count [OF wf bl] free by (simp add: unat_eq_0 flip: unat_eq_0)
  then have c0: "\<not> bs_contains bs (r_counts sm) (unat (push_bit 1 b))"
    "\<not> bs_contains bs (r_counts sm) (unat (push_bit 1 b + 1))"
    unfolding t_get_def Let_def by (auto split: if_splits)
  let ?s = "\<lambda>c. sm\<lparr>r_nr_allocated := r_nr_allocated sm + 1, r_counts := c\<rparr>"
  have ins: "t_insert bs (push_bit 1 b) (sm\<lparr>r_nr_allocated := r_nr_allocated sm + 1\<rparr>) = (Ok (), s1)"
    using s1(1) c0 by (simp only: t_inc_one_def Let_def if_False)
  then obtain c where c: "bs_insert bs (r_counts sm) (unat (push_bit 1 b)) = Some c" "s1 = ?s c"
    unfolding t_insert_def by (auto split: option.splits)
  then have "t_insert bs (push_bit 1 b) sm = (Ok (), sm\<lparr>r_counts := c\<rparr>)"
    unfolding t_insert_def by (simp only: option.case)
  then have "t_alloc bs sm = (Ok (Some b), s1\<lparr>r_alloc_begin := b + 1\<rparr>)"
    by (simp add: t_alloc_eq [OF wf ab pos] b c(2))
  moreover have "t_inv bs (s1\<lparr>r_alloc_begin := b + 1\<rparr>)"
    using s1(2) by (simp add: t_inv_def t_wf_def t_count_def)
  ultimately show thesis
    using that s1(3) free bl by (simp add: t_count_def)
qed

section \<open>NoopSpaceMap\<close>

text \<open>The map that counts nothing: its one field never changes.\<close>

definition noop_get :: "u64 \<Rightarrow> u64 \<Rightarrow> (sm_error, u32) result" where
  "noop_get nr_blocks b = Ok 0"

definition noop_set :: "u64 \<Rightarrow> u64 \<Rightarrow> u32 \<Rightarrow> (u64, u32) sm_op" where
  "noop_set nr_blocks b v = (Ok 0, nr_blocks)"

definition noop_inc :: "u64 \<Rightarrow> u64 \<Rightarrow> u64 \<Rightarrow> (u64, unit) sm_op" where
  "noop_inc nr_blocks begin len = (Ok (), nr_blocks)"

definition noop_dec :: "u64 \<Rightarrow> u64 \<Rightarrow> (u64, bool) sm_op" where
  "noop_dec = dec_default noop_get noop_set"

definition noop_alloc :: "u64 \<Rightarrow> (u64, u64 option) sm_op" where
  "noop_alloc nr_blocks = (Ok (Some 0), nr_blocks)"

section \<open>Properties\<close>

text \<open>\<open>RestrictedSpaceMap::inc\<close> of a non-empty range within the map succeeds, counts to one
  and no further, and keeps \<open>nr_allocated\<close> the number of allocated blocks.\<close>

theorem restricted_inc_saturates:
  assumes inv: "r_inv bs sm" and len: "0 < unat len"
    "unat begin + unat len \<le> length (r_count bs sm)"
  shows "\<exists>sm'. r_inc bs sm begin len = (Ok (), sm') \<and> r_inv bs sm' \<and>
    r_count bs sm' = sat_bump 1 (unat begin) (unat begin + unat len) (r_count bs sm)"
proof -
  have s: "length (r_count bs sm) < 2 ^ 63" using inv by (simp add: r_inv_def)
  have e: "unat (begin + len) = unat begin + unat len"
    using len s by (intro unat_plus_no_overflow) simp
  have "unat (begin + len - 1) = unat begin + unat len - 1"
    using e len(1) by (subst unat_dec) simp_all
  with len have c: "r_check_index bs sm (begin + len - 1) = Ok ()"
    by (simp add: r_check_index_def)
  obtain sm' where "for_each (r_inc_one bs) (range64 begin (begin + len)) sm = (Ok (), sm')"
    "r_inv bs sm'"
    "bits bs (r_counts sm') = fill (unat begin) (unat (begin + len)) (bits bs (r_counts sm))"
    using r_inc_loop [OF inv, of "begin + len" "begin"] e len by auto
  with c e show ?thesis
    by (simp add: r_inc_def r_count_def count_fill sat_bump_def)
qed

theorem restricted_inc_saturates_witness:
  "r_inv list_bitset \<lparr>r_nr_allocated = 1, r_alloc_begin = 0, r_counts = [False, True, False]\<rparr> \<and>
   r_count list_bitset (snd (r_inc list_bitset
     \<lparr>r_nr_allocated = 1, r_alloc_begin = 0, r_counts = [False, True, False]\<rparr> 0 2)) = [1, 1, 0]"
proof -
  let ?s = "\<lparr>r_nr_allocated = 1, r_alloc_begin = 0, r_counts = [False, True, False]\<rparr>"
  have i: "r_inv list_bitset ?s"
    by (simp add: r_inv_def bitset_laws_list bits_list_bitset ones_def) (simp add: list_bitset_def)
  have c: "r_count list_bitset ?s = [0, 1, 0]" by (simp add: r_count_def bits_list_bitset)
  have "0 < unat (2 :: u64)" "unat (0 :: u64) + unat (2 :: u64) \<le> length (r_count list_bitset ?s)"
    unfolding c by simp_all
  from restricted_inc_saturates [OF i this] obtain sm' where "r_inc list_bitset ?s 0 2 = (Ok (), sm')"
    "r_count list_bitset sm' = sat_bump 1 (unat (0 :: u64)) (unat (0 :: u64) + unat (2 :: u64)) [0, 1, 0]"
    unfolding c by blast
  moreover have "sat_bump 1 (unat (0 :: u64)) (unat (0 :: u64) + unat (2 :: u64)) [0, 1, 0] = [1, 1, 0]"
    by code_simp
  ultimately show ?thesis using i by simp
qed

text \<open>C27: \<open>RestrictedSpaceMap::alloc\<close> on a non-empty map: it returns a block that was free and marks only
  it; on a full map it returns \<open>None\<close>, unless the allocation pointer is zero, where the search of
  the empty range before it fails with an index error instead.\<close>

theorem restricted_alloc_spec:
  assumes inv: "r_inv bs sm" and ne: "0 < length (r_count bs sm)"
  shows "case r_alloc bs sm of
      (Ok (Some b), sm') \<Rightarrow> unat b < length (r_count bs sm) \<and> r_count bs sm ! unat b = 0 \<and>
        r_count bs sm' = (r_count bs sm)[unat b := 1] \<and> r_inv bs sm'
    | (Ok None, sm') \<Rightarrow> sm' = sm \<and> 0 \<notin> set (r_count bs sm) \<and> r_alloc_begin sm \<noteq> 0
    | (Err e, sm') \<Rightarrow> sm' = sm \<and> 0 \<notin> set (r_count bs sm) \<and> r_alloc_begin sm = 0 \<and> e = BlockOutOfBounds
    | (Panic, _) \<Rightarrow> False"
proof -
  let ?n = "bs_len bs (r_counts sm)"
  have ne': "0 < ?n" using ne by simp
  have l: "?n < 2 ^ 63" "unat (r_alloc_begin sm) \<le> ?n" using inv by (simp_all add: r_inv_def)
  have full: "0 \<notin> set (r_count bs sm) \<longleftrightarrow> (\<forall>i < ?n. bits bs (r_counts sm) ! i)"
    by (force simp: r_count_def in_set_conv_nth)
  note eq = r_alloc_eq [OF inv ne']
  consider (err) "(\<forall>i. unat (r_alloc_begin sm) \<le> i \<and> i < ?n \<longrightarrow> bits bs (r_counts sm) ! i) \<and> r_alloc_begin sm = 0"
    | (none) "r_alloc bs sm = (Ok None, sm)" "r_alloc_begin sm \<noteq> 0 \<or> \<not> (\<forall>i < ?n. bits bs (r_counts sm) ! i)"
      "find (\<lambda>b. \<not> bits bs (r_counts sm) ! unat b) (alloc_order (r_alloc_begin sm) ?n) = None"
    | (some) b sm' where "r_alloc bs sm = (Ok (Some b), sm')"
    using eq by (auto split: option.splits if_splits)
  then show ?thesis
  proof cases
    case err
    then show ?thesis using eq full by simp
  next
    case none
    have all: "bits bs (r_counts sm) ! i" if "i < ?n" for i
    proof -
      have ui: "unat (word_of_nat i :: u64) = i" using that l by (intro unat_of_nat64) simp
      have "(word_of_nat i :: u64) \<in> set (alloc_order (r_alloc_begin sm) ?n)"
        using that l ui by (subst set_alloc_order) simp_all
      with none(3) ui show ?thesis by (auto simp: find_None_iff)
    qed
    with none full show ?thesis by auto
  next
    case some
    with r_alloc_Some [OF inv some ne'] show ?thesis by (simp add: r_count_def map_update)
  qed
qed

theorem restricted_alloc_spec_witness:
  "r_inv list_bitset \<lparr>r_nr_allocated = 2, r_alloc_begin = 0, r_counts = [True, True]\<rparr> \<and>
   fst (r_alloc list_bitset \<lparr>r_nr_allocated = 2, r_alloc_begin = 0, r_counts = [True, True]\<rparr>) =
     Err BlockOutOfBounds"
proof -
  let ?s = "\<lparr>r_nr_allocated = 2, r_alloc_begin = 0, r_counts = [True, True]\<rparr>"
  have i: "r_inv list_bitset ?s"
    by (simp add: r_inv_def bitset_laws_list bits_list_bitset ones_def) (simp add: list_bitset_def)
  have "r_count list_bitset ?s = [1, 1]" by (simp add: r_count_def bits_list_bitset)
  with restricted_alloc_spec [OF i] i show ?thesis
    by (auto simp: nth_Cons split: prod.splits result.splits option.splits nat.splits)
qed

text \<open>\<open>RestrictedTwoSpaceMap::inc\<close> of a range within the map succeeds, counts to two and no
  further, keeps the two bits of every block exclusive and \<open>nr_allocated\<close> the number of non-zero counts.\<close>

theorem two_inc_saturates:
  assumes inv: "t_inv bs sm" and len: "unat begin + unat len \<le> length (t_count bs sm)"
  shows "\<exists>sm'. t_inc bs sm begin len = (Ok (), sm') \<and> t_inv bs sm' \<and>
    t_count bs sm' = sat_bump 2 (unat begin) (unat begin + unat len) (t_count bs sm)"
proof -
  have s: "length (t_count bs sm) < 2 ^ 62" using inv t_count_small by (auto simp: t_inv_def)
  have e: "unat (begin + len) = unat begin + unat len"
    using len s by (intro unat_plus_no_overflow) simp
  with t_inc_loop [OF inv, of "begin + len" "begin"] len show ?thesis by (auto simp: t_inc_def)
qed

theorem two_inc_saturates_witness:
  "t_inv list_bitset \<lparr>r_nr_allocated = 2, r_alloc_begin = 0, r_counts = [False, False, True, False, False, True]\<rparr> \<and>
   t_count list_bitset (snd (t_inc list_bitset
     \<lparr>r_nr_allocated = 2, r_alloc_begin = 0, r_counts = [False, False, True, False, False, True]\<rparr> 0 3)) = [1, 2, 2]"
proof -
  let ?s = "\<lparr>r_nr_allocated = 2, r_alloc_begin = 0, r_counts = [False, False, True, False, False, True]\<rparr>"
  have c: "t_count list_bitset ?s = [0, 1, 2]" by (simp add: t_count_def bits_list_bitset)
  have i: "t_inv list_bitset ?s"
    unfolding t_inv_def c
    by (simp add: t_wf_def bitset_laws_list bits_list_bitset nonzero_def) (simp add: list_bitset_def)
  moreover have "sat_bump 2 0 3 [0, 1, 2] = [1, 2, 2]" by code_simp
  ultimately show ?thesis using two_inc_saturates [OF i, of 0 3] c by auto
qed

text \<open>\<open>RestrictedTwoSpaceMap::set\<close> to at most two stores the count and returns the old one, but the
  number of allocated blocks stays right only if the count does not go from two to zero: then it is one
  too high.\<close>

theorem two_set_allocated:
  assumes inv: "t_inv bs sm" and b: "unat b < length (t_count bs sm)" and v: "unat v \<le> 2"
  shows "\<exists>old sm'. t_set bs sm b v = (Ok old, sm') \<and> unat old = t_count bs sm ! unat b \<and>
    t_count bs sm' = (t_count bs sm)[unat b := unat v] \<and>
    unat (r_nr_allocated sm') = nonzero (t_count bs sm') + (if unat old = 2 \<and> v = 0 then 1 else 0)"
proof -
  have wf: "t_wf bs sm" and nr: "unat (r_nr_allocated sm) = nonzero (t_count bs sm)"
    using inv by (simp_all add: t_inv_def)
  obtain sm' where s: "t_set bs sm b v = (Ok (t_get bs sm b), sm')"
    "t_count bs sm' = (t_count bs sm)[unat b := unat v]"
    "r_nr_allocated sm' = r_nr_allocated sm + (if v \<noteq> 0 \<and> t_count bs sm ! unat b = 0 then 1
      else if v = 0 \<and> t_count bs sm ! unat b = 1 then - 1 else 0)"
    by (rule t_set_count [OF wf b v])
  have up: "unat (r_nr_allocated sm + 1) = unat (r_nr_allocated sm) + 1"
    using nr nonzero_le [of "t_count bs sm"] t_count_small [OF wf]
    by (intro trans [OF unat_plus_no_overflow]) simp_all
  have down: "unat (r_nr_allocated sm - 1) + 1 = unat (r_nr_allocated sm)" if "t_count bs sm ! unat b \<noteq> 0"
    using nonzero_pos [OF b that] nr by (simp add: unat_dec)
  have c2: "t_count bs sm ! unat b \<le> 2" by (rule two.count_cap [OF wf b])
  have "unat (r_nr_allocated sm') = nonzero (t_count bs sm') + (if t_count bs sm ! unat b = 2 \<and> v = 0 then 1 else 0)"
    using nonzero_update [OF b, of "unat v"] nr up down c2 unfolding s(2,3)
    by (cases "v = 0"; cases "t_count bs sm ! unat b = 0"; cases "t_count bs sm ! unat b = 1")
       (auto simp: unat_eq_0)
  with s t_get_count [OF wf b] show ?thesis by auto
qed

theorem two_set_allocated_witness:
  "t_inv list_bitset \<lparr>r_nr_allocated = 1, r_alloc_begin = 0, r_counts = [False, True]\<rparr> \<and>
   r_nr_allocated (snd (t_set list_bitset
     \<lparr>r_nr_allocated = 1, r_alloc_begin = 0, r_counts = [False, True]\<rparr> 0 0)) = 1"
proof -
  let ?s = "\<lparr>r_nr_allocated = 1, r_alloc_begin = 0, r_counts = [False, True]\<rparr>"
  have c: "t_count list_bitset ?s = [2]" by (simp add: t_count_def bits_list_bitset)
  have i: "t_inv list_bitset ?s"
    unfolding t_inv_def c
    by (simp add: t_wf_def bitset_laws_list bits_list_bitset nonzero_def) (simp add: list_bitset_def)
  then show ?thesis
    using two_set_allocated [OF i, of 0 0] c by (auto simp: nonzero_def word_unat_eq_iff)
qed

text \<open>C28: \<open>RestrictedTwoSpaceMap::alloc\<close> returns the first free block at or after the allocation
  pointer; if there is none it panics, even where a block before the pointer is free, because the search
  runs to the length of the bit set and takes the block behind the last one for a free one.\<close>

theorem two_alloc_spec:
  assumes inv: "t_inv bs sm" and ab: "unat (r_alloc_begin sm) \<le> length (t_count bs sm)"
    and ne: "0 < length (t_count bs sm)"
  shows "case find (\<lambda>i. t_count bs sm ! i = 0) [unat (r_alloc_begin sm)..<length (t_count bs sm)] of
      None \<Rightarrow> t_alloc bs sm = (Panic, sm)
    | Some i \<Rightarrow> \<exists>sm'. t_alloc bs sm = (Ok (Some (word_of_nat i)), sm') \<and> t_inv bs sm' \<and>
        t_count bs sm' = (t_count bs sm)[i := 1] \<and> r_alloc_begin sm' = word_of_nat i + 1"
proof -
  let ?n = "length (t_count bs sm)"
  have wf: "t_wf bs sm" using inv by (simp add: t_inv_def)
  have s: "?n < 2 ^ 62" by (rule t_count_small [OF wf])
  have n: "unat (word_of_nat ?n :: u64) = ?n" using s by (intro unat_of_nat64) simp
  have "find (\<lambda>b :: u64. t_count bs sm ! unat b = 0) (map word_of_nat xs) =
      map_option word_of_nat (find (\<lambda>i. t_count bs sm ! i = 0) xs)" if "\<forall>i \<in> set xs. i < ?n" for xs
    using that
  proof (induction xs)
    case (Cons x xs)
    then have "unat (word_of_nat x :: u64) = x" using s by (intro unat_of_nat64) simp
    with Cons show ?case by simp
  qed simp
  from this [of "[unat (r_alloc_begin sm)..<?n]"] n
  have find: "find (\<lambda>b. t_count bs sm ! unat b = 0) (range64 (r_alloc_begin sm) (word_of_nat ?n)) =
      map_option word_of_nat (find (\<lambda>i. t_count bs sm ! i = 0) [unat (r_alloc_begin sm)..<?n])"
    by (simp add: range64_def)
  show ?thesis
  proof (cases "find (\<lambda>i. t_count bs sm ! i = 0) [unat (r_alloc_begin sm)..<?n]")
    case None
    with find show ?thesis by (simp add: t_alloc_eq [OF wf ab ne])
  next
    case (Some i)
    then have i: "i < ?n" by (auto dest!: find_SomeD)
    then have ui: "unat (word_of_nat i :: u64) = i" using s by (intro unat_of_nat64) simp
    from Some find obtain sm' where "t_alloc bs sm = (Ok (Some (word_of_nat i)), sm')" "t_inv bs sm'"
      "t_count bs sm' = (t_count bs sm)[i := 1]" "r_alloc_begin sm' = word_of_nat i + 1"
      using t_alloc_Some [OF inv ab, of "word_of_nat i"] ui by auto
    with Some show ?thesis by simp
  qed
qed

theorem two_alloc_spec_witness:
  "t_inv list_bitset \<lparr>r_nr_allocated = 1, r_alloc_begin = 1, r_counts = [False, False, True, False]\<rparr> \<and>
   fst (t_alloc list_bitset \<lparr>r_nr_allocated = 1, r_alloc_begin = 1, r_counts = [False, False, True, False]\<rparr>) = Panic"
proof -
  let ?s = "\<lparr>r_nr_allocated = 1, r_alloc_begin = 1, r_counts = [False, False, True, False]\<rparr>"
  have c: "t_count list_bitset ?s = [0, 1]" by (simp add: t_count_def bits_list_bitset)
  have i: "t_inv list_bitset ?s"
    unfolding t_inv_def c
    by (simp add: t_wf_def bitset_laws_list bits_list_bitset nonzero_def) (simp add: list_bitset_def)
  have "find (\<lambda>i. [0, 1 :: nat] ! i = 0) [1..<2] = None" by code_simp
  then show ?thesis
    using two_alloc_spec [OF i] i c by simp
qed

end
