(* ===== verification/Sm_Region.thy ===== *)
theory Sm_Region
  imports Restricted_Space_Map
begin

text \<open>
  The regions of \<open>src/pdata/space_map/aggregator.rs\<close>: the counts of 1024 consecutive blocks.
  \<open>U32Region\<close> starts without counts and changes its representation to a wider one when a count no
  longer fits; \<open>RestrictedTwoRegion\<close> packs counts of at most two into two bits each. The trait
  \<open>Region\<close> is a record of its operations and the locale \<open>region\<close> its contract; both kinds of
  region are interpretations of it. Results that cannot be errors are \<open>Ok\<close> or \<open>Panic\<close>.
\<close>

section \<open>What a bit set answers\<close>

lemma bitset_set_SomeD:
  assumes "bitset_laws bs" "bs_set bs s i v = Some t"
  shows "i < bs_len bs s" "bs_len bs t = bs_len bs s"
    "bs_contains bs t k \<longleftrightarrow> (if k = i then v else bs_contains bs s k)"
proof -
  have *: "if i < bs_len bs s then \<exists>t. bs_set bs s i v = Some t \<and> bits bs t = (bits bs s)[i := v]
      else bs_set bs s i v = None" using assms(1) unfolding bitset_laws_def by blast
  with assms(2) show i: "i < bs_len bs s" by (auto split: if_splits)
  from bitset_set [OF assms(1) i, of v] assms(2)
  have t: "bits bs t = (bits bs s)[i := v]" "bs_len bs t = bs_len bs s" by auto
  then show "bs_len bs t = bs_len bs s" by simp
  show "bs_contains bs t k \<longleftrightarrow> (if k = i then v else bs_contains bs s k)"
    using i t by (auto simp: bitset_contains [OF assms(1)] nth_list_update)
qed

lemma bitset_insert_SomeD:
  assumes "bitset_laws bs" "bs_insert bs s i = Some t"
  shows "i < bs_len bs s" "bs_len bs t = bs_len bs s"
    "bs_contains bs t k \<longleftrightarrow> k = i \<or> bs_contains bs s k"
proof -
  show i: "i < bs_len bs s" using assms bitset_insert_None [OF assms(1)] by (metis not_less option.distinct(1))
  from bitset_insert [OF assms(1) i] assms(2)
  have t: "bits bs t = (bits bs s)[i := True]" "bs_len bs t = bs_len bs s" by auto
  then show "bs_len bs t = bs_len bs s" by simp
  show "bs_contains bs t k \<longleftrightarrow> k = i \<or> bs_contains bs s k"
    using i t by (auto simp: bitset_contains [OF assms(1)] nth_list_update)
qed

lemma bitset_toggle_SomeD:
  assumes "bitset_laws bs" "bs_toggle bs s i = Some t"
  shows "i < bs_len bs s" "bs_len bs t = bs_len bs s"
    "bs_contains bs t k \<longleftrightarrow> (if k = i then \<not> bs_contains bs s k else bs_contains bs s k)"
proof -
  have *: "if i < bs_len bs s then \<exists>t. bs_toggle bs s i = Some t \<and> bits bs t = (bits bs s)[i := \<not> bits bs s ! i]
      else bs_toggle bs s i = None" using assms(1) unfolding bitset_laws_def by blast
  with assms(2) show i: "i < bs_len bs s" by (auto split: if_splits)
  from bitset_toggle [OF assms(1) i] assms(2)
  have t: "bits bs t = (bits bs s)[i := \<not> bits bs s ! i]" "bs_len bs t = bs_len bs s" by auto
  then show "bs_len bs t = bs_len bs s" by simp
  show "bs_contains bs t k \<longleftrightarrow> (if k = i then \<not> bs_contains bs s k else bs_contains bs s k)"
    using i t by (auto simp: bitset_contains [OF assms(1)] nth_list_update)
qed

lemma bitset_set_Some: "bitset_laws bs \<Longrightarrow> i < bs_len bs s \<Longrightarrow> \<exists>t. bs_set bs s i v = Some t"
  by (metis bitset_set)

lemma bitset_insert_Some: "bitset_laws bs \<Longrightarrow> i < bs_len bs s \<Longrightarrow> \<exists>t. bs_insert bs s i = Some t"
  by (metis bitset_insert)

lemma bitset_toggle_Some: "bitset_laws bs \<Longrightarrow> i < bs_len bs s \<Longrightarrow> \<exists>t. bs_toggle bs s i = Some t"
  by (metis bitset_toggle)

section \<open>The trait\<close>

definition REGION_SIZE :: nat where
  "REGION_SIZE = 1024"

text \<open>\<open>block % REGION_SIZE\<close>.\<close>

definition slot :: "u64 \<Rightarrow> nat" where
  "slot block = unat block mod REGION_SIZE"

lemma slot_less [simp]: "slot b < REGION_SIZE" "slot b < 1024" "\<not> REGION_SIZE \<le> slot b"
  by (simp_all add: slot_def REGION_SIZE_def not_le)

type_synonym ('s, 'a) panics = "(unit, 'a) result \<times> 's"

record ('r, 'b) region_ops =
  rg_default :: 'r
  rg_increment :: "u64 list \<Rightarrow> 'r \<Rightarrow> ('r, unit) panics"
  rg_lookup :: "'r \<Rightarrow> u64 \<Rightarrow> u32 list \<Rightarrow> (unit, u64 \<times> u32 list) result"
  rg_set :: "(u64 \<times> u32) list \<Rightarrow> 'r \<Rightarrow> ('r, unit) panics"
  rg_test_and_inc :: "u64 list \<Rightarrow> nat \<Rightarrow> 'r \<times> 'b \<Rightarrow> ('r \<times> 'b, unit) panics"
  rg_rep_size :: "'r \<Rightarrow> nat"
  rg_nr_allocated :: "'r \<Rightarrow> u32"

section \<open>U32Region\<close>

datatype 'b u32_rep = NoCounts | Bits 'b | U8s "u8 list" | U16s "u16 list" | U32s "u32 list"

record 'b u32_region =
  ur_rep :: "'b u32_rep"
  ur_nr_allocated :: u32

definition u32_region_default :: "'b u32_region" where
  "u32_region_default = \<lparr>ur_rep = NoCounts, ur_nr_allocated = 0\<rparr>"

text \<open>\<open>vec![0; REGION_SIZE]\<close> with a one at every index the bit set holds; an index behind the end panics.\<close>

definition unpack_bits :: "'b bitset \<Rightarrow> 'b \<Rightarrow> (unit, u8 list) result" where
  "unpack_bits bs s = foldr_res (\<lambda>b bytes. if b < length bytes then Ok (bytes[b := 1]) else Panic)
     (bs_ones bs s) (replicate REGION_SIZE 0)"

fun upgrade :: "'b bitset \<Rightarrow> 'b u32_rep \<Rightarrow> (unit, 'b u32_rep) result" where
  "upgrade bs NoCounts = Ok (Bits (bs_with_capacity bs REGION_SIZE))"
| "upgrade bs (Bits s) = mapr U8s (unpack_bits bs s)"
| "upgrade bs (U8s cs) = Ok (U16s (map ucast cs))"
| "upgrade bs (U16s cs) = Ok (U32s (map ucast cs))"
| "upgrade bs (U32s cs) = Panic"

datatype inc_result = Success | NeedUpgrade nat

text \<open>
  The loops over the blocks; \<open>i\<close> is the index of the first block. Vectors of bytes and of
  \<open>u16\<close> go the same way, the one of \<open>u32\<close> has no largest value to stop at.
\<close>

fun inc_bits :: "'b bitset \<Rightarrow> nat \<Rightarrow> u64 list \<Rightarrow> 'b \<times> u32 \<Rightarrow> ('b \<times> u32, inc_result) panics" where
  "inc_bits bs i [] st = (Ok Success, st)"
| "inc_bits bs i (block # blocks) (s, n) =
    (if bs_contains bs s (slot block) then (Ok (NeedUpgrade i), s, n)
     else case bs_insert bs s (slot block) of None \<Rightarrow> (Panic, s, n)
     | Some s \<Rightarrow> inc_bits bs (i + 1) blocks (s, n + 1))"

fun inc_words :: "nat \<Rightarrow> u64 list \<Rightarrow> 'v::len word list \<times> u32 \<Rightarrow> ('v word list \<times> u32, inc_result) panics" where
  "inc_words i [] st = (Ok Success, st)"
| "inc_words i (block # blocks) (cs, n) =
    (let b = slot block in
     if length cs \<le> b then (Panic, cs, n)
     else if cs ! b = - 1 then (Ok (NeedUpgrade i), cs, n)
     else inc_words (i + 1) blocks (cs[b := cs ! b + 1], if cs ! b = 0 then n + 1 else n))"

fun inc_u32s :: "u64 list \<Rightarrow> u32 list \<times> u32 \<Rightarrow> (u32 list \<times> u32, inc_result) panics" where
  "inc_u32s [] st = (Ok Success, st)"
| "inc_u32s (block # blocks) (cs, n) =
    (let b = slot block in
     if length cs \<le> b then (Panic, cs, n)
     else inc_u32s blocks (cs[b := cs ! b + 1], if cs ! b = 0 then n + 1 else n))"

text \<open>The representation and the number of allocated blocks go back into the region.\<close>

definition put_rep :: "('r \<Rightarrow> 'b u32_rep) \<Rightarrow> 'a \<times> 'r \<times> u32 \<Rightarrow> 'a \<times> 'b u32_region" where
  "put_rep c = (\<lambda>(r, s, n). (r, \<lparr>ur_rep = c s, ur_nr_allocated = n\<rparr>))"

definition increment_step :: "'b bitset \<Rightarrow> u64 list \<Rightarrow> 'b u32_region \<Rightarrow> ('b u32_region, inc_result) panics" where
  "increment_step bs blocks r =
    (if blocks = [] then (Panic, r)
     else case ur_rep r of
       NoCounts \<Rightarrow> (Ok (NeedUpgrade 0), r)
     | Bits s \<Rightarrow> put_rep Bits (inc_bits bs 0 blocks (s, ur_nr_allocated r))
     | U8s cs \<Rightarrow> put_rep U8s (inc_words 0 blocks (cs, ur_nr_allocated r))
     | U16s cs \<Rightarrow> put_rep U16s (inc_words 0 blocks (cs, ur_nr_allocated r))
     | U32s cs \<Rightarrow> put_rep U32s (inc_u32s blocks (cs, ur_nr_allocated r)))"

text \<open>\<open>self.rep = self.rep.upgrade()\<close>, and how many more upgrades a region can take.\<close>

definition upgrade_rep :: "'b bitset \<Rightarrow> 'b u32_region \<Rightarrow> ('b u32_region, unit) panics" where
  "upgrade_rep bs r = (case upgrade bs (ur_rep r) of Ok rep \<Rightarrow> (Ok (), r\<lparr>ur_rep := rep\<rparr>) | _ \<Rightarrow> (Panic, r))"

fun upgrades_left :: "'b u32_rep \<Rightarrow> nat" where
  "upgrades_left NoCounts = 4" | "upgrades_left (Bits s) = 3" | "upgrades_left (U8s cs) = 2"
| "upgrades_left (U16s cs) = 1" | "upgrades_left (U32s cs) = 0"

lemma upgrade_left: "upgrade bs rep = Ok rep' \<Longrightarrow> upgrades_left rep' < upgrades_left rep"
  by (cases rep) auto

lemma upgrade_rep_left: "upgrade_rep bs r = (Ok u, r') \<Longrightarrow> upgrades_left (ur_rep r') < upgrades_left (ur_rep r)"
  by (auto simp: upgrade_rep_def split: result.splits dest: upgrade_left)

lemma increment_kind: "increment_step bs blocks r = (x, r') \<Longrightarrow> upgrades_left (ur_rep r') = upgrades_left (ur_rep r)"
  by (auto simp: increment_step_def put_rep_def split: if_splits u32_rep.splits prod.splits)

function u32_increment :: "'b bitset \<Rightarrow> u64 list \<Rightarrow> 'b u32_region \<Rightarrow> ('b u32_region, unit) panics" where
  "u32_increment bs blocks r = (case increment_step bs blocks r of
     (Ok Success, r) \<Rightarrow> (Ok (), r)
   | (Ok (NeedUpgrade i), r) \<Rightarrow> (case upgrade_rep bs r of
       (Ok u, r) \<Rightarrow> u32_increment bs (drop i blocks) r
     | (_, r) \<Rightarrow> (Panic, r))
   | (_, r) \<Rightarrow> (Panic, r))"
  by pat_completeness auto
termination
  by (relation "measure (\<lambda>(bs, blocks, r). upgrades_left (ur_rep r))")
    (auto dest!: increment_kind [OF sym] upgrade_rep_left [OF sym])

text \<open>\<open>test_and_inc_\<close>: \<open>results.set\<close> panics outside the set. A count of \<open>u32\<close> stops at its largest value here.\<close>

fun tai_bits :: "'b bitset \<Rightarrow> nat \<Rightarrow> nat \<Rightarrow> u64 list \<Rightarrow> ('b \<times> u32) \<times> 'b \<Rightarrow> (('b \<times> u32) \<times> 'b, inc_result) panics" where
  "tai_bits bs offset i [] st = (Ok Success, st)"
| "tai_bits bs offset i (block # blocks) ((s, n), results) =
    (case bs_set bs results (offset + i) (bs_contains bs s (slot block)) of None \<Rightarrow> (Panic, (s, n), results)
     | Some results \<Rightarrow>
       if bs_contains bs s (slot block) then (Ok (NeedUpgrade i), (s, n), results)
       else case bs_insert bs s (slot block) of None \<Rightarrow> (Panic, (s, n), results)
       | Some s \<Rightarrow> tai_bits bs offset (i + 1) blocks ((s, n + 1), results))"

fun tai_words :: "'b bitset \<Rightarrow> nat \<Rightarrow> nat \<Rightarrow> u64 list \<Rightarrow> ('v::len word list \<times> u32) \<times> 'b \<Rightarrow>
    (('v word list \<times> u32) \<times> 'b, inc_result) panics" where
  "tai_words bs offset i [] st = (Ok Success, st)"
| "tai_words bs offset i (block # blocks) ((cs, n), results) =
    (let b = slot block in
     if length cs \<le> b then (Panic, (cs, n), results)
     else case bs_set bs results (offset + i) (0 < cs ! b) of None \<Rightarrow> (Panic, (cs, n), results)
     | Some results \<Rightarrow>
       if cs ! b = - 1 then (Ok (NeedUpgrade i), (cs, n), results)
       else tai_words bs offset (i + 1) blocks ((cs[b := cs ! b + 1], if cs ! b = 0 then n + 1 else n), results))"

definition sat_inc :: "'v::len word \<Rightarrow> 'v word" where
  "sat_inc c = (if c = - 1 then c else c + 1)"

fun tai_u32s :: "'b bitset \<Rightarrow> nat \<Rightarrow> nat \<Rightarrow> u64 list \<Rightarrow> (u32 list \<times> u32) \<times> 'b \<Rightarrow>
    ((u32 list \<times> u32) \<times> 'b, inc_result) panics" where
  "tai_u32s bs offset i [] st = (Ok Success, st)"
| "tai_u32s bs offset i (block # blocks) ((cs, n), results) =
    (let b = slot block in
     if length cs \<le> b then (Panic, (cs, n), results)
     else case bs_set bs results (offset + i) (0 < cs ! b) of None \<Rightarrow> (Panic, (cs, n), results)
     | Some results \<Rightarrow>
       tai_u32s bs offset (i + 1) blocks ((cs[b := sat_inc (cs ! b)], if cs ! b = 0 then n + 1 else n), results))"

definition put_rep2 :: "('r \<Rightarrow> 'b u32_rep) \<Rightarrow> 'a \<times> ('r \<times> u32) \<times> 'b \<Rightarrow> 'a \<times> 'b u32_region \<times> 'b" where
  "put_rep2 c = (\<lambda>(r, (s, n), results). (r, \<lparr>ur_rep = c s, ur_nr_allocated = n\<rparr>, results))"

definition test_and_inc_step :: "'b bitset \<Rightarrow> nat \<Rightarrow> u64 list \<Rightarrow> 'b u32_region \<times> 'b \<Rightarrow>
    ('b u32_region \<times> 'b, inc_result) panics" where
  "test_and_inc_step bs offset blocks = (\<lambda>(r, results). (case ur_rep r of
       NoCounts \<Rightarrow> (Ok (NeedUpgrade 0), r, results)
     | Bits s \<Rightarrow> put_rep2 Bits (tai_bits bs offset 0 blocks ((s, ur_nr_allocated r), results))
     | U8s cs \<Rightarrow> put_rep2 U8s (tai_words bs offset 0 blocks ((cs, ur_nr_allocated r), results))
     | U16s cs \<Rightarrow> put_rep2 U16s (tai_words bs offset 0 blocks ((cs, ur_nr_allocated r), results))
     | U32s cs \<Rightarrow> put_rep2 U32s (tai_u32s bs offset 0 blocks ((cs, ur_nr_allocated r), results))))"

lemma test_and_inc_kind:
  "test_and_inc_step bs offset blocks (r, results) = (x, r', results') \<Longrightarrow>
     upgrades_left (ur_rep r') = upgrades_left (ur_rep r)"
  by (auto simp: test_and_inc_step_def put_rep2_def split: u32_rep.splits prod.splits)

function u32_test_and_inc :: "'b bitset \<Rightarrow> u64 list \<Rightarrow> nat \<Rightarrow> 'b u32_region \<times> 'b \<Rightarrow> ('b u32_region \<times> 'b, unit) panics" where
  "u32_test_and_inc bs blocks offset st = (if blocks = [] then (Ok (), st) else
     case test_and_inc_step bs offset blocks st of
       (Ok Success, st) \<Rightarrow> (Ok (), st)
     | (Ok (NeedUpgrade i), r, results) \<Rightarrow> (case upgrade_rep bs r of
         (Ok u, r) \<Rightarrow> u32_test_and_inc bs (drop i blocks) (offset + i) (r, results)
       | (_, r) \<Rightarrow> (Panic, r, results))
     | (_, st) \<Rightarrow> (Panic, st))"
  by pat_completeness auto
termination
  by (relation "measure (\<lambda>(bs, blocks, offset, r, results). upgrades_left (ur_rep r))")
    (auto dest!: test_and_inc_kind [OF sym] upgrade_rep_left [OF sym])

text \<open>The change of \<open>nr_allocated\<close> when a count goes from \<open>before\<close> to \<open>ref_count\<close>.\<close>

definition count_change :: "u32 \<Rightarrow> u32 \<Rightarrow> 'b u32_region \<Rightarrow> 'b u32_region" where
  "count_change before ref_count r =
    (if before = 0 \<and> ref_count \<noteq> 0 then r\<lparr>ur_nr_allocated := ur_nr_allocated r + 1\<rparr>
     else if before \<noteq> 0 \<and> ref_count = 0 then r\<lparr>ur_nr_allocated := ur_nr_allocated r - 1\<rparr>
     else r)"

fun set_step :: "'b bitset \<Rightarrow> nat \<Rightarrow> (u64 \<times> u32) list \<Rightarrow> 'b u32_region \<Rightarrow> ('b u32_region, inc_result) panics" where
  "set_step bs i [] r = (Ok Success, r)"
| "set_step bs i ((block, ref_count) # pairs) r =
    (let b = slot block in case ur_rep r of
       NoCounts \<Rightarrow> if 0 < ref_count then (Ok (NeedUpgrade i), r) else set_step bs (i + 1) pairs r
     | Bits s \<Rightarrow>
         if 1 < ref_count then (Ok (NeedUpgrade i), r)
         else (case bs_set bs s b (ref_count = 1) of None \<Rightarrow> (Panic, r)
           | Some s' \<Rightarrow> set_step bs (i + 1) pairs
               (count_change (of_bool (bs_contains bs s b)) ref_count (r\<lparr>ur_rep := Bits s'\<rparr>)))
     | U8s cs \<Rightarrow>
         if 255 < ref_count then (Ok (NeedUpgrade i), r)
         else if length cs \<le> b then (Panic, r)
         else set_step bs (i + 1) pairs
           (count_change (ucast (cs ! b)) ref_count (r\<lparr>ur_rep := U8s (cs[b := ucast ref_count])\<rparr>))
     | U16s cs \<Rightarrow>
         if 65535 < ref_count then (Ok (NeedUpgrade i), r)
         else if length cs \<le> b then (Panic, r)
         else set_step bs (i + 1) pairs
           (count_change (ucast (cs ! b)) ref_count (r\<lparr>ur_rep := U16s (cs[b := ucast ref_count])\<rparr>))
     | U32s cs \<Rightarrow>
         if length cs \<le> b then (Panic, r)
         else set_step bs (i + 1) pairs (count_change (cs ! b) ref_count (r\<lparr>ur_rep := U32s (cs[b := ref_count])\<rparr>)))"

lemma count_change_rep [simp]: "ur_rep (count_change x y r) = ur_rep r"
  by (simp add: count_change_def)

lemma set_kind: "set_step bs i pairs r = (x, r') \<Longrightarrow> upgrades_left (ur_rep r') = upgrades_left (ur_rep r)"
  by (induction bs i pairs r rule: set_step.induct)
    (auto simp: Let_def split: u32_rep.splits if_splits option.splits)

function u32_set :: "'b bitset \<Rightarrow> (u64 \<times> u32) list \<Rightarrow> 'b u32_region \<Rightarrow> ('b u32_region, unit) panics" where
  "u32_set bs pairs r = (if pairs = [] then (Ok (), r) else case set_step bs 0 pairs r of
     (Ok Success, r) \<Rightarrow> (Ok (), r)
   | (Ok (NeedUpgrade i), r) \<Rightarrow> (case upgrade_rep bs r of
       (Ok u, r) \<Rightarrow> u32_set bs (drop i pairs) r
     | (_, r) \<Rightarrow> (Panic, r))
   | (_, r) \<Rightarrow> (Panic, r))"
  by pat_completeness auto
termination
  by (relation "measure (\<lambda>(bs, pairs, r). upgrades_left (ur_rep r))")
    (auto dest!: set_kind [OF sym] upgrade_rep_left [OF sym])

declare u32_increment.simps [simp del] u32_test_and_inc.simps [simp del] u32_set.simps [simp del]

text \<open>The counts \<open>b..e\<close> of a vector go to the front of the results; an index behind the vector panics.\<close>

definition copy_counts :: "('c \<Rightarrow> u32) \<Rightarrow> 'c list \<Rightarrow> nat \<Rightarrow> nat \<Rightarrow> u32 list \<Rightarrow> (unit, u64 \<times> u32 list) result" where
  "copy_counts f cs b e results =
    (if b < e \<and> length cs < e then Panic
     else Ok (word_of_nat (e - b), map (\<lambda>i. f (cs ! i)) [b..<e] @ drop (e - b) results))"

definition u32_lookup :: "'b bitset \<Rightarrow> 'b u32_region \<Rightarrow> u64 \<Rightarrow> u32 list \<Rightarrow> (unit, u64 \<times> u32 list) result" where
  "u32_lookup bs r block results =
    (let b = slot block; e = min (b + length results) REGION_SIZE in case ur_rep r of
       NoCounts \<Rightarrow> Ok (word_of_nat (e - b), replicate (e - b) 0 @ drop (e - b) results)
     | Bits s \<Rightarrow> Ok (word_of_nat (e - b), map (\<lambda>i. of_bool (bs_contains bs s i)) [b..<e] @ drop (e - b) results)
     | U8s cs \<Rightarrow> copy_counts ucast cs b e results
     | U16s cs \<Rightarrow> copy_counts ucast cs b e results
     | U32s cs \<Rightarrow> copy_counts (\<lambda>c. c) cs b e results)"

definition u32_rep_size :: "'b u32_region \<Rightarrow> nat" where
  "u32_rep_size r = (case ur_rep r of NoCounts \<Rightarrow> 0 | Bits _ \<Rightarrow> REGION_SIZE div 8 | U8s _ \<Rightarrow> REGION_SIZE
     | U16s _ \<Rightarrow> REGION_SIZE * 2 | U32s _ \<Rightarrow> REGION_SIZE * 4)"

definition u32_region_ops :: "'b bitset \<Rightarrow> ('b u32_region, 'b) region_ops" where
  "u32_region_ops bs = \<lparr>rg_default = u32_region_default, rg_increment = u32_increment bs, rg_lookup = u32_lookup bs,
     rg_set = u32_set bs, rg_test_and_inc = u32_test_and_inc bs, rg_rep_size = u32_rep_size,
     rg_nr_allocated = ur_nr_allocated\<rparr>"

section \<open>RestrictedTwoRegion\<close>

record two_region =
  tr_data :: bytes
  tr_nr_allocated :: u32

definition two_region_default :: two_region where
  "two_region_default = \<lparr>tr_data = [], tr_nr_allocated = 0\<rparr>"

definition two_at :: "bytes \<Rightarrow> nat \<Rightarrow> (unit, u8) result" where
  "two_at data index =
    (let byte_idx = index div 4; bit_offset = index mod 4 * 2 in
     if length data \<le> byte_idx then Panic
     else Ok (drop_bit bit_offset (data ! byte_idx) AND 3))"

definition two_put :: "nat \<Rightarrow> u8 \<Rightarrow> bytes \<Rightarrow> (unit, bytes) result" where
  "two_put index v data =
    (let byte_idx = index div 4; bit_offset = index mod 4 * 2 in
     if length data \<le> byte_idx then Panic
     else Ok (data[byte_idx := (data ! byte_idx AND NOT (push_bit bit_offset 3)) OR push_bit bit_offset (v AND 3)]))"

definition two_alloc_data :: "two_region \<Rightarrow> two_region" where
  "two_alloc_data r = (if tr_data r = [] then r\<lparr>tr_data := replicate (REGION_SIZE div 4) 0\<rparr> else r)"

definition two_store :: "nat \<Rightarrow> u8 \<Rightarrow> two_region \<Rightarrow> (two_region, unit) panics" where
  "two_store b v r = (case two_put b v (tr_data r) of Ok d \<Rightarrow> (Ok (), r\<lparr>tr_data := d\<rparr>) | _ \<Rightarrow> (Panic, r))"

text \<open>The increment of one count, which stops at two.\<close>

definition two_bump :: "nat \<Rightarrow> u8 \<Rightarrow> two_region \<Rightarrow> (two_region, unit) panics" where
  "two_bump b current r =
    (if current < 2 then
       two_store b (current + 1) (if current = 0 then r\<lparr>tr_nr_allocated := tr_nr_allocated r + 1\<rparr> else r)
     else (Ok (), r))"

definition two_inc_one :: "u64 \<Rightarrow> two_region \<Rightarrow> (two_region, unit) panics" where
  "two_inc_one block r = (case two_at (tr_data r) (slot block) of Ok current \<Rightarrow> two_bump (slot block) current r | _ \<Rightarrow> (Panic, r))"

definition two_increment :: "u64 list \<Rightarrow> two_region \<Rightarrow> (two_region, unit) panics" where
  "two_increment blocks r = for_each two_inc_one blocks (two_alloc_data r)"

definition two_lookup :: "two_region \<Rightarrow> u64 \<Rightarrow> u32 list \<Rightarrow> (unit, u64 \<times> u32 list) result" where
  "two_lookup r block results =
    (let b = slot block; e = min (b + length results) REGION_SIZE in
     if tr_data r = [] then Ok (word_of_nat (e - b), replicate (e - b) 0 @ drop (e - b) results)
     else bindr (foldr_res (\<lambda>i out. mapr (\<lambda>v. out[i - b := ucast v]) (two_at (tr_data r) i)) [b..<e] results)
       (\<lambda>out. Ok (word_of_nat (e - b), out)))"

definition two_set_one :: "u64 \<times> u32 \<Rightarrow> two_region \<Rightarrow> (two_region, unit) panics" where
  "two_set_one = (\<lambda>(block, rc) r.
    let b = slot block in
    case (if tr_data r = [] then Ok 0 else two_at (tr_data r) b) of
      Ok rc_before \<Rightarrow>
        let rc_saturated = ucast (min rc 2) :: u8 in
        if rc_saturated = rc_before then (Ok (), r)
        else binds (two_store b rc_saturated (two_alloc_data r)) (\<lambda>_ r.
          (Ok (), if rc_before = 0 then r\<lparr>tr_nr_allocated := tr_nr_allocated r + 1\<rparr>
                  else if rc_before \<noteq> 0 \<and> rc_saturated = 0 then r\<lparr>tr_nr_allocated := tr_nr_allocated r - 1\<rparr>
                  else r))
    | _ \<Rightarrow> (Panic, r))"

definition two_set :: "(u64 \<times> u32) list \<Rightarrow> two_region \<Rightarrow> (two_region, unit) panics" where
  "two_set pairs r = for_each two_set_one pairs r"

fun two_tai_loop :: "'b bitset \<Rightarrow> nat \<Rightarrow> u64 list \<Rightarrow> two_region \<times> 'b \<Rightarrow> (two_region \<times> 'b, unit) panics" where
  "two_tai_loop bs pos [] st = (Ok (), st)"
| "two_tai_loop bs pos (block # blocks) (r, results) =
    (case two_at (tr_data r) (slot block) of
       Ok current_rc \<Rightarrow> (case bs_set bs results pos (0 < current_rc) of None \<Rightarrow> (Panic, r, results)
         | Some results \<Rightarrow> (case two_bump (slot block) current_rc r of
             (Ok u, r) \<Rightarrow> two_tai_loop bs (pos + 1) blocks (r, results)
           | (_, r) \<Rightarrow> (Panic, r, results)))
     | _ \<Rightarrow> (Panic, r, results))"

definition two_test_and_inc :: "'b bitset \<Rightarrow> u64 list \<Rightarrow> nat \<Rightarrow> two_region \<times> 'b \<Rightarrow> (two_region \<times> 'b, unit) panics" where
  "two_test_and_inc bs blocks offset = (\<lambda>(r, results). two_tai_loop bs offset blocks (two_alloc_data r, results))"

definition two_rep_size :: "two_region \<Rightarrow> nat" where
  "two_rep_size r = (if tr_data r = [] then 0 else REGION_SIZE div 4)"

definition two_region_ops :: "'b bitset \<Rightarrow> (two_region, 'b) region_ops" where
  "two_region_ops bs = \<lparr>rg_default = two_region_default, rg_increment = two_increment, rg_lookup = two_lookup,
     rg_set = two_set, rg_test_and_inc = two_test_and_inc bs, rg_rep_size = two_rep_size,
     rg_nr_allocated = tr_nr_allocated\<rparr>"

section \<open>The contract\<close>

text \<open>
  The abstract state of a region is the list of its counts, which stop at \<open>cap\<close>. The answers of
  \<open>test_and_inc\<close> are the bits from \<open>offset\<close> on.
\<close>

definition allocated :: "nat list \<Rightarrow> nat" where
  "allocated cs = length (filter ((<) 0) cs)"

definition bump_count :: "nat \<Rightarrow> u64 \<Rightarrow> nat list \<Rightarrow> nat list" where
  "bump_count cap block cs = cs[slot block := min cap (cs ! slot block + 1)]"

definition put_count :: "nat \<Rightarrow> u64 \<times> u32 \<Rightarrow> nat list \<Rightarrow> nat list" where
  "put_count cap = (\<lambda>(block, rc) cs. cs[slot block := min cap (unat rc)])"

fun seen_counts :: "nat \<Rightarrow> u64 list \<Rightarrow> nat list \<Rightarrow> bool list" where
  "seen_counts cap [] cs = []"
| "seen_counts cap (block # blocks) cs = (0 < cs ! slot block) # seen_counts cap blocks (bump_count cap block cs)"

definition fits :: "nat \<Rightarrow> u64 list \<Rightarrow> nat list \<Rightarrow> bool" where
  "fits cap blocks cs \<longleftrightarrow> (\<forall>i<REGION_SIZE. cs ! i + count_list (map slot blocks) i \<le> cap)"

definition marked :: "'b bitset \<Rightarrow> nat \<Rightarrow> bool list \<Rightarrow> 'b \<Rightarrow> 'b \<Rightarrow> bool" where
  "marked bs offset seen results results' \<longleftrightarrow> bs_len bs results' = bs_len bs results \<and>
    (\<forall>k. bs_contains bs results' k =
      (if offset \<le> k \<and> k < offset + length seen then seen ! (k - offset) else bs_contains bs results k))"

lemma allocated_le: "allocated cs \<le> length cs"
  by (simp add: allocated_def)

lemma allocated_update:
  "i < length cs \<Longrightarrow> allocated (cs[i := v]) + of_bool (0 < cs ! i) = allocated cs + of_bool (0 < v)"
proof (induction cs arbitrary: i)
  case (Cons c cs)
  then show ?case by (cases i) (auto simp: allocated_def)
qed simp

lemma allocated_replicate [simp]: "allocated (replicate n 0) = 0"
  by (simp add: allocated_def)

lemma length_bump_count [simp]: "length (bump_count cap b cs) = length cs"
  by (simp add: bump_count_def)

lemma put_count_eq: "put_count cap (block, rc) cs = cs[slot block := min cap (unat rc)]"
  by (simp add: put_count_def)

lemma length_put_count [simp]: "length (put_count cap p cs) = length cs"
  by (cases p) (simp add: put_count_def)

lemma length_fold: "(\<And>x cs. length (g x cs) = length cs) \<Longrightarrow> length (fold g xs cs) = length cs"
  by (induction xs arbitrary: cs) simp_all

lemma length_bumps [simp]: "length (fold (bump_count cap) xs cs) = length cs"
  by (rule length_fold) simp

lemma length_put_counts [simp]: "length (fold (put_count cap) xs cs) = length cs"
  by (rule length_fold) simp

lemma length_seen [simp]: "length (seen_counts cap blocks cs) = length blocks"
  by (induction blocks arbitrary: cs) simp_all

lemma seen_append: "seen_counts cap (xs @ ys) cs = seen_counts cap xs cs @ seen_counts cap ys (fold (bump_count cap) xs cs)"
  by (induction xs arbitrary: cs) simp_all

lemma bumps_nth:
  "i < length cs \<Longrightarrow> \<forall>i<length cs. cs ! i \<le> cap \<Longrightarrow> length cs = REGION_SIZE \<Longrightarrow>
     fold (bump_count cap) blocks cs ! i = min cap (cs ! i + count_list (map slot blocks) i)"
proof (induction blocks arbitrary: cs)
  case (Cons b blocks)
  have "\<forall>i<length (bump_count cap b cs). bump_count cap b cs ! i \<le> cap"
    using Cons.prems by (auto simp: bump_count_def nth_list_update)
  with Cons.IH [of "bump_count cap b cs"] Cons.prems show ?case
    by (auto simp: bump_count_def nth_list_update)
qed simp

lemma put_counts_nth:
  "length cs = REGION_SIZE \<Longrightarrow> i < REGION_SIZE \<Longrightarrow> fold (put_count cap) pairs cs ! i =
     (case find (\<lambda>(b, rc). slot b = i) (rev pairs) of Some (b, rc) \<Rightarrow> min cap (unat rc) | None \<Rightarrow> cs ! i)"
proof (induction pairs rule: rev_induct)
  case (snoc p pairs)
  have "length (fold (put_count cap) pairs cs) = REGION_SIZE" using snoc.prems(1) by simp
  with snoc show ?case by (cases p) (auto simp: put_count_eq nth_list_update)
qed simp

lemma marked_refl [simp]: "marked bs offset [] r r"
  by (auto simp: marked_def)

lemma marked_step:
  assumes "bitset_laws bs" "bs_set bs r offset v = Some r1"
  shows "marked bs offset [v] r r1" and "bs_len bs r1 = bs_len bs r"
  using bitset_set_SomeD [OF assms] by (auto simp: marked_def)

lemma marked_trans:
  assumes "marked bs offset xs r r1" "marked bs (offset + k) ys r1 r2" "k \<le> length xs" "length xs \<le> k + length ys"
  shows "marked bs offset (take k xs @ ys) r r2"
proof -
  have l: "bs_len bs r2 = bs_len bs r" using assms by (simp add: marked_def)
  have "bs_contains bs r2 j = (if offset \<le> j \<and> j < offset + length (take k xs @ ys)
      then (take k xs @ ys) ! (j - offset) else bs_contains bs r j)" for j
    using assms by (auto simp: marked_def nth_append)
  with l show ?thesis by (simp add: marked_def)
qed

text \<open>The laws of a region; one that does not saturate keeps them for increments while no count passes \<open>cap\<close>.\<close>

locale region =
  fixes ops :: "('r, 'b) region_ops"
    and bs :: "'b bitset"
    and wf :: "'r \<Rightarrow> bool"
    and counts :: "'r \<Rightarrow> nat list"
    and cap :: nat
    and saturates :: bool
    and valid :: bool
  assumes wf_default: "valid \<Longrightarrow> wf (rg_default ops)" "valid \<Longrightarrow> counts (rg_default ops) = replicate REGION_SIZE 0"
    and length_counts: "wf r \<Longrightarrow> length (counts r) = REGION_SIZE"
    and counts_cap: "wf r \<Longrightarrow> i < REGION_SIZE \<Longrightarrow> counts r ! i \<le> cap"
    and cap_bounds: "0 < cap" "cap < 2 ^ 32"
    and nr_allocated_law: "wf r \<Longrightarrow> unat (rg_nr_allocated ops r) = allocated (counts r)"
    and lookup_law: "wf r \<Longrightarrow> n = min (length out) (REGION_SIZE - slot b) \<Longrightarrow>
      rg_lookup ops r b out =
        Ok (word_of_nat n, map word_of_nat (take n (drop (slot b) (counts r))) @ drop n out)"
    and increment_law: "wf r \<Longrightarrow> blocks \<noteq> [] \<Longrightarrow> saturates \<or> fits cap blocks (counts r) \<Longrightarrow>
      \<exists>r'. rg_increment ops blocks r = (Ok (), r') \<and> wf r' \<and> counts r' = fold (bump_count cap) blocks (counts r)"
    and set_law: "wf r \<Longrightarrow>
      \<exists>r'. rg_set ops pairs r = (Ok (), r') \<and> wf r' \<and> counts r' = fold (put_count cap) pairs (counts r)"
    and test_and_inc_law: "wf r \<Longrightarrow> offset + length blocks \<le> bs_len bs results \<Longrightarrow>
      \<exists>r' results'. rg_test_and_inc ops blocks offset (r, results) = (Ok (), r', results') \<and> wf r' \<and>
        counts r' = fold (bump_count cap) blocks (counts r) \<and>
        marked bs offset (seen_counts cap blocks (counts r)) results results'"

section \<open>U32Region keeps the contract\<close>

fun rep_counts :: "'b bitset \<Rightarrow> 'b u32_rep \<Rightarrow> nat list" where
  "rep_counts bs NoCounts = replicate REGION_SIZE 0"
| "rep_counts bs (Bits s) = map of_bool (bits bs s)"
| "rep_counts bs (U8s cs) = map unat cs"
| "rep_counts bs (U16s cs) = map unat cs"
| "rep_counts bs (U32s cs) = map unat cs"

definition u32_counts :: "'b bitset \<Rightarrow> 'b u32_region \<Rightarrow> nat list" where
  "u32_counts bs r = rep_counts bs (ur_rep r)"

definition u32_wf :: "'b bitset \<Rightarrow> 'b u32_region \<Rightarrow> bool" where
  "u32_wf bs r \<longleftrightarrow> bitset_laws bs \<and> length (u32_counts bs r) = REGION_SIZE \<and>
     unat (ur_nr_allocated r) = allocated (u32_counts bs r)"

definition u32_cap :: nat where
  "u32_cap = 2 ^ 32 - 1"

text \<open>A loop that stopped has done its step for the elements before the one it stopped at.\<close>

definition part :: "('x \<Rightarrow> nat list \<Rightarrow> nat list) \<Rightarrow> nat \<Rightarrow> 'x list \<Rightarrow> (unit, inc_result) result \<Rightarrow> nat list \<Rightarrow> nat list \<Rightarrow> bool"
where
  "part g i xs x cs cs' \<longleftrightarrow> (\<exists>k\<le>length xs. cs' = fold g (take k xs) cs \<and>
     (x = Ok Success \<and> k = length xs \<or> x = Ok (NeedUpgrade (i + k)) \<and> k < length xs))"

lemma part_Nil: "part g i [] (Ok Success) cs cs"
  by (simp add: part_def)

lemma part_stop: "part g i (b # xs) (Ok (NeedUpgrade i)) cs cs"
  unfolding part_def by (rule exI [of _ 0]) simp

lemma part_Cons: "part g (i + 1) xs x (g b cs) cs' \<Longrightarrow> part g i (b # xs) x cs cs'"
  unfolding part_def by (elim exE conjE, rule_tac x = "Suc k" in exI) auto

lemma part_result: "part g 0 xs x cs cs' \<Longrightarrow> x = Ok Success \<and> cs' = fold g xs cs \<or>
    (\<exists>k<length xs. x = Ok (NeedUpgrade k) \<and> cs' = fold g (take k xs) cs)"
  by (auto simp: part_def)

definition counted :: "nat list \<Rightarrow> u32 \<Rightarrow> bool" where
  "counted cs n \<longleftrightarrow> length cs = REGION_SIZE \<and> unat n = allocated cs"

lemma counted_bump:
  assumes "counted cs n" "0 < cap"
  shows "counted (bump_count cap b cs) (if cs ! slot b = 0 then n + 1 else n)"
proof -
  have l: "slot b < length cs" using assms(1) by (simp add: counted_def)
  have "unat n \<le> 1024" using assms(1) allocated_le [of cs] by (simp add: counted_def REGION_SIZE_def)
  then have n1: "unat (n + 1) = unat n + 1" by (simp add: unat_plus_no_overflow)
  show ?thesis using allocated_update [OF l, of "min cap (cs ! slot b + 1)"] assms n1
    by (auto simp: counted_def bump_count_def)
qed

lemma counted_put:
  assumes "counted cs n" "0 < cap" "v \<le> cap" and before: "(before = 0) = (cs ! slot b = 0)" and "v = unat rc"
  shows "counted (cs[slot b := v])
    (if before = 0 \<and> rc \<noteq> 0 then n + 1 else if before \<noteq> 0 \<and> rc = 0 then n - 1 else n)"
proof -
  have l: "slot b < length cs" using assms(1) by (simp add: counted_def)
  have "unat n \<le> 1024" using assms(1) allocated_le [of cs] by (simp add: counted_def REGION_SIZE_def)
  then have n1: "unat (n + 1) = unat n + 1" by (simp add: unat_plus_no_overflow)
  have up: "allocated (cs[slot b := v]) + of_bool (0 < cs ! slot b) = allocated cs + of_bool (0 < v)"
    by (rule allocated_update [OF l])
  have v0: "(v = 0) = (rc = 0)" using assms(5) by (simp add: unat_eq_0)
  have "unat (n - 1) = unat n - 1" if "0 < unat n" using that by (rule unat_dec)
  then show ?thesis using up n1 v0 before assms(1)
    by (auto simp: counted_def)
qed

text \<open>The loops of \<open>increment_\<close>.\<close>

lemma unat_inc: "(c :: 'a::len word) \<noteq> - 1 \<Longrightarrow> unat (c + 1) = unat c + 1"
  by (metis Suc_eq_plus1 add.commute eq_neg_iff_add_eq_0 unatSuc)

lemma unat_cap: "LENGTH('v::len) \<le> 32 \<Longrightarrow> unat (c :: 'v word) \<le> u32_cap"
proof -
  assume "LENGTH('v) \<le> 32"
  then have "(2 :: nat) ^ LENGTH('v) \<le> 2 ^ 32" by (rule power_increasing) simp
  with unat_lt2p [of c] have "unat c < 2 ^ 32" by (rule less_le_trans)
  then show ?thesis by (simp add: u32_cap_def)
qed

lemma bump_word:
  assumes "LENGTH('v::len) \<le> 32" "(cs :: 'v word list) ! slot b \<noteq> - 1" "slot b < length cs"
  shows "map unat (cs[slot b := cs ! slot b + 1]) = bump_count u32_cap b (map unat cs)"
  using unat_cap [OF assms(1), of "cs ! slot b + 1"] unat_inc [OF assms(2)] assms(3)
  by (simp add: bump_count_def map_update)

lemma inc_words_spec:
  assumes "LENGTH('v::len) \<le> 32"
  shows "inc_words i blocks (cs :: 'v word list, n) = (x, cs', n') \<Longrightarrow> counted (map unat cs) n \<Longrightarrow>
    part (bump_count u32_cap) i blocks x (map unat cs) (map unat cs') \<and> counted (map unat cs') n'"
proof (induction i blocks "(cs, n)" arbitrary: cs n rule: inc_words.induct)
  case (1 i)
  then show ?case by (auto simp: part_Nil)
next
  case (2 i b blocks cs n)
  have l: "slot b < length cs" using 2(3) by (simp add: counted_def)
  show ?case
  proof (cases "cs ! slot b = - 1")
    case True
    with 2(2,3) l show ?thesis by (auto simp: Let_def part_stop)
  next
    case False
    have m: "map unat (cs[slot b := cs ! slot b + 1]) = bump_count u32_cap b (map unat cs)"
      by (rule bump_word [OF assms False l])
    have "counted (map unat (cs[slot b := cs ! slot b + 1])) (if cs ! slot b = 0 then n + 1 else n)"
      using counted_bump [OF 2(3), of u32_cap b] l by (simp add: m u32_cap_def unat_eq_0)
    from 2(1) [OF refl _ False _ this] 2(2) False l m show ?thesis
      by (auto simp: Let_def intro: part_Cons)
  qed
qed

lemma fits_Cons: "fits cap (b # blocks) cs \<Longrightarrow> length cs = REGION_SIZE \<Longrightarrow>
    fits cap blocks (bump_count cap b cs) \<and> cs ! slot b < cap"
  using spec [of "\<lambda>i. i < REGION_SIZE \<longrightarrow> cs ! i + count_list (map slot (b # blocks)) i \<le> cap" "slot b"]
  unfolding fits_def by (auto simp: bump_count_def nth_list_update)

lemma unat_max32: "unat (- 1 :: u32) = u32_cap"
  by (simp add: unsigned_minus_1_eq_mask mask_eq_exp_minus_1 u32_cap_def)

lemma inc_u32s_spec:
  "inc_u32s blocks (cs, n) = (x, cs', n') \<Longrightarrow> counted (map unat cs) n \<Longrightarrow> fits u32_cap blocks (map unat cs) \<Longrightarrow>
    x = Ok Success \<and> map unat cs' = fold (bump_count u32_cap) blocks (map unat cs) \<and> counted (map unat cs') n'"
proof (induction blocks "(cs, n)" arbitrary: cs n rule: inc_u32s.induct)
  case (2 b blocks cs n)
  have l: "slot b < length cs" using 2(3) by (simp add: counted_def)
  have f: "fits u32_cap blocks (bump_count u32_cap b (map unat cs))" "unat (cs ! slot b) < u32_cap"
    using fits_Cons [OF 2(4)] l 2(3) by (simp_all add: counted_def)
  then have no: "cs ! slot b \<noteq> - 1" by (auto simp: unat_max32)
  have m: "map unat (cs[slot b := cs ! slot b + 1]) = bump_count u32_cap b (map unat cs)"
    by (rule bump_word [OF _ no l]) simp
  have "counted (map unat (cs[slot b := cs ! slot b + 1])) (if cs ! slot b = 0 then n + 1 else n)"
    using counted_bump [OF 2(3), of u32_cap b] l by (simp add: m u32_cap_def unat_eq_0)
  from 2(1) [OF refl _ _ this] 2(2) l m f show ?case by (auto simp: Let_def)
qed auto

lemma bits_update: "bitset_laws bs \<Longrightarrow> bs_insert bs s i = Some t \<Longrightarrow> bits bs t = (bits bs s)[i := True]"
  by (metis bitset_insert bitset_insert_SomeD(1) option.inject)

lemma bump_bits:
  assumes "bitset_laws bs" "bs_insert bs s (slot b) = Some t" "\<not> bs_contains bs s (slot b)"
  shows "map of_bool (bits bs t) = bump_count u32_cap b (map of_bool (bits bs s))"
proof -
  have l: "slot b < bs_len bs s" by (rule bitset_insert_SomeD [OF assms(1,2)])
  with assms(3) have "bits bs s ! slot b = False" by (simp add: bits_nth)
  with l show ?thesis by (simp add: bits_update [OF assms(1,2)] bump_count_def map_update u32_cap_def)
qed

lemma inc_bits_spec:
  assumes "bitset_laws bs"
  shows "inc_bits bs i blocks (s, n) = (x, s', n') \<Longrightarrow> counted (map of_bool (bits bs s)) n \<Longrightarrow>
    part (bump_count u32_cap) i blocks x (map of_bool (bits bs s)) (map of_bool (bits bs s')) \<and>
    counted (map of_bool (bits bs s')) n'"
proof (induction blocks arbitrary: i s n)
  case Nil
  then show ?case by (auto simp: part_Nil)
next
  case (Cons b blocks)
  have l: "slot b < bs_len bs s" using Cons.prems(2) by (simp add: counted_def)
  show ?case
  proof (cases "bs_contains bs s (slot b)")
    case True
    with Cons.prems show ?thesis by (auto simp: part_stop)
  next
    case False
    obtain t where t: "bs_insert bs s (slot b) = Some t" using bitset_insert_Some [OF assms l] by blast
    have m: "map of_bool (bits bs t) = bump_count u32_cap b (map of_bool (bits bs s))"
      by (rule bump_bits [OF assms t False])
    have z: "map of_bool (bits bs s) ! slot b = (0 :: nat)" using False l by (simp add: bits_nth)
    have "counted (map of_bool (bits bs t)) (n + 1)"
      using counted_bump [OF Cons.prems(2), of u32_cap b] z by (simp add: m u32_cap_def)
    from Cons.IH [OF _ this] Cons.prems(1) False t m show ?thesis by (auto intro: part_Cons)
  qed
qed

lemma u32_wfI: "bitset_laws bs \<Longrightarrow> counted (rep_counts bs rep) n \<Longrightarrow> u32_wf bs \<lparr>ur_rep = rep, ur_nr_allocated = n\<rparr>"
  by (simp add: u32_wf_def u32_counts_def counted_def)

lemma u32_wf_counted: "u32_wf bs r \<Longrightarrow> counted (rep_counts bs (ur_rep r)) (ur_nr_allocated r)"
  by (simp add: u32_wf_def u32_counts_def counted_def)

lemma u32_wf_laws: "u32_wf bs r \<Longrightarrow> bitset_laws bs"
  by (simp add: u32_wf_def)

text \<open>One pass over the blocks: the region stays well formed, and one that has no wider representation is never stopped.\<close>

lemma part_zero: "xs \<noteq> [] \<Longrightarrow> part g 0 xs (Ok (NeedUpgrade 0)) cs cs"
  unfolding part_def by (rule exI [of _ 0]) simp

lemma increment_step_spec:
  assumes "u32_wf bs r" "blocks \<noteq> []" "fits u32_cap blocks (u32_counts bs r)"
    "increment_step bs blocks r = (x, r')"
  shows "part (bump_count u32_cap) 0 blocks x (u32_counts bs r) (u32_counts bs r') \<and> u32_wf bs r' \<and>
    (x = Ok Success \<or> upgrades_left (ur_rep r') > 0)"
proof (cases "ur_rep r")
  case NoCounts
  with assms show ?thesis by (auto simp: increment_step_def part_zero)
next
  case (Bits s)
  obtain x' s' n' where st: "inc_bits bs 0 blocks (s, ur_nr_allocated r) = (x', s', n')" using prod_cases3 by blast
  have r': "x = x'" "r' = \<lparr>ur_rep = Bits s', ur_nr_allocated = n'\<rparr>"
    using assms(2,4) Bits st by (auto simp: increment_step_def put_rep_def)
  have "counted (map of_bool (bits bs s)) (ur_nr_allocated r)" using u32_wf_counted [OF assms(1)] Bits by simp
  from inc_bits_spec [OF u32_wf_laws [OF assms(1)] st this] show ?thesis
    using Bits r' u32_wf_laws [OF assms(1)] by (simp add: u32_counts_def u32_wfI)
next
  case (U8s cs)
  obtain x' cs' n' where st: "inc_words 0 blocks (cs, ur_nr_allocated r) = (x', cs', n')" using prod_cases3 by blast
  have r': "x = x'" "r' = \<lparr>ur_rep = U8s cs', ur_nr_allocated = n'\<rparr>"
    using assms(2,4) U8s st by (auto simp: increment_step_def put_rep_def)
  have "counted (map unat cs) (ur_nr_allocated r)" using u32_wf_counted [OF assms(1)] U8s by simp
  from inc_words_spec [OF _ st this] show ?thesis
    using U8s r' u32_wf_laws [OF assms(1)] by (simp add: u32_counts_def u32_wfI)
next
  case (U16s cs)
  obtain x' cs' n' where st: "inc_words 0 blocks (cs, ur_nr_allocated r) = (x', cs', n')" using prod_cases3 by blast
  have r': "x = x'" "r' = \<lparr>ur_rep = U16s cs', ur_nr_allocated = n'\<rparr>"
    using assms(2,4) U16s st by (auto simp: increment_step_def put_rep_def)
  have "counted (map unat cs) (ur_nr_allocated r)" using u32_wf_counted [OF assms(1)] U16s by simp
  from inc_words_spec [OF _ st this] show ?thesis
    using U16s r' u32_wf_laws [OF assms(1)] by (simp add: u32_counts_def u32_wfI)
next
  case (U32s cs)
  obtain x' cs' n' where st: "inc_u32s blocks (cs, ur_nr_allocated r) = (x', cs', n')" using prod_cases3 by blast
  have r': "x = x'" "r' = \<lparr>ur_rep = U32s cs', ur_nr_allocated = n'\<rparr>"
    using assms(2,4) U32s st by (auto simp: increment_step_def put_rep_def)
  have "counted (map unat cs) (ur_nr_allocated r)" using u32_wf_counted [OF assms(1)] U32s by simp
  moreover have "fits u32_cap blocks (map unat cs)" using assms(3) U32s by (simp add: u32_counts_def)
  ultimately have "x' = Ok Success \<and> map unat cs' = fold (bump_count u32_cap) blocks (map unat cs) \<and> counted (map unat cs') n'"
    by (rule inc_u32s_spec [OF st])
  then show ?thesis using U32s r' u32_wf_laws [OF assms(1)]
    by (auto simp: u32_counts_def part_def intro: u32_wfI)
qed

text \<open>A wider representation has the same counts.\<close>

lemma unpack_bits_spec:
  assumes "bitset_laws bs" "bs_len bs s = REGION_SIZE"
  shows "\<exists>cs. unpack_bits bs s = Ok cs \<and> map unat cs = map of_bool (bits bs s)"
proof -
  let ?put = "\<lambda>b bytes. if b < length bytes then Ok (bytes[b := 1]) else Panic"
  have loop: "foldr_res ?put is cs = Ok (fold (\<lambda>i bytes. bytes[i := 1]) is cs)"
    if "\<forall>i\<in>set is. i < length cs" for "is" and cs :: "u8 list"
    using that by (induction "is" arbitrary: cs) auto
  have nth: "fold (\<lambda>i bytes. bytes[i := 1]) is cs ! k = (if k \<in> set is then 1 else cs ! k)"
    if "k < length cs" for "is" k and cs :: "u8 list"
    using that by (induction "is" arbitrary: cs) (auto simp: nth_list_update)
  have len: "length (fold (\<lambda>i bytes. bytes[i := 1]) is cs) = length cs" for "is" and cs :: "u8 list"
    by (induction "is" arbitrary: cs) auto
  have ones: "set (bs_ones bs s) = {i. bs_contains bs s i}" by (rule bitset_ones [OF assms(1)])
  then have b: "\<forall>i\<in>set (bs_ones bs s). i < REGION_SIZE"
    using assms by (simp add: bitset_contains [OF assms(1)])
  let ?cs = "fold (\<lambda>i bytes. bytes[i := 1]) (bs_ones bs s) (replicate REGION_SIZE (0 :: u8))"
  have "unpack_bits bs s = Ok ?cs" unfolding unpack_bits_def by (rule loop) (use b in simp)
  moreover have "map unat ?cs = map of_bool (bits bs s)"
    by (intro nth_equalityI) (use assms ones in \<open>simp_all add: len nth bits_nth\<close>)
  ultimately show ?thesis by blast
qed

lemma unat_ucast_up: "LENGTH('a::len) \<le> LENGTH('b::len) \<Longrightarrow> unat (ucast (c :: 'a word) :: 'b word) = unat c"
  by (intro unat_ucast_small) (erule less_le_trans [OF unat_lt2p power_increasing], simp)

lemma fold_take_drop: "fold g (drop k xs) (fold g (take k xs) s) = fold g xs s"
  by (metis append_take_drop_id fold_append o_apply)

lemma upgrade_rep_spec:
  assumes "u32_wf bs r" "0 < upgrades_left (ur_rep r)"
  obtains r' where "upgrade_rep bs r = (Ok (), r')" "u32_wf bs r'" "u32_counts bs r' = u32_counts bs r"
proof -
  have l: "bitset_laws bs" by (rule u32_wf_laws [OF assms(1)])
  have "\<exists>rep. upgrade bs (ur_rep r) = Ok rep \<and> rep_counts bs rep = rep_counts bs (ur_rep r)"
  proof (cases "ur_rep r")
    case (Bits s)
    then have "bs_len bs s = REGION_SIZE" using assms(1) by (simp add: u32_wf_def u32_counts_def)
    from unpack_bits_spec [OF l this] Bits show ?thesis by auto
  qed (use assms(2) l in \<open>auto simp: bitset_new unat_ucast_up\<close>)
  then obtain rep where rep: "upgrade bs (ur_rep r) = Ok rep" "rep_counts bs rep = rep_counts bs (ur_rep r)" by blast
  with assms(1) show thesis
    by (intro that [of "r\<lparr>ur_rep := rep\<rparr>"]) (simp_all add: upgrade_rep_def u32_wf_def u32_counts_def)
qed

lemma fits_drop:
  assumes "fits cap blocks cs" "length cs = REGION_SIZE" "\<forall>i<REGION_SIZE. cs ! i \<le> cap"
  shows "fits cap (drop k blocks) (fold (bump_count cap) (take k blocks) cs)"
proof -
  have c: "count_list (map slot (take k blocks)) i + count_list (map slot (drop k blocks)) i = count_list (map slot blocks) i" for i
    by (metis append_take_drop_id count_list_append map_append)
  have "min cap (cs ! i + count_list (map slot (take k blocks)) i) + count_list (map slot (drop k blocks)) i \<le> cap"
    if "i < REGION_SIZE" for i
  proof -
    have "cs ! i + count_list (map slot blocks) i \<le> cap" using assms(1) that by (simp add: fits_def)
    with c [of i] show ?thesis by linarith
  qed
  then show ?thesis using assms(2,3) by (simp add: fits_def bumps_nth)
qed

lemma u32_counts_cap: "u32_wf bs r \<Longrightarrow> i < REGION_SIZE \<Longrightarrow> u32_counts bs r ! i \<le> u32_cap"
proof -
  assume w: "u32_wf bs r" and i: "i < REGION_SIZE"
  show ?thesis
  proof (cases "ur_rep r")
    case NoCounts
    then show ?thesis using i by (simp add: u32_counts_def)
  next
    case (Bits s)
    then show ?thesis using w i by (simp add: u32_counts_def u32_wf_def u32_cap_def)
  qed (use w i in \<open>simp_all add: u32_counts_def u32_wf_def unat_cap\<close>)
qed

lemma u32_increment_spec:
  "u32_wf bs r \<Longrightarrow> blocks \<noteq> [] \<Longrightarrow> fits u32_cap blocks (u32_counts bs r) \<Longrightarrow>
    \<exists>r'. u32_increment bs blocks r = (Ok (), r') \<and> u32_wf bs r' \<and>
      u32_counts bs r' = fold (bump_count u32_cap) blocks (u32_counts bs r)"
proof (induction "upgrades_left (ur_rep r)" arbitrary: r blocks rule: less_induct)
  case less
  obtain x r1 where st: "increment_step bs blocks r = (x, r1)" by fastforce
  from increment_step_spec [OF less.prems st] have p: "part (bump_count u32_cap) 0 blocks x (u32_counts bs r) (u32_counts bs r1)"
    and w: "u32_wf bs r1" and up: "x = Ok Success \<or> 0 < upgrades_left (ur_rep r1)" by auto
  from part_result [OF p] show ?case
  proof
    assume "x = Ok Success \<and> u32_counts bs r1 = fold (bump_count u32_cap) blocks (u32_counts bs r)"
    with st w show ?thesis by (subst u32_increment.simps) simp
  next
    assume "\<exists>k<length blocks. x = Ok (NeedUpgrade k) \<and> u32_counts bs r1 = fold (bump_count u32_cap) (take k blocks) (u32_counts bs r)"
    then obtain k where k: "k < length blocks" "x = Ok (NeedUpgrade k)"
      "u32_counts bs r1 = fold (bump_count u32_cap) (take k blocks) (u32_counts bs r)" by blast
    obtain r2 where r2: "upgrade_rep bs r1 = (Ok (), r2)" "u32_wf bs r2" "u32_counts bs r2 = u32_counts bs r1"
      using upgrade_rep_spec [OF w] up k(2) by auto
    have "upgrades_left (ur_rep r2) < upgrades_left (ur_rep r)"
      using upgrade_rep_left [OF r2(1)] increment_kind [OF st] by simp
    moreover have "fits u32_cap (drop k blocks) (u32_counts bs r2)"
      using fits_drop [OF less.prems(3)] u32_counts_cap [OF less.prems(1)] less.prems(1)
      by (simp add: r2(3) k(3) u32_wf_def)
    ultimately obtain r3 where r3: "u32_increment bs (drop k blocks) r2 = (Ok (), r3)" "u32_wf bs r3"
      "u32_counts bs r3 = fold (bump_count u32_cap) (drop k blocks) (u32_counts bs r2)"
      using less.hyps [of r2 "drop k blocks"] r2(2) k(1) by auto
    have "u32_increment bs blocks r = (Ok (), r3)"
      by (subst u32_increment.simps) (simp add: st k(2) r2(1) r3(1))
    moreover have "u32_counts bs r3 = fold (bump_count u32_cap) blocks (u32_counts bs r)"
      by (simp add: r3(3) r2(3) k(3) fold_take_drop)
    ultimately show ?thesis using r3(2) by blast
  qed
qed

text \<open>\<open>set_\<close>.\<close>

lemma count_change_put:
  assumes "bitset_laws bs" "counted cs (ur_nr_allocated r)"
    and "unat before = cs ! slot block" "rep_counts bs rep = cs[slot block := unat rc]"
  shows "u32_wf bs (count_change before rc (r\<lparr>ur_rep := rep\<rparr>))"
    and "u32_counts bs (count_change before rc (r\<lparr>ur_rep := rep\<rparr>)) = put_count u32_cap (block, rc) cs"
proof -
  have rc: "unat rc \<le> u32_cap" by (rule unat_cap) simp
  have before: "(before = 0) = (cs ! slot block = 0)" using assms(3) by (metis unat_eq_0)
  have "counted (cs[slot block := unat rc])
    (if before = 0 \<and> rc \<noteq> 0 then ur_nr_allocated r + 1 else if before \<noteq> 0 \<and> rc = 0 then ur_nr_allocated r - 1
     else ur_nr_allocated r)"
    by (rule counted_put [OF assms(2) _ rc before refl]) (simp add: u32_cap_def)
  then show "u32_wf bs (count_change before rc (r\<lparr>ur_rep := rep\<rparr>))"
    using assms(1,4) by (auto simp: u32_wf_def u32_counts_def count_change_def counted_def)
  show "u32_counts bs (count_change before rc (r\<lparr>ur_rep := rep\<rparr>)) = put_count u32_cap (block, rc) cs"
    using assms(4) rc by (simp add: u32_counts_def put_count_eq)
qed

lemma ucast_small_unat:
  "\<not> w < (rc :: u32) \<Longrightarrow> unat w < 2 ^ LENGTH('a::len) \<Longrightarrow> unat (ucast rc :: 'a word) = unat rc"
  by (rule unat_ucast_small) (simp add: not_less word_le_nat_alt)

text \<open>A pair that fits the representation is put into it.\<close>

lemma set_step_one:
  assumes "u32_wf bs r"
  shows "(\<exists>r1. set_step bs i ((block, rc) # pairs) r = set_step bs (i + 1) pairs r1 \<and> u32_wf bs r1 \<and>
      u32_counts bs r1 = put_count u32_cap (block, rc) (u32_counts bs r)) \<or>
    (set_step bs i ((block, rc) # pairs) r = (Ok (NeedUpgrade i), r) \<and> 0 < upgrades_left (ur_rep r))"
    (is "?done \<or> ?stop")
proof -
  have l: "bitset_laws bs" by (rule u32_wf_laws [OF assms])
  note cnt = u32_wf_counted [OF assms]
  have len: "length (rep_counts bs (ur_rep r)) = REGION_SIZE" using cnt by (simp add: counted_def)
  have fin: "?done \<or> ?stop" if "unat before = rep_counts bs (ur_rep r) ! slot block"
      "rep_counts bs rep = (rep_counts bs (ur_rep r))[slot block := unat rc]"
      "set_step bs i ((block, rc) # pairs) r = set_step bs (i + 1) pairs (count_change before rc (r\<lparr>ur_rep := rep\<rparr>))"
    for before rep
    using count_change_put [OF l cnt that(1,2)] that(3) by (auto simp: u32_counts_def)
  show ?thesis
  proof (cases "ur_rep r")
    case NoCounts
    show ?thesis
    proof (cases "0 < rc")
      case False
      then have "rc = 0" by (simp add: word_gt_0)
      then have "put_count u32_cap (block, rc) (u32_counts bs r) = u32_counts bs r"
        using NoCounts by (simp add: put_count_eq u32_counts_def list_update_same_conv)
      with NoCounts \<open>rc = 0\<close> assms show ?thesis by auto
    qed (use NoCounts in simp)
  next
    case (Bits s)
    show ?thesis
    proof (cases "1 < rc")
      case False
      have b: "slot block < bs_len bs s" using len Bits by simp
      from bitset_set [OF l b, of "rc = 1"] obtain t where
        t: "bs_set bs s (slot block) (rc = 1) = Some t" "bits bs t = (bits bs s)[slot block := rc = 1]" by blast
      have "unat rc \<le> 1" using False by (simp add: not_less word_le_nat_alt)
      moreover have "unat rc = 1 \<longleftrightarrow> rc = 1" by (metis unat_1 word_unat_eq_iff)
      ultimately have "unat rc = of_bool (rc = 1)" by (cases "rc = 1") auto
      then show ?thesis using Bits t b False
        by (intro fin [of "of_bool (bs_contains bs s (slot block))" "Bits t"]) (simp_all add: bits_nth map_update Let_def)
    qed (use Bits in simp)
  next
    case (U8s cs)
    show ?thesis
    proof (cases "255 < rc")
      case False
      from ucast_small_unat [OF this, where ?'a = 8] U8s False len show ?thesis
        by (intro fin [of "ucast (cs ! slot block)" "U8s (cs[slot block := ucast rc])"])
          (simp_all add: map_update unat_ucast_up Let_def)
    qed (use U8s in simp)
  next
    case (U16s cs)
    show ?thesis
    proof (cases "65535 < rc")
      case False
      from ucast_small_unat [OF this, where ?'a = 16] U16s False len show ?thesis
        by (intro fin [of "ucast (cs ! slot block)" "U16s (cs[slot block := ucast rc])"])
          (simp_all add: map_update unat_ucast_up Let_def)
    qed (use U16s in simp)
  next
    case (U32s cs)
    with len show ?thesis
      by (intro fin [of "cs ! slot block" "U32s (cs[slot block := rc])"]) (simp_all add: map_update Let_def)
  qed
qed

lemma set_step_spec:
  "u32_wf bs r \<Longrightarrow> set_step bs i pairs r = (x, r') \<Longrightarrow>
    part (put_count u32_cap) i pairs x (u32_counts bs r) (u32_counts bs r') \<and> u32_wf bs r' \<and>
    (x = Ok Success \<or> upgrades_left (ur_rep r') > 0)"
proof (induction pairs arbitrary: i r)
  case Nil
  then show ?case by (auto simp: part_Nil)
next
  case (Cons p pairs)
  obtain block rc where p: "p = (block, rc)" by fastforce
  from set_step_one [OF Cons.prems(1), of i block rc pairs] show ?case
  proof (elim disjE exE conjE)
    fix r1
    assume *: "set_step bs i ((block, rc) # pairs) r = set_step bs (i + 1) pairs r1" "u32_wf bs r1"
      "u32_counts bs r1 = put_count u32_cap (block, rc) (u32_counts bs r)"
    from Cons.IH [OF *(2), of "i + 1"] Cons.prems(2) * show ?thesis
      by (auto simp: p intro: part_Cons)
  qed (use Cons.prems p in \<open>auto simp: part_stop\<close>)
qed

lemma u32_set_spec:
  "u32_wf bs r \<Longrightarrow> \<exists>r'. u32_set bs pairs r = (Ok (), r') \<and> u32_wf bs r' \<and>
      u32_counts bs r' = fold (put_count u32_cap) pairs (u32_counts bs r)"
proof (induction "upgrades_left (ur_rep r)" arbitrary: r pairs rule: less_induct)
  case less
  show ?case
  proof (cases "pairs = []")
    case False
    obtain x r1 where st: "set_step bs 0 pairs r = (x, r1)" by fastforce
    from set_step_spec [OF less.prems st] have p: "part (put_count u32_cap) 0 pairs x (u32_counts bs r) (u32_counts bs r1)"
      and w: "u32_wf bs r1" and up: "x = Ok Success \<or> 0 < upgrades_left (ur_rep r1)" by auto
    from part_result [OF p] show ?thesis
    proof
      assume "x = Ok Success \<and> u32_counts bs r1 = fold (put_count u32_cap) pairs (u32_counts bs r)"
      with st w False show ?thesis by (subst u32_set.simps) simp
    next
      assume "\<exists>k<length pairs. x = Ok (NeedUpgrade k) \<and> u32_counts bs r1 = fold (put_count u32_cap) (take k pairs) (u32_counts bs r)"
      then obtain k where k: "x = Ok (NeedUpgrade k)"
        "u32_counts bs r1 = fold (put_count u32_cap) (take k pairs) (u32_counts bs r)" by blast
      obtain r2 where r2: "upgrade_rep bs r1 = (Ok (), r2)" "u32_wf bs r2" "u32_counts bs r2 = u32_counts bs r1"
        using upgrade_rep_spec [OF w] up k(1) by auto
      have "upgrades_left (ur_rep r2) < upgrades_left (ur_rep r)"
        using upgrade_rep_left [OF r2(1)] set_kind [OF st] by simp
      from less.hyps [OF this r2(2), of "drop k pairs"] obtain r3 where
        r3: "u32_set bs (drop k pairs) r2 = (Ok (), r3)" "u32_wf bs r3"
          "u32_counts bs r3 = fold (put_count u32_cap) (drop k pairs) (u32_counts bs r2)" by blast
      have "u32_set bs pairs r = (Ok (), r3)"
        by (subst u32_set.simps) (simp add: st k(1) r2(1) r3(1) False)
      then show ?thesis using r3 by (simp add: r2(3) k(2) fold_take_drop)
    qed
  qed (use less.prems in \<open>simp add: u32_set.simps\<close>)
qed

text \<open>\<open>test_and_inc_\<close>: the answers for the blocks that are done, and perhaps the one for the next block.\<close>

definition tested :: "'b bitset \<Rightarrow> nat \<Rightarrow> nat \<Rightarrow> u64 list \<Rightarrow> (unit, inc_result) result \<Rightarrow> nat list \<Rightarrow> nat list \<Rightarrow> 'b \<Rightarrow> 'b \<Rightarrow> bool"
where
  "tested bs offset i blocks x cs cs' results results' \<longleftrightarrow>
    (\<exists>k\<le>length blocks. cs' = fold (bump_count u32_cap) (take k blocks) cs \<and>
      (x = Ok Success \<and> k = length blocks \<and> marked bs (offset + i) (seen_counts u32_cap blocks cs) results results' \<or>
       x = Ok (NeedUpgrade (i + k)) \<and> k < length blocks \<and>
         (\<exists>m\<in>{k, Suc k}. marked bs (offset + i) (seen_counts u32_cap (take m blocks) cs) results results')))"

lemma tested_Nil: "tested bs offset i [] (Ok Success) cs cs results results"
  by (simp add: tested_def)

lemma tested_start: "blocks \<noteq> [] \<Longrightarrow> tested bs offset 0 blocks (Ok (NeedUpgrade 0)) cs cs results results"
  unfolding tested_def by (rule exI [of _ 0]) simp

lemma tested_stop:
  assumes "bitset_laws bs" "bs_set bs results (offset + i) (0 < cs ! slot b) = Some results'"
  shows "tested bs offset i (b # blocks) (Ok (NeedUpgrade i)) cs cs results results'"
  unfolding tested_def by (rule exI [of _ 0]) (simp add: marked_step(1) [OF assms])

lemma marked_Cons:
  assumes "bitset_laws bs" "bs_set bs r offset v = Some r1" "marked bs (offset + 1) vs r1 r2"
  shows "marked bs offset (v # vs) r r2"
  using marked_trans [OF marked_step(1) [OF assms(1,2)], of 1] assms(3) by simp

lemma tested_Cons:
  assumes "bitset_laws bs" "bs_set bs results (offset + i) (0 < cs ! slot b) = Some results1"
    and "tested bs offset (i + 1) blocks x (bump_count u32_cap b cs) cs' results1 results'"
  shows "tested bs offset i (b # blocks) x cs cs' results results'"
proof -
  note mark = marked_Cons [OF assms(1,2)]
  obtain k where k: "k \<le> length blocks" "cs' = fold (bump_count u32_cap) (take k blocks) (bump_count u32_cap b cs)"
    "x = Ok Success \<and> k = length blocks \<and>
       marked bs (offset + (i + 1)) (seen_counts u32_cap blocks (bump_count u32_cap b cs)) results1 results' \<or>
     x = Ok (NeedUpgrade (i + 1 + k)) \<and> k < length blocks \<and>
       (\<exists>m\<in>{k, Suc k}. marked bs (offset + (i + 1)) (seen_counts u32_cap (take m blocks) (bump_count u32_cap b cs)) results1 results')"
    using assms(3) unfolding tested_def by blast
  show ?thesis unfolding tested_def
  proof (rule exI [of _ "Suc k"], intro conjI)
    show "x = Ok Success \<and> Suc k = length (b # blocks) \<and> marked bs (offset + i) (seen_counts u32_cap (b # blocks) cs) results results' \<or>
       x = Ok (NeedUpgrade (i + Suc k)) \<and> Suc k < length (b # blocks) \<and>
         (\<exists>m\<in>{Suc k, Suc (Suc k)}. marked bs (offset + i) (seen_counts u32_cap (take m (b # blocks)) cs) results results')"
      using k(3) by (auto intro!: mark simp: add.assoc [symmetric])
  qed (use k in simp_all)
qed

lemma tai_bits_spec:
  assumes "bitset_laws bs"
  shows "tai_bits bs offset i blocks ((s, n), results) = (x, (s', n'), results') \<Longrightarrow>
    counted (map of_bool (bits bs s)) n \<Longrightarrow> offset + i + length blocks \<le> bs_len bs results \<Longrightarrow>
    tested bs offset i blocks x (map of_bool (bits bs s)) (map of_bool (bits bs s')) results results' \<and>
    counted (map of_bool (bits bs s')) n'"
proof (induction blocks arbitrary: i s n results)
  case Nil
  then show ?case by (auto simp: tested_Nil)
next
  case (Cons b blocks)
  have l: "slot b < bs_len bs s" using Cons.prems(2) by (simp add: counted_def)
  have z: "(0 < (map of_bool (bits bs s) ! slot b :: nat)) = bs_contains bs s (slot b)"
    using l by (simp add: bits_nth)
  obtain r1 where r1: "bs_set bs results (offset + i) (bs_contains bs s (slot b)) = Some r1"
    using bitset_set_Some [OF assms] Cons.prems(3) by fastforce
  note r1' = r1 [folded z]
  have rl: "bs_len bs r1 = bs_len bs results" by (rule bitset_set_SomeD(2) [OF assms r1])
  show ?case
  proof (cases "bs_contains bs s (slot b)")
    case True
    with Cons.prems r1 tested_stop [OF assms r1'] show ?thesis by auto
  next
    case False
    obtain t where t: "bs_insert bs s (slot b) = Some t" using bitset_insert_Some [OF assms l] by blast
    have m: "map of_bool (bits bs t) = bump_count u32_cap b (map of_bool (bits bs s))"
      by (rule bump_bits [OF assms t False])
    have c: "counted (map of_bool (bits bs t)) (n + 1)"
      using counted_bump [OF Cons.prems(2), of u32_cap b] z False by (simp add: m u32_cap_def)
    have "tai_bits bs offset (i + 1) blocks ((t, n + 1), r1) = (x, (s', n'), results')"
      using Cons.prems(1) r1 False t by simp
    from Cons.IH [OF this c] Cons.prems(3) rl show ?thesis
      by (auto simp: m intro: tested_Cons [OF assms r1'])
  qed
qed

lemma tai_words_spec:
  assumes "bitset_laws bs" "LENGTH('v::len) \<le> 32"
  shows "tai_words bs offset i blocks ((cs :: 'v word list, n), results) = (x, (cs', n'), results') \<Longrightarrow>
    counted (map unat cs) n \<Longrightarrow> offset + i + length blocks \<le> bs_len bs results \<Longrightarrow>
    tested bs offset i blocks x (map unat cs) (map unat cs') results results' \<and> counted (map unat cs') n'"
proof (induction blocks arbitrary: i cs n results)
  case Nil
  then show ?case by (auto simp: tested_Nil)
next
  case (Cons b blocks)
  have l: "slot b < length cs" using Cons.prems(2) by (simp add: counted_def)
  have z: "(0 < map unat cs ! slot b) = (0 < cs ! slot b)" using l by (simp add: word_less_nat_alt)
  obtain r1 where r1: "bs_set bs results (offset + i) (0 < cs ! slot b) = Some r1"
    using bitset_set_Some [OF assms(1)] Cons.prems(3) by fastforce
  note r1' = r1 [folded z]
  have rl: "bs_len bs r1 = bs_len bs results" by (rule bitset_set_SomeD(2) [OF assms(1) r1])
  show ?case
  proof (cases "cs ! slot b = - 1")
    case True
    with Cons.prems l r1 tested_stop [OF assms(1) r1'] show ?thesis by (auto simp: Let_def)
  next
    case False
    have m: "map unat (cs[slot b := cs ! slot b + 1]) = bump_count u32_cap b (map unat cs)"
      by (rule bump_word [OF assms(2) False l])
    have c: "counted (map unat (cs[slot b := cs ! slot b + 1])) (if cs ! slot b = 0 then n + 1 else n)"
      using counted_bump [OF Cons.prems(2), of u32_cap b] l by (simp add: m u32_cap_def unat_eq_0)
    have "tai_words bs offset (i + 1) blocks
        ((cs[slot b := cs ! slot b + 1], if cs ! slot b = 0 then n + 1 else n), r1) = (x, (cs', n'), results')"
      using Cons.prems(1) r1 False l by (simp add: Let_def)
    from Cons.IH [OF this c] Cons.prems(3) rl show ?thesis
      by (auto simp: m intro: tested_Cons [OF assms(1) r1'])
  qed
qed

lemma bump_sat:
  assumes "slot b < length cs"
  shows "map unat (cs[slot b := sat_inc (cs ! slot b)]) = bump_count u32_cap b (map unat (cs :: u32 list))"
  using unat_cap [of "cs ! slot b + 1"] unat_inc [of "cs ! slot b"] assms
  by (auto simp: bump_count_def map_update sat_inc_def unat_max32)

lemma tai_u32s_spec:
  assumes "bitset_laws bs"
  shows "tai_u32s bs offset i blocks ((cs, n), results) = (x, (cs', n'), results') \<Longrightarrow>
    counted (map unat cs) n \<Longrightarrow> offset + i + length blocks \<le> bs_len bs results \<Longrightarrow>
    tested bs offset i blocks x (map unat cs) (map unat cs') results results' \<and> counted (map unat cs') n' \<and> x = Ok Success"
proof (induction blocks arbitrary: i cs n results)
  case Nil
  then show ?case by (auto simp: tested_Nil)
next
  case (Cons b blocks)
  have l: "slot b < length cs" using Cons.prems(2) by (simp add: counted_def)
  have z: "(0 < map unat cs ! slot b) = (0 < cs ! slot b)" using l by (simp add: word_less_nat_alt)
  obtain r1 where r1: "bs_set bs results (offset + i) (0 < cs ! slot b) = Some r1"
    using bitset_set_Some [OF assms] Cons.prems(3) by fastforce
  have rl: "bs_len bs r1 = bs_len bs results" by (rule bitset_set_SomeD(2) [OF assms r1])
  have m: "map unat (cs[slot b := sat_inc (cs ! slot b)]) = bump_count u32_cap b (map unat cs)"
    by (rule bump_sat [OF l])
  have c: "counted (map unat (cs[slot b := sat_inc (cs ! slot b)])) (if cs ! slot b = 0 then n + 1 else n)"
    using counted_bump [OF Cons.prems(2), of u32_cap b] l by (simp add: m u32_cap_def unat_eq_0)
  have "tai_u32s bs offset (i + 1) blocks
      ((cs[slot b := sat_inc (cs ! slot b)], if cs ! slot b = 0 then n + 1 else n), r1) = (x, (cs', n'), results')"
    using Cons.prems(1) r1 l by (simp add: Let_def)
  from Cons.IH [OF this c] Cons.prems(3) rl show ?case
    by (auto simp: m intro: tested_Cons [OF assms r1 [folded z]])
qed

lemma test_and_inc_step_spec:
  assumes "u32_wf bs r" "blocks \<noteq> []" "offset + length blocks \<le> bs_len bs results"
    "test_and_inc_step bs offset blocks (r, results) = (x, r', results')"
  shows "tested bs offset 0 blocks x (u32_counts bs r) (u32_counts bs r') results results' \<and> u32_wf bs r' \<and>
    (x = Ok Success \<or> upgrades_left (ur_rep r') > 0)"
proof -
  have l: "bitset_laws bs" by (rule u32_wf_laws [OF assms(1)])
  note cnt = u32_wf_counted [OF assms(1)]
  have fin: ?thesis
    if "test_and_inc_step bs offset blocks (r, results) = put_rep2 c (x', (s', n'), results'')"
      and "tested bs offset 0 blocks x' (rep_counts bs (ur_rep r)) (rep_counts bs (c s')) results results'' \<and>
        counted (rep_counts bs (c s')) n'"
      and "x' = Ok Success \<or> upgrades_left (c s') > 0"
    for c :: "'c \<Rightarrow> 'a u32_rep" and x' s' n' results''
    using that assms(4) l by (auto simp: put_rep2_def u32_counts_def intro: u32_wfI)
  show ?thesis
  proof (cases "ur_rep r")
    case NoCounts
    with assms show ?thesis by (auto simp: test_and_inc_step_def tested_start)
  next
    case (Bits s)
    obtain x' s' n' res' where st: "tai_bits bs offset 0 blocks ((s, ur_nr_allocated r), results) = (x', (s', n'), res')"
      using prod_cases4 by (metis surj_pair)
    show ?thesis by (rule fin [of Bits]) (use Bits st assms(3) cnt tai_bits_spec [OF l st] in \<open>simp_all add: test_and_inc_step_def\<close>)
  next
    case (U8s cs)
    obtain x' s' n' res' where st: "tai_words bs offset 0 blocks ((cs, ur_nr_allocated r), results) = (x', (s', n'), res')"
      by (metis surj_pair)
    show ?thesis by (rule fin [of U8s]) (use U8s st assms(3) cnt tai_words_spec [OF l _ st] in \<open>simp_all add: test_and_inc_step_def\<close>)
  next
    case (U16s cs)
    obtain x' s' n' res' where st: "tai_words bs offset 0 blocks ((cs, ur_nr_allocated r), results) = (x', (s', n'), res')"
      by (metis surj_pair)
    show ?thesis by (rule fin [of U16s]) (use U16s st assms(3) cnt tai_words_spec [OF l _ st] in \<open>simp_all add: test_and_inc_step_def\<close>)
  next
    case (U32s cs)
    obtain x' s' n' res' where st: "tai_u32s bs offset 0 blocks ((cs, ur_nr_allocated r), results) = (x', (s', n'), res')"
      by (metis surj_pair)
    show ?thesis by (rule fin [of U32s]) (use U32s st assms(3) cnt tai_u32s_spec [OF l st] in \<open>auto simp: test_and_inc_step_def\<close>)
  qed
qed

lemma take_seen: "seen_counts cap (take k blocks) cs = take k (seen_counts cap blocks cs)"
  by (induction blocks arbitrary: k cs) (simp_all add: take_Cons split: nat.splits)

lemma u32_test_and_inc_spec:
  "u32_wf bs r \<Longrightarrow> offset + length blocks \<le> bs_len bs results \<Longrightarrow>
    \<exists>r' results'. u32_test_and_inc bs blocks offset (r, results) = (Ok (), r', results') \<and> u32_wf bs r' \<and>
      u32_counts bs r' = fold (bump_count u32_cap) blocks (u32_counts bs r) \<and>
      marked bs offset (seen_counts u32_cap blocks (u32_counts bs r)) results results'"
proof (induction "upgrades_left (ur_rep r)" arbitrary: r blocks offset results rule: less_induct)
  case less
  show ?case
  proof (cases "blocks = []")
    case False
    obtain x r1 res1 where st: "test_and_inc_step bs offset blocks (r, results) = (x, r1, res1)" using prod_cases3 by blast
    from test_and_inc_step_spec [OF less.prems(1) False less.prems(2) st]
    have t: "tested bs offset 0 blocks x (u32_counts bs r) (u32_counts bs r1) results res1"
      and w: "u32_wf bs r1" and up: "x = Ok Success \<or> 0 < upgrades_left (ur_rep r1)" by auto
    from t obtain k where k: "k \<le> length blocks" "u32_counts bs r1 = fold (bump_count u32_cap) (take k blocks) (u32_counts bs r)"
      "x = Ok Success \<and> k = length blocks \<and> marked bs offset (seen_counts u32_cap blocks (u32_counts bs r)) results res1 \<or>
       x = Ok (NeedUpgrade k) \<and> k < length blocks \<and>
         (\<exists>m\<in>{k, Suc k}. marked bs offset (seen_counts u32_cap (take m blocks) (u32_counts bs r)) results res1)"
      unfolding tested_def by auto
    from k(3) show ?thesis
    proof (elim disjE conjE)
      assume "x = Ok Success" "k = length blocks" "marked bs offset (seen_counts u32_cap blocks (u32_counts bs r)) results res1"
      then show ?thesis using st w False k(2) by (subst u32_test_and_inc.simps) simp
    next
      assume x: "x = Ok (NeedUpgrade k)" and kl: "k < length blocks"
        and "\<exists>m\<in>{k, Suc k}. marked bs offset (seen_counts u32_cap (take m blocks) (u32_counts bs r)) results res1"
      then obtain m where m: "m = k \<or> m = Suc k" "marked bs offset (seen_counts u32_cap (take m blocks) (u32_counts bs r)) results res1"
        by blast
      obtain r2 where r2: "upgrade_rep bs r1 = (Ok (), r2)" "u32_wf bs r2" "u32_counts bs r2 = u32_counts bs r1"
        using upgrade_rep_spec [OF w] up x by auto
      have dec: "upgrades_left (ur_rep r2) < upgrades_left (ur_rep r)"
        using upgrade_rep_left [OF r2(1)] test_and_inc_kind [OF st] by simp
      have "offset + k + length (drop k blocks) \<le> bs_len bs res1"
        using less.prems(2) kl m(2) by (simp add: marked_def)
      from less.hyps [OF dec r2(2) this] obtain r3 res3 where
        r3: "u32_test_and_inc bs (drop k blocks) (offset + k) (r2, res1) = (Ok (), r3, res3)" "u32_wf bs r3"
          "u32_counts bs r3 = fold (bump_count u32_cap) (drop k blocks) (u32_counts bs r2)"
          "marked bs (offset + k) (seen_counts u32_cap (drop k blocks) (u32_counts bs r2)) res1 res3" by blast
      have run: "u32_test_and_inc bs blocks offset (r, results) = (Ok (), r3, res3)"
        by (subst u32_test_and_inc.simps) (simp add: st x r2(1) r3(1) False)
      have "marked bs offset (take k (seen_counts u32_cap (take m blocks) (u32_counts bs r)) @
          seen_counts u32_cap (drop k blocks) (u32_counts bs r2)) results res3"
        by (rule marked_trans [OF m(2) r3(4)]) (use kl m(1) in auto)
      also have "take k (seen_counts u32_cap (take m blocks) (u32_counts bs r)) @
          seen_counts u32_cap (drop k blocks) (u32_counts bs r2) = seen_counts u32_cap blocks (u32_counts bs r)"
        using m(1) seen_append [of u32_cap "take k blocks" "drop k blocks" "u32_counts bs r"]
        by (auto simp: take_seen r2(3) k(2))
      finally show ?thesis using run r3 by (simp add: r2(3) k(2) fold_take_drop)
    qed
  qed (use less.prems in \<open>simp add: u32_test_and_inc.simps\<close>)
qed

lemma map_upt_take_drop: "b + n \<le> length cs \<Longrightarrow> map (\<lambda>i. f (cs ! i)) [b..<b + n] = map f (take n (drop b cs))"
  by (rule nth_equalityI) simp_all

lemma map_nth_take_drop: "b + n \<le> length cs \<Longrightarrow> map ((!) cs) [b..<b + n] = take n (drop b cs)"
  by (rule nth_equalityI) simp_all

lemma u32_lookup_spec:
  assumes "u32_wf bs r" and n: "n = min (length out) (REGION_SIZE - slot b)"
  shows "u32_lookup bs r b out =
    Ok (word_of_nat n, map word_of_nat (take n (drop (slot b) (u32_counts bs r))) @ drop n out)"
proof -
  have len: "length (rep_counts bs (ur_rep r)) = REGION_SIZE" using assms(1) by (simp add: u32_wf_def u32_counts_def)
  have e: "min (slot b + length out) REGION_SIZE = slot b + n"
    using slot_less(1) [of b] n by linarith
  have le: "slot b + n \<le> REGION_SIZE" using slot_less(1) [of b] n by linarith
  show ?thesis
  proof (cases "ur_rep r")
    case NoCounts
    then show ?thesis using le by (simp add: u32_lookup_def Let_def e u32_counts_def)
  next
    case (Bits s)
    then have "map (\<lambda>i. of_bool (bs_contains bs s i)) [slot b..<slot b + n] = map (\<lambda>i. (of_bool (bits bs s ! i) :: u32)) [slot b..<slot b + n]"
      using le len by (intro map_cong) (auto simp: bits_nth)
    also have "\<dots> = map of_bool (take n (drop (slot b) (bits bs s)))"
      using le len Bits by (intro map_upt_take_drop) simp
    finally show ?thesis using Bits
      by (simp add: u32_lookup_def Let_def e u32_counts_def drop_map take_map comp_def)
  qed (use le len in \<open>simp_all add: u32_lookup_def copy_counts_def Let_def e u32_counts_def drop_map take_map comp_def map_upt_take_drop map_nth_take_drop\<close>)
qed

lemma u32_ops [simp]:
  "rg_default (u32_region_ops bs) = u32_region_default" "rg_increment (u32_region_ops bs) = u32_increment bs"
  "rg_lookup (u32_region_ops bs) = u32_lookup bs" "rg_set (u32_region_ops bs) = u32_set bs"
  "rg_test_and_inc (u32_region_ops bs) = u32_test_and_inc bs" "rg_rep_size (u32_region_ops bs) = u32_rep_size"
  "rg_nr_allocated (u32_region_ops bs) = ur_nr_allocated"
  by (simp_all add: u32_region_ops_def)

lemma u32_default: "u32_counts bs u32_region_default = replicate REGION_SIZE 0"
    "bitset_laws bs \<Longrightarrow> u32_wf bs u32_region_default"
  by (simp_all add: u32_counts_def u32_region_default_def u32_wf_def)

lemma u32_wf_length: "u32_wf bs r \<Longrightarrow> length (u32_counts bs r) = REGION_SIZE"
  by (simp add: u32_wf_def)

lemma u32_wf_nr: "u32_wf bs r \<Longrightarrow> unat (ur_nr_allocated r) = allocated (u32_counts bs r)"
  by (simp add: u32_wf_def)

interpretation u32_regions: region "u32_region_ops bs" bs "u32_wf bs" "u32_counts bs" u32_cap False "bitset_laws bs"
  for bs :: "'b bitset"
proof unfold_locales
  show "0 < u32_cap" "u32_cap < 2 ^ 32" by (simp_all add: u32_cap_def)
qed (simp_all add: u32_default u32_wf_length u32_wf_nr u32_counts_cap u32_lookup_spec
      u32_increment_spec u32_set_spec u32_test_and_inc_spec)

section \<open>RestrictedTwoRegion keeps the contract\<close>

lemma three_mask: "(3 :: u8) = mask 2"
  by (simp add: mask_eq_exp_minus_1)

lemma two_bits_same:
  "k + 2 \<le> 8 \<Longrightarrow> drop_bit k ((x AND NOT (push_bit k 3)) OR push_bit k (v AND 3)) AND 3 = v AND (3 :: u8)"
  by (rule bit_eqI) (auto simp: three_mask bit_simps)

lemma two_bits_other:
  "k \<noteq> k' \<Longrightarrow> even k \<Longrightarrow> even k' \<Longrightarrow> k + 2 \<le> 8 \<Longrightarrow>
    drop_bit k ((x AND NOT (push_bit k' 3)) OR push_bit k' (v AND 3)) AND 3 = drop_bit k x AND (3 :: u8)"
  by (rule bit_eqI) (auto simp: three_mask bit_simps elim!: evenE)

lemma two_at_put:
  assumes "length data = 256" "i < 1024"
  obtains d where "two_put i v data = Ok d" "length d = 256"
    "\<And>j. j < 1024 \<Longrightarrow> two_at d j = (if j = i then Ok (v AND 3) else two_at data j)"
proof -
  let ?d = "data[i div 4 := (data ! (i div 4) AND NOT (push_bit (i mod 4 * 2) 3)) OR push_bit (i mod 4 * 2) (v AND 3)]"
  have il: "i div 4 < 256" using assms(2) by simp
  have put: "two_put i v data = Ok ?d" using assms il by (simp add: two_put_def Let_def)
  have "two_at ?d j = (if j = i then Ok (v AND 3) else two_at data j)" if j: "j < 1024" for j
  proof -
    have jl: "j div 4 < 256" using j by simp
    show ?thesis
    proof (cases "j div 4 = i div 4")
      case False
      then show ?thesis using assms(1) by (auto simp: two_at_def Let_def)
    next
      case same: True
      show ?thesis
      proof (cases "j = i")
        case True
        have "i mod 4 * 2 + 2 \<le> 8" using mod_less_divisor [of 4 i] by linarith
        from two_bits_same [OF this] True show ?thesis using assms(1) il by (simp add: two_at_def Let_def)
      next
        case False
        with same have "j mod 4 * 2 \<noteq> i mod 4 * 2" by (metis div_mult_mod_eq mult_cancel2 zero_neq_numeral)
        moreover have "j mod 4 * 2 + 2 \<le> 8" using mod_less_divisor [of 4 j] by linarith
        ultimately show ?thesis using two_bits_other [of "j mod 4 * 2" "i mod 4 * 2"] False same assms(1) il
          by (simp add: two_at_def Let_def)
      qed
    qed
  qed
  with put assms(1) that show thesis by simp
qed

definition two_count_at :: "bytes \<Rightarrow> nat \<Rightarrow> nat" where
  "two_count_at data i = (case two_at data i of Ok v \<Rightarrow> unat v | _ \<Rightarrow> 0)"

definition two_counts :: "two_region \<Rightarrow> nat list" where
  "two_counts r = map (two_count_at (tr_data r)) [0..<REGION_SIZE]"

definition two_wf :: "two_region \<Rightarrow> bool" where
  "two_wf r \<longleftrightarrow> (tr_data r = [] \<or> length (tr_data r) = REGION_SIZE div 4) \<and> (\<forall>i<REGION_SIZE. two_count_at (tr_data r) i \<le> 2) \<and>
     unat (tr_nr_allocated r) = allocated (two_counts r)"

lemma length_two_counts [simp]: "length (two_counts r) = REGION_SIZE"
  by (simp add: two_counts_def)

lemma two_at_Ok: "length data = 256 \<Longrightarrow> i < 1024 \<Longrightarrow> \<exists>v. two_at data i = Ok v"
  by (simp add: two_at_def Let_def)

lemma two_count_at_Nil [simp]: "two_count_at [] i = 0"
  by (simp add: two_count_at_def two_at_def)

lemma two_counts_empty: "tr_data r = [] \<Longrightarrow> two_counts r = replicate REGION_SIZE 0"
  by (intro nth_equalityI) (simp_all add: two_counts_def two_count_at_def two_at_def)

lemma two_counts_alloc [simp]: "two_counts (two_alloc_data r) = two_counts r"
proof (cases "tr_data r = []")
  case True
  have "two_count_at (replicate 256 0) i = 0" if "i < 1024" for i
    using that by (simp add: two_count_at_def two_at_def Let_def)
  with True show ?thesis
    by (intro nth_equalityI) (simp_all add: two_counts_empty two_alloc_data_def two_counts_def REGION_SIZE_def)
qed (simp add: two_alloc_data_def)

lemma two_wf_alloc: "two_wf r \<Longrightarrow> two_wf (two_alloc_data r) \<and> length (tr_data (two_alloc_data r)) = 256"
proof -
  assume w: "two_wf r"
  have "two_count_at (tr_data (two_alloc_data r)) i = two_count_at (tr_data r) i" if "i < REGION_SIZE" for i
    using arg_cong [OF two_counts_alloc [of r], of "\<lambda>l. l ! i"] that by (simp add: two_counts_def)
  then show ?thesis using w two_counts_alloc [of r, unfolded two_alloc_data_def]
    by (auto simp: two_wf_def two_alloc_data_def REGION_SIZE_def split: if_splits)
qed

text \<open>Storing a count: what every operation does to the state.\<close>

lemma two_store_spec:
  assumes "two_wf r" "length (tr_data r) = 256" "v \<le> 2" "before = two_counts r ! slot b"
    and "n = (if before = 0 \<and> v \<noteq> 0 then tr_nr_allocated r + 1 else if before \<noteq> 0 \<and> v = 0 then tr_nr_allocated r - 1
      else tr_nr_allocated r)"
  obtains d where "\<forall>m. two_store (slot b) v (r\<lparr>tr_nr_allocated := m\<rparr>) = (Ok (), r\<lparr>tr_nr_allocated := m, tr_data := d\<rparr>)"
    "length d = 256" "two_wf (r\<lparr>tr_nr_allocated := n, tr_data := d\<rparr>)"
    "two_counts (r\<lparr>tr_nr_allocated := n, tr_data := d\<rparr>) = (two_counts r)[slot b := unat v]"
proof -
  obtain d where d: "two_put (slot b) v (tr_data r) = Ok d" "length d = 256"
    "\<And>j. j < 1024 \<Longrightarrow> two_at d j = (if j = slot b then Ok (v AND 3) else two_at (tr_data r) j)"
    using two_at_put [OF assms(2), of "slot b" v] by auto
  have v2: "unat v \<le> 2" using assms(3) by (simp add: word_le_nat_alt)
  have "take_bit 2 v = v" by (rule take_bit_small) (use v2 in simp)
  then have v3: "v AND 3 = v" by (simp add: three_mask take_bit_eq_mask)
  have at: "two_count_at d j = (if j = slot b then unat v else two_count_at (tr_data r) j)" if "j < REGION_SIZE" for j
    using d(3) [of j] that by (simp add: two_count_at_def v3 REGION_SIZE_def)
  have c: "two_counts (r\<lparr>tr_nr_allocated := m, tr_data := d\<rparr>) = (two_counts r)[slot b := unat v]" for m
    by (rule nth_equalityI) (auto simp: two_counts_def at nth_list_update)
  let ?w = "ucast v :: u32"
  have w: "unat ?w = unat v" by (rule unat_ucast_up) simp
  then have w0: "?w = 0 \<longleftrightarrow> v = 0" by (metis unat_eq_0)
  let ?b = "of_bool (before \<noteq> 0) :: u32"
  have b0: "?b = 0 \<longleftrightarrow> before = 0" by simp
  have "counted (two_counts r) (tr_nr_allocated r)" using assms(1) by (simp add: counted_def two_wf_def)
  from counted_put [OF this _ v2 _ w [symmetric], of ?b b] have
    "counted ((two_counts r)[slot b := unat v]) (if ?b = 0 \<and> ?w \<noteq> 0 then tr_nr_allocated r + 1
      else if ?b \<noteq> 0 \<and> ?w = 0 then tr_nr_allocated r - 1 else tr_nr_allocated r)"
    using assms(4) b0 by simp
  then have "counted ((two_counts r)[slot b := unat v]) n" by (simp only: assms(5) b0 w0)
  then have "two_wf (r\<lparr>tr_nr_allocated := n, tr_data := d\<rparr>)"
    using assms(1) d(2) v2 by (simp add: two_wf_def c counted_def at REGION_SIZE_def)
  with d c show thesis by (intro that [of d]) (simp_all add: two_store_def)
qed

definition two_ok :: "two_region \<Rightarrow> bool" where
  "two_ok r \<longleftrightarrow> two_wf r \<and> length (tr_data r) = 256"

lemma two_at_slot: "two_ok r \<Longrightarrow> \<exists>v. two_at (tr_data r) (slot b) = Ok v \<and> unat v = two_counts r ! slot b \<and> v \<le> 2"
proof -
  assume ok: "two_ok r"
  obtain v where v: "two_at (tr_data r) (slot b) = Ok v" using two_at_Ok [of "tr_data r" "slot b"] ok by (auto simp: two_ok_def)
  then have c: "two_count_at (tr_data r) (slot b) = unat v" by (simp add: two_count_at_def)
  moreover have "unat v \<le> 2" using ok c slot_less(1) [of b] by (metis two_ok_def two_wf_def)
  ultimately show ?thesis using v by (auto simp: two_counts_def word_le_nat_alt)
qed

lemma two_bump_spec:
  assumes "two_ok r" "two_at (tr_data r) (slot b) = Ok v"
  shows "\<exists>r'. two_bump (slot b) v r = (Ok (), r') \<and> two_ok r' \<and> two_counts r' = bump_count 2 b (two_counts r)"
proof -
  have v: "unat v = two_counts r ! slot b" "v \<le> 2" using two_at_slot [OF assms(1), of b] assms(2) by auto
  have z: "v = 0 \<longleftrightarrow> two_counts r ! slot b = 0" using v(1) by (metis unat_eq_0)
  show ?thesis
  proof (cases "v < 2")
    case True
    then have v1: "unat (v + 1) = unat v + 1" by (simp add: word_less_nat_alt unat_plus_no_overflow)
    then have "v + 1 \<noteq> 0" "v + 1 \<le> 2" using True by (auto simp: word_le_nat_alt word_less_nat_alt)
    let ?n = "if v = 0 then tr_nr_allocated r + 1 else tr_nr_allocated r"
    have n: "?n = (if two_counts r ! slot b = 0 \<and> v + 1 \<noteq> 0 then tr_nr_allocated r + 1
        else if two_counts r ! slot b \<noteq> 0 \<and> v + 1 = 0 then tr_nr_allocated r - 1 else tr_nr_allocated r)"
      using z \<open>v + 1 \<noteq> 0\<close> by simp
    obtain d where
      d: "\<forall>m. two_store (slot b) (v + 1) (r\<lparr>tr_nr_allocated := m\<rparr>) = (Ok (), r\<lparr>tr_nr_allocated := m, tr_data := d\<rparr>)" "length d = 256"
        "two_wf (r\<lparr>tr_nr_allocated := ?n, tr_data := d\<rparr>)"
        "two_counts (r\<lparr>tr_nr_allocated := ?n, tr_data := d\<rparr>) = (two_counts r)[slot b := unat (v + 1)]"
      using assms(1) by (auto simp: two_ok_def intro: two_store_spec [OF _ _ \<open>v + 1 \<le> 2\<close> refl n])
    have r: "(if v = 0 then r\<lparr>tr_nr_allocated := tr_nr_allocated r + 1\<rparr> else r) =
        r\<lparr>tr_nr_allocated := if v = 0 then tr_nr_allocated r + 1 else tr_nr_allocated r\<rparr>" by simp
    have "min 2 (two_counts r ! slot b + 1) = unat (v + 1)"
      using v1 v(1) True by (simp add: word_less_nat_alt)
    with d show ?thesis using True by (auto simp: two_bump_def r two_ok_def bump_count_def)
  next
    case False
    with v have "two_counts r ! slot b = 2" by (simp add: word_less_nat_alt word_le_nat_alt)
    then have "bump_count 2 b (two_counts r) = two_counts r" by (simp add: bump_count_def list_update_same_conv)
    with False assms(1) show ?thesis by (simp add: two_bump_def)
  qed
qed

lemma two_inc_one_spec: "two_ok r \<Longrightarrow>
    \<exists>r'. two_inc_one b r = (Ok (), r') \<and> two_ok r' \<and> two_counts r' = bump_count 2 b (two_counts r)"
  using two_at_slot [of r b] two_bump_spec [of r b] by (auto simp: two_inc_one_def)

lemma two_alloc_ok: "two_wf r \<Longrightarrow> two_ok (two_alloc_data r)"
  using two_wf_alloc [of r] by (simp add: two_ok_def)

lemma two_increment_spec:
  "two_wf r \<Longrightarrow> \<exists>r'. two_increment blocks r = (Ok (), r') \<and> two_wf r' \<and>
     two_counts r' = fold (bump_count 2) blocks (two_counts r)"
proof -
  assume w: "two_wf r"
  have "\<exists>r'. for_each two_inc_one blocks r = (Ok (), r') \<and> two_ok r' \<and> two_counts r' = fold (bump_count 2) blocks (two_counts r)"
    if "two_ok r" for r
    using that
  proof (induction blocks arbitrary: r)
    case (Cons b blocks)
    from two_inc_one_spec [OF Cons.prems, of b] Cons.IH show ?case by fastforce
  qed simp
  from this [OF two_alloc_ok [OF w]] show ?thesis by (auto simp: two_increment_def two_ok_def)
qed

lemma two_set_one_spec:
  assumes "two_wf r"
  shows "\<exists>r'. two_set_one (block, rc) r = (Ok (), r') \<and> two_wf r' \<and> two_counts r' = put_count 2 (block, rc) (two_counts r)"
proof -
  let ?v = "ucast (min rc 2) :: u8"
  have m: "unat (min rc 2) = min 2 (unat rc)" by (auto simp: min_def word_le_nat_alt)
  then have v: "unat ?v = min 2 (unat rc)" by (subst unat_ucast_small) simp_all
  then have v2: "?v \<le> 2" by (simp add: word_le_nat_alt)
  obtain before where b: "(if tr_data r = [] then Ok 0 else two_at (tr_data r) (slot block)) = Ok before"
    "unat before = two_counts r ! slot block"
  proof (cases "tr_data r = []")
    case True
    then show thesis by (intro that [of 0]) (simp_all add: two_counts_empty)
  next
    case False
    then have "two_ok r" using assms by (auto simp: two_ok_def two_wf_def REGION_SIZE_def)
    from two_at_slot [OF this, of block] False that show thesis by auto
  qed
  show ?thesis
  proof (cases "?v = before")
    case True
    then have "put_count 2 (block, rc) (two_counts r) = two_counts r"
      using v b(2) by (simp add: put_count_eq list_update_same_conv)
    with True b assms show ?thesis by (simp add: two_set_one_def)
  next
    case False
    let ?r = "two_alloc_data r"
    have z: "before = 0 \<longleftrightarrow> two_counts r ! slot block = 0" using b(2) by (metis unat_eq_0)
    have nr: "tr_nr_allocated ?r = tr_nr_allocated r" by (simp add: two_alloc_data_def)
    let ?n = "if before = 0 \<and> ?v \<noteq> 0 then tr_nr_allocated r + 1
      else if before \<noteq> 0 \<and> ?v = 0 then tr_nr_allocated r - 1 else tr_nr_allocated r"
    have n: "?n = (if two_counts ?r ! slot block = 0 \<and> ?v \<noteq> 0 then tr_nr_allocated ?r + 1
        else if two_counts ?r ! slot block \<noteq> 0 \<and> ?v = 0 then tr_nr_allocated ?r - 1 else tr_nr_allocated ?r)"
      using z nr by simp
    have ok: "two_wf ?r" "length (tr_data ?r) = 256" using two_wf_alloc [OF assms] by auto
    obtain d where
      d: "\<forall>m. two_store (slot block) ?v (?r\<lparr>tr_nr_allocated := m\<rparr>) = (Ok (), ?r\<lparr>tr_nr_allocated := m, tr_data := d\<rparr>)"
        "length d = 256" "two_wf (?r\<lparr>tr_nr_allocated := ?n, tr_data := d\<rparr>)"
        "two_counts (?r\<lparr>tr_nr_allocated := ?n, tr_data := d\<rparr>) = (two_counts ?r)[slot block := unat ?v]"
      using two_store_spec [OF ok v2 refl n] by blast
    have s: "two_store (slot block) ?v ?r = (Ok (), ?r\<lparr>tr_data := d\<rparr>)"
      using spec [OF d(1), of "tr_nr_allocated ?r"] by simp
    have comm: "?r\<lparr>tr_data := d, tr_nr_allocated := n\<rparr> = ?r\<lparr>tr_nr_allocated := n, tr_data := d\<rparr>" for n
      by (cases ?r) simp
    have "put_count 2 (block, rc) (two_counts r) = (two_counts r)[slot block := unat ?v]"
      by (simp add: put_count_eq v)
    moreover have "two_set_one (block, rc) r = (Ok (), ?r\<lparr>tr_nr_allocated := ?n, tr_data := d\<rparr>)"
      using False b(1) s by (auto simp: two_set_one_def Let_def nr comm)
    ultimately show ?thesis using d(3,4) by auto
  qed
qed

lemma two_set_spec:
  "two_wf r \<Longrightarrow> \<exists>r'. two_set pairs r = (Ok (), r') \<and> two_wf r' \<and> two_counts r' = fold (put_count 2) pairs (two_counts r)"
  unfolding two_set_def
proof (induction pairs arbitrary: r)
  case (Cons p pairs)
  obtain block rc where p: "p = (block, rc)" by fastforce
  from two_set_one_spec [OF Cons.prems, of block rc] Cons.IH show ?case by (fastforce simp: p)
qed simp

lemma two_tai_spec:
  assumes "bitset_laws bs"
  shows "two_ok r \<Longrightarrow> pos + length blocks \<le> bs_len bs results \<Longrightarrow>
    \<exists>r' results'. two_tai_loop bs pos blocks (r, results) = (Ok (), r', results') \<and> two_ok r' \<and>
      two_counts r' = fold (bump_count 2) blocks (two_counts r) \<and>
      marked bs pos (seen_counts 2 blocks (two_counts r)) results results'"
proof (induction blocks arbitrary: pos r results)
  case (Cons b blocks)
  obtain v where v: "two_at (tr_data r) (slot b) = Ok v" "unat v = two_counts r ! slot b"
    using two_at_slot [OF Cons.prems(1), of b] by blast
  have z: "(0 < v) = (0 < two_counts r ! slot b)" using v(2) by (simp add: word_less_nat_alt)
  obtain r1 where r1: "bs_set bs results pos (0 < v) = Some r1"
    using bitset_set_Some [OF assms] Cons.prems(2) by fastforce
  have rl: "bs_len bs r1 = bs_len bs results" by (rule bitset_set_SomeD(2) [OF assms r1])
  obtain r2 where r2: "two_bump (slot b) v r = (Ok (), r2)" "two_ok r2" "two_counts r2 = bump_count 2 b (two_counts r)"
    using two_bump_spec [OF Cons.prems(1) v(1)] by blast
  obtain r3 res3 where "two_tai_loop bs (pos + 1) blocks (r2, r1) = (Ok (), r3, res3)" "two_ok r3"
    "two_counts r3 = fold (bump_count 2) blocks (two_counts r2)"
    "marked bs (pos + 1) (seen_counts 2 blocks (two_counts r2)) r1 res3"
    using Cons.IH [OF r2(2), of "pos + 1" r1] Cons.prems(2) rl by auto
  then show ?case using v r1 r2 marked_Cons [OF assms r1] by (auto simp: z)
qed simp

lemma two_test_and_inc_spec:
  assumes "bitset_laws bs" "two_wf r" "offset + length blocks \<le> bs_len bs results"
  shows "\<exists>r' results'. two_test_and_inc bs blocks offset (r, results) = (Ok (), r', results') \<and> two_wf r' \<and>
    two_counts r' = fold (bump_count 2) blocks (two_counts r) \<and>
    marked bs offset (seen_counts 2 blocks (two_counts r)) results results'"
  using two_tai_spec [OF assms(1) two_alloc_ok [OF assms(2)] assms(3)]
  by (auto simp: two_test_and_inc_def two_ok_def)

lemma two_lookup_spec:
  assumes "two_wf r" and n: "n = min (length out) (REGION_SIZE - slot b)"
  shows "two_lookup r b out = Ok (word_of_nat n, map word_of_nat (take n (drop (slot b) (two_counts r))) @ drop n out)"
proof -
  have e: "min (slot b + length out) REGION_SIZE = slot b + n"
    using slot_less(1) [of b] n by linarith
  have le: "slot b + n \<le> REGION_SIZE" using slot_less(1) [of b] n by linarith
  show ?thesis
  proof (cases "tr_data r = []")
    case True
    then show ?thesis using le by (simp add: two_lookup_def Let_def e two_counts_empty)
  next
    case False
    then have len: "length (tr_data r) = 256" using assms(1) by (simp add: two_wf_def REGION_SIZE_def)
    let ?put = "\<lambda>i out. mapr (\<lambda>v. out[i - slot b := ucast v]) (two_at (tr_data r) i) :: (unit, u32 list) result"
    have "foldr_res ?put [slot b..<slot b + k] out =
        Ok (map (\<lambda>i. word_of_nat (two_count_at (tr_data r) i)) [slot b..<slot b + k] @ drop k out)" if "k \<le> n" for k
      using that
    proof (induction k)
      case (Suc k)
      have kl: "k < length out" "slot b + k < 1024" using Suc.prems n le by (auto simp: REGION_SIZE_def)
      obtain v where v: "two_at (tr_data r) (slot b + k) = Ok v" using two_at_Ok [OF len kl(2)] by blast
      have "(map (\<lambda>i. word_of_nat (two_count_at (tr_data r) i)) [slot b..<slot b + k] @ drop k out)[k := ucast v] =
          map (\<lambda>i. word_of_nat (two_count_at (tr_data r) i)) [slot b..<slot b + k] @ ucast v # drop (Suc k) out"
        using kl(1) by (simp add: list_update_append Cons_nth_drop_Suc [symmetric])
      moreover have "(word_of_nat (two_count_at (tr_data r) (slot b + k)) :: u32) = ucast v" by (simp add: two_count_at_def v)
      ultimately show ?case using Suc v by (simp add: foldr_res_append)
    qed simp
    from this [OF order_refl] have "foldr_res ?put [slot b..<slot b + n] out =
        Ok (map word_of_nat (take n (drop (slot b) (two_counts r))) @ drop n out)"
      using le by (simp add: two_counts_def take_map drop_map comp_def take_upt)
    with False show ?thesis by (simp add: two_lookup_def Let_def e)
  qed
qed

lemma two_ops [simp]:
  "rg_default (two_region_ops bs) = two_region_default" "rg_increment (two_region_ops bs) = two_increment"
  "rg_lookup (two_region_ops bs) = two_lookup" "rg_set (two_region_ops bs) = two_set"
  "rg_test_and_inc (two_region_ops bs) = two_test_and_inc bs" "rg_rep_size (two_region_ops bs) = two_rep_size"
  "rg_nr_allocated (two_region_ops bs) = tr_nr_allocated"
  by (simp_all add: two_region_ops_def)

definition two_region_wf :: "'b bitset \<Rightarrow> two_region \<Rightarrow> bool" where
  "two_region_wf bs r \<longleftrightarrow> bitset_laws bs \<and> two_wf r"

lemma two_default: "two_counts two_region_default = replicate REGION_SIZE 0" "two_wf two_region_default"
  by (simp_all add: two_region_default_def two_counts_empty two_wf_def)

interpretation two_regions: region "two_region_ops bs" bs "two_region_wf bs" two_counts 2 True "bitset_laws bs"
  for bs :: "'b bitset"
proof unfold_locales
  show "two_counts r ! i \<le> 2" if "two_region_wf bs r" "i < REGION_SIZE" for r i
    using that by (simp add: two_region_wf_def two_wf_def two_counts_def)
  show "unat (rg_nr_allocated (two_region_ops bs) r) = allocated (two_counts r)" if "two_region_wf bs r" for r
    using that by (simp add: two_region_wf_def two_wf_def)
qed (simp_all add: two_region_wf_def two_default two_lookup_spec two_increment_spec two_set_spec two_test_and_inc_spec)

end
