(* ===== verification/Aggregator.thy ===== *)
theory Aggregator
  imports Sm_Region
begin

text \<open>
  \<open>AggregatorImpl\<close> of \<open>src/pdata/space_map/aggregator.rs\<close>: reference counts kept region by region.
  A region is locked for the duration of one operation on it; here it is one step on its
  entry of the list of regions. The aggregator is generic in the kind of its regions: what
  it does is proved in the context of the locale \<open>region\<close> and holds for \<open>Aggregator\<close> and
  \<open>RestrictedTwoAggregator\<close>.
\<close>

record 'r aggregator =
  ag_nr_entries :: nat
  ag_regions :: "'r list"
  ag_nr_allocated :: u64

definition ag_new :: "('r, 'b) region_ops \<Rightarrow> nat \<Rightarrow> 'r aggregator" where
  "ag_new ops nr_entries = \<lparr>ag_nr_entries = nr_entries,
     ag_regions = replicate ((nr_entries + (REGION_SIZE - 1)) div REGION_SIZE) (rg_default ops), ag_nr_allocated = 0\<rparr>"

section \<open>One region at a time\<close>

definition region_of :: "u64 \<Rightarrow> u64" where
  "region_of block = block div 1024"

text \<open>
  The loop of \<open>increment\<close>, \<open>test_and_inc\<close> and \<open>set_batch\<close>: adjacent elements of one region are
  handed to \<open>f\<close> together, with the region and the index of the first.
\<close>

fun run_loop :: "('x \<Rightarrow> u64) \<Rightarrow> 'x list \<Rightarrow> (u64 \<Rightarrow> nat \<Rightarrow> 'x list \<Rightarrow> 's \<Rightarrow> ('s, unit) panics) \<Rightarrow> nat list \<Rightarrow>
    nat \<Rightarrow> u64 \<Rightarrow> 's \<Rightarrow> ('s, unit) panics" where
  "run_loop key xs f [] start start_region s = f start_region start (drop start xs) s"
| "run_loop key xs f (i # is) start start_region s =
    (let current_region = key (xs ! i) in
     if current_region \<noteq> start_region then
       binds (f start_region start (take (i - start) (drop start xs)) s) (\<lambda>_. run_loop key xs f is i current_region)
     else run_loop key xs f is start start_region s)"

definition by_region :: "('x \<Rightarrow> u64) \<Rightarrow> (u64 \<Rightarrow> nat \<Rightarrow> 'x list \<Rightarrow> 's \<Rightarrow> ('s, unit) panics) \<Rightarrow> 'x list \<Rightarrow> 's \<Rightarrow>
    ('s, unit) panics" where
  "by_region key f xs s = run_loop key xs f [1..<length xs] 0 (key (xs ! 0)) s"

definition with_region :: "('r \<Rightarrow> ('r \<times> 'x, unit) panics) \<Rightarrow> u64 \<Rightarrow> 'r aggregator \<Rightarrow>
    (unit, 'r \<times> 'x) result \<times> 'r aggregator" where
  "with_region f idx a = (case f (ag_regions a ! unat idx) of
     (Ok u, r, x) \<Rightarrow> (Ok (r, x), a\<lparr>ag_regions := (ag_regions a)[unat idx := r]\<rparr>)
   | (_, r, x) \<Rightarrow> (Panic, a\<lparr>ag_regions := (ag_regions a)[unat idx := r]\<rparr>))"

definition no_such_region :: "u64 \<Rightarrow> 'r aggregator \<Rightarrow> bool" where
  "no_such_region idx a \<longleftrightarrow> length (ag_regions a) \<le> unat idx"

definition process_region_increment :: "('r, 'b) region_ops \<Rightarrow> u64 \<Rightarrow> u64 list \<Rightarrow> 'r aggregator \<Rightarrow> ('r aggregator, u64) panics" where
  "process_region_increment ops idx blocks a =
    (if no_such_region idx a then (Ok 0, a)
     else let before = rg_nr_allocated ops (ag_regions a ! unat idx) in
       binds (with_region (\<lambda>r. case rg_increment ops blocks r of (x, r) \<Rightarrow> (x, r, ())) idx a) (\<lambda>(r, _) a.
         (Ok (ucast (rg_nr_allocated ops r - before)), a)))"

definition process_region_test_and_inc :: "('r, 'b) region_ops \<Rightarrow> u64 \<Rightarrow> u64 list \<Rightarrow> 'b \<Rightarrow> nat \<Rightarrow> 'r aggregator \<Rightarrow>
    ('r aggregator, u64 \<times> 'b) panics" where
  "process_region_test_and_inc ops idx blocks results offset a =
    (if no_such_region idx a then (Ok (0, results), a)
     else let before = rg_nr_allocated ops (ag_regions a ! unat idx) in
       binds (with_region (\<lambda>r. rg_test_and_inc ops blocks offset (r, results)) idx a) (\<lambda>(r, results) a.
         (Ok (ucast (rg_nr_allocated ops r - before), results), a)))"

definition process_region_set :: "('r, 'b) region_ops \<Rightarrow> u64 \<Rightarrow> (u64 \<times> u32) list \<Rightarrow> 'r aggregator \<Rightarrow>
    ('r aggregator, u64 \<times> u64) panics" where
  "process_region_set ops idx pairs a =
    (if no_such_region idx a then (Ok (0, 0), a)
     else let before = rg_nr_allocated ops (ag_regions a ! unat idx) in
       binds (with_region (\<lambda>r. case rg_set ops pairs r of (x, r) \<Rightarrow> (x, r, ())) idx a) (\<lambda>(r, _) a.
         (Ok (if before \<le> rg_nr_allocated ops r then (ucast (rg_nr_allocated ops r - before), 0)
              else (0, ucast (before - rg_nr_allocated ops r))), a)))"

definition inc_allocated :: "u64 \<Rightarrow> 'r aggregator \<Rightarrow> 'r aggregator" where
  "inc_allocated n a = a\<lparr>ag_nr_allocated := sat_add64 (ag_nr_allocated a) n\<rparr>"

definition dec_allocated :: "u64 \<Rightarrow> 'r aggregator \<Rightarrow> 'r aggregator" where
  "dec_allocated n a = a\<lparr>ag_nr_allocated := sat_sub64 (ag_nr_allocated a) n\<rparr>"

section \<open>The operations\<close>

definition ag_increment :: "('r, 'b) region_ops \<Rightarrow> u64 list \<Rightarrow> 'r aggregator \<Rightarrow> ('r aggregator, unit) panics" where
  "ag_increment ops blocks a =
    (if blocks = [] then (Ok (), a)
     else case by_region region_of (\<lambda>idx start bl (n, a).
         case process_region_increment ops idx bl a of (r, a) \<Rightarrow> (case r of Ok k \<Rightarrow> (Ok (), n + k, a) | _ \<Rightarrow> (Panic, n, a)))
       blocks (0, a) of (r, n, a) \<Rightarrow> (case r of Ok _ \<Rightarrow> (Ok (), inc_allocated n a) | _ \<Rightarrow> (Panic, a)))"

definition ag_inc_single :: "('r, 'b) region_ops \<Rightarrow> u64 \<Rightarrow> 'r aggregator \<Rightarrow> ('r aggregator, unit) panics" where
  "ag_inc_single ops block a = ag_increment ops [block] a"

definition ag_test_and_inc :: "('r, 'b) region_ops \<Rightarrow> 'b bitset \<Rightarrow> u64 list \<Rightarrow> 'r aggregator \<Rightarrow> ('r aggregator, 'b) panics" where
  "ag_test_and_inc ops bs blocks a =
    (let results = bs_with_capacity bs (length blocks) in
     if blocks = [] then (Ok results, a)
     else case by_region region_of (\<lambda>idx start bl (n, results, a).
         case process_region_test_and_inc ops idx bl results start a of (r, a) \<Rightarrow>
           (case r of Ok (k, results) \<Rightarrow> (Ok (), n + k, results, a) | _ \<Rightarrow> (Panic, n, results, a)))
       blocks (0, results, a) of (r, n, results, a) \<Rightarrow>
         (case r of Ok _ \<Rightarrow> (Ok results, inc_allocated n a) | _ \<Rightarrow> (Panic, a)))"

definition ag_set_batch :: "('r, 'b) region_ops \<Rightarrow> (u64 \<times> u32) list \<Rightarrow> 'r aggregator \<Rightarrow> ('r aggregator, unit) panics" where
  "ag_set_batch ops pairs a =
    (if pairs = [] then (Ok (), a)
     else case by_region (\<lambda>p. region_of (fst p)) (\<lambda>idx start ps ((n, m), a).
         case process_region_set ops idx ps a of (r, a) \<Rightarrow>
           (case r of Ok (k, l) \<Rightarrow> (Ok (), (n + k, m + l), a) | _ \<Rightarrow> (Panic, (n, m), a)))
       pairs ((0, 0), a) of (r, (gained, freed), a) \<Rightarrow>
         (case r of Ok _ \<Rightarrow> (Ok (),
             if freed < gained then inc_allocated (gained - freed) a
             else if gained < freed then dec_allocated (freed - gained) a else a)
          | _ \<Rightarrow> (Panic, a)))"

text \<open>The loop of \<open>lookup\<close> ends when the regions answer at least one count at a time.\<close>

partial_function (option) ag_lookup_loop :: "('r, 'b) region_ops \<Rightarrow> 'r aggregator \<Rightarrow> u64 \<Rightarrow> u64 \<Rightarrow> u64 \<Rightarrow> u32 list \<Rightarrow>
    (unit, u64 \<times> u32 list) result option" where
  "ag_lookup_loop ops a b e nr_read results =
    (if \<not> b < e then Some (Ok (nr_read, results))
     else let region_idx = unat b div REGION_SIZE in
       if length (ag_regions a) \<le> region_idx \<or> length results < unat nr_read then Some Panic
       else case rg_lookup ops (ag_regions a ! region_idx) b (drop (unat nr_read) results) of
         Ok (l, out) \<Rightarrow> ag_lookup_loop ops a (b + l) e (nr_read + l) (take (unat nr_read) results @ out)
       | _ \<Rightarrow> Some Panic)"

declare ag_lookup_loop.simps [code]

definition ag_lookup :: "('r, 'b) region_ops \<Rightarrow> 'r aggregator \<Rightarrow> u64 \<Rightarrow> u32 list \<Rightarrow> (unit, u64 \<times> u32 list) result option" where
  "ag_lookup ops a begin results =
    (if (word_of_nat (ag_nr_entries a) :: u64) \<le> begin then Some (Ok (0, results))
     else let n = min (length results) (ag_nr_entries a - unat begin);
              e = min (unat begin + n) (ag_nr_entries a) in
       map_option (mapr (\<lambda>(k, out). (k, out @ drop n results)))
         (ag_lookup_loop ops a begin (word_of_nat e) 0 (take n results)))"

text \<open>\<open>diff\<close>: the two buffers are used again for every region, \<open>s\<close> is the state of the callback \<open>f\<close>.\<close>

definition diff_region :: "('r, 'b) region_ops \<Rightarrow> 'r aggregator \<Rightarrow> 'r aggregator \<Rightarrow>
    (u64 \<Rightarrow> u32 \<Rightarrow> u32 \<Rightarrow> 's \<Rightarrow> ('s, unit) panics) \<Rightarrow> nat \<Rightarrow> (u32 list \<times> u32 list) \<times> 's \<Rightarrow>
    ((u32 list \<times> u32 list) \<times> 's, unit) panics" where
  "diff_region ops a b f region_idx = (\<lambda>((self_counts, other_counts), s).
    (let region_base = region_idx * REGION_SIZE;
         region_limit = min ((region_idx + 1) * REGION_SIZE) (ag_nr_entries a);
         l = region_limit - region_base in
     case (rg_lookup ops (ag_regions a ! region_idx) (word_of_nat region_base) (take l self_counts),
           rg_lookup ops (ag_regions b ! region_idx) (word_of_nat region_base) (take l other_counts)) of
       (Ok (_, sc), Ok (_, oc)) \<Rightarrow>
         let self_counts = sc @ drop l self_counts; other_counts = oc @ drop l other_counts in
         case for_each (\<lambda>i s. if self_counts ! i \<noteq> other_counts ! i
           then f (word_of_nat (region_base + i)) (self_counts ! i) (other_counts ! i) s else (Ok (), s)) [0..<l] s of
         (r, s) \<Rightarrow> (r, (self_counts, other_counts), s)
     | _ \<Rightarrow> (Panic, (self_counts, other_counts), s)))"

definition ag_diff :: "('r, 'b) region_ops \<Rightarrow> 'r aggregator \<Rightarrow> 'r aggregator \<Rightarrow>
    (u64 \<Rightarrow> u32 \<Rightarrow> u32 \<Rightarrow> 's \<Rightarrow> ('s, unit) panics) \<Rightarrow> 's \<Rightarrow> ('s, unit) panics" where
  "ag_diff ops a b f s =
    (if ag_nr_entries a \<noteq> ag_nr_entries b then (Panic, s)
     else case for_each (diff_region ops a b f) [0..<min (length (ag_regions a)) (length (ag_regions b))]
       ((replicate REGION_SIZE 0, replicate REGION_SIZE 0), s) of (r, _, s) \<Rightarrow> (r, s))"

definition ag_rep_size :: "nat \<Rightarrow> ('r, 'b) region_ops \<Rightarrow> 'r aggregator \<Rightarrow> nat" where
  "ag_rep_size size_of_mutex ops a = foldl (\<lambda>total r. total + size_of_mutex + rg_rep_size ops r) 0 (ag_regions a)"

text \<open>The traits \<open>RefCount\<close> and \<open>SpaceMap\<close>; \<open>alloc\<close>, \<open>find_free\<close> and \<open>get_alloc_begin\<close> are \<open>todo!()\<close>.\<close>

definition ag_get :: "('r, 'b) region_ops \<Rightarrow> 'r aggregator \<Rightarrow> u64 \<Rightarrow> (unit, u32) result option" where
  "ag_get ops a b = map_option (mapr (\<lambda>(_, r). r ! 0)) (ag_lookup ops a b [0])"

definition ag_set :: "('r, 'b) region_ops \<Rightarrow> 'r aggregator \<Rightarrow> u64 \<Rightarrow> u32 \<Rightarrow> ('r aggregator, u32) panics option" where
  "ag_set ops a b v = map_option (\<lambda>r. binds (r, a) (\<lambda>r a. binds (ag_set_batch ops [(b, v)] a) (\<lambda>_ a. (Ok r, a)))) (ag_get ops a b)"

definition ag_inc :: "('r, 'b) region_ops \<Rightarrow> 'r aggregator \<Rightarrow> u64 \<Rightarrow> u64 \<Rightarrow> ('r aggregator, unit) panics" where
  "ag_inc ops a begin n = for_each (ag_inc_single ops) (range64 begin (begin + n)) a"

definition ag_todo :: "'r aggregator \<Rightarrow> ('r aggregator, u64 option) panics" where
  "ag_todo a = (Panic, a)"

section \<open>Batches\<close>

text \<open>An invariant of the number of elements handed over carries a whole batch.\<close>

lemma run_loop_inv:
  assumes step: "\<And>k m s. P k s \<Longrightarrow> 0 < m \<Longrightarrow> k + m \<le> length xs \<Longrightarrow> (\<forall>x\<in>set (take m (drop k xs)). key x = key (xs ! k)) \<Longrightarrow>
      \<exists>s'. f (key (xs ! k)) k (take m (drop k xs)) s = (Ok (), s') \<and> P (k + m) s'"
  shows "P start s \<Longrightarrow> start < i \<Longrightarrow> i \<le> length xs \<Longrightarrow> is = [i..<length xs] \<Longrightarrow>
    (\<forall>x\<in>set (take (i - start) (drop start xs)). key x = key (xs ! start)) \<Longrightarrow>
    \<exists>s'. run_loop key xs f is start (key (xs ! start)) s = (Ok (), s') \<and> P (length xs) s'"
proof (induction "is" arbitrary: i start s)
  case Nil
  from Nil.prems(4) [symmetric] Nil.prems(3) have "i = length xs" by auto
  with Nil.prems step [of start s "length xs - start"] show ?case by simp
next
  case (Cons j js)
  from Cons.prems(4) [symmetric] have j: "j = i" "i < length xs" "js = [Suc i..<length xs]"
    by (auto simp: upt_eq_Cons_conv)
  have e: "i - start \<le> length (drop start xs)" using Cons.prems j by simp
  show ?case
  proof (cases "key (xs ! i) = key (xs ! start)")
    case True
    have "take (Suc i - start) (drop start xs) = take (i - start) (drop start xs) @ [xs ! i]"
      using Cons.prems(2) j(2) by (simp add: Suc_diff_le take_Suc_conv_app_nth)
    then have "\<forall>x\<in>set (take (Suc i - start) (drop start xs)). key x = key (xs ! start)"
      using Cons.prems(5) True by auto
    from Cons.IH [OF Cons.prems(1) _ _ j(3) this] Cons.prems(1-3) j True show ?thesis by (simp add: Let_def)
  next
    case False
    obtain s1 where s1: "f (key (xs ! start)) start (take (i - start) (drop start xs)) s = (Ok (), s1)" "P i s1"
      using step [OF Cons.prems(1) _ _ Cons.prems(5)] Cons.prems j(2) by auto
    have "take (Suc i - i) (drop i xs) = [xs ! i]" using j(2) by (simp add: take_Suc_conv_app_nth)
    with Cons.IH [OF s1(2) _ _ j(3)] j s1(1) False show ?thesis by (simp add: Let_def)
  qed
qed

lemma by_region_inv:
  assumes "P 0 s" "xs \<noteq> []"
    and "\<And>k m s. P k s \<Longrightarrow> 0 < m \<Longrightarrow> k + m \<le> length xs \<Longrightarrow> (\<forall>x\<in>set (take m (drop k xs)). key x = key (xs ! k)) \<Longrightarrow>
      \<exists>s'. f (key (xs ! k)) k (take m (drop k xs)) s = (Ok (), s') \<and> P (k + m) s'"
  shows "\<exists>s'. by_region key f xs s = (Ok (), s') \<and> P (length xs) s'"
  unfolding by_region_def
  by (rule run_loop_inv [where P = P and key = key and f = f and xs = xs and i = 1, OF assms(3) assms(1)])
    (use assms(2) in \<open>auto simp: take_Suc_conv_app_nth Suc_le_eq\<close>)

lemma unat_region_of: "unat (region_of b) = unat b div 1024"
  by (simp add: region_of_def unat_div)

lemma block_of_region: "unat b = 1024 * unat (region_of b) + slot b"
  by (simp add: unat_region_of slot_def REGION_SIZE_def)

lemma count_slots:
  assumes "\<forall>b\<in>set bl. region_of b = r" "i < 1024"
  shows "count_list (map slot bl) i = count_list (map unat bl) (1024 * unat r + i)"
  using assms
proof (induction bl)
  case (Cons b bl)
  have "slot b = i \<longleftrightarrow> unat b = 1024 * unat r + i" using block_of_region [of b] Cons.prems by auto
  with Cons show ?case by auto
qed simp

lemma count_other_region:
  assumes "\<forall>b\<in>set bl. region_of b = r" "n div 1024 \<noteq> unat r"
  shows "count_list (map unat bl) n = 0"
  using assms by (auto simp: count_list_0_iff unat_region_of)

section \<open>The counts of an aggregator\<close>

lemma allocated_bump_le: "slot b < length cs \<Longrightarrow> 0 < cap \<Longrightarrow> allocated cs \<le> allocated (bump_count cap b cs)"
  using allocated_update [of "slot b" cs "min cap (cs ! slot b + 1)"] by (auto simp: bump_count_def of_bool_def split: if_splits)

lemma allocated_bumps_le: "length cs = REGION_SIZE \<Longrightarrow> 0 < cap \<Longrightarrow> allocated cs \<le> allocated (fold (bump_count cap) bl cs)"
proof (induction bl arbitrary: cs)
  case (Cons b bl)
  have "allocated cs \<le> allocated (bump_count cap b cs)" by (rule allocated_bump_le) (use Cons.prems in simp_all)
  also have "\<dots> \<le> allocated (fold (bump_count cap) bl (bump_count cap b cs))" using Cons by simp
  finally show ?case by simp
qed simp

lemma allocated_put_diff:
  "length cs = REGION_SIZE \<Longrightarrow> allocated (fold (put_count cap) ps cs) \<le> allocated cs + length ps \<and>
     allocated cs \<le> allocated (fold (put_count cap) ps cs) + length ps"
proof (induction ps arbitrary: cs)
  case (Cons p ps)
  obtain b rc where p: "p = (b, rc)" by fastforce
  have "slot b < length cs" using Cons.prems by simp
  from allocated_update [OF this, of "min cap (unat rc)"]
  have "allocated (put_count cap p cs) \<le> allocated cs + 1 \<and> allocated cs \<le> allocated (put_count cap p cs) + 1"
    by (auto simp: p put_count_eq of_bool_def split: if_splits)
  with Cons.IH [of "put_count cap p cs"] Cons.prems show ?case by auto
qed simp

lemma sum_list_update_nat:
  "i < length xs \<Longrightarrow> sum_list (xs[i := (v :: nat)]) + xs ! i = sum_list xs + v"
proof (induction xs arbitrary: i)
  case (Cons x xs)
  then show ?case by (cases i) auto
qed simp

lemma unat_ucast64: "unat (ucast (w :: u32) :: u64) = unat w"
  by (rule unat_ucast_up) simp

context region
begin

text \<open>The count of a block, the block being inside the regions; the number of allocated blocks.\<close>

definition agc :: "'r aggregator \<Rightarrow> nat \<Rightarrow> nat" where
  "agc a n = counts (ag_regions a ! (n div 1024)) ! (n mod 1024)"

definition ag_limit :: "'r aggregator \<Rightarrow> nat" where
  "ag_limit a = 1024 * length (ag_regions a)"

definition regions_wf :: "'r aggregator \<Rightarrow> bool" where
  "regions_wf a \<longleftrightarrow> ag_nr_entries a \<le> 2 ^ 62 \<and>
     length (ag_regions a) = (ag_nr_entries a + (REGION_SIZE - 1)) div REGION_SIZE \<and>
     (\<forall>r\<in>set (ag_regions a). wf r)"

definition ag_sum :: "'r aggregator \<Rightarrow> nat" where
  "ag_sum a = sum_list (map (\<lambda>r. allocated (counts r)) (ag_regions a))"

definition ag_wf :: "'r aggregator \<Rightarrow> bool" where
  "ag_wf a \<longleftrightarrow> regions_wf a \<and> unat (ag_nr_allocated a) = ag_sum a"

definition same_shape :: "'r aggregator \<Rightarrow> 'r aggregator \<Rightarrow> bool" where
  "same_shape a a' \<longleftrightarrow> regions_wf a' \<and> ag_nr_entries a' = ag_nr_entries a \<and>
     length (ag_regions a') = length (ag_regions a) \<and> ag_nr_allocated a' = ag_nr_allocated a"

lemma same_shape_refl: "regions_wf a \<Longrightarrow> same_shape a a"
  by (simp add: same_shape_def)

lemma ag_limit_bound: "regions_wf a \<Longrightarrow> ag_limit a < 2 ^ 63 \<and> ag_nr_entries a \<le> ag_limit a \<and> ag_limit a < ag_nr_entries a + 1024"
  by (auto simp: regions_wf_def ag_limit_def REGION_SIZE_def)

lemma ag_sum_le: "regions_wf a \<Longrightarrow> ag_sum a \<le> ag_limit a"
proof -
  assume w: "regions_wf a"
  have "sum_list (map (\<lambda>r. allocated (counts r)) rs) \<le> 1024 * length rs" if "\<forall>r\<in>set rs. wf r" for rs
    using that
  proof (induction rs)
    case (Cons r rs)
    then have "allocated (counts r) \<le> 1024"
      using allocated_le [of "counts r"] length_counts [of r] by (simp add: REGION_SIZE_def)
    with Cons show ?case by simp
  qed simp
  from this [of "ag_regions a"] w show ?thesis unfolding regions_wf_def ag_sum_def ag_limit_def by blast
qed

text \<open>One region replaced.\<close>

lemma put_region:
  assumes "regions_wf a" "j < length (ag_regions a)" "wf r"
  defines "a' \<equiv> a\<lparr>ag_regions := (ag_regions a)[j := r]\<rparr>"
  shows "same_shape a a'"
    and "agc a' n = (if n div 1024 = j then counts r ! (n mod 1024) else agc a n)"
    and "ag_sum a' + allocated (counts (ag_regions a ! j)) = ag_sum a + allocated (counts r)"
proof -
  show "same_shape a a'"
    using assms by (auto simp: same_shape_def regions_wf_def a'_def dest!: set_update_subset_insert [THEN subsetD])
  show "agc a' n = (if n div 1024 = j then counts r ! (n mod 1024) else agc a n)"
    using assms(2) by (auto simp: agc_def a'_def)
  show "ag_sum a' + allocated (counts (ag_regions a ! j)) = ag_sum a + allocated (counts r)"
    using sum_list_update_nat [of j "map (\<lambda>r. allocated (counts r)) (ag_regions a)" "allocated (counts r)"] assms(2)
    by (simp add: ag_sum_def a'_def map_update)
qed

lemma wf_region: "regions_wf a \<Longrightarrow> j < length (ag_regions a) \<Longrightarrow> wf (ag_regions a ! j)"
  by (simp add: regions_wf_def)

lemma agc_cap: "regions_wf a \<Longrightarrow> n < ag_limit a \<Longrightarrow> agc a n \<le> cap"
  unfolding agc_def by (rule counts_cap [OF wf_region]) (simp_all add: ag_limit_def REGION_SIZE_def less_mult_imp_div_less mult.commute)

lemma new_wf: "valid \<Longrightarrow> nr \<le> 2 ^ 62 \<Longrightarrow> ag_wf (ag_new ops nr) \<and>
    (\<forall>n<ag_limit (ag_new ops nr). agc (ag_new ops nr) n = 0)"
  using wf_default
  by (auto simp: ag_wf_def regions_wf_def ag_new_def ag_sum_def agc_def ag_limit_def map_replicate_const sum_list_replicate
      REGION_SIZE_def less_mult_imp_div_less mult.commute)

text \<open>The steps of the batches.\<close>

definition bumped :: "'r aggregator \<Rightarrow> u64 list \<Rightarrow> 'r aggregator \<Rightarrow> bool" where
  "bumped a bl a' \<longleftrightarrow> same_shape a a' \<and> ag_sum a \<le> ag_sum a' \<and>
     (\<forall>n<ag_limit a. agc a' n = min cap (agc a n + count_list (map unat bl) n))"

lemma bumped_refl: "regions_wf a \<Longrightarrow> bumped a [] a"
  by (auto simp: bumped_def same_shape_refl dest: agc_cap)

lemma bumped_trans: "bumped a bl a1 \<Longrightarrow> bumped a1 bl' a2 \<Longrightarrow> bumped a (bl @ bl') a2"
  by (auto simp: bumped_def same_shape_def ag_limit_def)

lemma bump_region:
  assumes w: "regions_wf a" and j: "unat idx < length (ag_regions a)" and bl: "\<forall>b\<in>set bl. region_of b = idx"
    and r: "wf r" "counts r = fold (bump_count cap) bl (counts (ag_regions a ! unat idx))"
  defines "a' \<equiv> a\<lparr>ag_regions := (ag_regions a)[unat idx := r]\<rparr>"
  shows "bumped a bl a'"
    and "ag_sum a' = ag_sum a + (allocated (counts r) - allocated (counts (ag_regions a ! unat idx)))"
    and "allocated (counts (ag_regions a ! unat idx)) \<le> allocated (counts r)"
proof -
  note put = put_region [OF w j r(1), folded a'_def]
  have lc: "length (counts (ag_regions a ! unat idx)) = REGION_SIZE" by (rule length_counts [OF wf_region [OF w j]])
  show le: "allocated (counts (ag_regions a ! unat idx)) \<le> allocated (counts r)"
    unfolding r(2) by (rule allocated_bumps_le [OF lc]) (rule cap_bounds(1))
  then show s: "ag_sum a' = ag_sum a + (allocated (counts r) - allocated (counts (ag_regions a ! unat idx)))"
    using put(3) by simp
  have "agc a' n = min cap (agc a n + count_list (map unat bl) n)" if n: "n < ag_limit a" for n
  proof (cases "n div 1024 = unat idx")
    case True
    have m: "n mod 1024 < 1024" by simp
    have n': "n = 1024 * unat idx + n mod 1024" using True by (metis div_mult_mod_eq mult.commute)
    have "counts r ! (n mod 1024) = min cap (agc a n + count_list (map slot bl) (n mod 1024))"
      unfolding r(2)
      using counts_cap [OF wf_region [OF w j]] lc True
      by (subst bumps_nth) (auto simp: agc_def REGION_SIZE_def)
    then show ?thesis using put(2) [of n] True count_slots [OF bl m] n' by simp
  next
    case False
    then show ?thesis using put(2) [of n] count_other_region [OF bl False] agc_cap [OF w n] by simp
  qed
  then show "bumped a bl a'" using put(1) s by (simp add: bumped_def)
qed

lemma nr_diff:
  assumes "wf r" "wf r'" "allocated (counts r) \<le> allocated (counts r')"
  shows "unat (ucast (rg_nr_allocated ops r' - rg_nr_allocated ops r) :: u64) = allocated (counts r') - allocated (counts r)"
  using assms by (simp add: unat_ucast64 unat_sub_if' nr_allocated_law)

text \<open>A region that does not exist has no blocks to count.\<close>

lemma bumped_outside:
  assumes "regions_wf a" "no_such_region idx a" "\<forall>b\<in>set bl. region_of b = idx"
  shows "bumped a bl a"
proof -
  have "count_list (map unat bl) n = 0" if "n < ag_limit a" for n
    by (rule count_other_region [OF assms(3)])
      (use that assms(2) in \<open>auto simp: ag_limit_def no_such_region_def less_mult_imp_div_less mult.commute dest: leD\<close>)
  with assms(1) show ?thesis by (auto simp: bumped_def same_shape_refl dest: agc_cap)
qed

definition fits_all :: "'r aggregator \<Rightarrow> u64 list \<Rightarrow> bool" where
  "fits_all a blocks \<longleftrightarrow> saturates \<or> (\<forall>n<ag_limit a. agc a n + count_list (map unat blocks) n \<le> cap)"

lemma fits_allD: "fits_all a bl \<Longrightarrow> \<not> saturates \<Longrightarrow> n < ag_limit a \<Longrightarrow> agc a n + count_list (map unat bl) n \<le> cap"
  unfolding fits_all_def by blast

lemma process_increment:
  assumes w: "regions_wf a" and bl: "bl \<noteq> []" "\<forall>b\<in>set bl. region_of b = idx" and f: "fits_all a bl"
  shows "\<exists>k a'. process_region_increment ops idx bl a = (Ok k, a') \<and> bumped a bl a' \<and> ag_sum a' = ag_sum a + unat k"
proof (cases "no_such_region idx a")
  case True
  with bumped_outside [OF w True bl(2)] show ?thesis by (simp add: process_region_increment_def)
next
  case False
  then have j: "unat idx < length (ag_regions a)" by (simp add: no_such_region_def)
  let ?r = "ag_regions a ! unat idx"
  have wr: "wf ?r" by (rule wf_region [OF w j])
  have "saturates \<or> fits cap bl (counts ?r)"
  proof (cases saturates)
    case False
    have "counts ?r ! i + count_list (map slot bl) i \<le> cap" if i: "i < 1024" for i
    proof -
      have "1024 * unat idx + i < ag_limit a" using i j by (simp add: ag_limit_def)
      moreover have "(1024 * unat idx + i) div 1024 = unat idx" "(1024 * unat idx + i) mod 1024 = i" using i by simp_all
      ultimately show ?thesis using fits_allD [OF f False, of "1024 * unat idx + i"] count_slots [OF bl(2) i]
        by (simp add: agc_def)
    qed
    then show ?thesis by (simp add: fits_def REGION_SIZE_def)
  qed simp
  from increment_law [OF wr bl(1) this] obtain r' where
    r': "rg_increment ops bl ?r = (Ok (), r')" "wf r'" "counts r' = fold (bump_count cap) bl (counts ?r)" by blast
  note b = bump_region [OF w j bl(2) r'(2,3)]
  show ?thesis using False r'(1) b nr_diff [OF wr r'(2) b(3)]
    by (auto simp: process_region_increment_def with_region_def Let_def)
qed

lemma fits_all_step:
  assumes "fits_all a (xs @ ys)" "bumped a xs a1"
  shows "fits_all a1 ys"
proof (cases saturates)
  case False
  have "min cap (agc a n + count_list (map unat xs) n) + count_list (map unat ys) n \<le> cap" if "n < ag_limit a" for n
    using fits_allD [OF assms(1) False that] by (simp add: min_def)
  then show ?thesis using assms(2) by (auto simp: fits_all_def bumped_def same_shape_def ag_limit_def)
qed (unfold fits_all_def, blast)

lemma sat_add_exact: "unat x + unat y < 2 ^ 64 \<Longrightarrow> unat (sat_add64 x y) = unat x + unat y"
  by (simp add: sat_add64_def unat_plus_no_overflow)

lemma inc_allocated_spec:
  assumes "ag_wf a" "bumped a bl a1" "ag_sum a1 = ag_sum a + unat n"
  shows "ag_wf (inc_allocated n a1)" "agc (inc_allocated n a1) = agc a1"
    "ag_nr_entries (inc_allocated n a1) = ag_nr_entries a"
proof -
  have "ag_sum a1 \<le> ag_limit a" "ag_limit a < 2 ^ 63"
    using assms ag_sum_le [of a1] ag_limit_bound [of a] by (auto simp: ag_wf_def bumped_def same_shape_def ag_limit_def)
  then have "unat (sat_add64 (ag_nr_allocated a1) n) = ag_sum a1"
    using assms by (subst sat_add_exact) (auto simp: ag_wf_def bumped_def same_shape_def)
  moreover have "ag_sum (inc_allocated n a1) = ag_sum a1"
    "regions_wf (inc_allocated n a1) = regions_wf a1" "ag_nr_entries (inc_allocated n a1) = ag_nr_entries a1"
    by (auto simp: ag_sum_def inc_allocated_def regions_wf_def)
  ultimately show "ag_wf (inc_allocated n a1)" "agc (inc_allocated n a1) = agc a1"
    "ag_nr_entries (inc_allocated n a1) = ag_nr_entries a"
    using assms(2) by (auto simp: ag_wf_def bumped_def same_shape_def inc_allocated_def agc_def fun_eq_iff)
qed

lemma sum_step:
  assumes "ag_wf a" "bumped a bl a2" "ag_sum a2 = ag_sum a + unat n + unat j"
  shows "unat (n + j :: u64) = unat n + unat j"
proof -
  have "ag_sum a2 \<le> ag_limit a" "ag_limit a < 2 ^ 63"
    using assms ag_sum_le [of a2] ag_limit_bound [of a] by (auto simp: ag_wf_def bumped_def same_shape_def ag_limit_def)
  then show ?thesis using assms(3) by (intro unat_plus_no_overflow) simp
qed

lemma take_more: "take k xs @ take m (drop k xs) = take (k + m) xs"
  by (simp add: take_add)

text \<open>\<open>increment\<close> adds to every count the number of its occurrences in the batch.\<close>

lemma ag_increment_spec:
  assumes w: "ag_wf a" and f: "fits_all a blocks"
  shows "\<exists>a'. ag_increment ops blocks a = (Ok (), a') \<and> ag_wf a' \<and> ag_nr_entries a' = ag_nr_entries a \<and>
    (\<forall>n<ag_limit a. agc a' n = min cap (agc a n + count_list (map unat blocks) n))"
proof (cases "blocks = []")
  case True
  with w show ?thesis by (auto simp: ag_increment_def ag_wf_def dest: agc_cap)
next
  case False
  have rw: "regions_wf a" using w by (simp add: ag_wf_def)
  let ?f = "\<lambda>idx start bl (n, a). case process_region_increment ops idx bl a of (r, a) \<Rightarrow>
    (case r of Ok k \<Rightarrow> (Ok (), n + k, a) | _ \<Rightarrow> (Panic, n, a))"
  let ?P = "\<lambda>k (n, a'). bumped a (take k blocks) a' \<and> ag_sum a' = ag_sum a + unat (n :: u64)"
  have "\<exists>s'. by_region region_of ?f blocks (0, a) = (Ok (), s') \<and> ?P (length blocks) s'"
  proof (rule by_region_inv [where P = ?P, OF _ False])
    fix k m s assume P: "?P k s" and m: "0 < m" "k + m \<le> length blocks"
      and r: "\<forall>b\<in>set (take m (drop k blocks)). region_of b = region_of (blocks ! k)"
    obtain n a1 where s: "s = (n, a1)" by fastforce
    have b1: "bumped a (take k blocks) a1" and n: "ag_sum a1 = ag_sum a + unat n" using P s by auto
    have w1: "regions_wf a1" using b1 by (simp add: bumped_def same_shape_def)
    have "take k blocks @ take m (drop k blocks) @ drop (k + m) blocks = blocks"
      by (metis append.assoc append_take_drop_id take_more)
    then have "fits_all a (take k blocks @ take m (drop k blocks) @ drop (k + m) blocks)" using f by simp
    then have "fits_all a (take k blocks @ take m (drop k blocks))" by (auto simp: fits_all_def)
    from process_increment [OF w1 _ r fits_all_step [OF this b1]] m obtain j a2 where
      a2: "process_region_increment ops (region_of (blocks ! k)) (take m (drop k blocks)) a1 = (Ok j, a2)"
        "bumped a1 (take m (drop k blocks)) a2" "ag_sum a2 = ag_sum a1 + unat j" by auto
    have b2: "bumped a (take (k + m) blocks) a2" using bumped_trans [OF b1 a2(2)] by (simp only: take_more)
    then have "ag_sum a2 \<le> ag_limit a" "ag_limit a < 2 ^ 63"
      using ag_sum_le [of a2] ag_limit_bound [OF rw] by (auto simp: bumped_def same_shape_def ag_limit_def)
    then have "unat (n + j) = unat n + unat j" using a2(3) n by (intro unat_plus_no_overflow) simp
    then show "\<exists>s'. ?f (region_of (blocks ! k)) k (take m (drop k blocks)) s = (Ok (), s') \<and> ?P (k + m) s'"
      using a2 b2 n by (auto simp: s)
  qed (use rw in \<open>simp add: bumped_refl\<close>)
  then obtain n a1 where run: "by_region region_of ?f blocks (0, a) = (Ok (), n, a1)" and
    b: "bumped a blocks a1" and n: "ag_sum a1 = ag_sum a + unat n" by auto
  have "ag_increment ops blocks a = (Ok (), inc_allocated n a1)"
    using False run by (simp add: ag_increment_def)
  with inc_allocated_spec [OF w b n] b show ?thesis by (auto simp: bumped_def)
qed

text \<open>\<open>test_and_inc\<close>: what a block answers is whether it was counted, before or earlier in the batch.\<close>

definition ag_seen :: "'r aggregator \<Rightarrow> u64 list \<Rightarrow> bool list" where
  "ag_seen a xs = map (\<lambda>i. unat (xs ! i) < ag_limit a \<and>
     0 < agc a (unat (xs ! i)) + count_list (map unat (take i xs)) (unat (xs ! i))) [0..<length xs]"

lemma length_ag_seen [simp]: "length (ag_seen a xs) = length xs"
  by (simp add: ag_seen_def)

lemma ag_seen_append:
  assumes "bumped a xs a1"
  shows "ag_seen a (xs @ ys) = ag_seen a xs @ ag_seen a1 ys"
proof (rule nth_equalityI)
  fix i assume i: "i < length (ag_seen a (xs @ ys))"
  have l: "ag_limit a1 = ag_limit a" using assms by (simp add: bumped_def same_shape_def ag_limit_def)
  show "ag_seen a (xs @ ys) ! i = (ag_seen a xs @ ag_seen a1 ys) ! i"
  proof (cases "i < length xs")
    case True
    then show ?thesis by (simp add: ag_seen_def nth_append)
  next
    case False
    let ?b = "unat (ys ! (i - length xs))"
    have "?b < ag_limit a \<Longrightarrow> agc a1 ?b = min cap (agc a ?b + count_list (map unat xs) ?b)"
      using assms by (simp add: bumped_def)
    then show ?thesis using False i cap_bounds(1) l by (auto simp: ag_seen_def nth_append)
  qed
qed simp

lemma seen_counts_nth:
  "i < length bl \<Longrightarrow> seen_counts cap bl cs ! i = (0 < fold (bump_count cap) (take i bl) cs ! slot (bl ! i))"
proof (induction bl arbitrary: i cs)
  case (Cons b bl)
  then show ?case by (cases i) auto
qed simp

lemma ag_seen_region:
  assumes w: "regions_wf a" and j: "unat idx < length (ag_regions a)" and bl: "\<forall>b\<in>set bl. region_of b = idx"
  shows "ag_seen a bl = seen_counts cap bl (counts (ag_regions a ! unat idx))"
proof (rule nth_equalityI)
  fix i assume "i < length (ag_seen a bl)"
  then have i: "i < length bl" by simp
  let ?b = "bl ! i"
  have r: "region_of ?b = idx" using bl i by simp
  have b: "unat ?b = 1024 * unat idx + slot ?b" using block_of_region [of ?b] r by simp
  then have lim: "unat ?b < ag_limit a" using j slot_less(2) [of ?b] unfolding ag_limit_def by linarith
  have d: "unat ?b div 1024 = unat idx" "unat ?b mod 1024 = slot ?b" using unat_region_of [of ?b] r
    by (simp_all add: slot_def REGION_SIZE_def)
  have t: "\<forall>b\<in>set (take i bl). region_of b = idx" using bl by (meson in_set_takeD)
  have wr: "wf (ag_regions a ! unat idx)" by (rule wf_region [OF w j])
  have "fold (bump_count cap) (take i bl) (counts (ag_regions a ! unat idx)) ! slot ?b =
      min cap (counts (ag_regions a ! unat idx) ! slot ?b + count_list (map slot (take i bl)) (slot ?b))"
    using counts_cap [OF wr] length_counts [OF wr] by (intro bumps_nth) auto
  then have "seen_counts cap bl (counts (ag_regions a ! unat idx)) ! i =
      (0 < agc a (unat ?b) + count_list (map unat (take i bl)) (unat ?b))"
    using seen_counts_nth [OF i] count_slots [OF t slot_less(2) [of ?b]] b d cap_bounds(1) by (auto simp: agc_def)
  then show "ag_seen a bl ! i = seen_counts cap bl (counts (ag_regions a ! unat idx)) ! i"
    using i lim by (simp add: ag_seen_def)
qed simp

lemma ag_seen_outside:
  assumes "no_such_region idx a" "\<forall>b\<in>set bl. region_of b = idx"
  shows "ag_seen a bl = replicate (length bl) False"
proof -
  have "\<not> unat b < ag_limit a" if "b \<in> set bl" for b
    using that assms unat_region_of [of b] by (auto simp: ag_limit_def no_such_region_def less_mult_imp_div_less mult.commute dest: leD)
  then show ?thesis by (auto simp: ag_seen_def intro!: nth_equalityI)
qed

lemma process_test_and_inc:
  assumes w: "regions_wf a" and bl: "\<forall>b\<in>set bl. region_of b = idx"
    and len: "offset + length bl \<le> bs_len bs results" and free: "\<forall>k. offset \<le> k \<longrightarrow> \<not> bs_contains bs results k"
  shows "\<exists>k results' a'. process_region_test_and_inc ops idx bl results offset a = (Ok (k, results'), a') \<and> bumped a bl a' \<and>
    ag_sum a' = ag_sum a + unat k \<and> marked bs offset (ag_seen a bl) results results'"
proof (cases "no_such_region idx a")
  case True
  have "marked bs offset (replicate (length bl) False) results results" using free by (auto simp: marked_def)
  with True bumped_outside [OF w True bl] ag_seen_outside [OF True bl] show ?thesis
    by (simp add: process_region_test_and_inc_def)
next
  case False
  then have j: "unat idx < length (ag_regions a)" by (simp add: no_such_region_def)
  let ?r = "ag_regions a ! unat idx"
  have wr: "wf ?r" by (rule wf_region [OF w j])
  from test_and_inc_law [OF wr len] obtain r' results' where
    r': "rg_test_and_inc ops bl offset (?r, results) = (Ok (), r', results')" "wf r'" "counts r' = fold (bump_count cap) bl (counts ?r)"
      "marked bs offset (seen_counts cap bl (counts ?r)) results results'" by blast
  note b = bump_region [OF w j bl r'(2,3)]
  show ?thesis using False r'(1,4) b nr_diff [OF wr r'(2) b(3)] ag_seen_region [OF w j bl]
    by (auto simp: process_region_test_and_inc_def with_region_def Let_def)
qed

lemma ag_test_and_inc_spec:
  assumes w: "ag_wf a" and l: "bitset_laws bs"
  shows "\<exists>a' results. ag_test_and_inc ops bs blocks a = (Ok results, a') \<and> ag_wf a' \<and> ag_nr_entries a' = ag_nr_entries a \<and>
    (\<forall>n<ag_limit a. agc a' n = min cap (agc a n + count_list (map unat blocks) n)) \<and>
    bs_len bs results = length blocks \<and> (\<forall>i<length blocks. bs_contains bs results i = ag_seen a blocks ! i)"
proof (cases "blocks = []")
  case True
  with w show ?thesis by (auto simp: ag_test_and_inc_def ag_wf_def Let_def bitset_new_len [OF l] dest: agc_cap)
next
  case False
  have rw: "regions_wf a" using w by (simp add: ag_wf_def)
  let ?r0 = "bs_with_capacity bs (length blocks)"
  let ?f = "\<lambda>idx start bl (n, results, a). case process_region_test_and_inc ops idx bl results start a of (r, a) \<Rightarrow>
    (case r of Ok (k, results) \<Rightarrow> (Ok (), n + k, results, a) | _ \<Rightarrow> (Panic, n, results, a))"
  let ?P = "\<lambda>k (n, results, a'). bumped a (take k blocks) a' \<and> ag_sum a' = ag_sum a + unat (n :: u64) \<and>
    marked bs 0 (ag_seen a (take k blocks)) ?r0 results"
  have "\<exists>s'. by_region region_of ?f blocks (0, ?r0, a) = (Ok (), s') \<and> ?P (length blocks) s'"
  proof (rule by_region_inv [where P = ?P, OF _ False])
    fix k m s assume P: "?P k s" and m: "0 < m" "k + m \<le> length blocks"
      and r: "\<forall>b\<in>set (take m (drop k blocks)). region_of b = region_of (blocks ! k)"
    obtain n res a1 where s: "s = (n, res, a1)" using prod_cases3 by blast
    have b1: "bumped a (take k blocks) a1" and n: "ag_sum a1 = ag_sum a + unat n"
      and mk: "marked bs 0 (ag_seen a (take k blocks)) ?r0 res" using P s by auto
    have w1: "regions_wf a1" using b1 by (simp add: bumped_def same_shape_def)
    have len: "k + length (take m (drop k blocks)) \<le> bs_len bs res"
      using mk m(2) by (simp add: marked_def bitset_new_len [OF l])
    have free: "\<forall>i. k \<le> i \<longrightarrow> \<not> bs_contains bs res i"
      using mk m(2) by (auto simp: marked_def bitset_new_contains [OF l])
    from process_test_and_inc [OF w1 r len free] obtain j res2 a2 where
      a2: "process_region_test_and_inc ops (region_of (blocks ! k)) (take m (drop k blocks)) res k a1 = (Ok (j, res2), a2)"
        "bumped a1 (take m (drop k blocks)) a2" "ag_sum a2 = ag_sum a1 + unat j"
        "marked bs k (ag_seen a1 (take m (drop k blocks))) res res2" by blast
    have b2: "bumped a (take (k + m) blocks) a2" using bumped_trans [OF b1 a2(2)] by (simp only: take_more)
    have "ag_sum a2 = ag_sum a + unat n + unat j" using a2(3) n by simp
    note j = sum_step [OF w b2 this]
    have "marked bs 0 (take k (ag_seen a (take k blocks)) @ ag_seen a1 (take m (drop k blocks))) ?r0 res2"
      by (rule marked_trans [OF mk, of k]) (use a2(4) m in auto)
    then have "marked bs 0 (ag_seen a (take (k + m) blocks)) ?r0 res2"
      using ag_seen_append [OF b1, of "take m (drop k blocks)"] m by (simp add: take_more)
    then show "\<exists>s'. ?f (region_of (blocks ! k)) k (take m (drop k blocks)) s = (Ok (), s') \<and> ?P (k + m) s'"
      using a2 b2 n j by (auto simp: s)
  qed (use rw in \<open>simp add: bumped_refl ag_seen_def\<close>)
  then obtain n res a1 where run: "by_region region_of ?f blocks (0, ?r0, a) = (Ok (), n, res, a1)" and
    b: "bumped a blocks a1" and n: "ag_sum a1 = ag_sum a + unat n" and mk: "marked bs 0 (ag_seen a blocks) ?r0 res" by auto
  have "ag_test_and_inc ops bs blocks a = (Ok res, inc_allocated n a1)"
    using False run by (simp add: ag_test_and_inc_def)
  moreover have "bs_len bs res = length blocks" "\<forall>i<length blocks. bs_contains bs res i = ag_seen a blocks ! i"
    using mk by (simp_all add: marked_def bitset_new_len [OF l])
  ultimately show ?thesis using inc_allocated_spec [OF w b n] b by (auto simp: bumped_def)
qed

text \<open>\<open>set_batch\<close>: the last pair for a block decides.\<close>

definition last_set :: "(u64 \<times> u32) list \<Rightarrow> nat \<Rightarrow> nat \<Rightarrow> nat" where
  "last_set ps n c = (case find (\<lambda>p. unat (fst p) = n) (rev ps) of Some p \<Rightarrow> min cap (unat (snd p)) | None \<Rightarrow> c)"

definition put_all :: "'r aggregator \<Rightarrow> (u64 \<times> u32) list \<Rightarrow> 'r aggregator \<Rightarrow> bool" where
  "put_all a ps a' \<longleftrightarrow> same_shape a a' \<and> (\<forall>n<ag_limit a. agc a' n = last_set ps n (agc a n))"

lemma put_all_refl: "regions_wf a \<Longrightarrow> put_all a [] a"
  by (simp add: put_all_def last_set_def same_shape_refl)

lemma last_set_append: "last_set (ps @ qs) n c = last_set qs n (last_set ps n c)"
  by (auto simp: last_set_def find_append split: option.splits)

lemma put_all_trans: "put_all a ps a1 \<Longrightarrow> put_all a1 qs a2 \<Longrightarrow> put_all a (ps @ qs) a2"
  by (auto simp: put_all_def same_shape_def ag_limit_def last_set_append)

lemma last_set_other:
  assumes "\<forall>p\<in>set ps. region_of (fst p) = idx" "n div 1024 \<noteq> unat idx"
  shows "last_set ps n c = c"
proof -
  have "find (\<lambda>p. unat (fst p) = n) (rev ps) = None"
    using assms by (auto simp: find_None_iff unat_region_of)
  then show ?thesis by (simp add: last_set_def)
qed

lemma process_set:
  assumes w: "regions_wf a" and ps: "\<forall>p\<in>set ps. region_of (fst p) = idx"
  shows "\<exists>k l a'. process_region_set ops idx ps a = (Ok (k, l), a') \<and> put_all a ps a' \<and>
    ag_sum a' + unat l = ag_sum a + unat k \<and> unat k \<le> length ps \<and> unat l \<le> length ps"
proof (cases "no_such_region idx a")
  case True
  then have "last_set ps n c = c" if "n < ag_limit a" for n c
    by (intro last_set_other [OF ps])
      (use that in \<open>auto simp: ag_limit_def no_such_region_def less_mult_imp_div_less mult.commute dest: leD\<close>)
  with True w show ?thesis by (simp add: process_region_set_def put_all_def same_shape_refl)
next
  case False
  then have j: "unat idx < length (ag_regions a)" by (simp add: no_such_region_def)
  let ?r = "ag_regions a ! unat idx"
  have wr: "wf ?r" by (rule wf_region [OF w j])
  have lr: "length (counts ?r) = REGION_SIZE" by (rule length_counts [OF wr])
  from set_law [OF wr, of ps] obtain r' where
    r': "rg_set ops ps ?r = (Ok (), r')" "wf r'" "counts r' = fold (put_count cap) ps (counts ?r)" by blast
  let ?a = "a\<lparr>ag_regions := (ag_regions a)[unat idx := r']\<rparr>"
  note put = put_region [OF w j r'(2)]
  have "agc ?a n = last_set ps n (agc a n)" for n
  proof (cases "n div 1024 = unat idx")
    case True
    have n': "n = 1024 * unat idx + n mod 1024" using True by (metis div_mult_mod_eq mult.commute)
    have "unat (fst p) = n \<longleftrightarrow> slot (fst p) = n mod 1024" if "p \<in> set ps" for p
      using block_of_region [of "fst p"] ps that n' by auto
    then have "find (\<lambda>p. unat (fst p) = n) (rev ps) = find (\<lambda>(b, rc). slot b = n mod 1024) (rev ps)"
      by (intro find_cong) auto
    then show ?thesis using put(2) [of n] True r'(3) put_counts_nth [OF lr, of "n mod 1024"]
      by (auto simp: last_set_def agc_def REGION_SIZE_def split: option.splits)
  next
    case False
    then show ?thesis using put(2) [of n] last_set_other [OF ps False] by simp
  qed
  then have pa: "put_all a ps ?a" using put(1) by (simp add: put_all_def)
  have nr: "unat (rg_nr_allocated ops r') = allocated (counts r')" "unat (rg_nr_allocated ops ?r) = allocated (counts ?r)"
    using nr_allocated_law r'(2) wr by auto
  have bound: "allocated (counts r') \<le> allocated (counts ?r) + length ps" "allocated (counts ?r) \<le> allocated (counts r') + length ps"
    using allocated_put_diff [OF lr, of cap ps] r'(3) by simp_all
  show ?thesis
  proof (cases "rg_nr_allocated ops ?r \<le> rg_nr_allocated ops r'")
    case True
    then have "allocated (counts ?r) \<le> allocated (counts r')" using nr by (simp add: word_le_nat_alt)
    with nr_diff [OF wr r'(2)] put(3) bound True False r'(1) pa show ?thesis
      by (auto simp: process_region_set_def with_region_def Let_def)
  next
    case less: False
    then have "allocated (counts r') \<le> allocated (counts ?r)" using nr by (simp add: word_le_nat_alt)
    with nr_diff [OF r'(2) wr] put(3) bound less False r'(1) pa show ?thesis
      by (auto simp: process_region_set_def with_region_def Let_def)
  qed
qed

lemma ag_set_batch_spec:
  assumes w: "ag_wf a" and len: "length pairs < 2 ^ 63"
  shows "\<exists>a'. ag_set_batch ops pairs a = (Ok (), a') \<and> ag_wf a' \<and> ag_nr_entries a' = ag_nr_entries a \<and>
    (\<forall>n<ag_limit a. agc a' n = last_set pairs n (agc a n))"
proof (cases "pairs = []")
  case True
  with w show ?thesis by (auto simp: ag_set_batch_def last_set_def)
next
  case False
  have rw: "regions_wf a" using w by (simp add: ag_wf_def)
  let ?f = "\<lambda>idx start ps ((n, m), a). case process_region_set ops idx ps a of (r, a) \<Rightarrow>
    (case r of Ok (k, l) \<Rightarrow> (Ok (), (n + k, m + l), a) | _ \<Rightarrow> (Panic, (n, m), a))"
  let ?P = "\<lambda>k ((n, m), a'). put_all a (take k pairs) a' \<and> ag_sum a' + unat (m :: u64) = ag_sum a + unat (n :: u64) \<and>
    unat n \<le> k \<and> unat m \<le> k"
  have "\<exists>s'. by_region (\<lambda>p. region_of (fst p)) ?f pairs ((0, 0), a) = (Ok (), s') \<and> ?P (length pairs) s'"
  proof (rule by_region_inv [where P = ?P, OF _ False])
    fix i j s assume P: "?P i s" and ij: "0 < j" "i + j \<le> length pairs"
      and r: "\<forall>p\<in>set (take j (drop i pairs)). region_of (fst p) = region_of (fst (pairs ! i))"
    obtain n m a1 where s: "s = ((n, m), a1)" by (metis surj_pair)
    have P1: "put_all a (take i pairs) a1" "ag_sum a1 + unat m = ag_sum a + unat n" "unat n \<le> i" "unat m \<le> i"
      using P s by auto
    have w1: "regions_wf a1" using P1(1) by (simp add: put_all_def same_shape_def)
    from process_set [OF w1 r] obtain k l a2 where
      a2: "process_region_set ops (region_of (fst (pairs ! i))) (take j (drop i pairs)) a1 = (Ok (k, l), a2)"
        "put_all a1 (take j (drop i pairs)) a2" "ag_sum a2 + unat l = ag_sum a1 + unat k" "unat k \<le> j" "unat l \<le> j"
      using ij by auto
    have p2: "put_all a (take (i + j) pairs) a2" using put_all_trans [OF P1(1) a2(2)] by (simp only: take_more)
    have "unat (n + k) = unat n + unat k" "unat (m + l) = unat m + unat l"
      using P1(3,4) a2(4,5) ij len by (auto intro!: unat_plus_no_overflow)
    then show "\<exists>s'. ?f (region_of (fst (pairs ! i))) i (take j (drop i pairs)) s = (Ok (), s') \<and> ?P (i + j) s'"
      using a2 p2 P1 by (auto simp: s)
  qed (use rw in \<open>simp add: put_all_refl\<close>)
  then obtain n m a1 where run: "by_region (\<lambda>p. region_of (fst p)) ?f pairs ((0, 0), a) = (Ok (), (n, m), a1)"
    and P: "put_all a pairs a1" "ag_sum a1 + unat m = ag_sum a + unat n" "unat n \<le> length pairs" "unat m \<le> length pairs" by auto
  let ?a' = "if m < n then inc_allocated (n - m) a1 else if n < m then dec_allocated (m - n) a1 else a1"
  have run': "ag_set_batch ops pairs a = (Ok (), ?a')" using False run by (simp add: ag_set_batch_def)
  have eqs: "agc (inc_allocated k b) = agc b" "ag_sum (inc_allocated k b) = ag_sum b" "regions_wf (inc_allocated k b) = regions_wf b"
    "agc (dec_allocated k b) = agc b" "ag_sum (dec_allocated k b) = ag_sum b" "regions_wf (dec_allocated k b) = regions_wf b"
    "ag_nr_entries (inc_allocated k b) = ag_nr_entries b" "ag_nr_entries (dec_allocated k b) = ag_nr_entries b" for k b
    by (auto simp: fun_eq_iff agc_def ag_sum_def inc_allocated_def dec_allocated_def regions_wf_def)
  have sh: "same_shape a a1" using P(1) by (simp add: put_all_def)
  have nr: "unat (ag_nr_allocated a1) = ag_sum a" using sh w by (simp add: same_shape_def ag_wf_def)
  have "ag_sum a1 < 2 ^ 63" using ag_sum_le [of a1] ag_limit_bound [OF rw] sh by (auto simp: same_shape_def ag_limit_def)
  then have "unat (ag_nr_allocated ?a') = ag_sum a1"
    using P(2) nr
    by (auto simp: inc_allocated_def dec_allocated_def sat_add_exact unat_sub_if' word_less_nat_alt sat_sub64_def word_le_nat_alt)
  then have "ag_wf ?a'" using sh by (auto simp: ag_wf_def eqs same_shape_def)
  moreover have "agc ?a' = agc a1" "ag_nr_entries ?a' = ag_nr_entries a" using sh by (auto simp: eqs same_shape_def)
  ultimately show ?thesis using P(1) run' by (auto simp: put_all_def)
qed

text \<open>\<open>lookup\<close> crosses the regions and stops at the end of the map.\<close>

definition count32 :: "'r aggregator \<Rightarrow> nat \<Rightarrow> u32" where
  "count32 a n = word_of_nat (agc a n)"

lemma count32_eq: "regions_wf a \<Longrightarrow> regions_wf b \<Longrightarrow> n < ag_limit a \<Longrightarrow> n < ag_limit b \<Longrightarrow>
    count32 a n = count32 b n \<longleftrightarrow> agc a n = agc b n"
proof -
  assume "regions_wf a" "regions_wf b" "n < ag_limit a" "n < ag_limit b"
  then have "agc a n < 2 ^ 32" "agc b n < 2 ^ 32" using agc_cap cap_bounds(2) by (meson le_less_trans)+
  then show ?thesis by (auto simp: count32_def dest!: arg_cong [where f = unat] simp: unat_of_nat_eq)
qed

lemma region_counts:
  assumes "j < length (ag_regions a)" "regions_wf a" "slot b + k \<le> 1024" "unat b div 1024 = j"
  shows "map word_of_nat (take k (drop (slot b) (counts (ag_regions a ! j)))) = map (count32 a) [unat b..<unat b + k]"
proof (rule nth_equalityI)
  have l: "length (counts (ag_regions a ! j)) = 1024"
    using length_counts [OF wf_region [OF assms(2,1)]] by (simp add: REGION_SIZE_def)
  then show "length (map word_of_nat (take k (drop (slot b) (counts (ag_regions a ! j)))) :: u32 list) =
      length (map (count32 a) [unat b..<unat b + k])" using assms(3) by simp
  fix i assume "i < length (map word_of_nat (take k (drop (slot b) (counts (ag_regions a ! j)))) :: u32 list)"
  then have i: "i < k" by simp
  have "unat b = 1024 * j + slot b" using block_of_region [of b] assms(4) by (simp add: unat_region_of)
  moreover have "slot b + i < 1024" using i assms(3) by simp
  ultimately have "(unat b + i) div 1024 = j" "(unat b + i) mod 1024 = slot b + i" by (simp_all add: add.assoc)
  then show "(map word_of_nat (take k (drop (slot b) (counts (ag_regions a ! j)))) :: u32 list) ! i =
      map (count32 a) [unat b..<unat b + k] ! i"
    using i l assms(3) by (simp add: count32_def agc_def)
qed

lemma ag_lookup_loop_spec:
  assumes w: "regions_wf a" and e: "e \<le> ag_limit a" "length results = e - begin"
  shows "begin + nr \<le> e \<Longrightarrow> ag_lookup_loop ops a (word_of_nat (begin + nr)) (word_of_nat e) (word_of_nat nr)
      (map (count32 a) [begin..<begin + nr] @ drop nr results) =
    Some (Ok (word_of_nat (e - begin), map (count32 a) [begin..<e]))"
proof (induction "e - (begin + nr)" arbitrary: nr rule: less_induct)
  case less
  have e64: "e < 2 ^ 64" using e(1) ag_limit_bound [OF w] by simp
  have u: "unat (word_of_nat (begin + nr) :: u64) = begin + nr" "unat (word_of_nat e :: u64) = e" "unat (word_of_nat nr :: u64) = nr"
    using less.prems e64 by (rule_tac unat_of_nat64, linarith)+
  show ?case
  proof (cases "begin + nr = e")
    case True
    then have nr: "nr = e - begin" by simp
    have "length results = nr" using e(2) True by simp
    then show ?thesis using True by (subst ag_lookup_loop.simps) (simp add: nr)
  next
    case False
    let ?b = "word_of_nat (begin + nr) :: u64"
    have lt: "?b < word_of_nat e" using False less.prems u by (simp add: word_less_nat_alt)
    let ?j = "(begin + nr) div 1024"
    have j: "?j < length (ag_regions a)" using False less.prems e(1) by (simp add: ag_limit_def less_mult_imp_div_less mult.commute)
    let ?n = "min (length (drop nr results)) (REGION_SIZE - slot ?b)"
    have sl: "slot ?b < 1024" by simp
    have n: "?n \<le> e - (begin + nr)" "slot ?b + ?n \<le> 1024" "0 < ?n"
      using False less.prems e(2) sl unfolding REGION_SIZE_def length_drop by linarith+
    have look: "rg_lookup ops (ag_regions a ! ?j) ?b (drop nr results) =
        Ok (word_of_nat ?n, map (count32 a) [begin + nr..<begin + nr + ?n] @ drop ?n (drop nr results))"
      using lookup_law [OF wf_region [OF w j] refl, of ?b "drop nr results"] region_counts [OF j w n(2)] u(1) by simp
    have res: "drop nr (map (count32 a) [begin..<begin + nr] @ drop nr results) = drop nr results"
      "take nr (map (count32 a) [begin..<begin + nr] @ drop nr results) = map (count32 a) [begin..<begin + nr]" by simp_all
    have out: "map (count32 a) [begin..<begin + nr] @ map (count32 a) [begin + nr..<begin + nr + k] @ drop k (drop nr results) =
        map (count32 a) [begin..<begin + (nr + k)] @ drop (nr + k) results" for k
      using upt_add_eq_append [of "begin" "begin + nr" k] by (simp add: add.assoc) (simp add: add.commute)
    have w2: "?b + word_of_nat k = word_of_nat (begin + (nr + k))" "(word_of_nat nr :: u64) + word_of_nat k = word_of_nat (nr + k)" for k
      by (simp_all add: add.assoc)
    have step: "ag_lookup_loop ops a ?b (word_of_nat e) (word_of_nat nr) (map (count32 a) [begin..<begin + nr] @ drop nr results) =
        ag_lookup_loop ops a (word_of_nat (begin + (nr + ?n))) (word_of_nat e) (word_of_nat (nr + ?n))
          (map (count32 a) [begin..<begin + (nr + ?n)] @ drop (nr + ?n) results)"
      by (subst ag_lookup_loop.simps)
        (use lt j look less.prems in \<open>simp add: Let_def u res out w2 not_le REGION_SIZE_def del: of_nat_add drop_drop\<close>)
    show ?thesis unfolding step
      by (rule less.hyps) (use n(1,3) less.prems in linarith)+
  qed
qed

lemma ag_lookup_spec:
  assumes w: "regions_wf a" and n: "n = min (length results) (ag_nr_entries a - unat begin)"
  shows "ag_lookup ops a begin results =
    Some (Ok (word_of_nat n, map (count32 a) [unat begin..<unat begin + n] @ drop n results))"
proof -
  note lim = ag_limit_bound [OF w]
  have u: "unat (word_of_nat (ag_nr_entries a) :: u64) = ag_nr_entries a"
    by (rule unat_of_nat64) (use w in \<open>simp add: regions_wf_def\<close>)
  show ?thesis
  proof (cases "ag_nr_entries a \<le> unat begin")
    case True
    then show ?thesis using n u by (simp add: ag_lookup_def word_le_nat_alt)
  next
    case False
    have e: "min (unat begin + n) (ag_nr_entries a) = unat begin + n" using n False by simp
    have "n \<le> ag_nr_entries a - unat begin" using n by simp
    then have "unat begin + n \<le> ag_limit a" using False lim by linarith
    from ag_lookup_loop_spec [OF w this, of "take n results" "unat begin" 0] n have
      "ag_lookup_loop ops a begin (word_of_nat (unat begin + n)) 0 (take n results) =
        Some (Ok (word_of_nat n, map (count32 a) [unat begin..<unat begin + n]))" by simp
    with False u show ?thesis by (simp add: ag_lookup_def word_le_nat_alt Let_def n [symmetric] e)
  qed
qed

lemma ag_get_spec: "regions_wf a \<Longrightarrow> unat b < ag_nr_entries a \<Longrightarrow> ag_get ops a b = Some (Ok (count32 a (unat b)))"
  using ag_lookup_spec [of a 1 "[0]" b] by (simp add: ag_get_def)

lemma ag_get_outside: "regions_wf a \<Longrightarrow> ag_nr_entries a \<le> unat b \<Longrightarrow> ag_get ops a b = Some (Ok 0)"
  using ag_lookup_spec [of a 0 "[0]" b] by (simp add: ag_get_def)

lemma map_shift_upt: "map ((+) b) [0..<n] = [b..<b + n]"
  by (rule nth_equalityI) simp_all

text \<open>\<open>diff\<close> calls back for the blocks whose counts differ, in order.\<close>

lemma for_each_filter: "for_each (\<lambda>x s. if P x then g x s else (Ok (), s)) xs = for_each g (filter P xs)"
proof (induction xs)
  case (Cons x xs)
  then show ?case by (intro ext) simp
qed (simp add: fun_eq_iff)

lemma for_each_cong: "(\<And>x s. x \<in> set xs \<Longrightarrow> f x s = g x s) \<Longrightarrow> for_each f xs s = for_each g xs s"
proof (induction xs arbitrary: s)
  case (Cons x xs)
  then show ?case by (cases "g x s"; cases "fst (g x s)") auto
qed simp

definition differs :: "'r aggregator \<Rightarrow> 'r aggregator \<Rightarrow> nat \<Rightarrow> bool" where
  "differs a b n \<longleftrightarrow> agc a n \<noteq> agc b n"

definition call_back :: "'r aggregator \<Rightarrow> 'r aggregator \<Rightarrow> (u64 \<Rightarrow> u32 \<Rightarrow> u32 \<Rightarrow> 's \<Rightarrow> ('s, unit) panics) \<Rightarrow> nat \<Rightarrow> 's \<Rightarrow> ('s, unit) panics"
where
  "call_back a b f n = f (word_of_nat n) (count32 a n) (count32 b n)"

lemma diff_region_spec:
  assumes w: "regions_wf a" "regions_wf b" "ag_nr_entries a = ag_nr_entries b" and j: "j < length (ag_regions a)"
    and len: "length sc = 1024" "length oc = 1024"
  shows "\<exists>sc' oc'. length sc' = 1024 \<and> length oc' = 1024 \<and> diff_region ops a b f j ((sc, oc), s) =
    (case for_each (call_back a b f) (filter (differs a b) [j * 1024..<min ((j + 1) * 1024) (ag_nr_entries a)]) s of
       (r, s) \<Rightarrow> (r, (sc', oc'), s))"
proof -
  let ?base = "j * 1024" and ?lim = "min ((j + 1) * 1024) (ag_nr_entries a)"
  let ?l = "?lim - ?base" and ?b = "word_of_nat (j * 1024) :: u64"
  have jb: "j < length (ag_regions b)" using j w by (simp add: regions_wf_def)
  have lt: "?base < ag_nr_entries a" using j w(1) by (auto simp: regions_wf_def REGION_SIZE_def)
  have u: "unat ?b = ?base" by (rule unat_of_nat64) (use lt w(1) in \<open>simp add: regions_wf_def\<close>)
  have sl: "slot ?b = 0" and dj: "unat ?b div 1024 = j" using u by (simp_all add: slot_def REGION_SIZE_def)
  have l: "?l \<le> 1024" "?base + ?l = ?lim" using lt by auto
  have look: "rg_lookup ops (ag_regions c ! j) ?b (take ?l buf) = Ok (word_of_nat ?l, map (count32 c) [?base..<?lim])"
    if c: "regions_wf c" "j < length (ag_regions c)" and "length buf = 1024" for c buf
  proof -
    have n: "?l = min (length (take ?l buf)) (REGION_SIZE - slot ?b)"
      unfolding length_take that(3) sl REGION_SIZE_def using l(1) by linarith
    have "slot ?b + ?l \<le> 1024" unfolding sl using l(1) by linarith
    note rc = region_counts [OF c(2,1) this dj]
    have d: "drop ?l (take ?l buf) = []" by simp
    show ?thesis using lookup_law [OF wf_region [OF c] n] unfolding rc d u l(2) by (simp only: append_Nil2)
  qed
  let ?sc = "map (count32 a) [?base..<?lim] @ drop ?l sc" and ?oc = "map (count32 b) [?base..<?lim] @ drop ?l oc"
  let ?body = "\<lambda>i s. if ?sc ! i \<noteq> ?oc ! i then f (word_of_nat (?base + i)) (?sc ! i) (?oc ! i) s else (Ok (), s)"
  have "for_each ?body [0..<?l] s = for_each (\<lambda>i s. if differs a b (?base + i) then call_back a b f (?base + i) s else (Ok (), s)) [0..<?l] s"
  proof (rule for_each_cong)
    fix i s assume "i \<in> set [0..<?l]"
    then have i: "i < ?l" by simp
    then have lim: "?base + i < ag_limit a" "?base + i < ag_limit b"
      using ag_limit_bound [OF w(1)] ag_limit_bound [OF w(2)] w(3) by auto
    have up: "[?base..<?lim] ! i = ?base + i" by (rule nth_upt) (use i l(2) in linarith)
    have nth: "?sc ! i = count32 a (?base + i)" "?oc ! i = count32 b (?base + i)"
      using i up by (simp_all add: nth_append)
    show "?body i s = (if differs a b (?base + i) then call_back a b f (?base + i) s else (Ok (), s))"
      unfolding nth using count32_eq [OF w(1,2) lim] by (simp add: differs_def call_back_def)
  qed
  also have "\<dots> = for_each (\<lambda>n s. if differs a b n then call_back a b f n s else (Ok (), s)) (map ((+) ?base) [0..<?l]) s"
    by (simp add: for_each_map)
  also have "map ((+) ?base) [0..<?l] = [?base..<?base + ?l]" by (rule map_shift_upt)
  also have "\<dots> = [?base..<?lim]" unfolding l(2) ..
  finally have body: "for_each ?body [0..<?l] s = for_each (call_back a b f) (filter (differs a b) [?base..<?lim]) s"
    by (simp add: for_each_filter)
  have run: "diff_region ops a b f j ((sc, oc), s) = (case for_each ?body [0..<?l] s of (r, s) \<Rightarrow> (r, (?sc, ?oc), s))"
    unfolding diff_region_def Let_def REGION_SIZE_def prod.case look [OF w(1) j len(1)] look [OF w(2) jb len(2)] result.case ..
  show ?thesis unfolding run body by (rule exI [of _ ?sc], rule exI [of _ ?oc]) (use len l in auto)
qed

lemma ag_diff_spec:
  assumes w: "regions_wf a" "regions_wf b" "ag_nr_entries a = ag_nr_entries b"
  shows "ag_diff ops a b f s = for_each (call_back a b f) (filter (differs a b) [0..<ag_nr_entries a]) s"
proof -
  have lb: "length (ag_regions b) = length (ag_regions a)" using w by (simp add: regions_wf_def)
  have main: "\<exists>sc' oc'. length sc' = 1024 \<and> length oc' = 1024 \<and>
      for_each (diff_region ops a b f) [0..<k] ((sc, oc), s) =
      (case for_each (call_back a b f) (filter (differs a b) [0..<min (k * 1024) (ag_nr_entries a)]) s of (r, s) \<Rightarrow> (r, (sc', oc'), s))"
    if "k \<le> length (ag_regions a)" "length sc = 1024" "length oc = 1024" for k sc oc
    using that
  proof (induction k)
    case (Suc k)
    let ?all = "\<lambda>k. filter (differs a b) [0..<min (k * 1024) (ag_nr_entries a)]"
    obtain sc1 oc1 where 1: "length sc1 = 1024" "length oc1 = 1024"
      "for_each (diff_region ops a b f) [0..<k] ((sc, oc), s) = (case for_each (call_back a b f) (?all k) s of (r, s) \<Rightarrow> (r, (sc1, oc1), s))"
      using Suc by auto
    obtain r s1 where rs: "for_each (call_back a b f) (?all k) s = (r, s1)" by fastforce
    obtain sc2 oc2 where 2: "length sc2 = 1024" "length oc2 = 1024"
      "diff_region ops a b f k ((sc1, oc1), s1) =
        (case for_each (call_back a b f) (filter (differs a b) [k * 1024..<min ((k + 1) * 1024) (ag_nr_entries a)]) s1 of (r, s) \<Rightarrow> (r, (sc2, oc2), s))"
      using diff_region_spec [OF w _ 1(1,2), of k f s1] Suc.prems by auto
    have "k * 1024 \<le> ag_nr_entries a" using Suc.prems(1) w(1) by (auto simp: regions_wf_def REGION_SIZE_def)
    then have "[0..<min (Suc k * 1024) (ag_nr_entries a)] = [0..<min (k * 1024) (ag_nr_entries a)] @ [k * 1024..<min ((k + 1) * 1024) (ag_nr_entries a)]"
      using upt_add_eq_append [of 0 "k * 1024" "min (Suc k * 1024) (ag_nr_entries a) - k * 1024"] by (auto simp: min_def)
    then have split: "?all (Suc k) = ?all k @ filter (differs a b) [k * 1024..<min ((k + 1) * 1024) (ag_nr_entries a)]" by simp
    have "for_each (diff_region ops a b f) [0..<Suc k] ((sc, oc), s) =
        binds (for_each (diff_region ops a b f) [0..<k] ((sc, oc), s)) (\<lambda>_. diff_region ops a b f k)"
      by (simp add: for_each_snoc)
    then show ?case using 1 2 rs unfolding split for_each_append by (cases r) auto
  qed simp
  have "ag_nr_entries a \<le> length (ag_regions a) * 1024" using ag_limit_bound [OF w(1)] by (simp add: ag_limit_def)
  then have e: "min (length (ag_regions a) * 1024) (ag_nr_entries a) = ag_nr_entries a" by simp
  obtain sc oc where run: "for_each (diff_region ops a b f) [0..<length (ag_regions a)] ((replicate 1024 0, replicate 1024 0), s) =
      (case for_each (call_back a b f) (filter (differs a b) [0..<ag_nr_entries a]) s of (r, s) \<Rightarrow> (r, (sc, oc), s))"
    using main [OF order_refl, of "replicate 1024 0" "replicate 1024 0"] unfolding e by auto
  obtain r s' where rs: "for_each (call_back a b f) (filter (differs a b) [0..<ag_nr_entries a]) s = (r, s')" by fastforce
  have "ag_diff ops a b f s = (r, s')"
    unfolding ag_diff_def lb REGION_SIZE_def min.idem run rs using w(3) by simp
  with rs show ?thesis by simp
qed

lemma counts_concat:
  assumes w: "regions_wf a" and "k \<le> length (ag_regions a)"
  shows "map (agc a) [0..<1024 * k] = concat (map counts (take k (ag_regions a)))"
  using assms(2)
proof (induction k)
  case (Suc k)
  have l: "length (counts (ag_regions a ! k)) = 1024"
    using length_counts [OF wf_region [OF w, of k]] Suc.prems by (simp add: REGION_SIZE_def)
  have "map (agc a) [1024 * k..<1024 * k + 1024] = counts (ag_regions a ! k)"
    by (rule nth_equalityI) (simp_all add: l agc_def)
  moreover have "[0..<1024 * Suc k] = [0..<1024 * k] @ [1024 * k..<1024 * k + 1024]"
    using upt_add_eq_append [of 0 "1024 * k" 1024] by (simp add: add.commute)
  ultimately show ?case using Suc by (simp add: take_Suc_conv_app_nth)
qed simp

lemma allocated_concat: "allocated (concat css) = sum_list (map allocated css)"
  by (induction css) (simp_all add: allocated_def)

lemma ag_sum_allocated: "regions_wf a \<Longrightarrow> ag_sum a = allocated (map (agc a) [0..<ag_limit a])"
  using counts_concat [of a "length (ag_regions a)"]
  by (simp add: ag_limit_def ag_sum_def allocated_concat comp_def)

end

section \<open>Runs of an aggregator\<close>

datatype agg_op = AggInc "u64 list" | AggTest "u64 list" | AggSet "(u64 \<times> u32) list"

fun agg_step :: "('r, 'b) region_ops \<Rightarrow> 'b bitset \<Rightarrow> agg_op \<Rightarrow> 'r aggregator \<Rightarrow> ('r aggregator, unit) panics" where
  "agg_step ops bs (AggInc blocks) a = ag_increment ops blocks a"
| "agg_step ops bs (AggTest blocks) a = (case ag_test_and_inc ops bs blocks a of (r, a) \<Rightarrow> (mapr (\<lambda>_. ()) r, a))"
| "agg_step ops bs (AggSet pairs) a = ag_set_batch ops pairs a"

text \<open>What the operations mean for the function from blocks to counts; an increment must not pass the cap of a map that wraps.\<close>

fun count_step :: "nat \<Rightarrow> agg_op \<Rightarrow> (nat \<Rightarrow> nat) \<Rightarrow> nat \<Rightarrow> nat" where
  "count_step m (AggInc blocks) c = (\<lambda>n. min m (c n + count_list (map unat blocks) n))"
| "count_step m (AggTest blocks) c = (\<lambda>n. min m (c n + count_list (map unat blocks) n))"
| "count_step m (AggSet pairs) c =
    (\<lambda>n. case find (\<lambda>p. unat (fst p) = n) (rev pairs) of Some p \<Rightarrow> min m (unat (snd p)) | None \<Rightarrow> c n)"

fun agg_ops_ok :: "nat \<Rightarrow> bool \<Rightarrow> nat \<Rightarrow> agg_op list \<Rightarrow> (nat \<Rightarrow> nat) \<Rightarrow> bool" where
  "agg_ops_ok m sat limit [] c = True"
| "agg_ops_ok m sat limit (x # xs) c \<longleftrightarrow> (case x of
     AggInc blocks \<Rightarrow> sat \<or> (\<forall>b\<in>set blocks. unat b < limit \<longrightarrow> c (unat b) + count_list (map unat blocks) (unat b) \<le> m)
   | AggTest blocks \<Rightarrow> True
   | AggSet pairs \<Rightarrow> length pairs < 2 ^ 63) \<and> agg_ops_ok m sat limit xs (count_step m x c)"

lemma agg_ops_ok_cong: "(\<And>n. n < limit \<Longrightarrow> c n = d n) \<Longrightarrow> agg_ops_ok m sat limit xs c = agg_ops_ok m sat limit xs d"
proof (induction xs arbitrary: c d)
  case (Cons x xs)
  have "agg_ops_ok m sat limit xs (count_step m x c) = agg_ops_ok m sat limit xs (count_step m x d)"
    by (rule Cons.IH) (use Cons.prems in \<open>cases x; auto split: option.splits\<close>)
  then show ?case using Cons.prems by (cases x) auto
qed simp

lemma count_steps_cong:
  "(\<And>n. n < limit \<Longrightarrow> c n = d n) \<Longrightarrow> n < limit \<Longrightarrow> fold (count_step m) xs c n = fold (count_step m) xs d n"
proof (induction xs arbitrary: c d)
  case (Cons x xs)
  have "fold (count_step m) xs (count_step m x c) n = fold (count_step m) xs (count_step m x d) n"
    by (rule Cons.IH [OF _ Cons.prems(2)]) (use Cons.prems in \<open>cases x; auto split: option.splits\<close>)
  then show ?case by simp
qed simp

context region
begin

lemma fits_allI:
  assumes w: "regions_wf a" and f: "saturates \<or> (\<forall>b\<in>set blocks. unat b < ag_limit a \<longrightarrow> agc a (unat b) + count_list (map unat blocks) (unat b) \<le> cap)"
  shows "fits_all a blocks"
proof (cases saturates)
  case False
  have "agc a n + count_list (map unat blocks) n \<le> cap" if n: "n < ag_limit a" for n
  proof (cases "n \<in> unat ` set blocks")
    case True
    with f False n show ?thesis by auto
  next
    case out: False
    then have "count_list (map unat blocks) n = 0" by (simp add: count_list_0_iff)
    with agc_cap [OF w n] show ?thesis by simp
  qed
  then show ?thesis unfolding fits_all_def by blast
qed (unfold fits_all_def, blast)

lemma agg_step_spec:
  assumes "bitset_laws bs" "ag_wf a" "\<forall>n<ag_limit a. agc a n = c n" "agg_ops_ok cap saturates (ag_limit a) [x] c"
  shows "\<exists>a'. agg_step ops bs x a = (Ok (), a') \<and> ag_wf a' \<and> ag_nr_entries a' = ag_nr_entries a \<and>
    (\<forall>n<ag_limit a. agc a' n = count_step cap x c n)"
proof (cases x)
  case (AggInc blocks)
  have "fits_all a blocks"
    by (rule fits_allI) (use assms(2-4) AggInc in \<open>auto simp: ag_wf_def\<close>)
  from ag_increment_spec [OF assms(2) this] AggInc assms(3) show ?thesis by auto
next
  case (AggTest blocks)
  with ag_test_and_inc_spec [OF assms(2,1), of blocks] assms(3) show ?thesis by auto
next
  case (AggSet pairs)
  then have "length pairs < 2 ^ 63" using assms(4) by simp
  from ag_set_batch_spec [OF assms(2) this] AggSet assms(3) show ?thesis
    by (auto simp: last_set_def)
qed

lemma agg_run_spec:
  assumes "bitset_laws bs"
  shows "ag_wf a \<Longrightarrow> \<forall>n<ag_limit a. agc a n = c n \<Longrightarrow> agg_ops_ok cap saturates (ag_limit a) xs c \<Longrightarrow>
    \<exists>a'. for_each (agg_step ops bs) xs a = (Ok (), a') \<and> ag_wf a' \<and> ag_nr_entries a' = ag_nr_entries a \<and>
      (\<forall>n<ag_limit a. agc a' n = fold (count_step cap) xs c n)"
proof (induction xs arbitrary: a c)
  case (Cons x xs)
  from agg_step_spec [OF assms Cons.prems(1,2), of x] Cons.prems(3) obtain a1 where
    a1: "agg_step ops bs x a = (Ok (), a1)" "ag_wf a1" "ag_nr_entries a1 = ag_nr_entries a"
      "\<forall>n<ag_limit a. agc a1 n = count_step cap x c n" by auto
  have l: "ag_limit a1 = ag_limit a" using Cons.prems(1) a1(2,3) by (simp add: ag_wf_def regions_wf_def ag_limit_def)
  from Cons.IH [OF a1(2), of "count_step cap x c"] a1 l Cons.prems(3) show ?case by auto
qed auto

text \<open>A run from the empty map: every block reads its count, and the allocated blocks are those with a count.\<close>

lemma agg_run_new:
  assumes "bitset_laws bs" valid "nr \<le> 2 ^ 62"
    and ok: "agg_ops_ok cap saturates (1024 * ((nr + 1023) div 1024)) xs (\<lambda>_. 0)"
  shows "\<exists>a. for_each (agg_step ops bs) xs (ag_new ops nr) = (Ok (), a) \<and> ag_wf a \<and>
    (\<forall>b. unat b < nr \<longrightarrow> ag_get ops a b = Some (Ok (word_of_nat (fold (count_step cap) xs (\<lambda>_. 0) (unat b))))) \<and>
    unat (ag_nr_allocated a) = allocated (map (fold (count_step cap) xs (\<lambda>_. 0)) [0..<1024 * ((nr + 1023) div 1024)])"
proof -
  have nw: "ag_wf (ag_new ops nr)" "\<forall>n<ag_limit (ag_new ops nr). agc (ag_new ops nr) n = 0"
    using new_wf [OF assms(2,3)] by auto
  have lim: "ag_limit (ag_new ops nr) = 1024 * ((nr + 1023) div 1024)"
    by (simp add: ag_limit_def ag_new_def REGION_SIZE_def)
  obtain a where a: "for_each (agg_step ops bs) xs (ag_new ops nr) = (Ok (), a)" "ag_wf a" "ag_nr_entries a = nr"
    "\<forall>n<1024 * ((nr + 1023) div 1024). agc a n = fold (count_step cap) xs (\<lambda>_. 0) n"
    using agg_run_spec [OF assms(1) nw] ok lim by (auto simp: ag_new_def)
  have rw: "regions_wf a" using a(2) by (simp add: ag_wf_def)
  have al: "ag_limit a = 1024 * ((nr + 1023) div 1024)" using rw a(3) by (simp add: regions_wf_def ag_limit_def REGION_SIZE_def)
  have "ag_get ops a b = Some (Ok (word_of_nat (fold (count_step cap) xs (\<lambda>_. 0) (unat b))))" if "unat b < nr" for b
    using ag_get_spec [OF rw, of b] a(3,4) that ag_limit_bound [OF rw] al by (auto simp: count32_def)
  moreover have "map (agc a) [0..<ag_limit a] = map (fold (count_step cap) xs (\<lambda>_. 0)) [0..<ag_limit a]"
    using a(4) al by simp
  moreover have "unat (ag_nr_allocated a) = allocated (map (agc a) [0..<ag_limit a])"
    using a(2) ag_sum_allocated [OF rw] by (simp add: ag_wf_def)
  ultimately show ?thesis using a(1,2) unfolding al by metis
qed

end

section \<open>The two aggregators\<close>

type_synonym 'b u32_aggregator = "'b u32_region aggregator"

text \<open>The count of a block, and well-formed maps of either kind; their counts of allocated blocks are right.\<close>

definition agg_limit :: "'r aggregator \<Rightarrow> nat" where
  "agg_limit a = 1024 * length (ag_regions a)"

definition agg_count :: "('r \<Rightarrow> nat list) \<Rightarrow> 'r aggregator \<Rightarrow> nat \<Rightarrow> nat" where
  "agg_count cnt a n = cnt (ag_regions a ! (n div 1024)) ! (n mod 1024)"

definition agg_wf :: "('r \<Rightarrow> bool) \<Rightarrow> ('r \<Rightarrow> nat list) \<Rightarrow> 'r aggregator \<Rightarrow> bool" where
  "agg_wf ok cnt a \<longleftrightarrow> ag_nr_entries a \<le> 2 ^ 62 \<and>
     length (ag_regions a) = (ag_nr_entries a + 1023) div 1024 \<and> (\<forall>r\<in>set (ag_regions a). ok r) \<and>
     unat (ag_nr_allocated a) = allocated (map (agg_count cnt a) [0..<agg_limit a])"

lemma agg_names:
  fixes a :: "'b u32_aggregator" and t :: "two_region aggregator"
  shows "u32_regions.agc bs a = agg_count (u32_counts bs) a" "u32_regions.ag_limit a = agg_limit a"
    "two_regions.agc t = agg_count two_counts t" "two_regions.ag_limit t = agg_limit t"
    "u32_regions.ag_wf bs a = agg_wf (u32_wf bs) (u32_counts bs) a"
proof -
  show n: "u32_regions.agc bs a = agg_count (u32_counts bs) a" "two_regions.agc t = agg_count two_counts t"
    "u32_regions.ag_limit a = agg_limit a" "two_regions.ag_limit t = agg_limit t"
    by (simp_all add: fun_eq_iff u32_regions.agc_def two_regions.agc_def agg_count_def u32_regions.ag_limit_def
      two_regions.ag_limit_def agg_limit_def)
  have "u32_regions.regions_wf bs a \<Longrightarrow> u32_regions.ag_sum bs a = allocated (map (agg_count (u32_counts bs) a) [0..<agg_limit a])"
    using u32_regions.ag_sum_allocated [of bs a] n by simp
  then show "u32_regions.ag_wf bs a = agg_wf (u32_wf bs) (u32_counts bs) a"
    by (auto simp: u32_regions.ag_wf_def agg_wf_def u32_regions.regions_wf_def REGION_SIZE_def)
qed

text \<open>C4: From the empty map, any sequence of increments, \<open>test_and_inc\<close> and \<open>set_batch\<close> calls that does not count past
  \<open>u32::MAX\<close> succeeds; every block then reads the count the operations mean, and \<open>nr_allocated\<close> is the number of
  counted blocks of the regions, whatever representations the regions went through.\<close>

theorem aggregator_refines_counts:
  assumes "bitset_laws bs" "nr \<le> 2 ^ 62"
    and "agg_ops_ok u32_cap False (1024 * ((nr + 1023) div 1024)) xs (\<lambda>_. 0)"
  shows "\<exists>a. for_each (agg_step (u32_region_ops bs) bs) xs (ag_new (u32_region_ops bs) nr) = (Ok (), a) \<and>
    (\<forall>b. unat b < nr \<longrightarrow> ag_get (u32_region_ops bs) a b =
       Some (Ok (word_of_nat (fold (count_step u32_cap) xs (\<lambda>_. 0) (unat b))))) \<and>
    unat (ag_nr_allocated a) =
      allocated (map (fold (count_step u32_cap) xs (\<lambda>_. 0)) [0..<1024 * ((nr + 1023) div 1024)])"
  using u32_regions.agg_run_new [OF assms(1,1,2,3)] by blast

lemma aggregator_refines_counts_witness:
  "\<exists>a. for_each (agg_step (u32_region_ops list_bitset) list_bitset) [AggInc [1, 1030, 1], AggSet [(2, 300)], AggTest [2, 3]]
      (ag_new (u32_region_ops list_bitset) 2000) = (Ok (), a) \<and>
    ag_get (u32_region_ops list_bitset) a 2 = Some (Ok 301)"
proof -
  let ?xs = "[AggInc [1, 1030, 1], AggSet [(2, 300)], AggTest [2, 3]]"
  have "agg_ops_ok u32_cap False (1024 * ((2000 + 1023) div 1024)) ?xs (\<lambda>_. 0)" by (simp add: u32_cap_def)
  from aggregator_refines_counts [OF bitset_laws_list _ this] obtain a where
    a: "for_each (agg_step (u32_region_ops list_bitset) list_bitset) ?xs (ag_new (u32_region_ops list_bitset) 2000) = (Ok (), a)"
    "\<And>b. unat b < 2000 \<Longrightarrow> ag_get (u32_region_ops list_bitset) a b =
       Some (Ok (word_of_nat (fold (count_step u32_cap) ?xs (\<lambda>_. 0) (unat b))))" by auto
  from a(2) [of 2] have "ag_get (u32_region_ops list_bitset) a 2 = Some (Ok 301)" by (simp add: u32_cap_def)
  with a(1) show ?thesis by blast
qed

text \<open>C5: \<open>test_and_inc\<close> answers for each block of its batch whether the block had a count, or occurred earlier in the batch: of
  several walkers that ask for a block exactly one is told that it is new. Blocks outside the map are always new.\<close>

theorem test_and_inc_first:
  assumes "bitset_laws bs" "agg_wf (u32_wf bs) (u32_counts bs) a"
  shows "\<exists>a' seen. ag_test_and_inc (u32_region_ops bs) bs blocks a = (Ok seen, a') \<and>
    agg_wf (u32_wf bs) (u32_counts bs) a' \<and>
    (\<forall>i<length blocks. bs_contains bs seen i \<longleftrightarrow> unat (blocks ! i) < agg_limit a \<and>
       (0 < agg_count (u32_counts bs) a (unat (blocks ! i)) \<or> blocks ! i \<in> set (take i blocks)))"
proof -
  have "0 < count_list (map unat ys) (unat y) \<longleftrightarrow> y \<in> set ys" for y :: u64 and ys
    by (auto simp: count_list_0_iff zero_less_iff_neq_zero word_unat_eq_iff [symmetric])
  with u32_regions.ag_test_and_inc_spec [OF assms(2) [folded agg_names] assms(1), of blocks] show ?thesis
    by (auto simp: u32_regions.ag_seen_def agg_names)
qed

lemma test_and_inc_first_witness:
  "\<exists>a' seen. ag_test_and_inc (u32_region_ops list_bitset) list_bitset [5, 9, 5, 5000] (ag_new (u32_region_ops list_bitset) 100) =
     (Ok seen, a') \<and> \<not> bs_contains list_bitset seen 0 \<and> \<not> bs_contains list_bitset seen 1 \<and> bs_contains list_bitset seen 2 \<and>
     \<not> bs_contains list_bitset seen 3"
proof -
  let ?a = "ag_new (u32_region_ops list_bitset) 100"
  have w: "agg_wf (u32_wf list_bitset) (u32_counts list_bitset) ?a"
    using u32_regions.new_wf [OF bitset_laws_list, of 100] by (simp add: agg_names)
  have c: "agg_count (u32_counts list_bitset) ?a 5 = 0" "agg_limit ?a = 1024" "agg_count (u32_counts list_bitset) ?a 9 = 0"
    by (simp_all add: agg_count_def agg_limit_def ag_new_def u32_default REGION_SIZE_def)
  from test_and_inc_first [OF bitset_laws_list w, of "[5, 9, 5, 5000]"] obtain a' seen where
    s: "ag_test_and_inc (u32_region_ops list_bitset) list_bitset [5, 9, 5, 5000] ?a = (Ok seen, a')"
    "\<And>i. i < 4 \<Longrightarrow> bs_contains list_bitset seen i \<longleftrightarrow> unat ([5, 9, 5, 5000 :: u64] ! i) < agg_limit ?a \<and>
       (0 < agg_count (u32_counts list_bitset) ?a (unat ([5, 9, 5, 5000 :: u64] ! i)) \<or>
        [5, 9, 5, 5000 :: u64] ! i \<in> set (take i [5, 9, 5, 5000]))" by auto
  from s(2) [of 0] s(2) [of 1] s(2) [of 2] s(2) [of 3] s(1) c show ?thesis by simp
qed

lemma count_step_two:
  "2 \<le> m \<Longrightarrow> (\<And>n. d n = min 2 (c n)) \<Longrightarrow> fold (count_step 2) xs d n = min 2 (fold (count_step m) xs c n)"
proof (induction xs arbitrary: c d)
  case (Cons x xs)
  have "count_step 2 x d n = min 2 (count_step m x c n)" for n
    using Cons.prems by (cases x) (auto split: option.splits)
  from Cons.IH [OF Cons.prems(1) this] show ?case by simp
qed simp

lemma count_steps_le: "(\<And>n. c n \<le> m) \<Longrightarrow> fold (count_step m) xs c n \<le> m"
proof (induction xs arbitrary: c)
  case (Cons x xs)
  have "count_step m x c n \<le> m" for n using Cons.prems by (cases x) (auto split: option.splits)
  from Cons.IH [OF this] show ?case by simp
qed simp

lemma agg_ops_ok_sat: "agg_ops_ok m sat limit xs c \<Longrightarrow> agg_ops_ok m' True limit xs d"
proof (induction xs arbitrary: c d)
  case (Cons y ys)
  from Cons.prems have "agg_ops_ok m sat limit ys (count_step m y c)" by simp
  from Cons.IH [OF this] Cons.prems show ?case by (cases y) auto
qed simp

lemma allocated_cong: "(\<And>n. n \<in> set ns \<Longrightarrow> (0 < f n) = (0 < g n)) \<Longrightarrow> allocated (map f ns) = allocated (map g ns)"
  by (simp add: allocated_def filter_map comp_def cong: filter_cong)

text \<open>C39: For the same operations \<open>RestrictedTwoAggregator\<close> reads every block as \<open>Aggregator\<close> does, up to two, and counts the
  same number of allocated blocks.\<close>

theorem restricted_aggregator_agrees:
  assumes "bitset_laws bs" "nr \<le> 2 ^ 62"
    and "agg_ops_ok u32_cap False (1024 * ((nr + 1023) div 1024)) xs (\<lambda>_. 0)"
  shows "\<exists>a t. for_each (agg_step (u32_region_ops bs) bs) xs (ag_new (u32_region_ops bs) nr) = (Ok (), a) \<and>
    for_each (agg_step (two_region_ops bs) bs) xs (ag_new (two_region_ops bs) nr) = (Ok (), t) \<and>
    (\<forall>b. unat b < nr \<longrightarrow> (\<exists>c. ag_get (u32_region_ops bs) a b = Some (Ok c) \<and>
       ag_get (two_region_ops bs) t b = Some (Ok (min 2 c)))) \<and> ag_nr_allocated t = ag_nr_allocated a"
proof -
  let ?c = "fold (count_step u32_cap) xs (\<lambda>_. 0)" and ?d = "fold (count_step 2) xs (\<lambda>_. 0)"
  have d: "?d n = min 2 (?c n)" for n by (rule count_step_two) (simp_all add: u32_cap_def)
  have c: "?c n < 2 ^ 32" for n using count_steps_le [of "\<lambda>_. 0" u32_cap xs n] by (simp add: u32_cap_def)
  have m: "(word_of_nat (?d n) :: u32) = min 2 (word_of_nat (?c n))" for n
    using c [of n] by (auto simp: d min_def word_le_nat_alt unat_of_nat_eq)
  from u32_regions.agg_run_new [OF assms(1,1,2,3)] obtain a where
    a: "for_each (agg_step (u32_region_ops bs) bs) xs (ag_new (u32_region_ops bs) nr) = (Ok (), a)"
    "\<And>b. unat b < nr \<Longrightarrow> ag_get (u32_region_ops bs) a b = Some (Ok (word_of_nat (?c (unat b))))"
    "unat (ag_nr_allocated a) = allocated (map ?c [0..<1024 * ((nr + 1023) div 1024)])" by blast
  from two_regions.agg_run_new [OF assms(1,1,2) agg_ops_ok_sat [OF assms(3)]] obtain t where
    t: "for_each (agg_step (two_region_ops bs) bs) xs (ag_new (two_region_ops bs) nr) = (Ok (), t)"
    "\<And>b. unat b < nr \<Longrightarrow> ag_get (two_region_ops bs) t b = Some (Ok (word_of_nat (?d (unat b))))"
    "unat (ag_nr_allocated t) = allocated (map ?d [0..<1024 * ((nr + 1023) div 1024)])" by blast
  have "unat (ag_nr_allocated t) = unat (ag_nr_allocated a)"
    unfolding a(3) t(3) by (rule allocated_cong) (simp add: d)
  then have "ag_nr_allocated t = ag_nr_allocated a" by (simp add: word_unat_eq_iff)
  with a t show ?thesis using m by auto
qed

lemma restricted_aggregator_agrees_witness:
  "\<exists>t. for_each (agg_step (two_region_ops list_bitset) list_bitset) [AggInc [7, 7, 7], AggSet [(8, 1)]]
      (ag_new (two_region_ops list_bitset) 10) = (Ok (), t)"
proof -
  have "agg_ops_ok u32_cap False (1024 * ((10 + 1023) div 1024)) [AggInc [7, 7, 7], AggSet [(8, 1)]] (\<lambda>_. 0)"
    by (simp add: u32_cap_def)
  from restricted_aggregator_agrees [OF bitset_laws_list _ this] show ?thesis by auto
qed

text \<open>C40: \<open>diff\<close> calls back exactly for the blocks of the map whose counts differ, in ascending order and with both counts.\<close>

theorem aggregator_diff_spec:
  assumes "agg_wf (u32_wf bs) (u32_counts bs) a" "agg_wf (u32_wf bs) (u32_counts bs) b" "ag_nr_entries a = ag_nr_entries b"
  shows "ag_diff (u32_region_ops bs) a b (\<lambda>n l r out. (Ok (), out @ [(n, l, r)])) [] =
    (Ok (), map (\<lambda>n. (word_of_nat n, word_of_nat (agg_count (u32_counts bs) a n), word_of_nat (agg_count (u32_counts bs) b n)))
       (filter (\<lambda>n. agg_count (u32_counts bs) a n \<noteq> agg_count (u32_counts bs) b n) [0..<ag_nr_entries a]))"
proof -
  have collect: "for_each (u32_regions.call_back bs a b (\<lambda>n l r out. (Ok (), out @ [(n, l, r)]))) ns out =
    (Ok (), out @ map (\<lambda>n. (word_of_nat n, word_of_nat (agg_count (u32_counts bs) a n),
      word_of_nat (agg_count (u32_counts bs) b n))) ns)" for ns out
    by (induction ns arbitrary: out) (simp_all add: u32_regions.call_back_def u32_regions.count32_def agg_names)
  have w: "u32_regions.regions_wf bs a" "u32_regions.regions_wf bs b"
    using assms(1,2) [folded agg_names] by (simp_all add: u32_regions.ag_wf_def)
  have "filter (u32_regions.differs bs a b) [0..<ag_nr_entries a] =
      filter (\<lambda>n. agg_count (u32_counts bs) a n \<noteq> agg_count (u32_counts bs) b n) [0..<ag_nr_entries a]"
    by (rule filter_cong) (simp_all add: u32_regions.differs_def agg_names)
  then show ?thesis by (simp add: u32_regions.ag_diff_spec [OF w assms(3)] collect)
qed

lemma aggregator_diff_spec_witness:
  "ag_diff (u32_region_ops list_bitset) (ag_new (u32_region_ops list_bitset) 100) (ag_new (u32_region_ops list_bitset) 100)
     (\<lambda>n l r out. (Ok (), out @ [(n, l, r)])) [] = (Ok (), [])"
proof -
  have w: "agg_wf (u32_wf list_bitset) (u32_counts list_bitset) (ag_new (u32_region_ops list_bitset) 100)"
    using u32_regions.new_wf [OF bitset_laws_list, of 100] by (simp add: agg_names)
  show ?thesis using aggregator_diff_spec [OF w w refl] by simp
qed

end
