(* ===== verification/Bytes.thy ===== *)
theory Bytes
  imports Prelude
begin

text \<open>
  The byte layer: the little endian reads and writes of the \<open>byteorder\<close> and \<open>nom\<close> crates as
  the sources use them, and the traits \<open>Pack\<close> and \<open>Unpack\<close> of \<open>src/pdata/unpack.rs\<close>, modelled
  as a record of the trait's operations. A \<open>nom\<close> parser returns the remaining input and a
  value; the callers never look at which error it failed with, so failure is \<open>None\<close>.
\<close>

section \<open>Little endian numbers\<close>

fun le_bytes :: "nat \<Rightarrow> nat \<Rightarrow> bytes" where
  "le_bytes 0 n = []"
| "le_bytes (Suc k) n = word_of_nat (n mod 256) # le_bytes k (n div 256)"

fun le_value :: "bytes \<Rightarrow> nat" where
  "le_value [] = 0"
| "le_value (b # bs) = unat b + 256 * le_value bs"

lemma length_le_bytes [simp]: "length (le_bytes k n) = k"
  by (induction k arbitrary: n) auto

lemma unat_byte [simp]: "unat (word_of_nat (n mod 256) :: u8) = n mod 256"
  by (simp add: unat_of_nat)

lemma le_value_le_bytes: "le_value (le_bytes k n) = n mod 256 ^ k"
proof (induction k arbitrary: n)
  case (Suc k)
  have "n mod (256 * 256 ^ k) = 256 * (n div 256 mod 256 ^ k) + n mod 256"
    by (rule mod_mult2_eq)
  with Suc show ?case by (simp add: unat_of_nat)
qed simp

lemma le_value_bound: "le_value bs < 256 ^ length bs"
proof (induction bs)
  case (Cons b bs)
  have "unat b < 256" using unat_lt2p [of b] by simp
  with Cons show ?case by simp
qed simp

lemma le_bytes_le_value: "le_bytes (length bs) (le_value bs) = bs"
proof (induction bs)
  case (Cons b bs)
  have "unat b < 256" using unat_lt2p [of b] by simp
  with Cons show ?case by simp
qed simp

lemma le_bytes_zero: "le_bytes k 0 = replicate k 0"
  by (induction k) auto

section \<open>Writers\<close>

definition w_u8 :: "u8 \<Rightarrow> bytes" where "w_u8 x = [x]"
definition w_u16 :: "u16 \<Rightarrow> bytes" where "w_u16 x = le_bytes 2 (unat x)"
definition w_u32 :: "u32 \<Rightarrow> bytes" where "w_u32 x = le_bytes 4 (unat x)"
definition w_u64 :: "u64 \<Rightarrow> bytes" where "w_u64 x = le_bytes 8 (unat x)"

lemma length_w [simp, codec_simps]:
  "length (w_u8 a) = 1" "length (w_u16 b) = 2" "length (w_u32 c) = 4" "length (w_u64 d) = 8"
  by (simp_all add: w_u8_def w_u16_def w_u32_def w_u64_def)

lemma w_zero: "w_u32 0 = replicate 4 0" "w_u64 0 = replicate 8 0"
  by (simp_all add: w_u32_def w_u64_def le_bytes_zero)

section \<open>Parsers\<close>

type_synonym 'a parser = "bytes \<Rightarrow> (bytes \<times> 'a) option"

definition p_take :: "nat \<Rightarrow> bytes parser" where
  "p_take n i = (if n \<le> length i then Some (drop n i, take n i) else None)"

definition p_num :: "nat \<Rightarrow> nat parser" where
  "p_num n i = do { (i, bs) \<leftarrow> p_take n i; Some (i, le_value bs) }"

definition le_u8 :: "u8 parser" where
  "le_u8 i = do { (i, n) \<leftarrow> p_num 1 i; Some (i, word_of_nat n) }"
definition le_u16 :: "u16 parser" where
  "le_u16 i = do { (i, n) \<leftarrow> p_num 2 i; Some (i, word_of_nat n) }"
definition le_u32 :: "u32 parser" where
  "le_u32 i = do { (i, n) \<leftarrow> p_num 4 i; Some (i, word_of_nat n) }"
definition le_u64 :: "u64 parser" where
  "le_u64 i = do { (i, n) \<leftarrow> p_num 8 i; Some (i, word_of_nat n) }"

text \<open>\<open>nom::multi::count\<close>, and \<open>many_m_n(n, n, _)\<close> over a parser that consumes input.\<close>

fun p_count :: "'a parser \<Rightarrow> nat \<Rightarrow> 'a list parser" where
  "p_count p 0 i = Some (i, [])"
| "p_count p (Suc n) i = do { (i, x) \<leftarrow> p i; (i, xs) \<leftarrow> p_count p n i; Some (i, x # xs) }"

lemma p_take_append [simp, codec_simps]: "length bs = n \<Longrightarrow> p_take n (bs @ r) = Some (r, bs)"
  by (simp add: p_take_def)

lemma p_take_Some: "p_take n i = Some (r, bs) \<longleftrightarrow> i = bs @ r \<and> length bs = n"
  by (auto simp: p_take_def split: if_splits)

lemma p_take_inv [codec_inv]: "p_take n i = Some (r, bs) \<Longrightarrow> i = bs @ r \<and> length bs = n"
  by (simp add: p_take_Some)

lemma p_num_le_bytes: "n < 256 ^ k \<Longrightarrow> p_num k (le_bytes k n @ r) = Some (r, n)"
  by (simp add: p_num_def le_value_le_bytes)

lemma p_num_inv: "p_num k i = Some (r, n) \<Longrightarrow> i = le_bytes k n @ r \<and> n < 256 ^ k"
  by (auto simp: p_num_def p_take_Some le_bytes_le_value le_value_bound
      split: Option.bind_splits)

lemma le_u8_w [simp, codec_simps]: "le_u8 (w_u8 x @ r) = Some (r, x)"
  by (simp add: le_u8_def w_u8_def p_num_def p_take_def)

lemma le_u16_w [simp, codec_simps]: "le_u16 (w_u16 x @ r) = Some (r, x)"
  using unat_lt2p [of x] by (simp add: le_u16_def w_u16_def p_num_le_bytes)

lemma le_u32_w [simp, codec_simps]: "le_u32 (w_u32 x @ r) = Some (r, x)"
  using unat_lt2p [of x] by (simp add: le_u32_def w_u32_def p_num_le_bytes)

lemma le_u64_w [simp, codec_simps]: "le_u64 (w_u64 x @ r) = Some (r, x)"
  using unat_lt2p [of x] by (simp add: le_u64_def w_u64_def p_num_le_bytes)

lemma le_u8_Cons [simp, codec_simps]: "le_u8 (x # r) = Some (r, x)"
  using le_u8_w [of x r] by (simp add: w_u8_def)

lemma le_u8_Nil [simp]: "le_u8 [] = None"
  by (simp add: le_u8_def p_num_def p_take_def)

lemma le_u32_inv [codec_inv]: "le_u32 i = Some (r, x) \<Longrightarrow> i = w_u32 x @ r"
  by (auto simp: le_u32_def w_u32_def unat_of_nat dest!: p_num_inv split: Option.bind_splits)

lemma le_u64_inv [codec_inv]: "le_u64 i = Some (r, x) \<Longrightarrow> i = w_u64 x @ r"
  by (auto simp: le_u64_def w_u64_def unat_of_nat dest!: p_num_inv split: Option.bind_splits)

lemma le_u16_inv [codec_inv]: "le_u16 i = Some (r, x) \<Longrightarrow> i = w_u16 x @ r"
  by (auto simp: le_u16_def w_u16_def unat_of_nat dest!: p_num_inv split: Option.bind_splits)

lemma le_u32_length: "4 \<le> length i \<longleftrightarrow> (\<exists>r x. le_u32 i = Some (r, x))"
  by (auto simp: le_u32_def p_num_def p_take_def split: if_splits)

lemma le_u64_length: "8 \<le> length i \<longleftrightarrow> (\<exists>r x. le_u64 i = Some (r, x))"
  by (auto simp: le_u64_def p_num_def p_take_def split: if_splits)

lemma p_count_inv:
  assumes "p_count p n i = Some (r, xs)"
    and "\<And>i r x. p i = Some (r, x) \<Longrightarrow> i = w x @ r"
  shows "i = concat (map w xs) @ r \<and> length xs = n"
  using assms(1)
proof (induction n arbitrary: i xs)
  case (Suc n)
  from Suc.prems obtain i1 x ys where "p i = Some (i1, x)" "p_count p n i1 = Some (r, ys)"
    "xs = x # ys"
    by (auto split: Option.bind_splits)
  with Suc.IH [of i1 ys] assms(2) [of i i1 x] show ?case by simp
qed simp

section \<open>The traits Pack and Unpack\<close>

record 'v codec =
  disk_size :: u32
  pack_v :: "'v \<Rightarrow> bytes"
  unpack_v :: "'v parser"

definition u64_codec :: "u64 codec" where
  "u64_codec = \<lparr>disk_size = 8, pack_v = w_u64, unpack_v = le_u64\<rparr>"

definition u32_codec :: "u32 codec" where
  "u32_codec = \<lparr>disk_size = 4, pack_v = w_u32, unpack_v = le_u32\<rparr>"

datatype io_error = InvalidData | UnexpectedEof | ReadError

text \<open>\<open>pdata::unpack::unpack\<close>: the value, whatever follows it in the buffer.\<close>

definition unpack_bytes :: "'v codec \<Rightarrow> bytes \<Rightarrow> (io_error, 'v) result" where
  "unpack_bytes c data = (case unpack_v c data of None \<Rightarrow> Err InvalidData | Some (i, v) \<Rightarrow> Ok v)"

text \<open>
  The contract the btree and array code expects of a value type: an encoding has the
  announced size, and parsing gives back what was written and the input that follows.
\<close>

locale value_codec =
  fixes c :: "'v codec" and valid :: "'v \<Rightarrow> bool"
  assumes pack_length: "length (pack_v c v) = unat (disk_size c)"
    and unpack_pack: "valid v \<Longrightarrow> unpack_v c (pack_v c v @ r) = Some (r, v)"
begin

lemma length_concat_pack:
  "length (concat (map (pack_v c) vs)) = unat (disk_size c) * length vs"
  by (induction vs) (simp_all add: pack_length)

lemma count_pack:
  "\<forall>v \<in> set vs. valid v \<Longrightarrow>
   p_count (unpack_v c) (length vs) (concat (map (pack_v c) vs) @ r) = Some (r, vs)"
  by (induction vs) (simp_all add: unpack_pack)

lemma unpack_bytes_pack: "valid v \<Longrightarrow> unpack_bytes c (pack_v c v @ r) = Ok v"
  by (simp add: unpack_bytes_def unpack_pack)

lemma pack_inj: "valid v \<Longrightarrow> valid v' \<Longrightarrow> pack_v c v = pack_v c v' \<Longrightarrow> v = v'"
  using unpack_pack [of v "[]"] unpack_pack [of v' "[]"] by simp

end

interpretation u64c: value_codec u64_codec "\<lambda>_. True"
  by unfold_locales (simp_all add: u64_codec_def)

interpretation u32c: value_codec u32_codec "\<lambda>_. True"
  by unfold_locales (simp_all add: u32_codec_def)

lemma p_count_u64 [simp, codec_simps]:
  "length ns = n \<Longrightarrow> p_count le_u64 n (concat (map w_u64 ns) @ r) = Some (r, ns)"
  using u64c.count_pack [of ns r] by (auto simp: u64_codec_def)

lemma length_concat_w_u64 [simp, codec_simps]: "length (concat (map w_u64 ns)) = 8 * length ns"
  using u64c.length_concat_pack [of ns] by (simp add: u64_codec_def)

lemma concat_w_u64_Nil [simp]: "concat (map w_u64 ns) = [] \<longleftrightarrow> ns = []"
proof
  assume "concat (map w_u64 ns) = []"
  then have "8 * length ns = 0" using length_concat_w_u64 [of ns] by (metis list.size(3))
  then show "ns = []" by simp
qed simp

lemma p_count_u64_inv [codec_inv]:
  "p_count le_u64 n i = Some (r, xs) \<Longrightarrow> i = concat (map w_u64 xs) @ r \<and> length xs = n"
  by (rule p_count_inv) (auto dest: le_u64_inv)

end
