(* ===== verification/Delta_List.thy ===== *)
theory Delta_List
  imports Prelude
begin

text \<open>
  \<open>src/pack/delta_list.rs\<close>: a list of \<open>u64\<close> as a first value and runs of equal steps. The
  inner \<open>while\<close> loops advance the index over the rest of the slice, so the model's state is
  the rest of the list; all arithmetic is the code's wrapping arithmetic on \<open>u64\<close>.
\<close>

datatype delta =
    Base (base_n: u64)
  | Const (const_count: u64)
  | Pos (pos_delta: u64) (pos_count: u64)
  | Neg (neg_delta: u64) (neg_count: u64)

text \<open>\<open>while i < ns.len() && p(count, ns[i]) { i += 1; count += 1 }\<close>\<close>

fun scan :: "(u64 \<Rightarrow> u64 \<Rightarrow> bool) \<Rightarrow> u64 \<Rightarrow> u64 list \<Rightarrow> u64 \<times> u64 list" where
  "scan p count [] = (count, [])"
| "scan p count (n # ns) = (if p count n then scan p (count + 1) ns else (count, n # ns))"

lemma length_scan: "length (snd (scan p c ns)) \<le> length ns"
  by (induction p c ns rule: scan.induct) auto

lemma length_scan_le: "scan p c ns = (c', rest) \<Longrightarrow> length rest \<le> length ns"
  using length_scan [of p c ns] by simp

text \<open>The outer loop, from an index on; \<open>base\<close> is the last value the deltas so far give.\<close>

function (sequential) delta_loop :: "u64 \<Rightarrow> u64 list \<Rightarrow> delta list" where
  "delta_loop base [] = []"
| "delta_loop base (n # ns) =
    (if n < base then
       (let delta = base - n;
            (count, rest) = scan (\<lambda>count m. m + count * delta = base) 1 (n # ns);
            count = count - 1
        in Neg delta count # delta_loop (base - delta * count) rest)
     else if n = base then
       (let (count, rest) = scan (\<lambda>count m. m = base) 1 (n # ns);
            count = count - 1
        in Const count # delta_loop base rest)
     else
       (let delta = n - base;
            (count, rest) = scan (\<lambda>count m. m = base + count * delta) 1 (n # ns);
            count = count - 1
        in Pos delta count # delta_loop (base + delta * count) rest))"
  by pat_completeness auto
termination
  by (relation "measure (\<lambda>(base, ns). length ns)") (auto dest!: sym [THEN length_scan_le])

declare delta_loop.simps(2) [simp del]

definition to_delta :: "u64 list \<Rightarrow> delta list" where
  "to_delta ns = (case ns of [] \<Rightarrow> [] | base # rest \<Rightarrow> Base base # delta_loop base rest)"

section \<open>What a delta list stands for\<close>

text \<open>The reference decoder (\<open>from_delta\<close> of the module's tests).\<close>

fun steps :: "u64 \<Rightarrow> u64 \<Rightarrow> nat \<Rightarrow> u64 list" where
  "steps d base 0 = []"
| "steps d base (Suc k) = (base + d) # steps d (base + d) k"

fun from_delta_loop :: "u64 \<Rightarrow> delta list \<Rightarrow> u64 list" where
  "from_delta_loop base [] = []"
| "from_delta_loop base (Base n # ds) = n # from_delta_loop n ds"
| "from_delta_loop base (Const c # ds) = replicate (unat c) base @ from_delta_loop base ds"
| "from_delta_loop base (Pos d c # ds) =
     steps d base (unat c) @ from_delta_loop (base + d * c) ds"
| "from_delta_loop base (Neg d c # ds) =
     steps (- d) base (unat c) @ from_delta_loop (base - d * c) ds"

definition from_delta :: "delta list \<Rightarrow> u64 list" where
  "from_delta ds = from_delta_loop 0 ds"

lemma length_steps [simp]: "length (steps d b k) = k"
  by (induction k arbitrary: b) auto

lemma steps_zero: "steps 0 b k = replicate k b"
  by (induction k) auto

lemma steps_nth: "j < k \<Longrightarrow> steps d b k ! j = b + word_of_nat (Suc j) * d"
proof (induction k arbitrary: b j)
  case (Suc k)
  then show ?case by (cases j) (simp_all add: algebra_simps)
qed simp

lemma steps_eqI:
  assumes "length ns = k" "\<And>j. j < k \<Longrightarrow> ns ! j = b + word_of_nat (Suc j) * d"
  shows "ns = steps d b k"
  using assms by (intro nth_equalityI) (simp_all add: steps_nth del: of_nat_Suc)

text \<open>What a scan has read: \<open>k\<close> values that satisfied the predicate at their own count.\<close>

lemma scan_split:
  assumes "scan p c ns = (c', rest)"
  obtains pre where "ns = pre @ rest" "c' = c + word_of_nat (length pre)"
    "\<And>j. j < length pre \<Longrightarrow> p (c + word_of_nat j) (pre ! j)"
proof -
  have "\<exists>pre. ns = pre @ rest \<and> c' = c + word_of_nat (length pre) \<and>
      (\<forall>j < length pre. p (c + word_of_nat j) (pre ! j))"
    using assms
  proof (induction p c ns rule: scan.induct)
    case (2 p c n ns)
    show ?case
    proof (cases "p c n")
      case True
      with 2 obtain pre where pre: "ns = pre @ rest" "c' = c + 1 + word_of_nat (length pre)"
        "\<forall>j < length pre. p (c + 1 + word_of_nat j) (pre ! j)" by auto
      have "p (c + word_of_nat j) ((n # pre) ! j)" if "j < length (n # pre)" for j
        using that True pre(3) by (cases j) (auto simp: add.assoc)
      with pre show ?thesis by (intro exI [of _ "n # pre"]) (auto simp: add.assoc)
    next
      case False
      with 2 show ?thesis by (intro exI [of _ "[]"]) auto
    qed
  qed simp
  with that show thesis by blast
qed

lemma scan_first: "p c n \<Longrightarrow> scan p c (n # ns) = (c', rest) \<Longrightarrow> length rest \<le> length ns"
  using length_scan [of p "c + 1" ns] by (simp add: prod_eq_iff)

text \<open>A run the encoder found: at least one value, and the steps the decoder will make.\<close>

lemma scan_run:
  assumes s: "scan p 1 (n # ns) = (c', rest)"
    and p: "\<And>c m. p c m \<longleftrightarrow> m = b + c * d" and n: "n = b + d" and len: "length ns < 2 ^ 64 - 1"
  obtains k where "n # ns = steps d b k @ rest" "unat (c' - 1) = k" "0 < k" "k \<le> Suc (length ns)"
proof -
  from s obtain pre where pre: "n # ns = pre @ rest" "c' = 1 + word_of_nat (length pre)"
    "\<And>j. j < length pre \<Longrightarrow> p (1 + word_of_nat j) (pre ! j)"
    by (rule scan_split) blast
  have "length rest \<le> length ns" by (rule scan_first [OF _ s]) (simp add: p n)
  with pre(1) have pos: "0 < length pre" by (metis append_self_conv2 impossible_Cons length_greater_0_conv)
  have bound: "length pre \<le> Suc (length ns)" using arg_cong [OF pre(1), of length] by simp
  with len have "unat (c' - 1) = length pre"
    by (simp add: pre(2) unat_of_nat_eq)
  moreover have "pre = steps d b (length pre)"
    using pre(3) by (intro steps_eqI) (simp_all add: p)
  ultimately show thesis using that [of "length pre"] pre(1) pos bound by simp
qed

text \<open>Each delta of the encoder has a count between 1 and the number of values.\<close>

fun delta_count :: "delta \<Rightarrow> nat" where
  "delta_count (Base n) = 1"
| "delta_count (Const c) = unat c"
| "delta_count (Pos d c) = unat c"
| "delta_count (Neg d c) = unat c"

lemma delta_loop_correct:
  assumes "length ns < 2 ^ 64"
  shows "from_delta_loop base (delta_loop base ns) = ns \<and>
    (\<forall>d \<in> set (delta_loop base ns). 0 < delta_count d \<and> delta_count d \<le> length ns)"
  using assms
proof (induction base ns rule: delta_loop.induct)
  case (2 base n ns)
  have len: "length ns < 2 ^ 64 - 1" using "2.prems" by simp
  consider (less) "n < base" | (eq) "n = base" | (greater) "base < n" by fastforce
  then show ?case
  proof cases
    case less
    let ?d = "base - n"
    obtain c rest where s: "scan (\<lambda>count m. m + count * ?d = base) 1 (n # ns) = (c, rest)"
      by fastforce
    obtain k where k: "n # ns = steps (- ?d) base k @ rest" "unat (c - 1) = k" "0 < k"
      "k \<le> Suc (length ns)"
      by (rule scan_run [OF s, of base "- ?d"]) (use len in \<open>auto simp: algebra_simps\<close>)
    have eq: "delta_loop base (n # ns) = Neg ?d (c - 1) # delta_loop (base - ?d * (c - 1)) rest"
      using less s by (simp add: delta_loop.simps(2) Let_def)
    from k(1,3) have len': "Suc (length ns) = k + length rest" by (metis length_Cons length_append length_steps)
    with "2.IH"(1) [OF less refl s [symmetric] refl refl] "2.prems" k(3)
    show ?thesis by (auto simp: eq k(2) k(1) [simplified, symmetric])
  next
    case eq
    obtain c rest where s: "scan (\<lambda>count m. m = base) 1 (n # ns) = (c, rest)"
      by fastforce
    obtain k where k: "n # ns = steps 0 base k @ rest" "unat (c - 1) = k" "0 < k"
      "k \<le> Suc (length ns)"
      by (rule scan_run [OF s, of base 0]) (use len eq in auto)
    have eq': "delta_loop base (n # ns) = Const (c - 1) # delta_loop base rest"
      using eq s by (simp add: delta_loop.simps(2) Let_def)
    from k(1,3) have len': "Suc (length ns) = k + length rest" by (metis length_Cons length_append length_steps)
    from eq have "\<not> n < base" by simp
    with "2.IH"(2) [OF _ eq s [symmetric] refl refl] "2.prems" k(3) len'
    show ?thesis by (auto simp: eq' k(2) k(1) [symmetric] simp flip: steps_zero)
  next
    case greater
    then have gt: "\<not> n < base" "n \<noteq> base" by auto
    let ?d = "n - base"
    obtain c rest where s: "scan (\<lambda>count m. m = base + count * ?d) 1 (n # ns) = (c, rest)"
      by fastforce
    obtain k where k: "n # ns = steps ?d base k @ rest" "unat (c - 1) = k" "0 < k"
      "k \<le> Suc (length ns)"
      by (rule scan_run [OF s, of base ?d]) (use len in auto)
    have eq: "delta_loop base (n # ns) = Pos ?d (c - 1) # delta_loop (base + ?d * (c - 1)) rest"
      using gt s by (simp add: delta_loop.simps(2) Let_def)
    from k(1,3) have len': "Suc (length ns) = k + length rest" by (metis length_Cons length_append length_steps)
    with "2.IH"(3) [OF gt refl s [symmetric] refl refl] "2.prems" k(3) len'
    show ?thesis by (auto simp: eq k(2) k(1) [symmetric])
  qed
qed simp

section \<open>Properties\<close>

text \<open>C24: The delta list of a slice decodes to the slice, for every slice a 64-bit machine can
  hold: the runs the encoder found are exactly the steps the decoder makes, also where the
  differences and the bases wrap around.\<close>

theorem delta_roundtrip:
  assumes "length ns < 2 ^ 64"
  shows "from_delta (to_delta ns) = ns"
  using assms delta_loop_correct [of "tl ns" "hd ns"]
  by (cases ns) (auto simp: to_delta_def from_delta_def)

theorem delta_roundtrip_witness: "from_delta (to_delta [1, 0, 18446744073709551615, 5, 5]) = [1, 0, -1, 5, 5]"
  using delta_roundtrip [of "[1, 0, 18446744073709551615, 5, 5]"] by simp

end
