(* ===== verification/Pack_VM.thy ===== *)
theory Pack_VM
  imports Bytes Delta_List
begin

text \<open>
  \<open>src/pack/vm.rs\<close>: the instruction set of packed metadata. Packing writes to an in-memory
  buffer, which accepts every byte, so a packer returns the bytes it writes, or panics where
  an assertion of the code fails. Unpacking reads a byte cursor and can run out of input.
\<close>

section \<open>Instructions\<close>

datatype tag = TSet | TPos | TPosW | TNeg | TNegW | TConst | TConst8 | TCount | TCount8
  | TLit | TLitW | TShiftedRun

fun tag_code :: "tag \<Rightarrow> u8" where
  "tag_code TSet = 0" | "tag_code TPos = 1" | "tag_code TPosW = 2" | "tag_code TNeg = 3"
| "tag_code TNegW = 4" | "tag_code TConst = 5" | "tag_code TConst8 = 6" | "tag_code TCount = 7"
| "tag_code TCount8 = 8" | "tag_code TLit = 9" | "tag_code TLitW = 10" | "tag_code TShiftedRun = 11"

text \<open>The derived \<open>FromPrimitive\<close>: the inverse of the discriminants.\<close>

definition tag_from_u8 :: "u8 \<Rightarrow> tag option" where
  "tag_from_u8 b = (if b = 0 then Some TSet else if b = 1 then Some TPos
    else if b = 2 then Some TPosW else if b = 3 then Some TNeg else if b = 4 then Some TNegW
    else if b = 5 then Some TConst else if b = 6 then Some TConst8 else if b = 7 then Some TCount
    else if b = 8 then Some TCount8 else if b = 9 then Some TLit else if b = 10 then Some TLitW
    else if b = 11 then Some TShiftedRun else None)"

lemma tag_from_code [simp]: "tag_from_u8 (tag_code t) = Some t"
  by (cases t) (simp_all add: tag_from_u8_def)

text \<open>The packers cannot fail on an in-memory buffer; \<open>Panic\<close> is a failed assertion.\<close>

type_synonym packed = "(io_error, bytes) result"

definition seq :: "packed \<Rightarrow> packed \<Rightarrow> packed" where
  "seq a b = bindr a (\<lambda>x. bindr b (\<lambda>y. Ok (x @ y)))"

lemma seq_simps [simp]:
  "seq (Ok x) (Ok y) = Ok (x @ y)" "seq Panic b = Panic" "seq (Err e) b = Err e"
  "seq (Ok x) Panic = Panic" "seq (Ok x) (Err e) = Err e"
  by (simp_all add: seq_def)

lemma seq_Ok: "seq a b = Ok z \<longleftrightarrow> (\<exists>x y. a = Ok x \<and> b = Ok y \<and> z = x @ y)"
  by (auto simp: seq_def)

section \<open>Packing\<close>

definition pack_tag :: "tag \<Rightarrow> u8 \<Rightarrow> packed" where
  "pack_tag t nibble = assertr (nibble < 16)
     (let b = tag_code t in assertr (b < 16)
       (let b = push_bit 4 b OR nibble in Ok (w_u8 b)))"

definition pack_count :: "u64 \<Rightarrow> packed" where
  "pack_count count =
    (if count = 1 then Ok []
     else if count < 16 then pack_tag TCount (ucast count)
     else assertr (count < 4096)
       (let nibble = drop_bit 8 count in assertr (nibble < 16)
         (let byte = count AND 0xff
          in seq (pack_tag TCount8 (ucast nibble)) (Ok (w_u8 (ucast byte))))))"

text \<open>An operand written with the smallest of the widths 1, 2, 4 and 8, given in the nibble.\<close>

definition pack_wide :: "tag \<Rightarrow> u64 \<Rightarrow> packed" where
  "pack_wide t n =
    (if n \<le> 0xff then seq (pack_tag t 1) (Ok (w_u8 (ucast n)))
     else if n \<le> 0xffff then seq (pack_tag t 2) (Ok (w_u16 (ucast n)))
     else if n \<le> 0xffffffff then seq (pack_tag t 4) (Ok (w_u32 (ucast n)))
     else seq (pack_tag t 8) (Ok (w_u64 n)))"

fun pack_delta :: "delta \<Rightarrow> packed" where
  "pack_delta (Base n) = pack_wide TSet n"
| "pack_delta (Pos delta count) = seq (pack_count count)
     (if delta < 16 then pack_tag TPos (ucast delta) else pack_wide TPosW delta)"
| "pack_delta (Neg delta count) = seq (pack_count count)
     (if delta < 16 then pack_tag TNeg (ucast delta) else pack_wide TNegW delta)"
| "pack_delta (Const count) =
     (if count < 16 then pack_tag TConst (ucast count)
      else assertr (count < 4096)
        (let nibble = drop_bit 8 count in assertr (nibble < 16)
          (seq (pack_tag TConst8 (ucast nibble)) (Ok (w_u8 (ucast (count AND 0xff)))))))"

fun pack_deltas :: "delta list \<Rightarrow> packed" where
  "pack_deltas [] = Ok []"
| "pack_deltas (d # ds) = seq (pack_delta d) (pack_deltas ds)"

definition pack_u64s :: "u64 list \<Rightarrow> packed" where
  "pack_u64s ns = pack_deltas (to_delta ns)"

definition unshift_nrs :: "nat \<Rightarrow> u64 list \<Rightarrow> u64 list \<times> u64 list" where
  "unshift_nrs shift ns =
    (let mask = push_bit shift 1 - 1
     in (map (drop_bit shift) ns, map (\<lambda>n. n AND mask) ns))"

definition pack_shifted_u64s :: "u64 list \<Rightarrow> packed" where
  "pack_shifted_u64s ns =
    (let len = word_of_nat (length ns) :: u64; nibble = drop_bit 8 len in
     assertr (nibble < 16)
      (seq (pack_tag TShiftedRun (ucast nibble))
        (seq (Ok (w_u8 (ucast (len AND 0xff))))
          (let (high, low) = unshift_nrs 24 ns in seq (pack_u64s high) (pack_u64s low)))))"

definition pack_literal :: "bytes \<Rightarrow> packed" where
  "pack_literal bs =
    (let len = word_of_nat (length bs) :: u64 in
     seq (if len < 16 then pack_tag TLit (ucast len) else pack_wide TLitW len) (Ok bs))"

section \<open>The unpacking machine\<close>

record vm =
  base :: u64
  bytes_written :: nat

definition vm_new :: vm where
  "vm_new = \<lparr>base = 0, bytes_written = 0\<rparr>"

type_synonym 'a read = "(io_error, 'a) result"

definition r_num :: "'a parser \<Rightarrow> bytes \<Rightarrow> ('a \<times> bytes) read" where
  "r_num p r = (case p r of None \<Rightarrow> Err UnexpectedEof | Some (r, n) \<Rightarrow> Ok (n, r))"

text \<open>The last branch is the panic on a bad width.\<close>

definition unpack_with_width :: "bytes \<Rightarrow> u8 \<Rightarrow> (u64 \<times> bytes) read" where
  "unpack_with_width r nibble =
    (if nibble = 1 then mapr (\<lambda>(n, r). (ucast n, r)) (r_num le_u8 r)
     else if nibble = 2 then mapr (\<lambda>(n, r). (ucast n, r)) (r_num le_u16 r)
     else if nibble = 4 then mapr (\<lambda>(n, r). (ucast n, r)) (r_num le_u32 r)
     else if nibble = 8 then r_num le_u64 r
     else Panic)"

fun unpack_u64s :: "bytes \<Rightarrow> nat \<Rightarrow> (u64 list \<times> bytes) read" where
  "unpack_u64s r 0 = Ok ([], r)"
| "unpack_u64s r (Suc count) = bindr (r_num le_u64 r) (\<lambda>(n, r).
     mapr (\<lambda>(v, r). (n # v, r)) (unpack_u64s r count))"

definition emit_u64 :: "vm \<Rightarrow> bytes \<Rightarrow> u64 \<Rightarrow> vm \<times> bytes" where
  "emit_u64 vm w n = (vm\<lparr>bytes_written := bytes_written vm + 8\<rparr>, w @ w_u64 n)"

definition emit_base :: "vm \<Rightarrow> bytes \<Rightarrow> vm \<times> bytes" where
  "emit_base vm w = emit_u64 vm w (base vm)"

definition emit_bytes :: "vm \<Rightarrow> bytes \<Rightarrow> bytes \<Rightarrow> vm \<times> bytes" where
  "emit_bytes vm w bs = (vm\<lparr>bytes_written := bytes_written vm + length bs\<rparr>, w @ bs)"

text \<open>
  The loops of the instructions: step the base by \<open>d\<close> (0 where the loop leaves it alone, the
  negated operand where it subtracts) and emit it, a number of times.
\<close>

fun emit_loop :: "u64 \<Rightarrow> nat \<Rightarrow> vm \<Rightarrow> bytes \<Rightarrow> vm \<times> bytes" where
  "emit_loop d 0 vm w = (vm, w)"
| "emit_loop d (Suc n) vm w =
    (let (vm, w) = emit_base (vm\<lparr>base := base vm + d\<rparr>) w in emit_loop d n vm w)"

fun emit_all64 :: "u64 list \<Rightarrow> vm \<Rightarrow> bytes \<Rightarrow> vm \<times> bytes" where
  "emit_all64 [] vm w = (vm, w)"
| "emit_all64 (n # ns) vm w = (let (vm, w) = emit_u64 vm w n in emit_all64 ns vm w)"

lemma emit_loop_eq: "emit_loop d n vm w =
  (vm\<lparr>base := base vm + word_of_nat n * d, bytes_written := bytes_written vm + 8 * n\<rparr>,
   w @ concat (map w_u64 (steps d (base vm) n)))"
  by (induction n arbitrary: vm w) (simp_all add: emit_base_def emit_u64_def algebra_simps)

lemma emit_all64_eq: "emit_all64 ns vm w =
  (vm\<lparr>bytes_written := bytes_written vm + 8 * length ns\<rparr>, w @ concat (map w_u64 ns))"
  by (induction ns arbitrary: vm w) (simp_all add: emit_u64_def)

lemmas emit_eqs = emit_loop_eq emit_all64_eq emit_bytes_def

text \<open>\<open>read_exact\<close> into a fresh buffer; a length over \<open>isize::MAX\<close> panics in the allocation.\<close>

definition read_literal :: "bytes \<Rightarrow> nat \<Rightarrow> (bytes \<times> bytes) read" where
  "read_literal r len =
    (if 2 ^ 63 \<le> len then Panic
     else if length r < len then Err UnexpectedEof else Ok (take len r, drop len r))"

definition len12 :: "u8 \<Rightarrow> u8 \<Rightarrow> nat" where
  "len12 nibble byte = unat (push_bit 8 (ucast nibble) OR ucast byte :: u64)"

text \<open>
  One instruction, applied \<open>count\<close> times, and the loop that runs instructions until enough
  bytes are out. Both return the machine, the rest of the input and the output buffer.
\<close>

function (sequential)
  unpack_instr :: "vm \<Rightarrow> bytes \<Rightarrow> bytes \<Rightarrow> nat \<Rightarrow> (vm \<times> bytes \<times> bytes) read" and
  exec_loop :: "vm \<Rightarrow> bytes \<Rightarrow> bytes \<Rightarrow> nat \<Rightarrow> nat \<Rightarrow> (vm \<times> bytes \<times> bytes) read"
where
  "unpack_instr vm r w count = bindr (r_num le_u8 r) (\<lambda>(b, r).
    let nibble = b AND 0xf in
    case tag_from_u8 (drop_bit 4 b) of
      None \<Rightarrow> Panic
    | Some TSet \<Rightarrow> mapr (\<lambda>(n, r). let (vm, w) = emit_loop 0 count (vm\<lparr>base := n\<rparr>) w in (vm, r, w))
        (unpack_with_width r nibble)
    | Some TPos \<Rightarrow> Ok (let (vm, w) = emit_loop (ucast nibble) count vm w in (vm, r, w))
    | Some TPosW \<Rightarrow> mapr (\<lambda>(d, r). let (vm, w) = emit_loop d count vm w in (vm, r, w))
        (unpack_with_width r nibble)
    | Some TNeg \<Rightarrow> Ok (let (vm, w) = emit_loop (- ucast nibble) count vm w in (vm, r, w))
    | Some TNegW \<Rightarrow> mapr (\<lambda>(d, r). let (vm, w) = emit_loop (- d) count vm w in (vm, r, w))
        (unpack_with_width r nibble)
    | Some TConst \<Rightarrow> assertr (count = 1)
        (Ok (let (vm, w) = emit_loop 0 (unat nibble) vm w in (vm, r, w)))
    | Some TConst8 \<Rightarrow> assertr (count = 1) (mapr (\<lambda>(b, r).
        let (vm, w) = emit_loop 0 (len12 nibble b) vm w in (vm, r, w)) (r_num le_u8 r))
    | Some TCount \<Rightarrow> unpack_instr vm r w (unat nibble)
    | Some TCount8 \<Rightarrow> bindr (r_num le_u8 r) (\<lambda>(b, r). unpack_instr vm r w (len12 nibble b))
    | Some TLit \<Rightarrow> assertr (count = 1) (mapr (\<lambda>(bs, r).
        let (vm, w) = emit_bytes vm w bs in (vm, r, w)) (read_literal r (unat nibble)))
    | Some TLitW \<Rightarrow> assertr (count = 1) (bindr (unpack_with_width r nibble) (\<lambda>(n, r).
        mapr (\<lambda>(bs, r). let (vm, w) = emit_bytes vm w bs in (vm, r, w))
          (read_literal r (unat n))))
    | Some TShiftedRun \<Rightarrow> bindr (r_num le_u8 r) (\<lambda>(b, r).
        let len = len12 nibble b; nr_bytes = len * 8 in
        bindr (exec_loop vm r [] (bytes_written vm) nr_bytes) (\<lambda>(vm1, r, high_bytes).
        let written = bytes_written vm1 - bytes_written vm;
            vm = vm1\<lparr>bytes_written := bytes_written vm1 - written\<rparr> in
        bindr (unpack_u64s high_bytes len) (\<lambda>(high, _).
        bindr (exec_loop vm r [] (bytes_written vm) nr_bytes) (\<lambda>(vm1, r, low_bytes).
        let written = bytes_written vm1 - bytes_written vm;
            vm = vm1\<lparr>bytes_written := bytes_written vm1 - written\<rparr> in
        bindr (unpack_u64s low_bytes len) (\<lambda>(low, _).
        let mask = push_bit 24 1 - 1;
            (vm, w) = emit_all64 (map2 (\<lambda>h l. push_bit 24 h OR (l AND mask)) high low) vm w
        in Ok (vm, r, w)))))))"
| "exec_loop vm r w begin emit =
    (if bytes_written vm - begin < emit
     then bindr (unpack_instr vm r w 1) (\<lambda>(vm, r, w). exec_loop vm r w begin emit)
     else Ok (vm, r, w))"
  by pat_completeness auto


text \<open>Every instruction takes at least its first byte from the input, so the machine halts.\<close>

lemma r_num_shorter:
  "r_num le_u8 r = Ok (b, r') \<Longrightarrow> length r' < length r"
  "r_num le_u16 r = Ok (x, r') \<Longrightarrow> length r' < length r"
  "r_num le_u32 r = Ok (y, r') \<Longrightarrow> length r' < length r"
  "r_num le_u64 r = Ok (z, r') \<Longrightarrow> length r' < length r"
  by (auto simp: r_num_def le_u8_def le_u16_def le_u32_def le_u64_def p_num_def p_take_def
      split: option.splits Option.bind_splits if_splits)

lemma unpack_with_width_shorter: "unpack_with_width r k = Ok (n, r') \<Longrightarrow> length r' < length r"
  by (auto simp: unpack_with_width_def dest: r_num_shorter split: if_splits)

lemma read_literal_shorter: "read_literal r len = Ok (bs, r') \<Longrightarrow> length r' \<le> length r"
  by (auto simp: read_literal_def split: if_splits)

lemma unpack_consumes_dom:
  "unpack_instr_exec_loop_dom (Inl (vm, r, w, c)) \<Longrightarrow>
     unpack_instr vm r w c = Ok (vm', r', w') \<Longrightarrow> length r' < length r"
  "unpack_instr_exec_loop_dom (Inr (vm, r, w, b, e)) \<Longrightarrow>
     exec_loop vm r w b e = Ok (vm', r', w') \<Longrightarrow> length r' \<le> length r"
proof (induction vm r w c and vm r w b e arbitrary: vm' r' w' and vm' r' w'
    rule: unpack_instr_exec_loop.pinduct)
  case (1 vm r w count)
  from "1.prems" "1.hyps" obtain b r0 where b: "r_num le_u8 r = Ok (b, r0)"
    by (auto simp: unpack_instr.psimps)
  note IH = "1.IH" [OF b refl refl]
  have r0: "length r0 < length r" using b by (rule r_num_shorter)
  show ?case
  proof (cases "tag_from_u8 (drop_bit 4 b)")
    case None
    with "1.prems" "1.hyps" b show ?thesis by (simp add: unpack_instr.psimps)
  next
    case (Some t)
    note IH = IH [OF Some]
    note run = "1.prems" [unfolded unpack_instr.psimps [OF "1.hyps"] b bindr.simps prod.case Let_def
        Some option.case emit_eqs]
    show ?thesis
    proof (cases "t = TShiftedRun")
      case True
      note IH3 = IH(3) [OF True _ refl refl refl]
        and IH4 = IH(4) [OF True _ refl refl refl _ refl refl refl refl _ refl]
      from run [unfolded True tag.case] obtain c r1 where c: "r_num le_u8 r0 = Ok (c, r1)"
        by auto
      note run = run [unfolded True tag.case c bindr.simps prod.case]
      from run obtain vm1 r2 high where
        x1: "exec_loop vm r1 [] (bytes_written vm) (len12 (b AND 0xf) c * 8) = Ok (vm1, r2, high)"
        by auto
      note run = run [unfolded x1 bindr.simps prod.case]
      from run obtain hs hr where hs: "unpack_u64s high (len12 (b AND 0xf) c) = Ok (hs, hr)"
        by auto
      note run = run [unfolded hs bindr.simps prod.case]
      let ?vm = "vm1\<lparr>bytes_written := bytes_written vm1 - (bytes_written vm1 - bytes_written vm)\<rparr>"
      from run obtain vm2 r3 low where
        x2: "exec_loop ?vm r2 [] (bytes_written ?vm) (len12 (b AND 0xf) c * 8) = Ok (vm2, r3, low)"
        by (auto simp only: bindr_eq_Ok prod.case split_paired_Ex)
      note run = run [unfolded x2 bindr.simps prod.case]
      have "r' = r3" using run by auto
      with IH3 [OF c x1] IH4 [OF c x1 hs x2] r_num_shorter(1) [OF c] r0 show ?thesis by simp
    next
      case False
      note IH1 = IH(1) and IH2 = IH(2) [OF _ _ refl]
      note shorter = unpack_with_width_shorter read_literal_shorter r_num_shorter
      show ?thesis
      proof (cases t)
        case TCount
        with run IH1 r0 show ?thesis by (auto dest: less_trans)
      next
        case TCount8
        from run [unfolded TCount8 tag.case] obtain c r1 where c: "r_num le_u8 r0 = Ok (c, r1)"
          and u: "unpack_instr vm r1 w (len12 (b AND 0xf) c) = Ok (vm', r', w')" by auto
        from IH2 [OF TCount8 c u] shorter(3) [OF c] r0 show ?thesis by simp
      next
        case TShiftedRun
        with False show ?thesis by simp
      qed (use run r0 in \<open>auto dest!: shorter\<close>)
    qed
  qed
next
  case (2 vm r w b e)
  then show ?case
    by (force simp: exec_loop.psimps split: if_splits)
qed

lemma unpack_terminates: "unpack_instr_exec_loop_dom x"
  by (rule spec [OF "unpack_instr_exec_loop.termination" [of "measure (\<lambda>x. case x of
      Inl (vm, r, w, c) \<Rightarrow> 2 * length r | Inr (vm, r, w, b, e) \<Rightarrow> 2 * length r + 1)"]])
    (auto dest!: r_num_shorter unpack_consumes_dom)

termination unpack_instr
  by (simp add: unpack_terminates)

declare unpack_instr.simps [simp del] exec_loop.simps [simp del]

lemma unpack_instr_shorter: "unpack_instr vm r w c = Ok (vm', r', w') \<Longrightarrow> length r' < length r"
  by (rule unpack_consumes_dom(1) [OF unpack_terminates])

lemma exec_loop_shorter: "exec_loop vm r w b e = Ok (vm', r', w') \<Longrightarrow> length r' \<le> length r"
  by (rule unpack_consumes_dom(2) [OF unpack_terminates])

text \<open>Runs until at least a number of bytes have been emitted; returns how many were.\<close>

definition exec :: "vm \<Rightarrow> bytes \<Rightarrow> bytes \<Rightarrow> nat \<Rightarrow> (nat \<times> vm \<times> bytes \<times> bytes) read" where
  "exec vm r w emit = mapr (\<lambda>(vm', r, w). (bytes_written vm' - bytes_written vm, vm', r, w))
     (exec_loop vm r w (bytes_written vm) emit)"

text \<open>The two assertions of \<open>unpack\<close>, on the buffer and on the count, are its panic.\<close>

definition unpack :: "bytes \<Rightarrow> nat \<Rightarrow> (bytes \<times> bytes) read" where
  "unpack r count = bindr (exec vm_new r [] count) (\<lambda>(written, vm, r, w).
     assertr (length w = count) (assertr (written = count) (Ok (w, r))))"

section \<open>Reading back single fields\<close>

definition tag_byte :: "tag \<Rightarrow> u8 \<Rightarrow> u8" where
  "tag_byte t n = push_bit 4 (tag_code t) OR n"

lemma tag_byte_fields:
  assumes "n < 16"
  shows "drop_bit 4 (tag_byte t n) = tag_code t" "tag_byte t n AND 0xf = n"
proof -
  have small: "unat n < 2 ^ 4" using assms by (simp add: word_less_nat_alt)
  note n = take_bit_small [OF small] and hi = small_no_bit [OF small]
  show "drop_bit 4 (tag_byte t n) = tag_code t"
    by (rule bit_word_eqI, cases t) (auto simp: tag_byte_def bit_simps hi numeral_eq_Suc less_Suc_eq)
  have "tag_byte t n AND 0xf = take_bit 4 (tag_byte t n)"
    by (simp add: take_bit_eq_mask mask_eq_exp_minus_1)
  also have "\<dots> = n" using n by (simp add: tag_byte_def take_bit_push_bit)
  finally show "tag_byte t n AND 0xf = n" .
qed

lemma tag_byte_decode:
  assumes "n < 16"
  shows "tag_from_u8 (drop_bit 4 (tag_byte t n)) = Some t" "tag_byte t n AND 0xf = n"
  by (simp_all only: tag_byte_fields [OF assms] tag_from_code)

lemma pack_tag_eq: "n < 16 \<Longrightarrow> pack_tag t n = Ok [tag_byte t n]"
  by (cases t) (simp_all add: pack_tag_def tag_byte_def w_u8_def)

lemma small_ucast:
  assumes "(n :: u64) < 16"
  shows "(ucast n :: u8) < 16" "ucast (ucast n :: u8) = n" "unat (ucast n :: u8) = unat n"
proof -
  from assms have n: "unat n < 16" by (simp add: word_less_nat_alt)
  then show u: "unat (ucast n :: u8) = unat n" by (simp add: unat_ucast_small)
  with n show "(ucast n :: u8) < 16" by (simp add: word_less_nat_alt)
  from n show "ucast (ucast n :: u8) = n" by (simp add: ucast_ucast_small)
qed

lemma len12_fields:
  assumes "(c :: u64) < 4096"
  shows "(ucast (drop_bit 8 c) :: u8) < 16" "drop_bit 8 c < 16"
    "len12 (ucast (drop_bit 8 c)) (ucast (c AND 0xff)) = unat c"
proof -
  have "unat c < 2 ^ 12" using assms by (simp add: word_less_nat_alt)
  note hi = small_no_bit [OF this]
  show d: "drop_bit 8 c < 16"
    using assms by (simp add: word_less_nat_alt drop_bit_eq_div unat_div_distrib)
  from small_ucast(1) [OF d] show "(ucast (drop_bit 8 c) :: u8) < 16" .
  have m: "c AND 0xff = take_bit 8 c" by (simp add: take_bit_eq_mask mask_eq_exp_minus_1)
  have "push_bit 8 (ucast (ucast (drop_bit 8 c) :: u8)) OR ucast (ucast (c AND 0xff) :: u8) = c"
    unfolding small_ucast(2) [OF d] m
    by (rule bit_word_eqI) (auto simp: bit_simps)
  then show "len12 (ucast (drop_bit 8 c)) (ucast (c AND 0xff)) = unat c" by (simp add: len12_def)
qed

lemma r_num_codec [simp, codec_simps]:
  "r_num le_u8 (b # r) = Ok (b, r)" "r_num le_u16 (w_u16 x @ r) = Ok (x, r)"
  "r_num le_u32 (w_u32 y @ r) = Ok (y, r)" "r_num le_u64 (w_u64 z @ r) = Ok (z, r)"
  by (simp_all add: r_num_def)

lemma narrow:
  "(n :: u64) \<le> 0xff \<Longrightarrow> ucast (ucast n :: u8) = n"
  "n \<le> 0xffff \<Longrightarrow> ucast (ucast n :: u16) = n"
  "n \<le> 0xffffffff \<Longrightarrow> ucast (ucast n :: u32) = n"
  by (simp_all add: ucast_ucast_small word_le_nat_alt)

text \<open>Every width is read back, whatever instruction carries it.\<close>

lemma pack_wide_read:
  fixes t n
  obtains k op where "k < 16" "pack_wide t n = Ok (tag_byte t k # op)"
    "\<forall>r. unpack_with_width (op @ r) k = Ok (n, r)"
proof (cases "n \<le> 0xff")
  case True
  with that [of 1 "w_u8 (ucast n)"] show ?thesis
    by (simp add: pack_wide_def pack_tag_eq unpack_with_width_def narrow w_u8_def)
next
  case n1: False
  show ?thesis
  proof (cases "n \<le> 0xffff")
    case True
    with n1 that [of 2 "w_u16 (ucast n)"] show ?thesis
      by (simp add: pack_wide_def pack_tag_eq unpack_with_width_def narrow)
  next
    case n2: False
    show ?thesis
    proof (cases "n \<le> 0xffffffff")
      case True
      with n1 n2 that [of 4 "w_u32 (ucast n)"] show ?thesis
        by (simp add: pack_wide_def pack_tag_eq unpack_with_width_def narrow)
    next
      case False
      with n1 n2 that [of 8 "w_u64 n"] show ?thesis
        by (simp add: pack_wide_def pack_tag_eq unpack_with_width_def)
    qed
  qed
qed


section \<open>Executing what was packed\<close>

text \<open>The values a delta stands for and the base it leaves, as the reference decoder has them.\<close>

fun delta_values :: "u64 \<Rightarrow> delta \<Rightarrow> u64 list" where
  "delta_values b (Base n) = [n]"
| "delta_values b (Const c) = replicate (unat c) b"
| "delta_values b (Pos d c) = steps d b (unat c)"
| "delta_values b (Neg d c) = steps (- d) b (unat c)"

fun delta_end :: "u64 \<Rightarrow> delta \<Rightarrow> u64" where
  "delta_end b (Base n) = n"
| "delta_end b (Const c) = b"
| "delta_end b (Pos d c) = b + d * c"
| "delta_end b (Neg d c) = b - d * c"

lemma from_delta_loop_Cons:
  "from_delta_loop b (d # ds) = delta_values b d @ from_delta_loop (delta_end b d) ds"
  by (cases d) simp_all

lemma length_delta_values: "length (delta_values b d) = delta_count d"
  by (cases d) simp_all

lemma unpack_instr_tag:
  assumes "n < 16"
  shows "unpack_instr vm (tag_byte TSet n # r) w c = mapr (\<lambda>(x, r).
      let (vm, w) = emit_loop 0 c (vm\<lparr>base := x\<rparr>) w in (vm, r, w)) (unpack_with_width r n)"
    "unpack_instr vm (tag_byte TPos n # r) w c =
      Ok (let (vm, w) = emit_loop (ucast n) c vm w in (vm, r, w))"
    "unpack_instr vm (tag_byte TPosW n # r) w c = mapr (\<lambda>(d, r).
      let (vm, w) = emit_loop d c vm w in (vm, r, w)) (unpack_with_width r n)"
    "unpack_instr vm (tag_byte TNeg n # r) w c =
      Ok (let (vm, w) = emit_loop (- ucast n) c vm w in (vm, r, w))"
    "unpack_instr vm (tag_byte TNegW n # r) w c = mapr (\<lambda>(d, r).
      let (vm, w) = emit_loop (- d) c vm w in (vm, r, w)) (unpack_with_width r n)"
    "unpack_instr vm (tag_byte TConst n # r) w (Suc 0) =
      Ok (let (vm, w) = emit_loop 0 (unat n) vm w in (vm, r, w))"
    "unpack_instr vm (tag_byte TConst8 n # b # r) w (Suc 0) =
      Ok (let (vm, w) = emit_loop 0 (len12 n b) vm w in (vm, r, w))"
    "unpack_instr vm (tag_byte TCount n # r) w c = unpack_instr vm r w (unat n)"
    "unpack_instr vm (tag_byte TCount8 n # b # r) w c = unpack_instr vm r w (len12 n b)"
  by (simp_all only: unpack_instr.simps [of vm "_ # r"] unpack_instr.simps [of vm "_ # _ # r"]
      r_num_codec bindr.simps prod.case Let_def tag_byte_decode [OF assms] option.case tag.case
      assertr_simps mapr_simps simp_thms One_nat_def)

lemma unpack_count:
  assumes "pack_count c = Ok bs"
  shows "unpack_instr vm (bs @ r) w 1 = unpack_instr vm r w (unat c)"
proof (cases "c < 16")
  case True
  with assms show ?thesis
    by (auto simp: pack_count_def pack_tag_eq small_ucast unpack_instr_tag split: if_splits)
next
  case False
  with assms have "c < 4096" "bs = [tag_byte TCount8 (ucast (drop_bit 8 c)), ucast (c AND 0xff)]"
    by (auto simp: pack_count_def Let_def pack_tag_eq len12_fields w_u8_def split: if_splits)
  with len12_fields [of c] show ?thesis by (simp add: unpack_instr_tag)
qed

text \<open>One packed delta, read back by the machine.\<close>

lemma unpack_delta:
  assumes "pack_delta d = Ok bs"
  shows "unpack_instr vm (bs @ r) w 1 =
    Ok (vm\<lparr>base := delta_end (base vm) d, bytes_written := bytes_written vm + 8 * delta_count d\<rparr>,
        r, w @ concat (map w_u64 (delta_values (base vm) d)))"
proof (cases d)
  case (Base n)
  obtain k op where "k < 16" "pack_wide TSet n = Ok (tag_byte TSet k # op)"
    "\<forall>r. unpack_with_width (op @ r) k = Ok (n, r)"
    using pack_wide_read [of TSet n] by blast
  with assms Base show ?thesis by (auto simp: unpack_instr_tag emit_eqs)
next
  case (Const c)
  show ?thesis
  proof (cases "c < 16")
    case True
    with assms Const show ?thesis
      by (auto simp: pack_tag_eq small_ucast unpack_instr_tag emit_eqs steps_zero)
  next
    case False
    with assms Const have "c < 4096"
      "bs = [tag_byte TConst8 (ucast (drop_bit 8 c)), ucast (c AND 0xff)]"
      by (auto simp: Let_def pack_tag_eq len12_fields w_u8_def)
    with len12_fields [of c] Const show ?thesis
      by (simp add: unpack_instr_tag emit_eqs steps_zero)
  qed
next
  case (Pos delta c)
  from assms Pos obtain x y where xy: "pack_count c = Ok x" "bs = x @ y"
    "(if delta < 16 then pack_tag TPos (ucast delta) else pack_wide TPosW delta) = Ok y"
    by (auto simp: seq_Ok)
  obtain k op where "k < 16" "pack_wide TPosW delta = Ok (tag_byte TPosW k # op)"
    "\<forall>r. unpack_with_width (op @ r) k = Ok (delta, r)"
    using pack_wide_read [of TPosW delta] by blast
  with xy Pos unpack_count [OF xy(1), of vm "y @ r" w] show ?thesis
    by (auto simp: pack_tag_eq small_ucast unpack_instr_tag emit_eqs mult.commute split: if_splits)
next
  case (Neg delta c)
  from assms Neg obtain x y where xy: "pack_count c = Ok x" "bs = x @ y"
    "(if delta < 16 then pack_tag TNeg (ucast delta) else pack_wide TNegW delta) = Ok y"
    by (auto simp: seq_Ok)
  obtain k op where "k < 16" "pack_wide TNegW delta = Ok (tag_byte TNegW k # op)"
    "\<forall>r. unpack_with_width (op @ r) k = Ok (delta, r)"
    using pack_wide_read [of TNegW delta] by blast
  with xy Neg unpack_count [OF xy(1), of vm "y @ r" w] show ?thesis
    by (auto simp: pack_tag_eq small_ucast unpack_instr_tag emit_eqs mult.commute split: if_splits)
qed

text \<open>
  A program \<open>p\<close> emits \<open>out\<close>: the loop runs through exactly the bytes of \<open>p\<close> when the target
  lies at or beyond the end of \<open>out\<close>, and has not been reached before \<open>p\<close> starts.
\<close>

definition emits :: "vm \<Rightarrow> bytes \<Rightarrow> bytes \<Rightarrow> vm \<Rightarrow> bool" where
  "emits vm p out vm' \<longleftrightarrow> bytes_written vm' = bytes_written vm + length out \<and>
    (\<forall>r w b e. b \<le> bytes_written vm \<longrightarrow> (p \<noteq> [] \<longrightarrow> bytes_written vm - b < e) \<longrightarrow>
       bytes_written vm + length out - b \<le> e \<longrightarrow>
       exec_loop vm (p @ r) w b e = exec_loop vm' r (w @ out) b e)"

lemma emits_Nil [simp]: "emits vm [] [] vm"
  by (simp add: emits_def)

lemma emits_append:
  assumes "emits vm p out vm1" "emits vm1 q out' vm2" "q = [] \<or> out' \<noteq> []"
  shows "emits vm (p @ q) (out @ out') vm2"
  unfolding emits_def
proof (intro conjI allI impI)
  show "bytes_written vm2 = bytes_written vm + length (out @ out')"
    using assms by (simp add: emits_def)
next
  fix r w b e
  assume h: "b \<le> bytes_written vm" "p @ q \<noteq> [] \<longrightarrow> bytes_written vm - b < e"
    "bytes_written vm + length (out @ out') - b \<le> e"
  have "exec_loop vm (p @ (q @ r)) w b e = exec_loop vm1 (q @ r) (w @ out) b e"
    using assms(1) h unfolding emits_def by simp
  also have "\<dots> = exec_loop vm2 r (w @ (out @ out')) b e"
  proof -
    have b1: "bytes_written vm1 = bytes_written vm + length out" using assms(1) by (simp add: emits_def)
    moreover have "q \<noteq> [] \<longrightarrow> 0 < length out'" using assms(3) by auto
    ultimately have "q \<noteq> [] \<longrightarrow> bytes_written vm1 - b < e" using h by (simp; linarith)
    with b1 assms(2) h show ?thesis unfolding emits_def by (simp add: add.assoc)
  qed
  finally show "exec_loop vm ((p @ q) @ r) w b e = exec_loop vm2 r (w @ (out @ out')) b e"
    by simp
qed

lemma emits_instr:
  assumes "\<And>r w. unpack_instr vm (p @ r) w 1 = Ok (vm', r, w @ out)" "p \<noteq> []"
    "bytes_written vm' = bytes_written vm + length out"
  shows "emits vm p out vm'"
  using assms by (simp add: emits_def exec_loop.simps [of vm])

lemma emits_deltas:
  assumes "pack_deltas ds = Ok bs" "\<forall>d \<in> set ds. 0 < delta_count d"
  shows "\<exists>vm'. emits vm bs (concat (map w_u64 (from_delta_loop (base vm) ds))) vm'"
  using assms
proof (induction ds arbitrary: bs vm)
  case (Cons d ds)
  from Cons.prems(1) obtain x y where xy: "pack_delta d = Ok x" "pack_deltas ds = Ok y" "bs = x @ y"
    by (auto simp: seq_Ok)
  let ?vm = "vm\<lparr>base := delta_end (base vm) d, bytes_written := bytes_written vm + 8 * delta_count d\<rparr>"
  let ?out = "concat (map w_u64 (delta_values (base vm) d))"
  from Cons.IH [OF xy(2), of ?vm] Cons.prems(2) obtain vm' where
    vm': "emits ?vm y (concat (map w_u64 (from_delta_loop (delta_end (base vm) d) ds))) vm'"
    by auto
  have "x \<noteq> []" using unpack_delta [OF xy(1), of vm "[]" "[]"] unpack_instr_shorter by fastforce
  then have "emits vm x ?out ?vm"
    by (intro emits_instr unpack_delta [OF xy(1)]) (simp_all add: length_delta_values)
  moreover have "y = [] \<or> from_delta_loop (delta_end (base vm) d) ds \<noteq> []"
    using xy(2) Cons.prems(2) by (cases ds) (auto simp: from_delta_loop_Cons dest!: arg_cong [of _ "[]" length]
        simp: length_delta_values)
  then have "y = [] \<or> concat (map w_u64 (from_delta_loop (delta_end (base vm) d) ds)) \<noteq> []"
    by (simp only: concat_w_u64_Nil)
  ultimately show ?case
    using emits_append [OF _ vm'] xy(3) by (auto simp: from_delta_loop_Cons)
next
  case Nil
  then show ?case by (auto intro: exI [of _ vm])
qed

lemma to_delta_correct:
  assumes "length ns < 2 ^ 64"
  shows "from_delta_loop b (to_delta ns) = ns"
    "\<forall>d \<in> set (to_delta ns). 0 < delta_count d \<and> delta_count d \<le> length ns"
proof -
  show "from_delta_loop b (to_delta ns) = ns"
    using assms delta_loop_correct [of "tl ns" "hd ns"] by (cases ns) (auto simp: to_delta_def)
  show "\<forall>d \<in> set (to_delta ns). 0 < delta_count d \<and> delta_count d \<le> length ns"
    using assms delta_loop_correct [of "tl ns" "hd ns"] by (cases ns) (fastforce simp: to_delta_def)+
qed

lemma emits_u64s:
  assumes "pack_u64s ns = Ok bs" "length ns < 2 ^ 64"
  obtains vm' where "emits vm bs (concat (map w_u64 ns)) vm'"
  using emits_deltas [of "to_delta ns" bs vm] assms to_delta_correct [OF assms(2)]
  by (auto simp: pack_u64s_def)


lemma read_literal_append: "length bs < 2 ^ 63 \<Longrightarrow> read_literal (bs @ r) (length bs) = Ok (bs, r)"
  by (simp add: read_literal_def)

lemma unpack_instr_lit:
  assumes "n < 16"
  shows "unpack_instr vm (tag_byte TLit n # r) w (Suc 0) = mapr (\<lambda>(bs, r).
      let (vm, w) = emit_bytes vm w bs in (vm, r, w)) (read_literal r (unat n))"
    "unpack_instr vm (tag_byte TLitW n # r) w (Suc 0) = bindr (unpack_with_width r n) (\<lambda>(x, r).
      mapr (\<lambda>(bs, r). let (vm, w) = emit_bytes vm w bs in (vm, r, w)) (read_literal r (unat x)))"
  by (simp_all only: unpack_instr.simps [of vm "_ # r"] r_num_codec bindr.simps prod.case Let_def
      tag_byte_decode [OF assms] option.case tag.case assertr_simps mapr_simps simp_thms One_nat_def)

lemma unpack_literal:
  assumes "length bs < 2 ^ 63"
  obtains p where "pack_literal bs = Ok p" "p \<noteq> []"
    "\<And>vm r w. unpack_instr vm (p @ r) w 1 =
      Ok (vm\<lparr>bytes_written := bytes_written vm + length bs\<rparr>, r, w @ bs)"
proof (cases "(word_of_nat (length bs) :: u64) < 16")
  case True
  let ?n = "ucast (word_of_nat (length bs) :: u64) :: u8"
  from assms have len: "unat (word_of_nat (length bs) :: u64) = length bs"
    by (simp add: unat_of_nat_eq)
  from True small_ucast [OF True] that [of "tag_byte TLit ?n # bs"] assms len show ?thesis
    by (simp add: pack_literal_def Let_def pack_tag_eq unpack_instr_lit read_literal_append emit_bytes_def)
next
  case False
  from assms have len: "unat (word_of_nat (length bs) :: u64) = length bs"
    by (simp add: unat_of_nat_eq)
  obtain k op where w: "k < 16" "pack_wide TLitW (word_of_nat (length bs)) = Ok (tag_byte TLitW k # op)"
    "\<forall>r. unpack_with_width (op @ r) k = Ok (word_of_nat (length bs), r)"
    using pack_wide_read [of TLitW "word_of_nat (length bs)"] by blast
  with False assms len that [of "tag_byte TLitW k # op @ bs"] show ?thesis
    by (simp add: pack_literal_def Let_def unpack_instr_lit read_literal_append emit_bytes_def)
qed

lemma emits_literal:
  assumes "pack_literal bs = Ok p" "length bs < 2 ^ 63"
  shows "emits vm p bs (vm\<lparr>bytes_written := bytes_written vm + length bs\<rparr>)" "p \<noteq> []"
proof -
  obtain q where "pack_literal bs = Ok q" "q \<noteq> []"
    "\<And>vm r w. unpack_instr vm (q @ r) w 1 =
      Ok (vm\<lparr>bytes_written := bytes_written vm + length bs\<rparr>, r, w @ bs)"
    using unpack_literal [OF assms(2)] by metis
  with assms(1) show "emits vm p bs (vm\<lparr>bytes_written := bytes_written vm + length bs\<rparr>)" "p \<noteq> []"
    by (auto intro: emits_instr)
qed

lemma unpack_u64s_concat: "unpack_u64s (concat (map w_u64 ns) @ r) (length ns) = Ok (ns, r)"
  by (induction ns) simp_all

lemma exec_u64s:
  assumes "pack_u64s ns = Ok p" "length ns < 2 ^ 64"
  obtains vm' where "\<And>r. exec_loop vm (p @ r) [] (bytes_written vm) (length ns * 8) =
      Ok (vm', r, concat (map w_u64 ns))" "bytes_written vm' = bytes_written vm + length ns * 8"
proof -
  obtain vm' where e: "emits vm p (concat (map w_u64 ns)) vm'"
    using assms by (rule emits_u64s)
  have "p \<noteq> [] \<Longrightarrow> ns \<noteq> []" using assms(1) by (auto simp: pack_u64s_def to_delta_def)
  with e have "exec_loop vm (p @ r) [] (bytes_written vm) (length ns * 8) =
      exec_loop vm' r (concat (map w_u64 ns)) (bytes_written vm) (length ns * 8)" for r
    by (cases "p = []") (auto simp: emits_def)
  also have "exec_loop vm' r (concat (map w_u64 ns)) (bytes_written vm) (length ns * 8) =
      Ok (vm', r, concat (map w_u64 ns))" for r
    using e by (simp add: emits_def exec_loop.simps [of vm'])
  finally show thesis using e that by (simp add: emits_def)
qed

lemma shift_merge: "push_bit 24 (drop_bit 24 n) OR ((n AND (push_bit 24 1 - 1)) AND (push_bit 24 1 - 1)) = (n :: u64)"
proof -
  have m: "push_bit 24 1 - 1 = (mask 24 :: u64)" by (simp add: mask_eq_exp_minus_1)
  show ?thesis unfolding m by (rule bit_word_eqI) (auto simp: bit_simps)
qed

lemma bytes_written_update: "bytes_written (vm\<lparr>bytes_written := n\<rparr>) = n"
  by simp

lemma unpack_instr_shifted:
  assumes "n < 16" "len = len12 n b"
    "exec_loop vm r [] (bytes_written vm) (len * 8) = Ok (vm1, r1, hb)"
    "unpack_u64s hb len = Ok (high, x)"
    "bytes_written vm1 = bytes_written vm + len * 8"
    "exec_loop (vm1\<lparr>bytes_written := bytes_written vm\<rparr>) r1 [] (bytes_written vm) (len * 8) = Ok (vm2, r2, lb)"
    "unpack_u64s lb len = Ok (low, y)"
    "bytes_written vm2 = bytes_written vm + len * 8"
  shows "unpack_instr vm (tag_byte TShiftedRun n # b # r) w c =
    (let (vm, w) = emit_all64 (map2 (\<lambda>h l. push_bit 24 h OR (l AND (push_bit 24 1 - 1))) high low)
        (vm2\<lparr>bytes_written := bytes_written vm\<rparr>) w in Ok (vm, r2, w))"
  using assms
  by (simp only: unpack_instr.simps [of vm "_ # r"] r_num_codec bindr.simps prod.case Let_def
      tag_byte_decode [OF assms(1)] option.case tag.case unpack_instr.simps [of vm "_ # _ # r"]
      diff_add_inverse add_diff_cancel_right' bytes_written_update)

lemma unpack_shifted:
  assumes "pack_shifted_u64s ns = Ok p" "length ns < 2 ^ 64"
  obtains vm' where "\<And>r w. unpack_instr vm (p @ r) w 1 = Ok (vm', r, w @ concat (map w_u64 ns))"
    "bytes_written vm' = bytes_written vm + 8 * length ns" "p \<noteq> []"
proof -
  let ?len = "word_of_nat (length ns) :: u64" and ?mask = "push_bit 24 1 - 1 :: u64"
  let ?high = "map (drop_bit 24) ns" and ?low = "map (\<lambda>n. n AND ?mask) ns"
  let ?n = "ucast (drop_bit 8 ?len) :: u8" and ?b = "ucast (?len AND 0xff) :: u8"
  have len: "unat ?len = length ns" using assms(2) by (simp add: unat_of_nat_eq)
  from assms(1) obtain h l where hl: "drop_bit 8 ?len < 16" "pack_u64s ?high = Ok h"
    "pack_u64s ?low = Ok l" "p = tag_byte TShiftedRun ?n # ?b # h @ l"
    by (auto simp: pack_shifted_u64s_def Let_def unshift_nrs_def seq_Ok pack_tag_eq small_ucast w_u8_def)
  from hl(1) have "unat ?len div 256 < 16"
    by (simp add: word_less_nat_alt drop_bit_eq_div unat_div_distrib)
  then have "?len < 4096" by (simp add: word_less_nat_alt)
  note l12 = len12_fields [OF this]
  obtain vm1 where vm1: "\<And>r. exec_loop vm (h @ r) [] (bytes_written vm) (length ns * 8) =
      Ok (vm1, r, concat (map w_u64 ?high))" "bytes_written vm1 = bytes_written vm + length ns * 8"
    using exec_u64s [OF hl(2), of vm] assms(2) by (metis length_map)
  let ?vm = "vm1\<lparr>bytes_written := bytes_written vm\<rparr>"
  obtain vm2 where vm2: "\<And>r. exec_loop ?vm (l @ r) [] (bytes_written ?vm) (length ns * 8) =
      Ok (vm2, r, concat (map w_u64 ?low))" "bytes_written vm2 = bytes_written ?vm + length ns * 8"
    using exec_u64s [OF hl(3), of ?vm] assms(2) by (metis length_map)
  have merge: "map2 (\<lambda>h l. push_bit 24 h OR (l AND ?mask)) ?high ?low = ns"
    by (intro nth_equalityI) (use shift_merge in simp_all)
  let ?vm' = "vm2\<lparr>bytes_written := bytes_written vm + 8 * length ns\<rparr>"
  have "unpack_instr vm (p @ r) w 1 = Ok (?vm', r, w @ concat (map w_u64 ns))" for r w
    unfolding hl(4) append_Cons append_assoc
    by (subst unpack_instr_shifted [OF l12(1) refl, of vm "h @ l @ r" ?b vm1 "l @ r"
          "concat (map w_u64 ?high)" ?high "[]" vm2 r "concat (map w_u64 ?low)" ?low "[]"])
      (use l12 vm1 vm2 len unpack_u64s_concat [of ?high "[]"] unpack_u64s_concat [of ?low "[]"] merge
        in \<open>simp_all add: emit_all64_eq\<close>)
  then show thesis using that hl(4) by simp
qed

lemma emits_shifted:
  assumes "pack_shifted_u64s ns = Ok p" "length ns < 2 ^ 64"
  obtains vm' where "emits vm p (concat (map w_u64 ns)) vm'"
  using unpack_shifted [OF assms, of vm] emits_instr [of vm p]
  by (metis length_concat_w_u64)

text \<open>A whole program, from a fresh machine.\<close>

lemma unpack_emits:
  assumes "emits vm_new p out vm'" "out \<noteq> []"
  shows "unpack (p @ r) (length out) = Ok (out, r)"
proof -
  have "exec_loop vm_new (p @ r) [] 0 (length out) = exec_loop vm' r out 0 (length out)"
    using assms by (auto simp: emits_def vm_new_def)
  also have "\<dots> = Ok (vm', r, out)"
    using assms(1) by (simp add: exec_loop.simps [of vm'] emits_def vm_new_def)
  finally show ?thesis
    using assms(1) by (simp add: unpack_def exec_def emits_def vm_new_def)
qed


section \<open>When packing succeeds\<close>

lemma pack_wide_ok: "\<exists>bs. pack_wide t n = Ok bs"
  by (rule pack_wide_read [of t n]) blast

lemma pack_count_ok: "unat c < 4096 \<Longrightarrow> \<exists>bs. pack_count c = Ok bs"
  using small_ucast [of c] len12_fields [of c]
  by (auto simp: pack_count_def Let_def pack_tag_eq word_less_nat_alt)

lemma pack_delta_ok:
  assumes "delta_count d < 4096"
  shows "\<exists>bs. pack_delta d = Ok bs"
proof (cases d)
  case (Base n)
  then show ?thesis using pack_wide_ok by simp
next
  case (Const c)
  with assms small_ucast [of c] len12_fields [of c] show ?thesis
    by (auto simp: Let_def pack_tag_eq word_less_nat_alt)
next
  case (Pos x c)
  with assms pack_count_ok [of c] pack_wide_ok [of TPosW x] small_ucast [of x] show ?thesis
    by (auto simp: pack_tag_eq)
next
  case (Neg x c)
  with assms pack_count_ok [of c] pack_wide_ok [of TNegW x] small_ucast [of x] show ?thesis
    by (auto simp: pack_tag_eq)
qed

lemma pack_deltas_ok: "\<forall>d \<in> set ds. delta_count d < 4096 \<Longrightarrow> \<exists>bs. pack_deltas ds = Ok bs"
proof (induction ds)
  case (Cons d ds)
  then show ?case using pack_delta_ok [of d] by auto
qed simp

lemma pack_u64s_ok: "length ns < 4096 \<Longrightarrow> \<exists>bs. pack_u64s ns = Ok bs"
  unfolding pack_u64s_def using to_delta_correct(2) [of ns]
  by (intro pack_deltas_ok) fastforce

lemma pack_shifted_u64s_ok:
  assumes "length ns < 4096"
  shows "\<exists>bs. pack_shifted_u64s ns = Ok bs"
proof -
  have "(word_of_nat (length ns) :: u64) < 4096"
    using assms by (simp add: word_less_nat_alt unat_of_nat)
  from len12_fields [OF this] show ?thesis
    using pack_u64s_ok [of "map (drop_bit 24) ns"] pack_u64s_ok [of "map (\<lambda>n. n AND (push_bit 24 1 - 1)) ns"]
      assms by (auto simp: pack_shifted_u64s_def Let_def unshift_nrs_def pack_tag_eq)
qed

lemma pack_literal_ok: "length bs < 2 ^ 63 \<Longrightarrow> \<exists>p. pack_literal bs = Ok p"
  by (rule unpack_literal) auto

section \<open>Properties\<close>

text \<open>C23: Packing a slice of \<open>u64\<close> values with fewer than 4096 entries succeeds (no assertion of
  the encoder fails), and unpacking as many bytes as the values take gives their little endian
  bytes; what follows the program in the input is left there. An empty slice packs to nothing.\<close>

theorem pack_u64s_roundtrip:
  assumes "ns \<noteq> []" "length ns < 4096"
  shows "\<exists>p. pack_u64s ns = Ok p \<and>
    (\<forall>r. unpack (p @ r) (8 * length ns) = Ok (concat (map w_u64 ns), r))"
proof -
  obtain p where p: "pack_u64s ns = Ok p" using pack_u64s_ok [OF assms(2)] by blast
  obtain vm' where "emits vm_new p (concat (map w_u64 ns)) vm'"
    using emits_u64s [OF p] assms(2) by auto
  with p assms(1) show ?thesis
    using unpack_emits [of p "concat (map w_u64 ns)" vm'] by (auto simp del: concat_eq_Nil_conv)
qed

theorem pack_u64s_roundtrip_witness:
  "\<exists>p. pack_u64s [1, 5, 9, 10] = Ok p \<and> unpack (p @ [0]) 32 = Ok (concat (map w_u64 [1, 5, 9, 10]), [0])"
  using pack_u64s_roundtrip [of "[1, 5, 9, 10]"] by auto

text \<open>The same for the split encoding of mapping values, whose high 40 and low 24 bits are
  packed as two runs and merged again by one instruction.\<close>

theorem pack_shifted_u64s_roundtrip:
  assumes "ns \<noteq> []" "length ns < 4096"
  shows "\<exists>p. pack_shifted_u64s ns = Ok p \<and>
    (\<forall>r. unpack (p @ r) (8 * length ns) = Ok (concat (map w_u64 ns), r))"
proof -
  obtain p where p: "pack_shifted_u64s ns = Ok p" using pack_shifted_u64s_ok [OF assms(2)] by blast
  obtain vm' where "emits vm_new p (concat (map w_u64 ns)) vm'"
    using emits_shifted [OF p] assms(2) by auto
  with p assms(1) show ?thesis
    using unpack_emits [of p "concat (map w_u64 ns)" vm'] by (auto simp del: concat_eq_Nil_conv)
qed

theorem pack_shifted_u64s_roundtrip_witness:
  "\<exists>p. pack_shifted_u64s [16777217, 42] = Ok p \<and> unpack p 16 = Ok (concat (map w_u64 [16777217, 42]), [])"
  using pack_shifted_u64s_roundtrip [of "[16777217, 42]"] by (auto dest: spec [of _ "[]"])

text \<open>A literal comes back unchanged whatever its length, up to the largest buffer the
  allocator accepts.\<close>

theorem pack_literal_roundtrip:
  assumes "bs \<noteq> []" "length bs < 2 ^ 63"
  shows "\<exists>p. pack_literal bs = Ok p \<and> (\<forall>r. unpack (p @ r) (length bs) = Ok (bs, r))"
proof -
  obtain p where p: "pack_literal bs = Ok p" using pack_literal_ok [OF assms(2)] by blast
  from emits_literal(1) [OF p assms(2), of vm_new] unpack_emits [OF _ assms(1)] p
  show ?thesis by blast
qed

theorem pack_literal_roundtrip_witness:
  "\<exists>p. pack_literal [102, 111, 111] = Ok p \<and> unpack (p @ [1]) 3 = Ok ([102, 111, 111], [1])"
  using pack_literal_roundtrip [of "[102, 111, 111]"] by (auto simp: numeral_3_eq_3)

end
