(* ===== verification/Checksum.thy ===== *)
theory Checksum
  imports Bytes
begin

text \<open>
  \<open>src/checksum.rs\<close>: every metadata block starts with a checksum that is salted with the
  block's type. The CRC itself is the \<open>crc32c\<close> crate, a parameter of the model: nothing here
  depends on which function of the bytes it is.
\<close>

definition BLOCK_SIZE :: nat where "BLOCK_SIZE = 4096"

definition THIN_SUPERBLOCK_CSUM_XOR :: u32 where "THIN_SUPERBLOCK_CSUM_XOR = 160774"
definition CACHE_SUPERBLOCK_CSUM_XOR :: u32 where "CACHE_SUPERBLOCK_CSUM_XOR = 9031977"
definition ERA_SUPERBLOCK_CSUM_XOR :: u32 where "ERA_SUPERBLOCK_CSUM_XOR = 146538381"
definition BITMAP_CSUM_XOR :: u32 where "BITMAP_CSUM_XOR = 240779"
definition INDEX_CSUM_XOR :: u32 where "INDEX_CSUM_XOR = 160478"
definition BTREE_CSUM_XOR :: u32 where "BTREE_CSUM_XOR = 121107"
definition ARRAY_CSUM_XOR :: u32 where "ARRAY_CSUM_XOR = 595846735"

lemmas csum_xor_defs = THIN_SUPERBLOCK_CSUM_XOR_def CACHE_SUPERBLOCK_CSUM_XOR_def
  ERA_SUPERBLOCK_CSUM_XOR_def BITMAP_CSUM_XOR_def INDEX_CSUM_XOR_def BTREE_CSUM_XOR_def
  ARRAY_CSUM_XOR_def

datatype BT = BT_THIN_SUPERBLOCK | BT_CACHE_SUPERBLOCK | BT_ERA_SUPERBLOCK | BT_NODE
  | BT_INDEX | BT_BITMAP | BT_ARRAY | BT_UNKNOWN

text \<open>\<open>&buf[4..]\<close> of a shorter buffer would panic; both callers have checked the size.\<close>

definition checksum :: "(bytes \<Rightarrow> u32) \<Rightarrow> bytes \<Rightarrow> u32" where
  "checksum crc32c buf = crc32c (drop 4 buf) XOR 0xffffffff"

definition metadata_block_type :: "(bytes \<Rightarrow> u32) \<Rightarrow> bytes \<Rightarrow> BT" where
  "metadata_block_type crc32c buf =
    (if length buf \<noteq> BLOCK_SIZE then BT_UNKNOWN
     else case le_u32 buf of None \<Rightarrow> BT_UNKNOWN
       | Some (_, sum_on_disk) \<Rightarrow>
          (let csum = checksum crc32c buf; btype = csum XOR sum_on_disk in
           if btype = THIN_SUPERBLOCK_CSUM_XOR then BT_THIN_SUPERBLOCK
           else if btype = CACHE_SUPERBLOCK_CSUM_XOR then BT_CACHE_SUPERBLOCK
           else if btype = ERA_SUPERBLOCK_CSUM_XOR then BT_ERA_SUPERBLOCK
           else if btype = BTREE_CSUM_XOR then BT_NODE
           else if btype = BITMAP_CSUM_XOR then BT_BITMAP
           else if btype = INDEX_CSUM_XOR then BT_INDEX
           else if btype = ARRAY_CSUM_XOR then BT_ARRAY
           else BT_UNKNOWN))"

datatype csum_error = WrongSize | InvalidBlockType

fun salt :: "BT \<Rightarrow> u32 option" where
  "salt BT_THIN_SUPERBLOCK = Some THIN_SUPERBLOCK_CSUM_XOR"
| "salt BT_CACHE_SUPERBLOCK = Some CACHE_SUPERBLOCK_CSUM_XOR"
| "salt BT_ERA_SUPERBLOCK = Some ERA_SUPERBLOCK_CSUM_XOR"
| "salt BT_NODE = Some BTREE_CSUM_XOR"
| "salt BT_BITMAP = Some BITMAP_CSUM_XOR"
| "salt BT_INDEX = Some INDEX_CSUM_XOR"
| "salt BT_ARRAY = Some ARRAY_CSUM_XOR"
| "salt BT_UNKNOWN = None"

text \<open>Overwrites the first four bytes of the buffer; the rest stays.\<close>

definition write_checksum :: "(bytes \<Rightarrow> u32) \<Rightarrow> bytes \<Rightarrow> BT \<Rightarrow> (csum_error, bytes) result" where
  "write_checksum crc32c buf kind =
    (if length buf \<noteq> BLOCK_SIZE then Err WrongSize
     else case salt kind of None \<Rightarrow> Err InvalidBlockType
       | Some s \<Rightarrow> Ok (w_u32 (checksum crc32c buf XOR s) @ drop 4 buf))"

lemma xor_cancel: "a XOR (a XOR b) = (b :: u32)"
  by (simp flip: xor.assoc)

lemma write_checksum_Ok:
  assumes "write_checksum crc32c buf kind = Ok buf'"
  obtains s where "salt kind = Some s" "length buf = BLOCK_SIZE"
    "buf' = w_u32 (checksum crc32c buf XOR s) @ drop 4 buf"
  using assms by (auto simp: write_checksum_def split: if_splits option.splits)

lemma write_checksum_length:
  "write_checksum crc32c buf kind = Ok buf' \<Longrightarrow> length buf' = BLOCK_SIZE"
  by (erule write_checksum_Ok) (simp add: BLOCK_SIZE_def)

lemma metadata_block_type_written:
  assumes "length buf = BLOCK_SIZE" "salt kind = Some s"
  shows "metadata_block_type crc32c (w_u32 (checksum crc32c buf XOR s) @ drop 4 buf) = kind"
proof -
  have "checksum crc32c (w_u32 (checksum crc32c buf XOR s) @ drop 4 buf) = checksum crc32c buf"
    by (simp add: checksum_def)
  with assms show ?thesis
    by (cases kind) (auto simp: metadata_block_type_def BLOCK_SIZE_def xor_cancel csum_xor_defs Let_def)
qed

lemma write_checksum_type:
  assumes "write_checksum crc32c buf kind = Ok buf'"
  shows "metadata_block_type crc32c buf' = kind" "length buf' = BLOCK_SIZE" "drop 4 buf' = drop 4 buf"
  using assms write_checksum_length [OF assms]
  by (elim write_checksum_Ok, simp add: metadata_block_type_written)+

section \<open>Properties\<close>

text \<open>C25: A block written with a checksum of some kind is recognised as exactly that kind by
  \<open>metadata_block_type\<close>, keeps its size, and changed in no byte after the first four. This
  holds for any function in the place of the CRC.\<close>

theorem checksum_identifies_block:
  assumes "write_checksum crc32c buf kind = Ok buf'"
  shows "metadata_block_type crc32c buf' = kind \<and> length buf' = BLOCK_SIZE \<and>
    drop 4 buf' = drop 4 buf"
  using write_checksum_type [OF assms] by simp

theorem checksum_identifies_block_witness:
  "metadata_block_type (\<lambda>_. 7) (w_u32 (checksum (\<lambda>_. 7) (replicate 4096 0) XOR BTREE_CSUM_XOR)
     @ drop 4 (replicate 4096 0)) = BT_NODE"
  using checksum_identifies_block [of "\<lambda>_. 7" "replicate 4096 0" BT_NODE
      "w_u32 (checksum (\<lambda>_. 7) (replicate 4096 0) XOR BTREE_CSUM_XOR) @ drop 4 (replicate 4096 0)"]
  by (simp add: write_checksum_def BLOCK_SIZE_def del: drop_replicate)

end
