(* ===== verification/Node_Encode.thy ===== *)
theory Node_Encode
  imports Pack_VM Checksum
begin

text \<open>
  \<open>src/pack/node_encode.rs\<close>: how each kind of metadata block is packed. A btree node is split
  into its header, its keys, its values and whatever follows; the other kinds are stored as
  they are. The output is an in-memory buffer, so \<open>WriteError\<close> does not arise.
\<close>

datatype pack_error = ParseError | WriteError

definition nom_to_pr :: "'a option \<Rightarrow> (pack_error, 'a) result" where
  "nom_to_pr r = (case r of None \<Rightarrow> Err ParseError | Some x \<Rightarrow> Ok x)"

fun io_to_pr :: "(io_error, 'a) result \<Rightarrow> (pack_error, 'a) result" where
  "io_to_pr (Ok x) = Ok x"
| "io_to_pr (Err e) = Err WriteError"
| "io_to_pr Panic = Panic"

definition run64 :: "bytes \<Rightarrow> nat \<Rightarrow> (bytes \<times> u64 list) option" where
  "run64 i count = p_count le_u64 count i"

record node_summary =
  ns_is_leaf :: bool
  ns_max_entries :: nat
  ns_value_size :: nat

definition summarise_node :: "node_summary parser" where
  "summarise_node data = do {
     (i, csum) \<leftarrow> le_u32 data;
     (i, flags) \<leftarrow> le_u32 i;
     (i, blocknr) \<leftarrow> le_u64 i;
     (i, nr_entries) \<leftarrow> le_u32 i;
     (i, max_entries) \<leftarrow> le_u32 i;
     (i, value_size) \<leftarrow> le_u32 i;
     (i, padding) \<leftarrow> le_u32 i;
     Some (i, \<lparr>ns_is_leaf = (flags = 2), ns_max_entries = unat max_entries,
               ns_value_size = unat value_size\<rparr>)
   }"

definition pack_btree_node :: "bytes \<Rightarrow> (pack_error, bytes) result" where
  "pack_btree_node data =
    bindr (nom_to_pr (summarise_node data)) (\<lambda>(_, info).
    bindr (nom_to_pr (p_take 32 data)) (\<lambda>(i, hdr).
    bindr (nom_to_pr (run64 i (ns_max_entries info))) (\<lambda>(i, keys).
    if ns_is_leaf info then
      if ns_value_size info = 8 then
        bindr (nom_to_pr (run64 i (ns_max_entries info))) (\<lambda>(tail, values).
        io_to_pr (seq (pack_literal hdr) (seq (pack_u64s keys) (seq (pack_shifted_u64s values)
          (if tail \<noteq> [] then pack_literal tail else Ok [])))))
      else
        (let tail = i in
         io_to_pr (seq (pack_literal hdr) (seq (pack_u64s keys) (pack_literal tail))))
    else
      bindr (nom_to_pr (run64 i (ns_max_entries info))) (\<lambda>(tail, values).
      io_to_pr (seq (pack_literal hdr) (seq (pack_u64s keys) (seq (pack_u64s values)
        (if tail \<noteq> [] then pack_literal tail else Ok []))))))))"

definition pack_superblock_block :: "bytes \<Rightarrow> (pack_error, bytes) result" where
  "pack_superblock_block bs = io_to_pr (pack_literal bs)"
definition pack_bitmap_block :: "bytes \<Rightarrow> (pack_error, bytes) result" where
  "pack_bitmap_block bs = io_to_pr (pack_literal bs)"
definition pack_index_block :: "bytes \<Rightarrow> (pack_error, bytes) result" where
  "pack_index_block bs = io_to_pr (pack_literal bs)"
definition pack_array_block :: "bytes \<Rightarrow> (pack_error, bytes) result" where
  "pack_array_block bs = io_to_pr (pack_literal bs)"

lemma io_to_pr_Ok [simp]: "io_to_pr r = Ok x \<longleftrightarrow> r = Ok x"
  by (cases r) auto

lemma nom_to_pr_Ok [simp]: "nom_to_pr r = Ok x \<longleftrightarrow> r = Some x"
  by (auto simp: nom_to_pr_def split: option.splits)

lemma run64_inv: "run64 i n = Some (r, xs) \<Longrightarrow> i = concat (map w_u64 xs) @ r \<and> length xs = n"
  unfolding run64_def by (rule p_count_u64_inv)

text \<open>The three shapes of a packed node, each with the data it was made from.\<close>

lemma pack_btree_node_cases:
  assumes "pack_btree_node data = Ok p"
  obtains
    (leaf64) hdr keys vals tail h k v t where "pack_literal hdr = Ok h" "pack_u64s keys = Ok k"
      "pack_shifted_u64s vals = Ok v" "(if tail \<noteq> [] then pack_literal tail else Ok []) = Ok t"
      "p = h @ k @ v @ t" "length hdr = 32" "length keys = length vals"
      "data = hdr @ concat (map w_u64 keys) @ concat (map w_u64 vals) @ tail"
  | (leaf) hdr keys tail h k t where "pack_literal hdr = Ok h" "pack_u64s keys = Ok k"
      "pack_literal tail = Ok t" "p = h @ k @ t" "length hdr = 32"
      "data = hdr @ concat (map w_u64 keys) @ tail"
  | (internal) hdr keys vals tail h k v t where "pack_literal hdr = Ok h" "pack_u64s keys = Ok k"
      "pack_u64s vals = Ok v" "(if tail \<noteq> [] then pack_literal tail else Ok []) = Ok t"
      "p = h @ k @ v @ t" "length hdr = 32" "length keys = length vals"
      "data = hdr @ concat (map w_u64 keys) @ concat (map w_u64 vals) @ tail"
proof -
  from assms obtain i info i1 hdr i2 keys where s: "summarise_node data = Some (i, info)"
    "p_take 32 data = Some (i1, hdr)" "run64 i1 (ns_max_entries info) = Some (i2, keys)"
    unfolding pack_btree_node_def by auto
  have d: "data = hdr @ concat (map w_u64 keys) @ i2" "length hdr = 32"
    "length keys = ns_max_entries info"
    using s(2) run64_inv [OF s(3)] by (auto simp: p_take_Some)
  note body = assms [unfolded pack_btree_node_def s nom_to_pr_def option.case bindr.simps prod.case]
  show thesis
  proof (cases "ns_is_leaf info \<and> ns_value_size info \<noteq> 8")
    case True
    with body leaf [of hdr _ keys _ i2] d show thesis
      by (auto simp: seq_Ok Let_def)
  next
    case False
    then obtain tail vals where v: "run64 i2 (ns_max_entries info) = Some (tail, vals)"
      using body by (auto simp: nom_to_pr_def split: if_splits option.splits)
    note v' = run64_inv [OF v]
    show thesis
    proof (cases "ns_is_leaf info")
      case True
      with False body v obtain h k vs t where "pack_literal hdr = Ok h" "pack_u64s keys = Ok k"
        "pack_shifted_u64s vals = Ok vs" "(if tail \<noteq> [] then pack_literal tail else Ok []) = Ok t"
        "p = h @ k @ vs @ t"
        by (auto simp: seq_Ok simp del: if_split_asm)
      with leaf64 [of hdr h keys k vals vs tail t] d v' show thesis by simp
    next
      case False
      with body v obtain h k vs t where "pack_literal hdr = Ok h" "pack_u64s keys = Ok k"
        "pack_u64s vals = Ok vs" "(if tail \<noteq> [] then pack_literal tail else Ok []) = Ok t"
        "p = h @ k @ vs @ t"
        by (auto simp: seq_Ok simp del: if_split_asm)
      with internal [of hdr h keys k vals vs tail t] d v' show thesis by simp
    qed
  qed
qed

text \<open>
  The prefix every node shares, and the end of a node: a packed tail, or nothing. A value
  block that emits nothing may precede a tail, because the tail then has bytes left to emit.
\<close>

lemma emits_tail:
  assumes "(if tail \<noteq> [] then pack_literal tail else Ok []) = Ok t" "length tail < 2 ^ 63"
  shows "\<exists>vm'. emits vm t tail vm'" "t = [] \<or> tail \<noteq> []"
proof -
  show "\<exists>vm'. emits vm t tail vm'"
    using assms emits_literal(1) [of tail t vm] emits_Nil [of vm]
    by (cases "tail = []") (auto simp del: emits_Nil)
  show "t = [] \<or> tail \<noteq> []" using assms(1) by auto
qed

lemma emits_node:
  assumes "pack_literal hdr = Ok h" "length hdr = 32" "pack_u64s keys = Ok k"
    "length keys < 2 ^ 64" "\<And>vm. \<exists>vm'. emits vm v out vm'" "v = [] \<or> out \<noteq> []"
  shows "\<exists>vm'. emits vm_new (h @ k @ v) (hdr @ concat (map w_u64 keys) @ out) vm'"
proof -
  let ?vm = "vm_new\<lparr>bytes_written := bytes_written vm_new + length hdr\<rparr>"
  have 1: "emits vm_new h hdr ?vm" using emits_literal(1) [OF assms(1)] assms(2) by simp
  obtain vm1 where 2: "emits ?vm k (concat (map w_u64 keys)) vm1"
    using emits_u64s [OF assms(3,4)] by blast
  obtain vm2 where 3: "emits vm1 v out vm2" using assms(5) by blast
  have "k = [] \<or> concat (map w_u64 keys) \<noteq> []"
    using assms(3) by (auto simp: pack_u64s_def to_delta_def simp del: concat_eq_Nil_conv)
  with emits_append [OF emits_append [OF 1 2] 3] assms(6) show ?thesis by auto
qed


text \<open>Unpacking a packed block runs its program and stops with the block.\<close>

lemma unpack_node_program:
  assumes "pack_literal hdr = Ok h" "length hdr = 32" "pack_u64s keys = Ok k"
    "\<And>vm. \<exists>vm'. emits vm v out vm'" "v = [] \<or> out \<noteq> []"
    "data = hdr @ concat (map w_u64 keys) @ out" "length data = BLOCK_SIZE"
  shows "unpack ((h @ k @ v) @ r) BLOCK_SIZE = Ok (data, r)"
proof -
  have "length keys < 2 ^ 64" using assms(6,7) by (simp add: BLOCK_SIZE_def)
  with emits_node [OF assms(1-3) _ assms(4,5)] assms(6)
  obtain vm' where "emits vm_new (h @ k @ v) data vm'" by auto
  moreover have "data \<noteq> []" using assms(7) by (auto simp: BLOCK_SIZE_def)
  ultimately show ?thesis using unpack_emits [of "h @ k @ v" data vm' r] assms(7) by simp
qed

lemma unpack_pack_btree_node:
  assumes "pack_btree_node data = Ok p" "length data = BLOCK_SIZE"
  shows "\<exists>r. unpack p BLOCK_SIZE = Ok (data, r)"
  using assms(1)
proof (cases rule: pack_btree_node_cases)
  case (leaf hdr keys tail h k t)
  have len: "length tail < 2 ^ 63" using leaf(6) assms(2) by (simp add: BLOCK_SIZE_def)
  show ?thesis
  proof (cases "tail = []")
    case True
    with leaf assms(2) have "unpack ((h @ k @ []) @ t) BLOCK_SIZE = Ok (data, t)"
      by (intro unpack_node_program) (auto intro: exI emits_Nil)
    with leaf show ?thesis by auto
  next
    case False
    with leaf assms(2) emits_literal(1) [OF leaf(3) len]
    have "unpack ((h @ k @ t) @ []) BLOCK_SIZE = Ok (data, [])"
      by (intro unpack_node_program) auto
    with leaf show ?thesis by auto
  qed
next
  case (leaf64 hdr keys vals tail h k v t)
  have len: "length tail < 2 ^ 63" "length vals < 2 ^ 64"
    using leaf64(8) assms(2) by (simp_all add: BLOCK_SIZE_def)
  have e: "\<exists>vm'. emits vm (v @ t) (concat (map w_u64 vals) @ tail) vm'" for vm
  proof -
    obtain vm1 where "emits vm v (concat (map w_u64 vals)) vm1"
      by (rule emits_shifted [OF leaf64(3) len(2)])
    with emits_tail(1) [OF leaf64(4) len(1), of vm1] emits_tail(2) [OF leaf64(4) len(1)] emits_append show ?thesis by blast
  qed
  have "concat (map w_u64 vals) @ tail \<noteq> []"
    using leaf64(6-8) assms(2) by (auto simp: BLOCK_SIZE_def simp del: concat_eq_Nil_conv)
  with unpack_node_program [OF leaf64(1,6,2) e _ leaf64(8) assms(2), where r = "[]"] leaf64(5)
  show ?thesis by auto
next
  case (internal hdr keys vals tail h k v t)
  have len: "length tail < 2 ^ 63" "length vals < 2 ^ 64"
    using internal(8) assms(2) by (simp_all add: BLOCK_SIZE_def)
  have e: "\<exists>vm'. emits vm (v @ t) (concat (map w_u64 vals) @ tail) vm'" for vm
  proof -
    obtain vm1 where "emits vm v (concat (map w_u64 vals)) vm1"
      by (rule emits_u64s [OF internal(3) len(2)])
    with emits_tail(1) [OF internal(4) len(1), of vm1] emits_tail(2) [OF internal(4) len(1)] emits_append show ?thesis by blast
  qed
  have "concat (map w_u64 vals) @ tail \<noteq> []"
    using internal(6-8) assms(2) by (auto simp: BLOCK_SIZE_def simp del: concat_eq_Nil_conv)
  with unpack_node_program [OF internal(1,6,2) e _ internal(8) assms(2), where r = "[]"] internal(5)
  show ?thesis by auto
qed

lemma pack_btree_node_no_panic:
  assumes "length data = BLOCK_SIZE"
  shows "pack_btree_node data = Err ParseError \<or> (\<exists>p. pack_btree_node data = Ok p)"
proof (cases "summarise_node data")
  case None
  then show ?thesis by (simp add: pack_btree_node_def nom_to_pr_def)
next
  case (Some s)
  then obtain i info where s: "summarise_node data = Some (i, info)" by (cases s) auto
  have t: "p_take 32 data = Some (drop 32 data, take 32 data)"
    using assms by (simp add: p_take_def BLOCK_SIZE_def)
  have lit: "\<exists>p. pack_literal bs = Ok p" if "length bs \<le> BLOCK_SIZE" for bs
    using that by (intro pack_literal_ok) (simp add: BLOCK_SIZE_def)
  obtain h where h: "pack_literal (take 32 data) = Ok h" using lit [of "take 32 data"] assms by auto
  show ?thesis
  proof (cases "run64 (drop 32 data) (ns_max_entries info)")
    case None
    with s t show ?thesis by (simp add: pack_btree_node_def nom_to_pr_def)
  next
    case (Some k)
    then obtain i2 keys where k: "run64 (drop 32 data) (ns_max_entries info) = Some (i2, keys)"
      by (cases k) auto
    note kd = run64_inv [OF k]
    then have "length (drop 32 data) = length (concat (map w_u64 keys) @ i2)" by metis
    then have lens: "8 * length keys + length i2 = BLOCK_SIZE - 32"
      using assms by simp
    have "length keys < 4096" using lens by (simp add: BLOCK_SIZE_def)
    then obtain kp where kp: "pack_u64s keys = Ok kp" using pack_u64s_ok by blast
    have "length i2 \<le> BLOCK_SIZE" using lens by linarith
    then obtain ip where ip: "pack_literal i2 = Ok ip" using lit by blast
    show ?thesis
    proof (cases "run64 i2 (ns_max_entries info)")
      case None
      with s t k h kp ip show ?thesis by (simp add: pack_btree_node_def nom_to_pr_def Let_def)
    next
      case (Some v)
      then obtain tail vals where v: "run64 i2 (ns_max_entries info) = Some (tail, vals)"
        by (cases v) auto
      note vd = run64_inv [OF v]
      then have "8 * length vals + length tail = length i2"
        by simp
      with lens have "length vals < 4096" "length tail \<le> BLOCK_SIZE" by (simp_all add: BLOCK_SIZE_def)
      then obtain vp sp tp where "pack_u64s vals = Ok vp" "pack_shifted_u64s vals = Ok sp"
        "pack_literal tail = Ok tp"
        using pack_u64s_ok pack_shifted_u64s_ok lit by metis
      with s t k h kp ip v show ?thesis
        by (simp add: pack_btree_node_def nom_to_pr_def Let_def)
    qed
  qed
qed

section \<open>Properties\<close>

text \<open>C9: Packing a metadata block as a btree node either reports a parse error, when the entries
  its header announces do not fit in the block, or produces a program from which the unpacker
  rebuilds exactly the block, header, keys, values and unused tail alike. It never panics.\<close>

theorem pack_btree_node_roundtrip:
  assumes "length data = BLOCK_SIZE"
  shows "pack_btree_node data = Err ParseError \<or>
    (\<exists>p r. pack_btree_node data = Ok p \<and> unpack p BLOCK_SIZE = Ok (data, r))"
  using pack_btree_node_no_panic [OF assms] unpack_pack_btree_node [OF _ assms] by blast

theorem pack_btree_node_roundtrip_witness:
  "pack_btree_node (replicate 4096 0) = Err ParseError \<or>
    (\<exists>p r. pack_btree_node (replicate 4096 0) = Ok p \<and> unpack p BLOCK_SIZE = Ok (replicate 4096 0, r))"
  using pack_btree_node_roundtrip [of "replicate 4096 0"] by (simp add: BLOCK_SIZE_def)

end
