(* ===== verification/Metadata_Codecs.thy ===== *)
theory Metadata_Codecs
  imports Checksum
begin

text \<open>
  The fixed size records of the metadata and their encodings: \<open>IndexEntry\<close>, \<open>Bitmap\<close> and
  \<open>SMRoot\<close> (\<open>src/pdata/space_map/common.rs\<close>), the index block of the metadata space map
  (\<open>src/pdata/space_map/metadata.rs\<close>), \<open>BlockTime\<close> and \<open>DeviceDetail\<close> of the thin metadata,
  \<open>Mapping\<close> and \<open>Hint\<close> of the cache metadata and \<open>Writeset\<close> of the era metadata. Each record is a
  value type of the btrees or arrays: its codec interprets the interface of \<open>Pack\<close> and \<open>Unpack\<close>.
\<close>

section \<open>IndexEntry\<close>

record index_entry =
  ie_blocknr :: u64
  ie_nr_free :: u32
  ie_none_free_before :: u32

definition index_entry_unpack :: "index_entry parser" where
  "index_entry_unpack i = do {
     (i, blocknr) \<leftarrow> le_u64 i;
     (i, nr_free) \<leftarrow> le_u32 i;
     (i, none_free_before) \<leftarrow> le_u32 i;
     Some (i, \<lparr>ie_blocknr = blocknr, ie_nr_free = nr_free, ie_none_free_before = none_free_before\<rparr>) }"

definition index_entry_pack :: "index_entry \<Rightarrow> bytes" where
  "index_entry_pack e = w_u64 (ie_blocknr e) @ w_u32 (ie_nr_free e) @ w_u32 (ie_none_free_before e)"

definition index_entry_codec :: "index_entry codec" where
  "index_entry_codec = \<lparr>disk_size = 16, pack_v = index_entry_pack, unpack_v = index_entry_unpack\<rparr>"

interpretation index_entryc: value_codec index_entry_codec "\<lambda>_. True"
  by unfold_locales (simp_all add: index_entry_codec_def index_entry_pack_def index_entry_unpack_def)

section \<open>SMRoot\<close>

record sm_root =
  sr_nr_blocks :: u64
  sr_nr_allocated :: u64
  sr_bitmap_root :: u64
  sr_ref_count_root :: u64

definition sm_root_unpack :: "sm_root parser" where
  "sm_root_unpack i = do {
     (i, nr_blocks) \<leftarrow> le_u64 i;
     (i, nr_allocated) \<leftarrow> le_u64 i;
     (i, bitmap_root) \<leftarrow> le_u64 i;
     (i, ref_count_root) \<leftarrow> le_u64 i;
     Some (i, \<lparr>sr_nr_blocks = nr_blocks, sr_nr_allocated = nr_allocated,
               sr_bitmap_root = bitmap_root, sr_ref_count_root = ref_count_root\<rparr>) }"

definition sm_root_pack :: "sm_root \<Rightarrow> bytes" where
  "sm_root_pack r = w_u64 (sr_nr_blocks r) @ w_u64 (sr_nr_allocated r) @ w_u64 (sr_bitmap_root r) @
     w_u64 (sr_ref_count_root r)"

definition sm_root_codec :: "sm_root codec" where
  "sm_root_codec = \<lparr>disk_size = 32, pack_v = sm_root_pack, unpack_v = sm_root_unpack\<rparr>"

interpretation sm_rootc: value_codec sm_root_codec "\<lambda>_. True"
  by unfold_locales (simp_all add: sm_root_codec_def sm_root_pack_def sm_root_unpack_def)

text \<open>
  Writing through a \<open>Cursor\<close> over a buffer of fixed size: the bytes replace the start of the
  buffer; what does not fit is an error.
\<close>

datatype write_error = WriteZero | WInvalidData

definition cursor_write :: "bytes \<Rightarrow> bytes \<Rightarrow> (write_error, bytes) result" where
  "cursor_write buf bs =
    (if length bs \<le> length buf then Ok (bs @ drop (length bs) buf) else Err WriteZero)"

definition pack_root :: "sm_root \<Rightarrow> nat \<Rightarrow> (write_error, bytes) result" where
  "pack_root root n = cursor_write (replicate n 0) (sm_root_pack root)"

lemma cursor_write_length: "cursor_write buf bs = Ok d \<Longrightarrow> length d = length buf"
  by (auto simp: cursor_write_def split: if_splits)

section \<open>BlockTime\<close>

record block_time =
  bt_block :: u64
  bt_time :: u32

definition block_time_unpack :: "block_time parser" where
  "block_time_unpack i = do {
     (i, n) \<leftarrow> le_u64 i;
     let block = drop_bit 24 n; time = n AND (push_bit 24 1 - 1) in
     Some (i, \<lparr>bt_block = block, bt_time = ucast time\<rparr>) }"

definition block_time_pack :: "block_time \<Rightarrow> bytes" where
  "block_time_pack bt = w_u64 (push_bit 24 (bt_block bt) OR ucast (bt_time bt))"

definition block_time_codec :: "block_time codec" where
  "block_time_codec = \<lparr>disk_size = 8, pack_v = block_time_pack, unpack_v = block_time_unpack\<rparr>"

text \<open>Forty bits of block and 24 bits of time fit; nothing checks it.\<close>

definition block_time_valid :: "block_time \<Rightarrow> bool" where
  "block_time_valid bt \<longleftrightarrow> unat (bt_block bt) < 2 ^ 40 \<and> unat (bt_time bt) < 2 ^ 24"

text \<open>Two fields in one word: the high one shifted, the low one below it.\<close>

lemma two_fields:
  fixes hi lo :: u64
  assumes "unat hi < 2 ^ (64 - k)" "unat lo < 2 ^ k" "k < 64"
  shows "drop_bit k (push_bit k hi OR lo) = hi" "(push_bit k hi OR lo) AND (push_bit k 1 - 1) = lo"
proof -
  have hi: "\<not> bit hi n" if "64 - k \<le> n" for n using small_no_bit [OF assms(1) that] .
  have lo: "\<not> bit lo n" if "k \<le> n" for n using small_no_bit [OF assms(2) that] .
  show "drop_bit k (push_bit k hi OR lo) = hi"
  proof (rule bit_eqI)
    fix n
    show "bit (drop_bit k (push_bit k hi OR lo)) n = bit hi n"
      using lo [of "k + n"] hi [of n] by (cases "n < 64 - k") (auto simp: bit_simps less_diff_conv add.commute)
  qed
  have m: "(push_bit k 1 - 1 :: u64) = mask k" by (simp add: mask_eq_decr_exp)
  show "(push_bit k hi OR lo) AND (push_bit k 1 - 1) = lo"
    unfolding m
  proof (rule bit_eqI)
    fix n
    show "bit ((push_bit k hi OR lo) AND mask k) n = bit lo n"
      using lo [of n] assms(3) by (cases "n < k") (simp_all add: bit_simps)
  qed
qed

lemma two_fields_join:
  fixes n :: u64
  assumes "k < 64"
  shows "push_bit k (drop_bit k n) OR (n AND (push_bit k 1 - 1)) = n"
    "unat (drop_bit k n) < 2 ^ (64 - k)" "unat (n AND (push_bit k 1 - 1)) < 2 ^ k"
proof -
  have m: "(push_bit k 1 - 1 :: u64) = mask k" by (simp add: mask_eq_decr_exp)
  show "push_bit k (drop_bit k n) OR (n AND (push_bit k 1 - 1)) = n"
    unfolding m
  proof (rule bit_word_eqI)
    fix i assume "i < LENGTH(64)"
    then show "bit (push_bit k (drop_bit k n) OR (n AND mask k)) i = bit n i"
      using assms by (cases "i < k") (simp_all add: bit_simps)
  qed
  have "n AND mask k = take_bit k n" by (simp add: take_bit_eq_mask)
  then show "unat (n AND (push_bit k 1 - 1)) < 2 ^ k" unfolding m by (simp only: unat_take_mod) simp
  have "unat n < 2 ^ (64 - k) * 2 ^ k" using unat_lt2p [of n] assms by (simp flip: power_add)
  then show "unat (drop_bit k n) < 2 ^ (64 - k)" by (simp only: unat_drop_div less_mult_imp_div_less)
qed

interpretation block_timec: value_codec block_time_codec block_time_valid
proof unfold_locales
  fix v r assume v: "block_time_valid v"
  have "unat (ucast (bt_time v) :: u64) = unat (bt_time v)"
    using v by (intro unat_ucast_small) (simp add: block_time_valid_def)
  with v two_fields [of "bt_block v" 24 "ucast (bt_time v)"]
  show "unpack_v block_time_codec (pack_v block_time_codec v @ r) = Some (r, v)"
    by (simp add: block_time_codec_def block_time_pack_def block_time_unpack_def block_time_valid_def
        Let_def ucast_ucast_small)
qed (simp add: block_time_codec_def block_time_pack_def)

section \<open>DeviceDetail\<close>

record device_detail =
  dd_mapped_blocks :: u64
  dd_transaction_id :: u64
  dd_creation_time :: u32
  dd_snapshotted_time :: u32

definition device_detail_unpack :: "device_detail parser" where
  "device_detail_unpack i = do {
     (i, mapped_blocks) \<leftarrow> le_u64 i;
     (i, transaction_id) \<leftarrow> le_u64 i;
     (i, creation_time) \<leftarrow> le_u32 i;
     (i, snapshotted_time) \<leftarrow> le_u32 i;
     Some (i, \<lparr>dd_mapped_blocks = mapped_blocks, dd_transaction_id = transaction_id,
               dd_creation_time = creation_time, dd_snapshotted_time = snapshotted_time\<rparr>) }"

definition device_detail_pack :: "device_detail \<Rightarrow> bytes" where
  "device_detail_pack d = w_u64 (dd_mapped_blocks d) @ w_u64 (dd_transaction_id d) @
     w_u32 (dd_creation_time d) @ w_u32 (dd_snapshotted_time d)"

definition device_detail_codec :: "device_detail codec" where
  "device_detail_codec = \<lparr>disk_size = 24, pack_v = device_detail_pack, unpack_v = device_detail_unpack\<rparr>"

interpretation device_detailc: value_codec device_detail_codec "\<lambda>_. True"
  by unfold_locales (simp_all add: device_detail_codec_def device_detail_pack_def device_detail_unpack_def)

section \<open>Mapping and Hint of the cache\<close>

definition MAX_ORIGIN_BLOCKS :: u64 where "MAX_ORIGIN_BLOCKS = push_bit 48 1"
definition FLAGS_MASK :: u64 where "FLAGS_MASK = push_bit 16 1 - 1"

record mapping =
  m_oblock :: u64
  m_flags :: u32

datatype mapping_flags = Valid | Dirty

fun flag_bit :: "mapping_flags \<Rightarrow> u32" where
  "flag_bit Valid = 1"
| "flag_bit Dirty = 2"

definition is_valid :: "mapping \<Rightarrow> bool" where
  "is_valid m \<longleftrightarrow> m_flags m AND flag_bit Valid \<noteq> 0"

definition is_dirty :: "mapping \<Rightarrow> bool" where
  "is_dirty m \<longleftrightarrow> m_flags m AND flag_bit Dirty \<noteq> 0"

definition set_dirty :: "mapping \<Rightarrow> bool \<Rightarrow> mapping" where
  "set_dirty m dirty =
    (if dirty then m\<lparr>m_flags := m_flags m OR flag_bit Dirty\<rparr>
     else m\<lparr>m_flags := m_flags m AND NOT (flag_bit Dirty)\<rparr>)"

definition mapping_unpack :: "mapping parser" where
  "mapping_unpack i = do {
     (i, n) \<leftarrow> le_u64 i;
     let oblock = drop_bit 16 n; flags = n AND FLAGS_MASK in
     Some (i, \<lparr>m_oblock = oblock, m_flags = ucast flags\<rparr>) }"

definition mapping_pack :: "mapping \<Rightarrow> bytes" where
  "mapping_pack m = w_u64 (push_bit 16 (m_oblock m) OR ucast (m_flags m))"

definition mapping_codec :: "mapping codec" where
  "mapping_codec = \<lparr>disk_size = 8, pack_v = mapping_pack, unpack_v = mapping_unpack\<rparr>"

definition mapping_valid :: "mapping \<Rightarrow> bool" where
  "mapping_valid m \<longleftrightarrow> m_oblock m < MAX_ORIGIN_BLOCKS \<and> unat (m_flags m) < 2 ^ 16"

interpretation mappingc: value_codec mapping_codec mapping_valid
proof unfold_locales
  fix v r assume v: "mapping_valid v"
  have "unat (ucast (m_flags v) :: u64) = unat (m_flags v)"
    using v by (intro unat_ucast_small) (simp add: mapping_valid_def)
  with v two_fields [of "m_oblock v" 16 "ucast (m_flags v)"]
  show "unpack_v mapping_codec (pack_v mapping_codec v @ r) = Some (r, v)"
    by (simp add: mapping_codec_def mapping_pack_def mapping_unpack_def mapping_valid_def
        Let_def ucast_ucast_small FLAGS_MASK_def MAX_ORIGIN_BLOCKS_def word_less_nat_alt)
qed (simp add: mapping_codec_def mapping_pack_def)

lemma set_dirty_is_dirty: "is_dirty (set_dirty m d) = d"
proof -
  have "(2 :: u32) = mask 2 AND NOT (mask 1)" by code_simp
  have "(x OR 2) AND 2 = (2 :: u32)" for x by (auto intro!: bit_eqI simp: bit_simps)
  moreover have "(x AND NOT 2) AND 2 = (0 :: u32)" for x by (auto intro!: bit_eqI simp: bit_simps)
  ultimately show ?thesis by (simp add: is_dirty_def set_dirty_def)
qed

text \<open>Four bytes; \<open>i[0..size]\<close> of a shorter input panics, which no caller reaches: the arrays have
  checked the size of their blocks.\<close>

definition hint_unpack :: "bytes parser" where
  "hint_unpack i = (if length i < 4 then None else Some (drop 4 i, take 4 i))"

definition hint_pack :: "bytes \<Rightarrow> bytes" where
  "hint_pack h = concat (map w_u8 h)"

section \<open>Writeset of the era metadata\<close>

record writeset =
  ws_nr_bits :: u32
  ws_root :: u64

definition writeset_unpack :: "writeset parser" where
  "writeset_unpack i = do {
     (i, nr_bits) \<leftarrow> le_u32 i;
     (i, root) \<leftarrow> le_u64 i;
     Some (i, \<lparr>ws_nr_bits = nr_bits, ws_root = root\<rparr>) }"

definition writeset_pack :: "writeset \<Rightarrow> bytes" where
  "writeset_pack ws = w_u32 (ws_nr_bits ws) @ w_u64 (ws_root ws)"

definition writeset_codec :: "writeset codec" where
  "writeset_codec = \<lparr>disk_size = 12, pack_v = writeset_pack, unpack_v = writeset_unpack\<rparr>"

interpretation writesetc: value_codec writeset_codec "\<lambda>_. True"
  by unfold_locales (simp_all add: writeset_codec_def writeset_pack_def writeset_unpack_def)

section \<open>Bitmap\<close>

definition WORDS_PER_BITMAP :: nat where "WORDS_PER_BITMAP = (BLOCK_SIZE - 16) div 8"
definition ENTRIES_PER_BYTE :: nat where "ENTRIES_PER_BYTE = 4"
definition ENTRIES_PER_BITMAP :: nat where "ENTRIES_PER_BITMAP = WORDS_PER_BITMAP * 8 * ENTRIES_PER_BYTE"

lemma bitmap_sizes: "WORDS_PER_BITMAP = 510" "ENTRIES_PER_BITMAP = 16320"
  by (simp_all add: ENTRIES_PER_BITMAP_def WORDS_PER_BITMAP_def ENTRIES_PER_BYTE_def BLOCK_SIZE_def)

datatype bitmap_entry = Small u8 | Overflow

record bitmap =
  bm_blocknr :: u64
  bm_entries :: "bitmap_entry list"

text \<open>The low bit of the pair is the high bit of the count.\<close>

definition entry_of_bits :: "u64 \<Rightarrow> bitmap_entry" where
  "entry_of_bits val =
    (if val = 0 then Small 0 else if val = 1 then Small 2 else if val = 2 then Small 1 else Overflow)"

fun unpack_word :: "nat \<Rightarrow> u64 \<Rightarrow> bitmap_entry list" where
  "unpack_word 0 word = []"
| "unpack_word (Suc b) word = entry_of_bits (word AND 3) # unpack_word b (drop_bit 2 word)"

fun unpack_words :: "nat \<Rightarrow> bitmap_entry list parser" where
  "unpack_words 0 i = Some (i, [])"
| "unpack_words (Suc w) i = do {
     (i, word) \<leftarrow> le_u64 i;
     (i, es) \<leftarrow> unpack_words w i;
     Some (i, unpack_word 32 word @ es) }"

definition bitmap_unpack :: "bitmap parser" where
  "bitmap_unpack data = do {
     (i, csum) \<leftarrow> le_u32 data;
     (i, not_used) \<leftarrow> le_u32 i;
     (i, blocknr) \<leftarrow> le_u64 i;
     let header_size = 16; nr_words = (BLOCK_SIZE - header_size) div 8 in do {
     (i, entries) \<leftarrow> unpack_words nr_words i;
     Some (i, \<lparr>bm_blocknr = blocknr, bm_entries = entries\<rparr>) } }"

fun entry_bits :: "bitmap_entry \<Rightarrow> u64 option" where
  "entry_bits (Small n) =
    (if n = 0 then Some 0 else if n = 1 then Some 2 else if n = 2 then Some 1 else None)"
| "entry_bits Overflow = Some 3"

fun pack_chunk :: "bitmap_entry list \<Rightarrow> u64 \<Rightarrow> (write_error, u64) result" where
  "pack_chunk [] w = Ok w"
| "pack_chunk (e # chunk) w =
    (let w = drop_bit 2 w in
     case entry_bits e of None \<Rightarrow> Err WInvalidData
     | Some x \<Rightarrow> pack_chunk chunk (w OR push_bit 62 x))"

fun pack_chunks :: "bitmap_entry list list \<Rightarrow> (write_error, bytes) result" where
  "pack_chunks [] = Ok []"
| "pack_chunks (chunk # cs) = bindr (pack_chunk chunk 0) (\<lambda>w.
     bindr (pack_chunks cs) (\<lambda>bs. Ok (w_u64 (drop_bit (64 - length chunk * 2) w) @ bs)))"

text \<open>\<open>chunks(n)\<close>: pieces of \<open>n\<close> elements, the last one may be shorter.\<close>

function chunks :: "nat \<Rightarrow> 'a list \<Rightarrow> 'a list list" where
  "chunks n xs = (if xs = [] \<or> n = 0 then [] else take n xs # chunks n (drop n xs))"
  by pat_completeness auto
termination chunks by (relation "measure (length o snd)") auto

declare chunks.simps [simp del]

definition bitmap_pack :: "bitmap \<Rightarrow> (write_error, bytes) result" where
  "bitmap_pack bm = bindr (pack_chunks (chunks 32 (bm_entries bm))) (\<lambda>ws.
     Ok (w_u32 0 @ w_u32 0 @ w_u64 (bm_blocknr bm) @ ws))"

subsection \<open>The words of a bitmap\<close>

definition entry_valid :: "bitmap_entry \<Rightarrow> bool" where
  "entry_valid e \<longleftrightarrow> entry_bits e \<noteq> None"

fun entries_value :: "bitmap_entry list \<Rightarrow> nat" where
  "entries_value [] = 0"
| "entries_value (e # es) = unat (the (entry_bits e)) + 4 * entries_value es"

lemma unat_drop2: "unat (drop_bit 2 (w :: u64)) = unat w div 4"
  by (simp add: unat_drop_div)

lemma entry_bits_bound: "entry_valid e \<Longrightarrow> unat (the (entry_bits e)) < 4"
  by (cases e) (auto simp: entry_valid_def)

lemma entry_of_entry_bits: "entry_bits e = Some x \<Longrightarrow> entry_of_bits x = e"
  by (cases e) (auto simp: entry_of_bits_def split: if_splits)

lemma entries_value_bound: "\<forall>e \<in> set es. entry_valid e \<Longrightarrow> entries_value es < 4 ^ length es"
proof (induction es)
  case (Cons e es)
  with entry_bits_bound [of e] show ?case by simp
qed simp

lemma entries_value_snoc:
  "entries_value (es @ [e]) = entries_value es + 4 ^ length es * unat (the (entry_bits e))"
  by (induction es) (simp_all add: algebra_simps)

lemma unat_or_high:
  fixes w x :: u64
  assumes "unat w < 2 ^ 62" "unat x < 4"
  shows "unat (w OR push_bit 62 x) = unat w + 2 ^ 62 * unat x"
proof -
  have "\<not> bit w n" if "62 \<le> n" for n using small_no_bit [OF assms(1) that] .
  moreover have "bit (w AND push_bit 62 x) n \<longleftrightarrow> n < 64 \<and> bit w n \<and> 62 \<le> n \<and> bit x (n - 62)" for n
    by (auto simp: bit_simps)
  ultimately have "w AND push_bit 62 x = 0" by (intro bit_eqI) (simp del: bit_and_iff)
  then have "w OR push_bit 62 x = w + push_bit 62 x" by (simp add: disjunctive_add_eq_or)
  moreover have p: "unat (push_bit 62 x) = 2 ^ 62 * unat x"
    using assms(2) by (simp add: push_bit_eq_mult unat_word_ariths)
  moreover have "unat (w + push_bit 62 x) = unat w + unat (push_bit 62 x)"
    using assms p by (intro unat_plus_no_overflow) simp
  ultimately show ?thesis by simp
qed

lemma pack_chunk_value:
  assumes "\<forall>e \<in> set (ds @ es). entry_valid e" "length (ds @ es) \<le> 32"
    "unat w = 4 ^ (32 - length ds) * entries_value ds"
  shows "\<exists>w'. pack_chunk es w = Ok w' \<and>
    unat w' = 4 ^ (32 - length (ds @ es)) * entries_value (ds @ es)"
  using assms
proof (induction es arbitrary: ds w)
  case (Cons e es)
  let ?x = "the (entry_bits e)" and ?n = "31 - length ds"
  have le: "length ds \<le> 31" using Cons.prems(2) by simp
  then have n: "32 - length ds = Suc ?n" by simp
  have x: "entry_bits e = Some ?x" "unat ?x < 4"
    using Cons.prems(1) entry_bits_bound [of e] by (auto simp: entry_valid_def)
  have d: "unat (drop_bit 2 w) = 4 ^ ?n * entries_value ds"
    using Cons.prems(3) n by (simp add: unat_drop2)
  have "4 ^ ?n * entries_value ds < 4 ^ ?n * 4 ^ length ds"
    using entries_value_bound [of ds] Cons.prems(1) by simp
  also have "\<dots> = (2 :: nat) ^ 62" using le by (simp flip: power_add)
  finally have b: "unat (drop_bit 2 w) < 2 ^ 62" using d by simp
  have "4 ^ ?n * 4 ^ length ds = (2 :: nat) ^ 62" using le by (simp flip: power_add)
  then have "unat (drop_bit 2 w OR push_bit 62 ?x) = 4 ^ ?n * entries_value (ds @ [e])"
    using unat_or_high [OF b x(2)] d by (simp add: entries_value_snoc algebra_simps)
  moreover have "pack_chunk (e # es) w = pack_chunk es (drop_bit 2 w OR push_bit 62 ?x)"
    using x(1) by (cases "entry_bits e") (simp_all add: Let_def)
  ultimately show ?case
    using Cons.IH [of "ds @ [e]" "drop_bit 2 w OR push_bit 62 ?x"] Cons.prems(1,2) by simp
qed simp

lemma pack_chunk_final:
  assumes "\<forall>e \<in> set es. entry_valid e" "length es \<le> 32"
  obtains w where "pack_chunk es 0 = Ok w" "unat (drop_bit (64 - length es * 2) w) = entries_value es"
proof -
  obtain w where w: "pack_chunk es 0 = Ok w" "unat w = 4 ^ (32 - length es) * entries_value es"
    using pack_chunk_value [of "[]" es 0] assms by auto
  have "(4 :: nat) ^ (32 - length es) = 2 ^ (64 - length es * 2)"
    using power_mult [of "2 :: nat" 2 "32 - length es"] by (simp add: diff_mult_distrib2 mult.commute)
  with w that show thesis by (simp add: unat_drop_div)
qed

lemma unpack_word_value:
  "\<forall>e \<in> set es. entry_valid e \<Longrightarrow> unat w = entries_value es \<Longrightarrow>
    unpack_word (length es + k) w = es @ replicate k (Small 0)"
proof (induction es arbitrary: w)
  case Nil
  then have "w = 0" by (simp add: unat_eq_0)
  moreover have "unpack_word k 0 = replicate k (Small 0)" by (induction k) (simp_all add: entry_of_bits_def)
  ultimately show ?case by simp
next
  case (Cons e es)
  let ?x = "the (entry_bits e)"
  have x: "entry_bits e = Some ?x" "unat ?x < 4"
    using Cons.prems(1) entry_bits_bound [of e] by (auto simp: entry_valid_def)
  have "w AND 3 = take_bit 2 w" by (simp add: take_bit_eq_mask mask_eq_exp_minus_1)
  then have "unat (w AND 3) = unat w mod 4" by (simp only: unat_take_mod) simp
  then have "w AND 3 = ?x" using Cons.prems(2) x by (simp add: word_unat_eq_iff)
  moreover have "unat (drop_bit 2 w) = entries_value es"
    using Cons.prems(2) x by (simp add: unat_drop2)
  ultimately show ?case using Cons.IH Cons.prems(1) entry_of_entry_bits [OF x(1)] by simp
qed

lemma unpack_words_zero:
  "unpack_words n (replicate (8 * n) 0 @ r) = Some (r, replicate (32 * n) (Small 0))"
proof (induction n)
  case (Suc n)
  have "replicate (8 * Suc n) (0 :: u8) @ r = w_u64 0 @ replicate (8 * n) 0 @ r"
    by (simp add: w_zero replicate_add numeral_eq_Suc)
  moreover have "unpack_word 32 0 = replicate 32 (Small 0)"
    using unpack_word_value [of "[]" 0 32] by simp
  ultimately show ?case
    by (simp only: unpack_words.simps le_u64_w Suc.IH Option.bind_lunit prod.case)
       (simp flip: replicate_add)
qed simp

lemma pack_chunks_roundtrip:
  "\<forall>e \<in> set es. entry_valid e \<Longrightarrow> length es \<le> 32 * n \<Longrightarrow>
   \<exists>bs. pack_chunks (chunks 32 es) = Ok bs \<and> length bs \<le> 8 * n \<and>
     unpack_words n (bs @ replicate (8 * n - length bs) 0 @ r) =
       Some (r, es @ replicate (32 * n - length es) (Small 0))"
proof (induction n arbitrary: es)
  case 0
  then show ?case by (simp add: chunks.simps)
next
  case (Suc n)
  show ?case
  proof (cases "es = []")
    case True
    with unpack_words_zero [of "Suc n" r] show ?thesis by (simp add: chunks.simps)
  next
    case False
    let ?c = "take 32 es" and ?k = "32 - length (take 32 es)"
    have cs: "chunks 32 es = ?c # chunks 32 (drop 32 es)" using False by (subst chunks.simps) simp
    obtain w where w: "pack_chunk ?c 0 = Ok w"
      "unat (drop_bit (64 - length ?c * 2) w) = entries_value ?c"
      using pack_chunk_final [of ?c] Suc.prems(1) by (auto dest: in_set_takeD)
    have word: "unpack_word 32 (drop_bit (64 - length ?c * 2) w) = ?c @ replicate ?k (Small 0)"
      using unpack_word_value [OF _ w(2), of ?k] Suc.prems(1) by (auto dest: in_set_takeD)
    have "\<forall>e \<in> set (drop 32 es). entry_valid e" using Suc.prems(1) by (auto dest: in_set_dropD)
    moreover have "length (drop 32 es) \<le> 32 * n" using Suc.prems(2) by simp
    ultimately obtain bs where
      bs: "pack_chunks (chunks 32 (drop 32 es)) = Ok bs" "length bs \<le> 8 * n"
      "unpack_words n (bs @ replicate (8 * n - length bs) 0 @ r) =
        Some (r, drop 32 es @ replicate (32 * n - length (drop 32 es)) (Small 0))"
      using Suc.IH by blast
    let ?out = "w_u64 (drop_bit (64 - length ?c * 2) w) @ bs"
    have "pack_chunks (chunks 32 es) = Ok ?out" using cs w(1) bs(1) by simp
    moreover have "length ?out \<le> 8 * Suc n" using bs(2) by simp
    moreover have "8 * Suc n - length ?out = 8 * n - length bs" by simp
    moreover have "?c @ replicate ?k (Small 0) @ drop 32 es @ replicate (32 * n - length (drop 32 es)) (Small 0)
        = es @ replicate (32 * Suc n - length es) (Small 0)"
    proof (cases "length es \<le> 32")
      case False
      have "?c @ drop 32 es @ xs = es @ xs" for xs by (simp flip: append_assoc)
      with False show ?thesis by (simp add: add.commute)
    qed (simp flip: replicate_add)
    ultimately show ?thesis using word bs(3) by simp
  qed
qed

section \<open>MetadataIndex\<close>

definition MAX_METADATA_BITMAPS :: nat where "MAX_METADATA_BITMAPS = 255"
definition MAX_METADATA_BLOCKS :: nat where
  "MAX_METADATA_BLOCKS = MAX_METADATA_BITMAPS * ENTRIES_PER_BITMAP"

record metadata_index =
  mi_blocknr :: u64
  mi_indexes :: "index_entry list"

definition metadata_index_unpack :: "metadata_index parser" where
  "metadata_index_unpack i = do {
     (i, csum) \<leftarrow> le_u32 i;
     (i, padding) \<leftarrow> le_u32 i;
     (i, blocknr) \<leftarrow> le_u64 i;
     (i, indexes) \<leftarrow> p_count index_entry_unpack MAX_METADATA_BITMAPS i;
     let nr_bitmaps = length (takeWhile (\<lambda>e. ie_blocknr e \<noteq> 0) indexes) in
     Some (i, \<lparr>mi_blocknr = blocknr, mi_indexes = take nr_bitmaps indexes\<rparr>) }"

definition metadata_index_pack :: "metadata_index \<Rightarrow> (write_error, bytes) result" where
  "metadata_index_pack mi =
    assertr (length (mi_indexes mi) \<le> MAX_METADATA_BITMAPS)
      (Ok (w_u32 0 @ w_u32 0 @ w_u64 (mi_blocknr mi) @ concat (map index_entry_pack (mi_indexes mi))))"

datatype index_error = BadIndexChecksum | NotAnIndexBlock | IndexUnpackError | IndexBlocknrMismatch

definition verify_index_checksum :: "(bytes \<Rightarrow> u32) \<Rightarrow> bytes \<Rightarrow> (index_error, unit) result" where
  "verify_index_checksum crc32c data = (case metadata_block_type crc32c data of
     BT_INDEX \<Rightarrow> Ok () | BT_UNKNOWN \<Rightarrow> Err BadIndexChecksum | _ \<Rightarrow> Err NotAnIndexBlock)"

text \<open>A block is its location and its data.\<close>

definition load_metadata_index ::
    "(bytes \<Rightarrow> u32) \<Rightarrow> u64 \<times> bytes \<Rightarrow> u64 \<Rightarrow> (index_error, metadata_index) result" where
  "load_metadata_index crc32c b nr_blocks =
    bindr (verify_index_checksum crc32c (snd b)) (\<lambda>_.
    case metadata_index_unpack (snd b) of None \<Rightarrow> Err IndexUnpackError
    | Some (_, entries) \<Rightarrow>
        if mi_blocknr entries \<noteq> fst b then Err IndexBlocknrMismatch
        else let nr_bitmaps = unat (div_up nr_blocks (word_of_nat ENTRIES_PER_BITMAP)) in
          Ok (entries\<lparr>mi_indexes := take nr_bitmaps (mi_indexes entries)\<rparr>))"

definition block_to_bitmap :: "u64 \<Rightarrow> nat" where
  "block_to_bitmap b = unat (b div word_of_nat ENTRIES_PER_BITMAP)"

fun blocks_to_bitmaps_loop :: "nat \<Rightarrow> u64 list \<Rightarrow> (unit, nat list) result" where
  "blocks_to_bitmaps_loop prev [] = Ok []"
| "blocks_to_bitmaps_loop prev (b # bs) =
    (let bitmap = block_to_bitmap b in
     assertr (bitmap < MAX_METADATA_BITMAPS)
       (if bitmap \<noteq> prev then mapr (\<lambda>r. bitmap # r) (blocks_to_bitmaps_loop bitmap bs)
        else blocks_to_bitmaps_loop prev bs))"

definition blocks_to_bitmaps :: "u64 list \<Rightarrow> (unit, nat list) result" where
  "blocks_to_bitmaps blocks = blocks_to_bitmaps_loop MAX_METADATA_BITMAPS blocks"

lemma index_entry_count:
  "p_count index_entry_unpack (length es) (concat (map index_entry_pack es) @ r) = Some (r, es)"
  using index_entryc.count_pack [of es r] by (simp add: index_entry_codec_def)

lemma index_entry_length: "length (concat (map index_entry_pack es)) = 16 * length es"
  using index_entryc.length_concat_pack [of es] by (simp add: index_entry_codec_def)

lemma zero_index_entries:
  "concat (map index_entry_pack (replicate k \<lparr>ie_blocknr = 0, ie_nr_free = 0, ie_none_free_before = 0\<rparr>)) =
    replicate (16 * k) 0"
  by (induction k) (simp_all add: index_entry_pack_def w_zero replicate_add numeral_eq_Suc)

lemma take_takeWhile_append:
  "\<forall>x \<in> set xs. P x \<Longrightarrow> ys = [] \<or> \<not> P (hd ys) \<Longrightarrow> take (length (takeWhile P (xs @ ys))) (xs @ ys) = xs"
  by (cases ys) (auto simp: takeWhile_append takeWhile_eq_all_conv [THEN iffD2])

text \<open>A bitmap in a zeroed block, whatever its first four bytes.\<close>

lemma bitmap_written:
  assumes "\<forall>e \<in> set (bm_entries bm). e = Overflow \<or> e \<in> {Small 0, Small 1, Small 2}"
    and "length (bm_entries bm) \<le> ENTRIES_PER_BITMAP"
  obtains bs data where "bitmap_pack bm = Ok bs" "cursor_write (replicate BLOCK_SIZE 0) bs = Ok data" "length data = 4096"
    "\<And>d. length d = 4096 \<Longrightarrow> drop 4 d = drop 4 data \<Longrightarrow> bitmap_unpack d = Some ([], bm\<lparr>bm_entries := bm_entries bm @
      replicate (ENTRIES_PER_BITMAP - length (bm_entries bm)) (Small 0)\<rparr>)"
proof -
  have "\<forall>e \<in> set (bm_entries bm). entry_valid e"
    using assms(1) by (auto simp: entry_valid_def)
  from pack_chunks_roundtrip [OF this, of 510 "[]"] assms(2) obtain bs where
    bs: "pack_chunks (chunks 32 (bm_entries bm)) = Ok bs" "length bs \<le> 4080"
      "unpack_words 510 (bs @ replicate (4080 - length bs) 0) = Some ([], bm_entries bm @
        replicate (ENTRIES_PER_BITMAP - length (bm_entries bm)) (Small 0))"
    by (auto simp: bitmap_sizes)
  let ?out = "w_u32 0 @ w_u32 0 @ w_u64 (bm_blocknr bm) @ bs"
  let ?data = "?out @ replicate (4080 - length bs) 0"
  show thesis
  proof (rule that)
    show "bitmap_pack bm = Ok ?out" using bs(1) by (simp add: bitmap_pack_def)
    show "cursor_write (replicate BLOCK_SIZE 0) ?out = Ok ?data"
      using bs(2) by (simp add: cursor_write_def BLOCK_SIZE_def)
    show "length ?data = 4096" using bs(2) by simp
    fix d :: bytes assume d: "length d = 4096" "drop 4 d = drop 4 ?data"
    have "d = take 4 d @ drop 4 ?data" by (metis d(2) append_take_drop_id)
    moreover have "drop 4 ?data = w_u32 0 @ w_u64 (bm_blocknr bm) @ bs @ replicate (4080 - length bs) 0" by simp
    ultimately have e: "d = take 4 d @ w_u32 0 @ w_u64 (bm_blocknr bm) @ bs @ replicate (4080 - length bs) 0" by simp
    obtain x where "\<And>r. le_u32 (take 4 d @ r) = Some (r, x)"
      using d(1) by (simp add: le_u32_def p_num_def p_take_def)
    then show "bitmap_unpack d = Some ([], bm\<lparr>bm_entries := bm_entries bm @
        replicate (ENTRIES_PER_BITMAP - length (bm_entries bm)) (Small 0)\<rparr>)"
      using bs(3) by (subst e) (simp add: bitmap_unpack_def BLOCK_SIZE_def Let_def)
  qed
qed

section \<open>Properties\<close>

text \<open>C20: A bitmap of at most 16320 entries, each a count of zero, one or two or an overflow mark, packs
  into a zeroed block from which unpacking gives back the block number and the entries, followed by free
  entries up to the end of the block.\<close>

theorem bitmap_roundtrip:
  assumes "\<forall>e \<in> set (bm_entries bm). e = Overflow \<or> e \<in> {Small 0, Small 1, Small 2}"
    and "length (bm_entries bm) \<le> ENTRIES_PER_BITMAP"
  shows "\<exists>bs data. bitmap_pack bm = Ok bs \<and> cursor_write (replicate BLOCK_SIZE 0) bs = Ok data \<and>
    bitmap_unpack data = Some ([], bm\<lparr>bm_entries := bm_entries bm @
      replicate (ENTRIES_PER_BITMAP - length (bm_entries bm)) (Small 0)\<rparr>)"
proof -
  obtain bs data where "bitmap_pack bm = Ok bs" "cursor_write (replicate BLOCK_SIZE 0) bs = Ok data" "length data = 4096"
    and "\<And>d. length d = 4096 \<Longrightarrow> drop 4 d = drop 4 data \<Longrightarrow> bitmap_unpack d = Some ([], bm\<lparr>bm_entries := bm_entries bm @
      replicate (ENTRIES_PER_BITMAP - length (bm_entries bm)) (Small 0)\<rparr>)"
    using bitmap_written [OF assms] by blast
  then show ?thesis by blast
qed

theorem bitmap_roundtrip_witness:
  "\<exists>bs data. bitmap_pack \<lparr>bm_blocknr = 7, bm_entries = [Small 1, Overflow, Small 2]\<rparr> = Ok bs \<and>
    cursor_write (replicate BLOCK_SIZE 0) bs = Ok data \<and> bitmap_unpack data = Some ([],
      \<lparr>bm_blocknr = 7, bm_entries = [Small 1, Overflow, Small 2] @ replicate 16317 (Small 0)\<rparr>)"
  using bitmap_roundtrip [of "\<lparr>bm_blocknr = 7, bm_entries = [Small 1, Overflow, Small 2]\<rparr>"]
  by (simp add: bitmap_sizes)

text \<open>An index of at most 255 entries, none of which points at block zero, packs into a zeroed block; the
  loader, given that block with the checksum of an index, returns the entries that the number of blocks
  calls for.\<close>

theorem metadata_index_roundtrip:
  assumes n: "length (mi_indexes mi) \<le> MAX_METADATA_BITMAPS" "\<forall>e \<in> set (mi_indexes mi). ie_blocknr e \<noteq> 0"
  shows "\<exists>bs data. metadata_index_pack mi = Ok bs \<and> cursor_write (replicate BLOCK_SIZE 0) bs = Ok data \<and>
    metadata_index_unpack data = Some ([], mi) \<and>
    (\<forall>d. write_checksum crc32c data BT_INDEX = Ok d \<longrightarrow>
      load_metadata_index crc32c (mi_blocknr mi, d) nr_blocks = Ok (mi\<lparr>mi_indexes :=
        take (unat (div_up nr_blocks (word_of_nat ENTRIES_PER_BITMAP))) (mi_indexes mi)\<rparr>))"
proof -
  let ?es = "mi_indexes mi" and ?z = "\<lparr>ie_blocknr = 0, ie_nr_free = 0, ie_none_free_before = 0 :: u32\<rparr>"
  let ?k = "255 - length ?es"
  let ?body = "w_u32 0 @ w_u64 (mi_blocknr mi) @ concat (map index_entry_pack ?es)"
  have l: "length ?es \<le> 255" using n(1) by (simp add: MAX_METADATA_BITMAPS_def)
  have pad: "replicate (4080 - 16 * length ?es) 0 = concat (map index_entry_pack (replicate ?k ?z))"
    unfolding zero_index_entries by (simp add: diff_mult_distrib2)
  have un: "metadata_index_unpack (c @ ?body @ replicate (4080 - 16 * length ?es) 0) = Some ([], mi)"
    if c: "length c = 4" for c
  proof -
    have "\<exists>x. le_u32 (c @ r) = Some (r, x)" for r
      using c by (simp add: le_u32_def p_num_def p_take_def)
    then obtain x where x: "le_u32 (c @ ?body @ replicate (4080 - 16 * length ?es) 0) =
        Some (?body @ replicate (4080 - 16 * length ?es) 0, x)" by blast
    have cnt: "p_count index_entry_unpack 255 (concat (map index_entry_pack ?es) @
        replicate (4080 - 16 * length ?es) 0) = Some ([], ?es @ replicate ?k ?z)"
      using index_entry_count [of "?es @ replicate ?k ?z" "[]"] l unfolding pad by simp
    have "take (length (takeWhile (\<lambda>e. ie_blocknr e \<noteq> 0) (?es @ replicate ?k ?z)))
        (?es @ replicate ?k ?z) = ?es"
      using n(2) by (intro take_takeWhile_append) (cases ?k; simp)+
    then show ?thesis
      using x cnt by (simp add: metadata_index_unpack_def MAX_METADATA_BITMAPS_def Let_def)
  qed
  let ?data = "w_u32 0 @ ?body @ replicate (4080 - 16 * length ?es) 0"
  have "cursor_write (replicate BLOCK_SIZE 0) (w_u32 0 @ ?body) = Ok ?data"
    using l by (simp add: cursor_write_def BLOCK_SIZE_def index_entry_length)
  moreover have "load_metadata_index crc32c (mi_blocknr mi, d) nr_blocks = Ok (mi\<lparr>mi_indexes :=
        take (unat (div_up nr_blocks (word_of_nat ENTRIES_PER_BITMAP))) ?es\<rparr>)"
    if d: "write_checksum crc32c ?data BT_INDEX = Ok d" for d
  proof -
    note t = write_checksum_type [OF d]
    then have "length d = 4096" by (simp add: BLOCK_SIZE_def)
    then have "d = take 4 d @ drop 4 d" "length (take 4 d) = 4" by simp_all
    with un [of "take 4 d"] t have "metadata_index_unpack d = Some ([], mi)" by simp
    with t show ?thesis by (simp add: load_metadata_index_def verify_index_checksum_def Let_def)
  qed
  ultimately show ?thesis
    using n un [of "w_u32 0"] by (auto simp: metadata_index_pack_def assertr_def)
qed

theorem metadata_index_roundtrip_witness:
  "\<exists>bs data. metadata_index_pack \<lparr>mi_blocknr = 9, mi_indexes =
        [\<lparr>ie_blocknr = 4, ie_nr_free = 16000, ie_none_free_before = 320\<rparr>]\<rparr> = Ok bs \<and>
    cursor_write (replicate BLOCK_SIZE 0) bs = Ok data \<and>
    metadata_index_unpack data = Some ([], \<lparr>mi_blocknr = 9, mi_indexes =
        [\<lparr>ie_blocknr = 4, ie_nr_free = 16000, ie_none_free_before = 320\<rparr>]\<rparr>)"
  using metadata_index_roundtrip [of "\<lparr>mi_blocknr = 9, mi_indexes =
        [\<lparr>ie_blocknr = 4, ie_nr_free = 16000, ie_none_free_before = 320\<rparr>]\<rparr>" "\<lambda>_. 0" 0]
  by (auto simp: MAX_METADATA_BITMAPS_def)

text \<open>\<open>BlockTime\<close>: the parser accepts exactly the packed forms of the pairs of a 40 bit block and a 24 bit
  time, and gives back the pair.\<close>

theorem block_time_codec_exact:
  "block_time_unpack i = Some (r, bt) \<longleftrightarrow> i = block_time_pack bt @ r \<and> block_time_valid bt"
proof
  assume "i = block_time_pack bt @ r \<and> block_time_valid bt"
  then show "block_time_unpack i = Some (r, bt)"
    using block_timec.unpack_pack [of bt r] by (simp add: block_time_codec_def)
next
  assume "block_time_unpack i = Some (r, bt)"
  then obtain n where n: "le_u64 i = Some (r, n)"
    and bt: "bt = \<lparr>bt_block = drop_bit 24 n, bt_time = ucast (n AND (push_bit 24 1 - 1))\<rparr>"
    by (auto simp: block_time_unpack_def Let_def split: Option.bind_splits)
  note j = two_fields_join [of 24 n, simplified]
  define lo where "lo = n AND (push_bit 24 1 - 1)"
  have lo: "unat lo < 2 ^ 24" using two_fields_join(3) [of 24 n] by (simp only: lo_def)
  then have t: "unat (ucast lo :: u32) = unat lo" by (intro unat_ucast_small) simp
  then have "ucast (ucast lo :: u32) = lo" using lo by (intro ucast_ucast_small) simp
  then have "block_time_pack bt = w_u64 n"
    using two_fields_join(1) [of 24 n] by (simp only: block_time_pack_def bt block_time.simps lo_def)
  moreover have "block_time_valid bt"
    using two_fields_join(2) [of 24 n] lo t unfolding bt lo_def [symmetric] by (simp add: block_time_valid_def)
  ultimately show "i = block_time_pack bt @ r \<and> block_time_valid bt"
    using le_u64_inv [OF n] by simp
qed

text \<open>\<open>Mapping\<close> of the cache: the parser accepts exactly the packed forms of the mappings whose origin
  block is below \<open>MAX_ORIGIN_BLOCKS\<close> and whose flags fit in 16 bits, and gives back the mapping;
  setting the dirty flag changes nothing else.\<close>

theorem mapping_codec_exact:
  "(mapping_unpack i = Some (r, m) \<longleftrightarrow> i = mapping_pack m @ r \<and> mapping_valid m) \<and>
   is_dirty (set_dirty m d) = d \<and> is_valid (set_dirty m d) = is_valid m \<and> m_oblock (set_dirty m d) = m_oblock m"
proof (intro conjI)
  show "mapping_unpack i = Some (r, m) \<longleftrightarrow> i = mapping_pack m @ r \<and> mapping_valid m"
  proof
    assume "i = mapping_pack m @ r \<and> mapping_valid m"
    then show "mapping_unpack i = Some (r, m)"
      using mappingc.unpack_pack [of m r] by (simp add: mapping_codec_def)
  next
    assume "mapping_unpack i = Some (r, m)"
    then obtain n where n: "le_u64 i = Some (r, n)"
      and m: "m = \<lparr>m_oblock = drop_bit 16 n, m_flags = ucast (n AND (push_bit 16 1 - 1))\<rparr>"
      by (auto simp: mapping_unpack_def FLAGS_MASK_def Let_def split: Option.bind_splits)
    define lo where "lo = n AND (push_bit 16 1 - 1)"
    have lo: "unat lo < 2 ^ 16" using two_fields_join(3) [of 16 n] by (simp only: lo_def)
    then have t: "unat (ucast lo :: u32) = unat lo" by (intro unat_ucast_small) simp
    then have "ucast (ucast lo :: u32) = lo" using lo by (intro ucast_ucast_small) simp
    then have "mapping_pack m = w_u64 n"
      using two_fields_join(1) [of 16 n] by (simp only: mapping_pack_def m mapping.simps lo_def)
    moreover have "mapping_valid m"
      using two_fields_join(2) [of 16 n] lo t
      unfolding m lo_def [symmetric] by (simp add: mapping_valid_def MAX_ORIGIN_BLOCKS_def word_less_nat_alt)
    ultimately show "i = mapping_pack m @ r \<and> mapping_valid m"
      using le_u64_inv [OF n] by simp
  qed
  show "is_dirty (set_dirty m d) = d" by (rule set_dirty_is_dirty)
  have "(x OR 2) AND 1 = x AND (1 :: u32)" "(x AND NOT 2) AND 1 = x AND (1 :: u32)" for x
    by (auto intro!: bit_eqI simp: bit_simps)
  then show "is_valid (set_dirty m d) = is_valid m" by (simp add: is_valid_def set_dirty_def)
  show "m_oblock (set_dirty m d) = m_oblock m" by (simp add: set_dirty_def)
qed

end
