(* ===== verification/Io_Engine.thy ===== *)
theory Io_Engine
  imports Metadata_Codecs
begin

text \<open>
  The block device under the metadata: \<open>CoreIoEngine\<close> of \<open>src/io_engine/core.rs\<close>, which keeps the
  blocks in memory, and the \<open>Cursor\<close> the code writes a block through. A block is its location and
  its data. A fresh engine's memory is not initialised: its contents are the argument \<open>memory\<close>.
\<close>

type_synonym block = "u64 \<times> bytes"

record engine =
  en_nr_blocks :: u64
  en_data :: "u64 \<Rightarrow> bytes"

datatype engine_error = InvalidInput

definition engine_new :: "(u64 \<Rightarrow> bytes) \<Rightarrow> u64 \<Rightarrow> engine" where
  "engine_new memory nr_blocks = \<lparr>en_nr_blocks = nr_blocks, en_data = memory\<rparr>"

definition block_zeroed :: "u64 \<Rightarrow> block" where
  "block_zeroed loc = (loc, replicate BLOCK_SIZE 0)"

definition engine_read :: "engine \<Rightarrow> u64 \<Rightarrow> (engine_error, block) result" where
  "engine_read e b = (if en_nr_blocks e \<le> b then Err InvalidInput else Ok (b, en_data e b))"

definition engine_write :: "engine \<Rightarrow> block \<Rightarrow> (engine_error, unit) result \<times> engine" where
  "engine_write e b =
    (if en_nr_blocks e \<le> fst b then (Err InvalidInput, e)
     else (Ok (), e\<lparr>en_data := (en_data e)(fst b := snd b)\<rparr>))"

fun engine_read_many :: "engine \<Rightarrow> u64 list \<Rightarrow> (engine_error, block) result list" where
  "engine_read_many e [] = []"
| "engine_read_many e (b # bs) = engine_read e b # engine_read_many e bs"

text \<open>One result per block; a block that cannot be written does not stop the ones after it.\<close>

fun engine_write_many :: "engine \<Rightarrow> block list \<Rightarrow> (engine_error, unit) result list \<times> engine" where
  "engine_write_many e [] = ([], e)"
| "engine_write_many e (b # bs) =
    (let (r, e) = engine_write e b; (rs, e) = engine_write_many e bs in (r # rs, e))"

definition trash_block :: "engine \<Rightarrow> u64 \<Rightarrow> (unit, unit) result \<times> engine" where
  "trash_block e b = (let (r, e) = engine_write e (block_zeroed b) in
     (if is_ok r then Ok () else Panic, e))"

lemma engine_write_nr [simp]: "en_nr_blocks (snd (engine_write e b)) = en_nr_blocks e"
  by (simp add: engine_write_def)

lemma engine_read_write:
  "engine_write e b = (Ok (), e') \<Longrightarrow> engine_read e' l = (if l = fst b then Ok b else engine_read e l)"
  by (auto simp: engine_write_def engine_read_def split: if_splits)

lemma engine_write_many_nr: "en_nr_blocks (snd (engine_write_many e bs)) = en_nr_blocks e"
proof (induction bs arbitrary: e)
  case (Cons b bs)
  obtain r e1 where e1: "engine_write e b = (r, e1)" by fastforce
  then have "en_nr_blocks e1 = en_nr_blocks e" using engine_write_nr [of e b] by simp
  with Cons [of e1] e1 show ?case by (simp add: case_prod_beta)
qed simp

text \<open>The last block of a location wins.\<close>

lemma engine_read_write_many:
  assumes "\<forall>b \<in> set bs. fst b < en_nr_blocks e"
  shows "engine_read (snd (engine_write_many e bs)) l =
    (case find (\<lambda>b. fst b = l) (rev bs) of Some b \<Rightarrow> Ok b | None \<Rightarrow> engine_read e l)"
  using assms
proof (induction bs arbitrary: e)
  case (Cons b bs)
  then have w: "engine_write e b = (Ok (), e\<lparr>en_data := (en_data e)(fst b := snd b)\<rparr>)"
    by (auto simp: engine_write_def)
  have f: "find (\<lambda>x. fst x = l) (rev bs @ [b]) =
      (case find (\<lambda>x. fst x = l) (rev bs) of None \<Rightarrow> if fst b = l then Some b else None | Some x \<Rightarrow> Some x)"
    by (auto simp: find_append split: option.splits)
  show ?case
    using Cons.IH [of "e\<lparr>en_data := (en_data e)(fst b := snd b)\<rparr>"] Cons.prems engine_read_write [OF w, of l] w f
    by (auto simp: case_prod_beta split: option.splits)
qed simp

section \<open>Writing a block through a cursor\<close>

text \<open>
  The steps of a writer: bytes, or a point where the code panics (an index out of range while it
  prepares the next bytes). The writer stops with an error when the block is full.
\<close>

datatype chunk = Bytes bytes | PanicHere

fun emit_chunks :: "nat \<Rightarrow> bytes \<Rightarrow> chunk list \<Rightarrow> (write_error, bytes) result" where
  "emit_chunks cap out [] = Ok out"
| "emit_chunks cap out (Bytes bs # cs) =
    (if length out + length bs \<le> cap then emit_chunks cap (out @ bs) cs else Err WriteZero)"
| "emit_chunks cap out (PanicHere # cs) = Panic"

definition chunks_bytes :: "chunk list \<Rightarrow> bytes" where
  "chunks_bytes cs = concat (map (\<lambda>c. case c of Bytes bs \<Rightarrow> bs | PanicHere \<Rightarrow> []) cs)"

lemma chunks_bytes_simps [simp]:
  "chunks_bytes [] = []" "chunks_bytes (Bytes bs # cs) = bs @ chunks_bytes cs"
  by (simp_all add: chunks_bytes_def)

lemma emit_chunks_Ok:
  "PanicHere \<notin> set cs \<Longrightarrow> length out + length (chunks_bytes cs) \<le> cap \<Longrightarrow>
    emit_chunks cap out cs = Ok (out @ chunks_bytes cs)"
proof (induction cs arbitrary: out)
  case (Cons c cs)
  then show ?case by (cases c) auto
qed simp

definition block_write_chunks :: "bytes \<Rightarrow> chunk list \<Rightarrow> (write_error, bytes) result" where
  "block_write_chunks buf cs = bindr (emit_chunks (length buf) [] cs) (cursor_write buf)"

lemma block_write_chunks_Ok:
  "PanicHere \<notin> set cs \<Longrightarrow> length (chunks_bytes cs) \<le> length buf \<Longrightarrow>
    block_write_chunks buf cs = Ok (chunks_bytes cs @ drop (length (chunks_bytes cs)) buf)"
  by (simp add: block_write_chunks_def emit_chunks_Ok cursor_write_def)

end
