(* ===== verification/Superblock.thy ===== *)
theory Superblock
  imports Io_Engine
begin

text \<open>
  The superblocks of the three kinds of metadata: \<open>src/thin/superblock.rs\<close>,
  \<open>src/cache/superblock.rs\<close> and \<open>src/era/superblock.rs\<close>. Each has a parser, a writer, and the pair
  \<open>read_superblock\<close> and \<open>write_superblock\<close> that add the checksum and the device; the pairs are the same
  up to the format, so they are instances of two shared definitions, and the locale
  \<open>superblock_format\<close> states what a format has to promise for the pair to work.
\<close>

datatype sb_error = SbIoError | BadChecksum | UnpackFailed | NoMetadataSnap | SbWriteError

definition SUPERBLOCK_LOCATION :: u64 where "SUPERBLOCK_LOCATION = 0"
definition UUID_SIZE :: nat where "UUID_SIZE = 16"
definition SPACE_MAP_ROOT_SIZE :: nat where "SPACE_MAP_ROOT_SIZE = 128"
definition METADATA_SECTORS :: u32 where "METADATA_SECTORS = word_of_nat (drop_bit 9 BLOCK_SIZE)"

definition map_err :: "'f \<Rightarrow> ('e, 'a) result \<Rightarrow> ('f, 'a) result" where
  "map_err f r = (case r of Ok a \<Rightarrow> Ok a | Err _ \<Rightarrow> Err f | Panic \<Rightarrow> Panic)"

definition read_sb :: "(bytes \<Rightarrow> u32) \<Rightarrow> BT \<Rightarrow> 'sb parser \<Rightarrow> engine \<Rightarrow> u64 \<Rightarrow> (sb_error, 'sb) result" where
  "read_sb crc32c kind unpack e loc =
    bindr (map_err SbIoError (engine_read e loc)) (\<lambda>b.
    if metadata_block_type crc32c (snd b) \<noteq> kind then Err BadChecksum
    else case unpack (snd b) of Some (_, sb) \<Rightarrow> Ok sb | None \<Rightarrow> Err UnpackFailed)"

text \<open>The location argument is not used: the block goes to \<open>SUPERBLOCK_LOCATION\<close>.\<close>

definition write_sb :: "(bytes \<Rightarrow> u32) \<Rightarrow> BT \<Rightarrow> ('sb \<Rightarrow> chunk list) \<Rightarrow> engine \<Rightarrow> u64 \<Rightarrow> 'sb \<Rightarrow>
    (sb_error, unit) result \<times> engine" where
  "write_sb crc32c kind pack e loc sb =
    (let b = block_zeroed SUPERBLOCK_LOCATION in
     binds (map_err SbWriteError (block_write_chunks (snd b) (pack sb)), e) (\<lambda>d e.
     binds (map_err SbWriteError (write_checksum crc32c d kind), e) (\<lambda>d e.
     let (r, e) = engine_write e (fst b, d) in (map_err SbIoError r, e))))"

locale superblock_format =
  fixes kind :: BT
    and pack :: "'sb \<Rightarrow> chunk list"
    and unpack :: "'sb parser"
    and valid :: "'sb \<Rightarrow> bool"
    and norm :: "'sb \<Rightarrow> 'sb"
  assumes kind: "kind \<noteq> BT_UNKNOWN"
    and pack_fits: "valid sb \<Longrightarrow> PanicHere \<notin> set (pack sb) \<and>
      4 \<le> length (chunks_bytes (pack sb)) \<and> length (chunks_bytes (pack sb)) \<le> BLOCK_SIZE"
    and unpack_pack: "valid sb \<Longrightarrow> length c = 4 \<Longrightarrow>
      \<exists>r. unpack (c @ drop 4 (chunks_bytes (pack sb)) @
        replicate (BLOCK_SIZE - length (chunks_bytes (pack sb))) 0) = Some (r, norm sb)"
begin

lemma write_then_read:
  assumes "valid sb" "0 < en_nr_blocks e"
  obtains e' where "write_sb crc32c kind pack e loc sb = (Ok (), e')"
    "read_sb crc32c kind unpack e' 0 = Ok (norm sb)"
    "\<And>l. l \<noteq> 0 \<Longrightarrow> engine_read e' l = engine_read e l"
    "en_nr_blocks e' = en_nr_blocks e"
proof -
  let ?bs = "chunks_bytes (pack sb)"
  let ?d = "?bs @ replicate (BLOCK_SIZE - length ?bs) 0"
  note fits = pack_fits [OF assms(1)]
  have d: "block_write_chunks (replicate BLOCK_SIZE 0) (pack sb) = Ok ?d"
    using fits by (subst block_write_chunks_Ok) simp_all
  have "length ?d = BLOCK_SIZE" using fits by simp
  then obtain d' where d': "write_checksum crc32c ?d kind = Ok d'"
    using kind by (cases kind) (auto simp: write_checksum_def)
  note t = write_checksum_type [OF d']
  have "d' = take 4 d' @ drop 4 d'" "length (take 4 d') = 4" using t(2) by (simp_all add: BLOCK_SIZE_def)
  then obtain r where r: "unpack d' = Some (r, norm sb)"
    using unpack_pack [OF assms(1), of "take 4 d'"] t(3) fits by auto
  let ?e = "e\<lparr>en_data := (en_data e)(0 := d')\<rparr>"
  have w: "engine_write e (0, d') = (Ok (), ?e)"
    using assms(2) by (simp add: engine_write_def not_le)
  note rd = engine_read_write [OF w]
  show thesis
  proof (rule that [of ?e])
    show "write_sb crc32c kind pack e loc sb = (Ok (), ?e)"
      using d d' w by (simp add: write_sb_def block_zeroed_def SUPERBLOCK_LOCATION_def map_err_def)
    show "read_sb crc32c kind unpack ?e 0 = Ok (norm sb)"
      using rd [of 0] t(1) r by (simp add: read_sb_def map_err_def)
  qed (use rd in simp_all)
qed

lemma read_checked:
  assumes "read_sb crc32c kind unpack e loc = Ok sb"
  shows "loc < en_nr_blocks e" "metadata_block_type crc32c (en_data e loc) = kind"
  using assms by (auto simp: read_sb_def map_err_def engine_read_def split: if_splits)

end

section \<open>Thin\<close>

definition THIN_MAGIC :: u64 where "THIN_MAGIC = 27022010"

record thin_superblock =
  ts_needs_check :: bool
  ts_block :: u64
  ts_version :: u32
  ts_time :: u32
  ts_transaction_id :: u64
  ts_metadata_snap :: u64
  ts_data_sm_root :: bytes
  ts_metadata_sm_root :: bytes
  ts_mapping_root :: u64
  ts_details_root :: u64
  ts_data_block_size :: u32
  ts_nr_metadata_blocks :: u64

definition thin_unpack :: "thin_superblock parser" where
  "thin_unpack data = do {
     (i, csum) \<leftarrow> le_u32 data;
     (i, flags) \<leftarrow> le_u32 i;
     (i, block) \<leftarrow> le_u64 i;
     (i, uuid) \<leftarrow> p_take 16 i;
     (i, magic) \<leftarrow> le_u64 i;
     (i, version) \<leftarrow> le_u32 i;
     (i, time) \<leftarrow> le_u32 i;
     (i, transaction_id) \<leftarrow> le_u64 i;
     (i, metadata_snap) \<leftarrow> le_u64 i;
     (i, data_sm_root) \<leftarrow> p_take SPACE_MAP_ROOT_SIZE i;
     (i, metadata_sm_root) \<leftarrow> p_take SPACE_MAP_ROOT_SIZE i;
     (i, mapping_root) \<leftarrow> le_u64 i;
     (i, details_root) \<leftarrow> le_u64 i;
     (i, data_block_size) \<leftarrow> le_u32 i;
     (i, metadata_block_size) \<leftarrow> le_u32 i;
     (i, nr_metadata_blocks) \<leftarrow> le_u64 i;
     Some (i, \<lparr>ts_needs_check = flags AND 1 \<noteq> 0, ts_block = block, ts_version = version,
       ts_time = time, ts_transaction_id = transaction_id, ts_metadata_snap = metadata_snap,
       ts_data_sm_root = data_sm_root, ts_metadata_sm_root = metadata_sm_root,
       ts_mapping_root = mapping_root, ts_details_root = details_root,
       ts_data_block_size = data_block_size, ts_nr_metadata_blocks = nr_metadata_blocks\<rparr>) }"

definition thin_pack :: "thin_superblock \<Rightarrow> chunk list" where
  "thin_pack sb = [Bytes (w_u32 0), Bytes (if ts_needs_check sb then w_u32 1 else w_u32 0),
     Bytes (w_u64 (ts_block sb)), Bytes (replicate UUID_SIZE 0), Bytes (w_u64 THIN_MAGIC),
     Bytes (w_u32 (ts_version sb)), Bytes (w_u32 (ts_time sb)),
     Bytes (w_u64 (ts_transaction_id sb)), Bytes (w_u64 (ts_metadata_snap sb)),
     Bytes (ts_data_sm_root sb), Bytes (ts_metadata_sm_root sb),
     Bytes (w_u64 (ts_mapping_root sb)), Bytes (w_u64 (ts_details_root sb)),
     Bytes (w_u32 (ts_data_block_size sb)), Bytes (w_u32 METADATA_SECTORS),
     Bytes (w_u64 (ts_nr_metadata_blocks sb))]"

definition thin_read_superblock ::
    "(bytes \<Rightarrow> u32) \<Rightarrow> engine \<Rightarrow> u64 \<Rightarrow> (sb_error, thin_superblock) result" where
  "thin_read_superblock crc32c = read_sb crc32c BT_THIN_SUPERBLOCK thin_unpack"

definition thin_read_superblock_snap ::
    "(bytes \<Rightarrow> u32) \<Rightarrow> engine \<Rightarrow> (sb_error, thin_superblock) result" where
  "thin_read_superblock_snap crc32c e =
    bindr (thin_read_superblock crc32c e SUPERBLOCK_LOCATION) (\<lambda>actual_sb.
    if ts_metadata_snap actual_sb = 0 then Err NoMetadataSnap
    else thin_read_superblock crc32c e (ts_metadata_snap actual_sb))"

definition thin_write_superblock :: "(bytes \<Rightarrow> u32) \<Rightarrow> engine \<Rightarrow> u64 \<Rightarrow> thin_superblock \<Rightarrow>
    (sb_error, unit) result \<times> engine" where
  "thin_write_superblock crc32c = write_sb crc32c BT_THIN_SUPERBLOCK thin_pack"

definition thin_sb_valid :: "thin_superblock \<Rightarrow> bool" where
  "thin_sb_valid sb \<longleftrightarrow> length (ts_data_sm_root sb) = SPACE_MAP_ROOT_SIZE \<and>
     length (ts_metadata_sm_root sb) = SPACE_MAP_ROOT_SIZE"

lemma drop4_w_u32 [simp]: "drop 4 (w_u32 x @ r) = r"
  by simp

lemma le_u32_any:
  assumes "length c = 4"
  obtains x where "\<And>r. le_u32 (c @ r) = Some (r, x)"
  using assms by (simp add: le_u32_def p_num_def p_take_def)

interpretation thin: superblock_format BT_THIN_SUPERBLOCK thin_pack thin_unpack thin_sb_valid "\<lambda>sb. sb"
proof unfold_locales
  fix sb and c :: bytes assume v: "thin_sb_valid sb" and c: "length c = 4"
  have f: "(if ts_needs_check sb then w_u32 1 else w_u32 0) = w_u32 (of_bool (ts_needs_check sb))"
    by simp
  have b: "(of_bool p AND 1 \<noteq> (0 :: u32)) = p" for p by simp
  obtain x where x: "\<And>r. le_u32 (c @ r) = Some (r, x)" using le_u32_any [OF c] by blast
  show "\<exists>r. thin_unpack (c @ drop 4 (chunks_bytes (thin_pack sb)) @
        replicate (BLOCK_SIZE - length (chunks_bytes (thin_pack sb))) 0) = Some (r, sb)"
    using v x unfolding thin_pack_def f
    by (simp add: thin_unpack_def thin_sb_valid_def UUID_SIZE_def b)
qed (auto simp: thin_pack_def thin_sb_valid_def SPACE_MAP_ROOT_SIZE_def UUID_SIZE_def BLOCK_SIZE_def)

section \<open>Cache\<close>

definition CACHE_MAGIC :: u64 where "CACHE_MAGIC = 0x18c403"
definition POLICY_NAME_SIZE :: nat where "POLICY_NAME_SIZE = 16"

record cache_superblock =
  cs_clean_shutdown :: bool
  cs_needs_check :: bool
  cs_block :: u64
  cs_version :: u32
  cs_policy_name :: bytes
  cs_policy_version :: "u32 list"
  cs_policy_hint_size :: u32
  cs_metadata_sm_root :: bytes
  cs_mapping_root :: u64
  cs_dirty_root :: "u64 option"
  cs_hint_root :: u64
  cs_discard_root :: u64
  cs_discard_block_size :: u64
  cs_discard_nr_blocks :: u64
  cs_data_block_size :: u32
  cs_cache_blocks :: u32
  cs_compat_flags :: u32
  cs_compat_ro_flags :: u32
  cs_incompat_flags :: u32
  cs_read_hits :: u32
  cs_read_misses :: u32
  cs_write_hits :: u32
  cs_write_misses :: u32

definition cache_unpack :: "cache_superblock parser" where
  "cache_unpack data = do {
     (i, csum) \<leftarrow> le_u32 data;
     (i, flags) \<leftarrow> le_u32 i;
     (i, block) \<leftarrow> le_u64 i;
     (i, uuid) \<leftarrow> p_take 16 i;
     (i, magic) \<leftarrow> le_u64 i;
     (i, version) \<leftarrow> le_u32 i;
     (i, policy_name) \<leftarrow> p_take POLICY_NAME_SIZE i;
     (i, policy_hint_size) \<leftarrow> le_u32 i;
     (i, metadata_sm_root) \<leftarrow> p_take SPACE_MAP_ROOT_SIZE i;
     (i, mapping_root) \<leftarrow> le_u64 i;
     (i, hint_root) \<leftarrow> le_u64 i;
     (i, discard_root) \<leftarrow> le_u64 i;
     (i, discard_block_size) \<leftarrow> le_u64 i;
     (i, discard_nr_blocks) \<leftarrow> le_u64 i;
     (i, data_block_size) \<leftarrow> le_u32 i;
     (i, metadata_block_size) \<leftarrow> le_u32 i;
     (i, cache_blocks) \<leftarrow> le_u32 i;
     (i, compat_flags) \<leftarrow> le_u32 i;
     (i, compat_ro_flags) \<leftarrow> le_u32 i;
     (i, incompat_flags) \<leftarrow> le_u32 i;
     (i, read_hits) \<leftarrow> le_u32 i;
     (i, read_misses) \<leftarrow> le_u32 i;
     (i, write_hits) \<leftarrow> le_u32 i;
     (i, write_misses) \<leftarrow> le_u32 i;
     (i, vsn_major) \<leftarrow> le_u32 i;
     (i, vsn_minor) \<leftarrow> le_u32 i;
     (i, vsn_patch) \<leftarrow> le_u32 i;
     (i, dirty_root) \<leftarrow> (if 2 \<le> version then do { (m, root) \<leftarrow> le_u64 i; Some (m, Some root) }
                        else Some (i, None));
     Some (i, \<lparr>cs_clean_shutdown = flags AND 1 \<noteq> 0, cs_needs_check = flags AND 2 \<noteq> 0,
       cs_block = block, cs_version = version, cs_policy_name = takeWhile (\<lambda>c. c \<noteq> 0) policy_name,
       cs_policy_version = [vsn_major, vsn_minor, vsn_patch], cs_policy_hint_size = policy_hint_size,
       cs_metadata_sm_root = metadata_sm_root, cs_mapping_root = mapping_root,
       cs_dirty_root = dirty_root, cs_hint_root = hint_root, cs_discard_root = discard_root,
       cs_discard_block_size = discard_block_size, cs_discard_nr_blocks = discard_nr_blocks,
       cs_data_block_size = data_block_size, cs_cache_blocks = cache_blocks,
       cs_compat_flags = compat_flags, cs_compat_ro_flags = compat_ro_flags,
       cs_incompat_flags = incompat_flags, cs_read_hits = read_hits, cs_read_misses = read_misses,
       cs_write_hits = write_hits, cs_write_misses = write_misses\<rparr>) }"

text \<open>\<open>policy_version[i]\<close> panics out of range, as does a policy name longer than its field.\<close>

definition idx_u32 :: "u32 list \<Rightarrow> nat \<Rightarrow> chunk" where
  "idx_u32 xs i = (if i < length xs then Bytes (w_u32 (xs ! i)) else PanicHere)"

definition cache_pack :: "cache_superblock \<Rightarrow> chunk list" where
  "cache_pack sb = [Bytes (w_u32 0),
     Bytes (w_u32 ((if cs_clean_shutdown sb then 1 else 0) OR (if cs_needs_check sb then 2 else 0))),
     Bytes (w_u64 (cs_block sb)), Bytes (replicate UUID_SIZE 0), Bytes (w_u64 CACHE_MAGIC),
     Bytes (w_u32 (cs_version sb)),
     (if length (cs_policy_name sb) \<le> POLICY_NAME_SIZE then
        Bytes (cs_policy_name sb @ replicate (POLICY_NAME_SIZE - length (cs_policy_name sb)) 0)
      else PanicHere),
     Bytes (w_u32 (cs_policy_hint_size sb)), Bytes (cs_metadata_sm_root sb),
     Bytes (w_u64 (cs_mapping_root sb)), Bytes (w_u64 (cs_hint_root sb)),
     Bytes (w_u64 (cs_discard_root sb)), Bytes (w_u64 (cs_discard_block_size sb)),
     Bytes (w_u64 (cs_discard_nr_blocks sb)), Bytes (w_u32 (cs_data_block_size sb)),
     Bytes (w_u32 METADATA_SECTORS), Bytes (w_u32 (cs_cache_blocks sb)),
     Bytes (w_u32 (cs_compat_flags sb)), Bytes (w_u32 (cs_compat_ro_flags sb)),
     Bytes (w_u32 (cs_incompat_flags sb)), Bytes (w_u32 (cs_read_hits sb)),
     Bytes (w_u32 (cs_read_misses sb)), Bytes (w_u32 (cs_write_hits sb)),
     Bytes (w_u32 (cs_write_misses sb)),
     idx_u32 (cs_policy_version sb) 0, idx_u32 (cs_policy_version sb) 1,
     idx_u32 (cs_policy_version sb) 2] @
     (case cs_dirty_root sb of Some r \<Rightarrow> [Bytes (w_u64 r)] | None \<Rightarrow> [])"

definition cache_read_superblock ::
    "(bytes \<Rightarrow> u32) \<Rightarrow> engine \<Rightarrow> u64 \<Rightarrow> (sb_error, cache_superblock) result" where
  "cache_read_superblock crc32c = read_sb crc32c BT_CACHE_SUPERBLOCK cache_unpack"

definition cache_write_superblock :: "(bytes \<Rightarrow> u32) \<Rightarrow> engine \<Rightarrow> u64 \<Rightarrow> cache_superblock \<Rightarrow>
    (sb_error, unit) result \<times> engine" where
  "cache_write_superblock crc32c = write_sb crc32c BT_CACHE_SUPERBLOCK cache_pack"

definition cache_sb_valid :: "cache_superblock \<Rightarrow> bool" where
  "cache_sb_valid sb \<longleftrightarrow> length (cs_metadata_sm_root sb) = SPACE_MAP_ROOT_SIZE \<and>
     length (cs_policy_name sb) \<le> POLICY_NAME_SIZE \<and> 0 \<notin> set (cs_policy_name sb) \<and>
     length (cs_policy_version sb) = 3"

text \<open>What the version makes of the dirty root: version 1 has none, later versions always have one.\<close>

definition cache_sb_norm :: "cache_superblock \<Rightarrow> cache_superblock" where
  "cache_sb_norm sb = sb\<lparr>cs_dirty_root :=
     (if 2 \<le> cs_version sb then Some (case cs_dirty_root sb of None \<Rightarrow> 0 | Some r \<Rightarrow> r) else None)\<rparr>"

lemma takeWhile_padded: "0 \<notin> set xs \<Longrightarrow> takeWhile (\<lambda>c. c \<noteq> 0) (xs @ replicate n (0 :: u8)) = xs"
  by (induction xs) (auto simp: takeWhile_replicate)

lemma p_take_padded:
  "length a \<le> n \<Longrightarrow> p_take n (a @ replicate (n - length a) x @ r) = Some (r, a @ replicate (n - length a) x)"
  using p_take_append [of "a @ replicate (n - length a) x" n r] by simp

lemma list3: "length xs = 3 \<longleftrightarrow> (\<exists>a b c. xs = [a, b, c])"
  by (auto simp: numeral_3_eq_3 length_Suc_conv)

lemma flag_bits:
  "((if p then 1 else 0) OR (if q then 2 else 0 :: u32)) AND 1 \<noteq> 0 \<longleftrightarrow> p"
  "((if p then 1 else 0) OR (if q then 2 else 0 :: u32)) AND 2 \<noteq> 0 \<longleftrightarrow> q"
  by (cases p; cases q; simp)+

lemma zeros_u64: "8 \<le> n \<Longrightarrow> le_u64 (replicate n 0) = Some (replicate (n - 8) 0, 0)"
  using le_u64_w [of 0 "replicate (n - 8) 0"] by (simp add: w_zero flip: replicate_add)

interpretation cache: superblock_format BT_CACHE_SUPERBLOCK cache_pack cache_unpack cache_sb_valid cache_sb_norm
proof unfold_locales
  fix sb and c :: bytes assume v: "cache_sb_valid sb" and c: "length c = 4"
  obtain x where x: "\<And>r. le_u32 (c @ r) = Some (r, x)" using le_u32_any [OF c] by blast
  obtain v1 v2 v3 where v3: "cs_policy_version sb = [v1, v2, v3]"
    using v by (auto simp: cache_sb_valid_def list3)
  show "\<exists>r. cache_unpack (c @ drop 4 (chunks_bytes (cache_pack sb)) @
        replicate (BLOCK_SIZE - length (chunks_bytes (cache_pack sb))) 0) = Some (r, cache_sb_norm sb)"
    using v x v3
    by (cases "cs_dirty_root sb"; cases "2 \<le> cs_version sb")
       (simp_all add: cache_pack_def cache_unpack_def cache_sb_valid_def cache_sb_norm_def UUID_SIZE_def
         POLICY_NAME_SIZE_def SPACE_MAP_ROOT_SIZE_def BLOCK_SIZE_def idx_u32_def flag_bits
         takeWhile_padded p_take_padded zeros_u64)
next
  fix sb assume v: "cache_sb_valid sb"
  then show "PanicHere \<notin> set (cache_pack sb) \<and> 4 \<le> length (chunks_bytes (cache_pack sb)) \<and>
      length (chunks_bytes (cache_pack sb)) \<le> BLOCK_SIZE"
    by (auto simp: cache_pack_def cache_sb_valid_def SPACE_MAP_ROOT_SIZE_def UUID_SIZE_def BLOCK_SIZE_def
        POLICY_NAME_SIZE_def idx_u32_def split: option.splits)
qed simp

section \<open>Era\<close>

definition ERA_MAGIC :: u64 where "ERA_MAGIC = 0x7EC1077B"

record era_superblock =
  es_clean_shutdown :: bool
  es_block :: u64
  es_version :: u32
  es_metadata_sm_root :: bytes
  es_data_block_size :: u32
  es_nr_blocks :: u32
  es_current_era :: u32
  es_current_writeset :: writeset
  es_writeset_tree_root :: u64
  es_era_array_root :: u64
  es_metadata_snap :: u64

definition era_unpack :: "era_superblock parser" where
  "era_unpack data = do {
     (i, csum) \<leftarrow> le_u32 data;
     (i, flags) \<leftarrow> le_u32 i;
     (i, block) \<leftarrow> le_u64 i;
     (i, uuid) \<leftarrow> p_take 16 i;
     (i, magic) \<leftarrow> le_u64 i;
     (i, version) \<leftarrow> le_u32 i;
     (i, metadata_sm_root) \<leftarrow> p_take SPACE_MAP_ROOT_SIZE i;
     (i, data_block_size) \<leftarrow> le_u32 i;
     (i, metadata_block_size) \<leftarrow> le_u32 i;
     (i, nr_blocks) \<leftarrow> le_u32 i;
     (i, current_era) \<leftarrow> le_u32 i;
     (i, nr_bits) \<leftarrow> le_u32 i;
     (i, root) \<leftarrow> le_u64 i;
     (i, writeset_tree_root) \<leftarrow> le_u64 i;
     (i, era_array_root) \<leftarrow> le_u64 i;
     (i, metadata_snap) \<leftarrow> le_u64 i;
     Some (i, \<lparr>es_clean_shutdown = flags AND 1 \<noteq> 0, es_block = block, es_version = version,
       es_metadata_sm_root = metadata_sm_root, es_data_block_size = data_block_size,
       es_nr_blocks = nr_blocks, es_current_era = current_era,
       es_current_writeset = \<lparr>ws_nr_bits = nr_bits, ws_root = root\<rparr>,
       es_writeset_tree_root = writeset_tree_root, es_era_array_root = era_array_root,
       es_metadata_snap = metadata_snap\<rparr>) }"

definition era_pack :: "era_superblock \<Rightarrow> chunk list" where
  "era_pack sb = [Bytes (w_u32 0), Bytes (w_u32 (if es_clean_shutdown sb then 0 OR 1 else 0)),
     Bytes (w_u64 (es_block sb)), Bytes (replicate UUID_SIZE 0), Bytes (w_u64 ERA_MAGIC),
     Bytes (w_u32 (es_version sb)), Bytes (es_metadata_sm_root sb),
     Bytes (w_u32 (es_data_block_size sb)), Bytes (w_u32 METADATA_SECTORS),
     Bytes (w_u32 (es_nr_blocks sb)), Bytes (w_u32 (es_current_era sb)),
     Bytes (w_u32 (ws_nr_bits (es_current_writeset sb))), Bytes (w_u64 (ws_root (es_current_writeset sb))),
     Bytes (w_u64 (es_writeset_tree_root sb)), Bytes (w_u64 (es_era_array_root sb)),
     Bytes (w_u64 (es_metadata_snap sb))]"

definition era_read_superblock ::
    "(bytes \<Rightarrow> u32) \<Rightarrow> engine \<Rightarrow> u64 \<Rightarrow> (sb_error, era_superblock) result" where
  "era_read_superblock crc32c = read_sb crc32c BT_ERA_SUPERBLOCK era_unpack"

definition era_read_superblock_snap :: "(bytes \<Rightarrow> u32) \<Rightarrow> engine \<Rightarrow> (sb_error, era_superblock) result" where
  "era_read_superblock_snap crc32c e =
    bindr (era_read_superblock crc32c e SUPERBLOCK_LOCATION) (\<lambda>actual_sb.
    if es_metadata_snap actual_sb = 0 then Err NoMetadataSnap
    else era_read_superblock crc32c e (es_metadata_snap actual_sb))"

definition era_write_superblock :: "(bytes \<Rightarrow> u32) \<Rightarrow> engine \<Rightarrow> u64 \<Rightarrow> era_superblock \<Rightarrow>
    (sb_error, unit) result \<times> engine" where
  "era_write_superblock crc32c = write_sb crc32c BT_ERA_SUPERBLOCK era_pack"

definition era_sb_valid :: "era_superblock \<Rightarrow> bool" where
  "era_sb_valid sb \<longleftrightarrow> length (es_metadata_sm_root sb) = SPACE_MAP_ROOT_SIZE"

interpretation era: superblock_format BT_ERA_SUPERBLOCK era_pack era_unpack era_sb_valid "\<lambda>sb. sb"
proof unfold_locales
  fix sb and c :: bytes assume v: "era_sb_valid sb" and c: "length c = 4"
  have f: "(if es_clean_shutdown sb then 0 OR 1 else 0 :: u32) = of_bool (es_clean_shutdown sb)" by simp
  have b: "(of_bool p AND 1 \<noteq> (0 :: u32)) = p" for p by simp
  obtain x where x: "\<And>r. le_u32 (c @ r) = Some (r, x)" using le_u32_any [OF c] by blast
  show "\<exists>r. era_unpack (c @ drop 4 (chunks_bytes (era_pack sb)) @
        replicate (BLOCK_SIZE - length (chunks_bytes (era_pack sb))) 0) = Some (r, sb)"
    using v x unfolding era_pack_def f
    by (simp add: era_unpack_def era_sb_valid_def UUID_SIZE_def b)
qed (auto simp: era_pack_def era_sb_valid_def SPACE_MAP_ROOT_SIZE_def UUID_SIZE_def BLOCK_SIZE_def)

section \<open>Properties\<close>

text \<open>C19: A thin superblock with space map roots of the right size, written to a device with at least one block, is
  read back exactly, whatever location the writer was given and whatever the CRC; no other block changes.\<close>

theorem thin_superblock_roundtrip:
  assumes "length (ts_data_sm_root sb) = 128" "length (ts_metadata_sm_root sb) = 128" "0 < en_nr_blocks e"
  shows "\<exists>e'. thin_write_superblock crc32c e loc sb = (Ok (), e') \<and>
    thin_read_superblock crc32c e' SUPERBLOCK_LOCATION = Ok sb \<and>
    (\<forall>l. l \<noteq> SUPERBLOCK_LOCATION \<longrightarrow> engine_read e' l = engine_read e l)"
proof -
  have "thin_sb_valid sb" using assms(1,2) by (simp add: thin_sb_valid_def SPACE_MAP_ROOT_SIZE_def)
  from thin.write_then_read [OF this assms(3), of crc32c loc] show ?thesis
    unfolding thin_write_superblock_def thin_read_superblock_def SUPERBLOCK_LOCATION_def by metis
qed

theorem thin_superblock_roundtrip_witness:
  "\<exists>e'. thin_write_superblock (\<lambda>_. 0) (engine_new (\<lambda>_. []) 16) 5
      \<lparr>ts_needs_check = True, ts_block = 0, ts_version = 2, ts_time = 3, ts_transaction_id = 4,
        ts_metadata_snap = 0, ts_data_sm_root = replicate 128 1, ts_metadata_sm_root = replicate 128 2,
        ts_mapping_root = 7, ts_details_root = 8, ts_data_block_size = 128, ts_nr_metadata_blocks = 16\<rparr> = (Ok (), e')"
  using thin_superblock_roundtrip [of "\<lparr>ts_needs_check = True, ts_block = 0, ts_version = 2, ts_time = 3,
        ts_transaction_id = 4, ts_metadata_snap = 0, ts_data_sm_root = replicate 128 1,
        ts_metadata_sm_root = replicate 128 2, ts_mapping_root = 7, ts_details_root = 8,
        ts_data_block_size = 128, ts_nr_metadata_blocks = 16\<rparr>" "engine_new (\<lambda>_. []) 16" "\<lambda>_. 0" 5]
  by (auto simp: engine_new_def)

text \<open>C29: A cache superblock with a space map root of 128 bytes, a policy name of at most 16 non-zero bytes and a
  version of three numbers is read back as it was written, up to the dirty root: version 1 loses it,
  later versions read a missing one as zero.\<close>

theorem cache_superblock_roundtrip:
  assumes "length (cs_metadata_sm_root sb) = 128" "length (cs_policy_name sb) \<le> 16"
    "0 \<notin> set (cs_policy_name sb)" "length (cs_policy_version sb) = 3" "0 < en_nr_blocks e"
  shows "\<exists>e'. cache_write_superblock crc32c e loc sb = (Ok (), e') \<and>
    cache_read_superblock crc32c e' SUPERBLOCK_LOCATION = Ok (sb\<lparr>cs_dirty_root :=
      (if 2 \<le> cs_version sb then Some (case cs_dirty_root sb of None \<Rightarrow> 0 | Some r \<Rightarrow> r) else None)\<rparr>) \<and>
    (\<forall>l. l \<noteq> SUPERBLOCK_LOCATION \<longrightarrow> engine_read e' l = engine_read e l)"
proof -
  have "cache_sb_valid sb"
    using assms by (simp add: cache_sb_valid_def SPACE_MAP_ROOT_SIZE_def POLICY_NAME_SIZE_def)
  from cache.write_then_read [OF this assms(5), of crc32c loc] show ?thesis
    unfolding cache_write_superblock_def cache_read_superblock_def SUPERBLOCK_LOCATION_def cache_sb_norm_def
    by metis
qed

theorem cache_superblock_roundtrip_witness:
  "\<exists>e'. cache_write_superblock (\<lambda>_. 0) (engine_new (\<lambda>_. []) 16) 0
      \<lparr>cs_clean_shutdown = True, cs_needs_check = False, cs_block = 0, cs_version = 2,
        cs_policy_name = [115, 109, 113], cs_policy_version = [2, 0, 0], cs_policy_hint_size = 4,
        cs_metadata_sm_root = replicate 128 0, cs_mapping_root = 1, cs_dirty_root = None, cs_hint_root = 2,
        cs_discard_root = 3, cs_discard_block_size = 4, cs_discard_nr_blocks = 5, cs_data_block_size = 128,
        cs_cache_blocks = 64, cs_compat_flags = 0, cs_compat_ro_flags = 0, cs_incompat_flags = 0,
        cs_read_hits = 1, cs_read_misses = 2, cs_write_hits = 3, cs_write_misses = 4\<rparr> = (Ok (), e')"
  using cache_superblock_roundtrip [of "\<lparr>cs_clean_shutdown = True, cs_needs_check = False, cs_block = 0, cs_version = 2,
        cs_policy_name = [115, 109, 113], cs_policy_version = [2, 0, 0], cs_policy_hint_size = 4,
        cs_metadata_sm_root = replicate 128 0, cs_mapping_root = 1, cs_dirty_root = None, cs_hint_root = 2,
        cs_discard_root = 3, cs_discard_block_size = 4, cs_discard_nr_blocks = 5, cs_data_block_size = 128,
        cs_cache_blocks = 64, cs_compat_flags = 0, cs_compat_ro_flags = 0, cs_incompat_flags = 0,
        cs_read_hits = 1, cs_read_misses = 2, cs_write_hits = 3, cs_write_misses = 4\<rparr>"
      "engine_new (\<lambda>_. []) 16" "\<lambda>_. 0" 0]
  by (auto simp: engine_new_def)

text \<open>An era superblock with a space map root of the right size is read back exactly from the block it was
  written to; the other blocks do not change.\<close>

theorem era_superblock_roundtrip:
  assumes "length (es_metadata_sm_root sb) = 128" "0 < en_nr_blocks e"
  shows "\<exists>e'. era_write_superblock crc32c e loc sb = (Ok (), e') \<and>
    era_read_superblock crc32c e' SUPERBLOCK_LOCATION = Ok sb \<and>
    (\<forall>l. l \<noteq> SUPERBLOCK_LOCATION \<longrightarrow> engine_read e' l = engine_read e l)"
proof -
  have "era_sb_valid sb" using assms(1) by (simp add: era_sb_valid_def SPACE_MAP_ROOT_SIZE_def)
  from era.write_then_read [OF this assms(2), of crc32c loc] show ?thesis
    unfolding era_write_superblock_def era_read_superblock_def SUPERBLOCK_LOCATION_def by metis
qed

theorem era_superblock_roundtrip_witness:
  "\<exists>e'. era_write_superblock (\<lambda>_. 0) (engine_new (\<lambda>_. []) 16) 0
      \<lparr>es_clean_shutdown = True, es_block = 0, es_version = 1, es_metadata_sm_root = replicate 128 0,
        es_data_block_size = 128, es_nr_blocks = 64, es_current_era = 3,
        es_current_writeset = \<lparr>ws_nr_bits = 64, ws_root = 9\<rparr>, es_writeset_tree_root = 10,
        es_era_array_root = 11, es_metadata_snap = 0\<rparr> = (Ok (), e')"
  using era_superblock_roundtrip [of "\<lparr>es_clean_shutdown = True, es_block = 0, es_version = 1,
        es_metadata_sm_root = replicate 128 0, es_data_block_size = 128, es_nr_blocks = 64, es_current_era = 3,
        es_current_writeset = \<lparr>ws_nr_bits = 64, ws_root = 9\<rparr>, es_writeset_tree_root = 10,
        es_era_array_root = 11, es_metadata_snap = 0\<rparr>" "engine_new (\<lambda>_. []) 16" "\<lambda>_. 0" 0]
  by (auto simp: engine_new_def)

text \<open>Whatever \<open>read_superblock_snap\<close> of the thin metadata returns was read from the block that the
  superblock at location zero names as its metadata snapshot, and both blocks carry the checksum of a
  thin superblock; a superblock without a snapshot is an error.\<close>

theorem thin_superblock_snap_spec:
  "case thin_read_superblock_snap crc32c e of
     Ok sb \<Rightarrow> \<exists>main. thin_read_superblock crc32c e SUPERBLOCK_LOCATION = Ok main \<and> ts_metadata_snap main \<noteq> 0 \<and>
       thin_read_superblock crc32c e (ts_metadata_snap main) = Ok sb \<and> ts_metadata_snap main < en_nr_blocks e \<and>
       metadata_block_type crc32c (en_data e (ts_metadata_snap main)) = BT_THIN_SUPERBLOCK
   | Err NoMetadataSnap \<Rightarrow> \<exists>main. thin_read_superblock crc32c e SUPERBLOCK_LOCATION = Ok main \<and> ts_metadata_snap main = 0
   | Err _ \<Rightarrow> True
   | Panic \<Rightarrow> False"
proof -
  have no_snap: "thin_read_superblock crc32c e l \<noteq> Err NoMetadataSnap" "thin_read_superblock crc32c e l \<noteq> Panic" for l
    by (auto simp: thin_read_superblock_def read_sb_def map_err_def engine_read_def split: option.splits)
  have read: "sb_read = Ok sb \<Longrightarrow> sb_read = thin_read_superblock crc32c e l \<Longrightarrow>
      l < en_nr_blocks e \<and> metadata_block_type crc32c (en_data e l) = BT_THIN_SUPERBLOCK" for sb_read sb l
    using thin.read_checked [of crc32c e l] by (auto simp: thin_read_superblock_def)
  show ?thesis
  proof (cases "thin_read_superblock crc32c e SUPERBLOCK_LOCATION")
    case (Ok main)
    show ?thesis
    proof (cases "ts_metadata_snap main = 0")
      case False
      let ?r = "thin_read_superblock crc32c e (ts_metadata_snap main)"
      have "thin_read_superblock_snap crc32c e = ?r"
        using Ok False by (simp add: thin_read_superblock_snap_def)
      with Ok False no_snap [of "ts_metadata_snap main"] read [OF _ refl, of "ts_metadata_snap main"] show ?thesis
        by (cases ?r) (auto split: sb_error.splits)
    qed (use Ok in \<open>simp add: thin_read_superblock_snap_def\<close>)
  next
    case (Err x)
    with no_snap show ?thesis by (cases x) (auto simp: thin_read_superblock_snap_def)
  qed (use no_snap in simp)
qed

end
