(* ===== verification/Btree_Node.thy ===== *)
theory Btree_Node
  imports Io_Engine
begin

text \<open>
  \<open>src/pdata/btree.rs\<close>: the nodes of the on-disk btrees, their encoding and the checks the tools make
  when they read one; and the error values of \<open>src/pdata/btree_error.rs\<close>. The values of a leaf are of any
  type with a codec.
\<close>

section \<open>Errors\<close>

record key_range =
  kr_start :: "u64 option"
  kr_end :: "u64 option"

datatype node_error = IoError | NotANode | ChecksumError | BlockNrMismatch | ValueSizeMismatch
  | MaxEntriesTooLarge | MaxEntriesNotDivisible | NumEntriesTooLarge | NumEntriesTooSmall
  | KeysOutOfOrder | IncompleteData

text \<open>The messages of \<open>ValueError\<close> and \<open>ContextError\<close> are strings of the source.\<close>

datatype btree_error = NodeError node_error | ValueError string | ContextError string
  | KeyContext key_range btree_error | Aggregate "btree_error list" | PathError "u64 list" btree_error

definition node_err :: "u64 list \<Rightarrow> node_error \<Rightarrow> btree_error" where
  "node_err path e = PathError path (NodeError e)"

definition io_err :: "u64 list \<Rightarrow> btree_error" where
  "io_err path = PathError path (NodeError IoError)"

definition context_err :: "u64 list \<Rightarrow> string \<Rightarrow> btree_error" where
  "context_err path msg = PathError path (ContextError msg)"

definition value_err :: "string \<Rightarrow> btree_error" where
  "value_err msg = ValueError msg"

definition aggregate_error :: "btree_error list \<Rightarrow> btree_error" where
  "aggregate_error rs = Aggregate rs"

definition keys_context :: "btree_error \<Rightarrow> key_range \<Rightarrow> btree_error" where
  "keys_context e keys = KeyContext keys e"

section \<open>Nodes\<close>

definition NODE_HEADER_SIZE :: nat where "NODE_HEADER_SIZE = 32"
definition INTERNAL_NODE :: u32 where "INTERNAL_NODE = 1"
definition LEAF_NODE :: u32 where "LEAF_NODE = 2"

record node_header =
  nh_block :: u64
  nh_is_leaf :: bool
  nh_nr_entries :: u32
  nh_max_entries :: u32
  nh_value_size :: u32

definition node_header_unpack :: "node_header parser" where
  "node_header_unpack data = do {
     (i, csum) \<leftarrow> le_u32 data;
     (i, flags) \<leftarrow> le_u32 i;
     (i, block) \<leftarrow> le_u64 i;
     (i, nr_entries) \<leftarrow> le_u32 i;
     (i, max_entries) \<leftarrow> le_u32 i;
     (i, value_size) \<leftarrow> le_u32 i;
     (i, padding) \<leftarrow> le_u32 i;
     Some (i, \<lparr>nh_block = block, nh_is_leaf = (flags = LEAF_NODE), nh_nr_entries = nr_entries,
               nh_max_entries = max_entries, nh_value_size = value_size\<rparr>) }"

definition node_header_pack :: "node_header \<Rightarrow> bytes" where
  "node_header_pack h = w_u32 0 @ w_u32 (if nh_is_leaf h then LEAF_NODE else INTERNAL_NODE) @
     w_u64 (nh_block h) @ w_u32 (nh_nr_entries h) @ w_u32 (nh_max_entries h) @
     w_u32 (nh_value_size h) @ w_u32 0"

datatype 'v node = Internal node_header "u64 list" "u64 list" | Leaf node_header "u64 list" "'v list"

fun get_header :: "'v node \<Rightarrow> node_header" where
  "get_header (Internal h _ _) = h"
| "get_header (Leaf h _ _) = h"

fun get_keys :: "'v node \<Rightarrow> u64 list" where
  "get_keys (Internal _ ks _) = ks"
| "get_keys (Leaf _ ks _) = ks"

fun set_block :: "'v node \<Rightarrow> u64 \<Rightarrow> 'v node" where
  "set_block (Internal h ks vs) b = Internal (h\<lparr>nh_block := b\<rparr>) ks vs"
| "set_block (Leaf h ks vs) b = Leaf (h\<lparr>nh_block := b\<rparr>) ks vs"

text \<open>\<open>keys.windows(2).all(|w| w[0] < w[1])\<close>\<close>

fun keys_ascending :: "u64 list \<Rightarrow> bool" where
  "keys_ascending (a # b # ks) \<longleftrightarrow> a < b \<and> keys_ascending (b # ks)"
| "keys_ascending _ \<longleftrightarrow> True"

definition convert_result :: "(bytes \<times> 'a) option \<Rightarrow> (node_error, bytes \<times> 'a) result" where
  "convert_result r = (case r of None \<Rightarrow> Err IncompleteData | Some x \<Rightarrow> Ok x)"

definition ensure_node :: "bool \<Rightarrow> node_error \<Rightarrow> (node_error, unit) result" where
  "ensure_node b e = (if b then Ok () else Err e)"

definition divisible_by_3 :: "u32 \<Rightarrow> bool" where
  "divisible_by_3 n \<longleftrightarrow> n mod 3 = 0"

text \<open>The sum \<open>header.value_size + 8\<close> and the product \<open>nr_free * 8\<close> are of \<open>u32\<close>: they wrap.\<close>

definition unpack_node_raw :: "'v codec \<Rightarrow> bytes \<Rightarrow> bool \<Rightarrow> bool \<Rightarrow> (node_error, 'v node) result" where
  "unpack_node_raw c data ignore_non_fatal is_root =
    bindr (convert_result (node_header_unpack data)) (\<lambda>(i, header).
    bindr (ensure_node (\<not> (nh_is_leaf header \<and> nh_value_size header \<noteq> disk_size c)) ValueSizeMismatch) (\<lambda>_.
    let elt_size = nh_value_size header + 8 in
    bindr (ensure_node (\<not> BLOCK_SIZE < unat elt_size * unat (nh_max_entries header) + NODE_HEADER_SIZE)
      MaxEntriesTooLarge) (\<lambda>_.
    bindr (ensure_node (\<not> nh_max_entries header < nh_nr_entries header) NumEntriesTooLarge) (\<lambda>_.
    bindr (if ignore_non_fatal then Ok () else
        bindr (ensure_node (divisible_by_3 (nh_max_entries header)) MaxEntriesNotDivisible) (\<lambda>_.
          if is_root then Ok ()
          else let min = nh_max_entries header div 3 in
            ensure_node (\<not> nh_nr_entries header < min) NumEntriesTooSmall)) (\<lambda>_.
    bindr (convert_result (p_count le_u64 (unat (nh_nr_entries header)) i)) (\<lambda>(i, keys).
    bindr (ensure_node (keys_ascending keys) KeysOutOfOrder) (\<lambda>_.
    let nr_free = nh_max_entries header - nh_nr_entries header in
    bindr (convert_result (p_take (unat (nr_free * 8)) i)) (\<lambda>(i, padding).
    if nh_is_leaf header then
      mapr (\<lambda>(i, values). Leaf header keys values)
        (convert_result (p_count (unpack_v c) (unat (nh_nr_entries header)) i))
    else
      mapr (\<lambda>(i, values). Internal header keys values)
        (convert_result (p_count le_u64 (unat (nh_nr_entries header)) i))))))))))"

definition unpack_node ::
    "'v codec \<Rightarrow> u64 list \<Rightarrow> bytes \<Rightarrow> bool \<Rightarrow> bool \<Rightarrow> (btree_error, 'v node) result" where
  "unpack_node c path data ignore_non_fatal is_root =
    (case unpack_node_raw c data ignore_non_fatal is_root of
       Ok n \<Rightarrow> Ok n | Err e \<Rightarrow> Err (node_err path e) | Panic \<Rightarrow> Panic)"

fun pack_node :: "'v codec \<Rightarrow> 'v node \<Rightarrow> bytes" where
  "pack_node c (Internal header keys values) = node_header_pack header @ concat (map w_u64 keys) @
     concat (replicate (unat (nh_max_entries header) - length keys) (w_u64 0)) @
     concat (map w_u64 values)"
| "pack_node c (Leaf header keys values) = node_header_pack header @ concat (map w_u64 keys) @
     concat (replicate (unat (nh_max_entries header) - length keys) (w_u64 0)) @
     concat (map (pack_v c) values)"

definition calc_max_entries :: "'v codec \<Rightarrow> nat" where
  "calc_max_entries c =
    (let elt_size = 8 + unat (disk_size c); total = (BLOCK_SIZE - 32) div elt_size in total div 3 * 3)"

definition verify_checksum :: "(bytes \<Rightarrow> u32) \<Rightarrow> bytes \<Rightarrow> (node_error, unit) result" where
  "verify_checksum crc32c data = (case metadata_block_type crc32c data of
     BT_NODE \<Rightarrow> Ok () | BT_UNKNOWN \<Rightarrow> Err ChecksumError | _ \<Rightarrow> Err NotANode)"

definition check_and_unpack_node :: "(bytes \<Rightarrow> u32) \<Rightarrow> 'v codec \<Rightarrow> block \<Rightarrow> bool \<Rightarrow> bool \<Rightarrow>
    (node_error, 'v node) result" where
  "check_and_unpack_node crc32c c b ignore_non_fatal is_root =
    bindr (verify_checksum crc32c (snd b)) (\<lambda>_.
    bindr (unpack_node_raw c (snd b) ignore_non_fatal is_root) (\<lambda>node.
    if nh_block (get_header node) \<noteq> fst b then Err BlockNrMismatch else Ok node))"

section \<open>What a reader accepts\<close>

lemma keys_ascending_sorted: "keys_ascending ks \<longleftrightarrow> sorted_wrt (<) ks"
proof (induction ks rule: keys_ascending.induct)
  case (1 a b ks)
  then show ?case by (auto intro: less_trans)
qed auto

lemma p_count_length: "p_count p n i = Some (r, xs) \<Longrightarrow> length xs = n"
  by (induction n arbitrary: i xs) (auto split: Option.bind_splits)

lemma ensure_node_Ok [simp]: "ensure_node b e = Ok () \<longleftrightarrow> b"
  by (simp add: ensure_node_def)

lemma convert_result_Ok [simp]: "convert_result r = Ok x \<longleftrightarrow> r = Some x"
  by (auto simp: convert_result_def split: option.splits)

lemma no_panic_simps [simp]: "ensure_node b e \<noteq> Panic" "convert_result r \<noteq> Panic"
  by (simp_all add: ensure_node_def convert_result_def split: option.splits)

definition node_ok :: "'v codec \<Rightarrow> 'v node \<Rightarrow> bool" where
  "node_ok c n \<longleftrightarrow> (let h = get_header n in
     length (get_keys n) = unat (nh_nr_entries h) \<and> nh_nr_entries h \<le> nh_max_entries h \<and>
     sorted_wrt (<) (get_keys n) \<and> unat (nh_value_size h + 8) * unat (nh_max_entries h) + 32 \<le> 4096 \<and>
     (case n of Internal _ _ vs \<Rightarrow> \<not> nh_is_leaf h \<and> length vs = length (get_keys n)
      | Leaf _ _ vs \<Rightarrow> nh_is_leaf h \<and> nh_value_size h = disk_size c \<and> length vs = length (get_keys n)))"

definition node_strict :: "'v node \<Rightarrow> bool \<Rightarrow> bool" where
  "node_strict n is_root \<longleftrightarrow> (let h = get_header n in divisible_by_3 (nh_max_entries h) \<and>
     (is_root \<or> nh_max_entries h div 3 \<le> nh_nr_entries h))"

lemma unpack_node_raw_ok:
  assumes "unpack_node_raw c data ignore_non_fatal is_root = Ok n"
  shows "node_ok c n \<and> (ignore_non_fatal \<or> node_strict n is_root)"
  using assms unfolding unpack_node_raw_def Let_def
  by (auto simp: node_ok_def node_strict_def keys_ascending_sorted BLOCK_SIZE_def NODE_HEADER_SIZE_def
      Let_def not_less bindr_eq_Ok dest!: p_count_length split: if_splits)

lemma unpack_node_raw_no_panic: "unpack_node_raw c data ignore_non_fatal is_root \<noteq> Panic"
  unfolding unpack_node_raw_def Let_def
  by (auto simp: bindr_Panic split: if_splits)

section \<open>Writing and reading back\<close>

lemma length_node_header_pack [simp]: "length (node_header_pack h) = 32"
  by (simp add: node_header_pack_def)

lemma node_header_unpack_pack:
  assumes "length c = 4"
  shows "node_header_unpack (c @ drop 4 (node_header_pack h @ r)) = Some (r, h)"
proof -
  obtain x where x: "\<And>r. le_u32 (c @ r) = Some (r, x)"
    using assms by (simp add: le_u32_def p_num_def p_take_def)
  have f: "(if l then LEAF_NODE else INTERNAL_NODE) = LEAF_NODE \<longleftrightarrow> l" for l
    by (simp add: LEAF_NODE_def INTERNAL_NODE_def)
  show ?thesis by (simp add: node_header_pack_def node_header_unpack_def x f)
qed

lemma length_concat_replicate: "length (concat (replicate k (w_u64 x))) = 8 * k"
  by (induction k) simp_all

definition node_fits :: "'v codec \<Rightarrow> ('v \<Rightarrow> bool) \<Rightarrow> 'v node \<Rightarrow> bool" where
  "node_fits c valid n \<longleftrightarrow> node_ok c n \<and> unat (disk_size c) \<le> 4096 \<and>
     (case n of Internal h _ _ \<Rightarrow> nh_value_size h = 8 | Leaf _ _ vs \<Rightarrow> \<forall>v \<in> set vs. valid v)"

lemma node_fits_sizes:
  assumes "node_fits c valid n"
  defines "h \<equiv> get_header n"
  shows "unat (nh_value_size h + 8) = unat (nh_value_size h) + 8"
    "(unat (nh_value_size h) + 8) * unat (nh_max_entries h) \<le> 4064"
    "unat (nh_max_entries h) \<le> 508" "unat (nh_nr_entries h) \<le> unat (nh_max_entries h)"
    "unat ((nh_max_entries h - nh_nr_entries h) * 8) = 8 * (unat (nh_max_entries h) - unat (nh_nr_entries h))"
proof -
  have "unat (nh_value_size h) \<le> 4096"
    using assms by (cases n) (auto simp: node_fits_def node_ok_def Let_def h_def)
  then show vs: "unat (nh_value_size h + 8) = unat (nh_value_size h) + 8"
    by (intro trans [OF unat_plus_no_overflow]) simp_all
  have "unat (nh_value_size h + 8) * unat (nh_max_entries h) + 32 \<le> 4096"
    using assms by (simp add: node_fits_def node_ok_def Let_def h_def)
  then show m: "(unat (nh_value_size h) + 8) * unat (nh_max_entries h) \<le> 4064" by (simp add: vs)
  have "8 * unat (nh_max_entries h) \<le> (unat (nh_value_size h) + 8) * unat (nh_max_entries h)" by simp
  with m show max: "unat (nh_max_entries h) \<le> 508" by linarith
  have le: "nh_nr_entries h \<le> nh_max_entries h"
    using assms by (simp add: node_fits_def node_ok_def Let_def h_def)
  then show nr: "unat (nh_nr_entries h) \<le> unat (nh_max_entries h)" by (simp add: word_le_nat_alt)
  have d: "unat (nh_max_entries h - nh_nr_entries h) = unat (nh_max_entries h) - unat (nh_nr_entries h)"
    using le by (simp add: unat_sub)
  have "unat (w * 8) = 8 * unat w" if "unat w \<le> 508" for w :: u32
    using that by (simp add: unat_word_ariths)
  from this [of "nh_max_entries h - nh_nr_entries h"] max d
  show "unat ((nh_max_entries h - nh_nr_entries h) * 8) = 8 * (unat (nh_max_entries h) - unat (nh_nr_entries h))"
    by simp
qed

lemma node_bytes:
  assumes "value_codec c valid" "node_fits c valid n"
  obtains rest where "pack_node c n = node_header_pack (get_header n) @ concat (map w_u64 (get_keys n)) @
      concat (replicate (unat (nh_max_entries (get_header n)) - unat (nh_nr_entries (get_header n))) (w_u64 0)) @ rest"
    "length (pack_node c n) \<le> 4096"
    "\<And>r. case n of Internal h _ vs \<Rightarrow> p_count le_u64 (unat (nh_nr_entries h)) (rest @ r) = Some (r, vs)
      | Leaf h _ vs \<Rightarrow> p_count (unpack_v c) (unat (nh_nr_entries h)) (rest @ r) = Some (r, vs)"
proof -
  note sz = node_fits_sizes [OF assms(2)]
  let ?h = "get_header n"
  have len: "32 + 8 * unat (nh_nr_entries ?h) + 8 * (unat (nh_max_entries ?h) - unat (nh_nr_entries ?h)) +
      unat (nh_value_size ?h) * unat (nh_nr_entries ?h) \<le> 4096"
  proof -
    have "unat (nh_value_size ?h) * unat (nh_nr_entries ?h) \<le> unat (nh_value_size ?h) * unat (nh_max_entries ?h)"
      using sz(4) by (rule mult_le_mono2)
    with sz(2,4) show ?thesis unfolding add_mult_distrib by linarith
  qed
  show thesis
  proof (cases n)
    case (Internal h ks vs)
    have l: "length ks = unat (nh_nr_entries h)" "length vs = unat (nh_nr_entries h)" "nh_value_size h = 8"
      using assms(2) unfolding Internal by (simp_all add: node_fits_def node_ok_def Let_def)
    show thesis
      using len l by (intro that [of "concat (map w_u64 vs)"])
        (simp_all add: Internal length_concat_replicate)
  next
    case (Leaf h ks vs)
    have l: "length ks = unat (nh_nr_entries h)" "length vs = unat (nh_nr_entries h)"
      "nh_value_size h = disk_size c" "\<forall>v \<in> set vs. valid v"
      using assms(2) unfolding Leaf by (simp_all add: node_fits_def node_ok_def Let_def)
    note cp = value_codec.count_pack [OF assms(1) l(4)] value_codec.length_concat_pack [OF assms(1), of vs]
    show thesis
      using len l cp by (intro that [of "concat (map (pack_v c) vs)"])
        (simp_all add: Leaf length_concat_replicate)
  qed
qed

text \<open>The first four bytes of the block are the checksum, which the parser skips.\<close>

lemma unpack_pack_node:
  assumes "value_codec c valid" "node_fits c valid n" "ignore_non_fatal \<or> node_strict n is_root"
    and d: "drop 4 data = drop 4 (pack_node c n @ r)" "4 \<le> length data"
  shows "unpack_node_raw c data ignore_non_fatal is_root = Ok n"
proof -
  let ?h = "get_header n"
  note sz = node_fits_sizes [OF assms(2)]
  have ok: "node_ok c n" using assms(2) by (simp add: node_fits_def)
  obtain rest where rest: "pack_node c n = node_header_pack ?h @ concat (map w_u64 (get_keys n)) @
      concat (replicate (unat (nh_max_entries ?h) - unat (nh_nr_entries ?h)) (w_u64 0)) @ rest"
    "\<And>r. case n of Internal h _ vs \<Rightarrow> p_count le_u64 (unat (nh_nr_entries h)) (rest @ r) = Some (r, vs)
      | Leaf h _ vs \<Rightarrow> p_count (unpack_v c) (unat (nh_nr_entries h)) (rest @ r) = Some (r, vs)"
    using node_bytes [OF assms(1,2)] by blast
  let ?pad = "concat (replicate (unat (nh_max_entries ?h) - unat (nh_nr_entries ?h)) (w_u64 0))"
  have "data = take 4 data @ drop 4 (pack_node c n @ r)" "length (take 4 data) = 4"
    using d by (metis append_take_drop_id, simp)
  then have hdr: "node_header_unpack data = Some (concat (map w_u64 (get_keys n)) @ ?pad @ rest @ r, ?h)"
    using node_header_unpack_pack [of "take 4 data" ?h "concat (map w_u64 (get_keys n)) @ ?pad @ rest @ r"]
      rest(1) by (metis append_assoc)
  have pad: "p_take (unat ((nh_max_entries ?h - nh_nr_entries ?h) * 8)) (?pad @ x) = Some (x, ?pad)" for x
    using sz(5) by (intro p_take_append) (simp add: length_concat_replicate)
  have keys: "p_count le_u64 (unat (nh_nr_entries ?h)) (concat (map w_u64 (get_keys n)) @ x) = Some (x, get_keys n)" for x
    using ok by (intro p_count_u64) (simp add: node_ok_def Let_def)
  have checks: "unat (nh_value_size ?h + 8) * unat (nh_max_entries ?h) + NODE_HEADER_SIZE \<le> BLOCK_SIZE"
    "nh_nr_entries ?h \<le> nh_max_entries ?h" "keys_ascending (get_keys n)"
    using ok by (simp_all add: node_ok_def Let_def BLOCK_SIZE_def NODE_HEADER_SIZE_def keys_ascending_sorted)
  have strict: "(if ignore_non_fatal then Ok () else
      bindr (ensure_node (divisible_by_3 (nh_max_entries ?h)) MaxEntriesNotDivisible)
       (\<lambda>_. if is_root then Ok () else let min = nh_max_entries ?h div 3 in
          ensure_node (\<not> nh_nr_entries ?h < min) NumEntriesTooSmall)) = Ok ()"
    using assms(3) by (auto simp: node_strict_def Let_def ensure_node_def not_less)
  show ?thesis
    unfolding unpack_node_raw_def hdr convert_result_def option.case bindr.simps prod.case Let_def
    using checks rest(2) [of r] ok strict [unfolded Let_def] keys pad
    by (cases n) (auto simp: ensure_node_def mapr_def node_ok_def Let_def not_less not_le
        simp del: left_diff_distrib_numeral)
qed

section \<open>Properties\<close>

text \<open>C18: A well-formed node (keys strictly ascending, as many values as keys, the entries fitting in a block) packs
  into a zeroed block. With its checksum written it is read back exactly at the block number of its header,
  with all checks on where the node is at least a third full or the root; at any other block
  number it is refused. This holds for every value type whose codec keeps the contract.\<close>

theorem pack_node_roundtrip:
  assumes "value_codec c valid" "node_fits c valid n" "ignore_non_fatal \<or> node_strict n is_root"
  shows "\<exists>data block. cursor_write (replicate BLOCK_SIZE 0) (pack_node c n) = Ok data \<and>
    write_checksum crc32c data BT_NODE = Ok block \<and>
    check_and_unpack_node crc32c c (loc, block) ignore_non_fatal is_root =
      (if loc = nh_block (get_header n) then Ok n else Err BlockNrMismatch)"
proof -
  have l: "length (pack_node c n) \<le> 4096" using node_bytes [OF assms(1,2)] by blast
  let ?d = "pack_node c n @ replicate (4096 - length (pack_node c n)) 0"
  have d: "cursor_write (replicate BLOCK_SIZE 0) (pack_node c n) = Ok ?d"
    using l by (simp add: cursor_write_def BLOCK_SIZE_def)
  have "length ?d = BLOCK_SIZE" using l by (simp add: BLOCK_SIZE_def)
  then obtain b where b: "write_checksum crc32c ?d BT_NODE = Ok b" by (simp add: write_checksum_def)
  note t = write_checksum_type [OF b]
  have "unpack_node_raw c b ignore_non_fatal is_root = Ok n"
    using t by (intro unpack_pack_node [OF assms, where r = "replicate (4096 - length (pack_node c n)) 0"])
      (simp_all add: BLOCK_SIZE_def)
  then have "check_and_unpack_node crc32c c (loc, b) ignore_non_fatal is_root =
      (if loc = nh_block (get_header n) then Ok n else Err BlockNrMismatch)"
    using t(1) by (auto simp: check_and_unpack_node_def verify_checksum_def)
  with d b show ?thesis by blast
qed

theorem pack_node_roundtrip_witness:
  "\<exists>data block. cursor_write (replicate BLOCK_SIZE 0) (pack_node block_time_codec (Leaf
        \<lparr>nh_block = 5, nh_is_leaf = True, nh_nr_entries = 2, nh_max_entries = 252, nh_value_size = 8\<rparr>
        [3, 9] [\<lparr>bt_block = 100, bt_time = 1\<rparr>, \<lparr>bt_block = 101, bt_time = 2\<rparr>])) = Ok data \<and>
    write_checksum (\<lambda>_. 0) data BT_NODE = Ok block \<and>
    check_and_unpack_node (\<lambda>_. 0) block_time_codec (6, block) False True = Err BlockNrMismatch"
proof -
  let ?n = "Leaf \<lparr>nh_block = 5, nh_is_leaf = True, nh_nr_entries = 2, nh_max_entries = 252, nh_value_size = 8\<rparr>
        [3, 9] [\<lparr>bt_block = 100, bt_time = 1\<rparr>, \<lparr>bt_block = 101, bt_time = 2\<rparr>]"
  have "node_fits block_time_codec block_time_valid ?n"
    by (simp add: node_fits_def node_ok_def block_time_codec_def block_time_valid_def)
  moreover have "node_strict ?n True" by (simp add: node_strict_def divisible_by_3_def Let_def)
  ultimately show ?thesis
    using pack_node_roundtrip [OF block_timec.value_codec_axioms, of ?n False True "\<lambda>_. 0" 6] by auto
qed

text \<open>C31: Whatever bytes it is given, the node reader never panics, and a node it accepts has as many keys
  and as many values as its header says, no more than the maximum, in strictly ascending order of the keys; a leaf
  has the value size of its type; under the strict checks the node is the root or at least a third full.\<close>

theorem unpack_node_sound:
  "case unpack_node_raw c data ignore_non_fatal is_root of
     Ok n \<Rightarrow> length (get_keys n) = unat (nh_nr_entries (get_header n)) \<and>
       nh_nr_entries (get_header n) \<le> nh_max_entries (get_header n) \<and> sorted_wrt (<) (get_keys n) \<and>
       (case n of Internal h ks vs \<Rightarrow> \<not> nh_is_leaf h \<and> length vs = length ks
        | Leaf h ks vs \<Rightarrow> nh_is_leaf h \<and> length vs = length ks \<and> nh_value_size h = disk_size c) \<and>
       (ignore_non_fatal \<or> (is_root \<or> nh_max_entries (get_header n) div 3 \<le> nh_nr_entries (get_header n)))
   | Err _ \<Rightarrow> True
   | Panic \<Rightarrow> False"
proof (cases "unpack_node_raw c data ignore_non_fatal is_root")
  case (Ok n)
  from unpack_node_raw_ok [OF Ok] Ok show ?thesis
    by (cases n) (auto simp: node_ok_def node_strict_def Let_def)
qed (use unpack_node_raw_no_panic in auto)


end
