(* ===== verification/Btree_Path.thy ===== *)
theory Btree_Path
  imports Btree_Node Pack_VM
begin

text \<open>
  The rest of \<open>src/pdata/btree_error.rs\<close>: the ranges of keys a node is expected to hold and how the
  keys of an internal node split them, and the compressed form of the path to a node that the tools print and
  accept. The \<open>data_encoding\<close> crate's base 64 is a parameter, a record of the functions the code
  calls, with the laws \<open>base64_laws\<close>.
\<close>

section \<open>Key ranges\<close>

definition kr_new :: key_range where
  "kr_new = \<lparr>kr_start = None, kr_end = None\<rparr>"

definition kr_mem :: "u64 \<Rightarrow> key_range \<Rightarrow> bool" where
  "kr_mem k kr \<longleftrightarrow> (case kr_start kr of None \<Rightarrow> True | Some s \<Rightarrow> s \<le> k) \<and>
     (case kr_end kr of None \<Rightarrow> True | Some e \<Rightarrow> k < e)"

definition kr_split :: "key_range \<Rightarrow> u64 \<Rightarrow> (key_range \<times> key_range) option" where
  "kr_split kr n = (case (kr_start kr, kr_end kr) of
     (None, None) \<Rightarrow> Some (\<lparr>kr_start = None, kr_end = Some n\<rparr>, \<lparr>kr_start = Some n, kr_end = None\<rparr>)
   | (None, Some e) \<Rightarrow>
       if n < e then Some (\<lparr>kr_start = None, kr_end = Some n\<rparr>, \<lparr>kr_start = Some n, kr_end = Some e\<rparr>)
       else None
   | (Some s, None) \<Rightarrow>
       if s < n then Some (\<lparr>kr_start = Some s, kr_end = Some n\<rparr>, \<lparr>kr_start = Some n, kr_end = None\<rparr>)
       else None
   | (Some s, Some e) \<Rightarrow>
       if s < n \<and> n < e
       then Some (\<lparr>kr_start = Some s, kr_end = Some n\<rparr>, \<lparr>kr_start = Some n, kr_end = Some e\<rparr>)
       else None)"

definition kr_display :: "key_range \<Rightarrow> string" where
  "kr_display kr = (case (kr_start kr, kr_end kr) of
     (None, None) \<Rightarrow> ''[..]''
   | (None, Some e) \<Rightarrow> ''[..'' @ decimal (unat e) @ '']''
   | (Some s, None) \<Rightarrow> ''['' @ decimal (unat s) @ ''..]''
   | (Some s, Some e) \<Rightarrow> ''['' @ decimal (unat s) @ ''..'' @ decimal (unat e) @ '']'')"

definition split_one :: "u64 list \<Rightarrow> key_range \<Rightarrow> u64 \<Rightarrow> (btree_error, key_range \<times> key_range) result" where
  "split_one path kr k = (case kr_split kr k of
     None \<Rightarrow> Err (context_err path (''couldn't split key range '' @ kr_display kr @ '' at '' @ decimal (unat k)))
   | Some pair \<Rightarrow> Ok pair)"

fun split_loop :: "u64 list \<Rightarrow> key_range \<Rightarrow> u64 list \<Rightarrow> (btree_error, key_range list) result" where
  "split_loop path kr [] = Ok [kr]"
| "split_loop path kr (k # ks) =
    bindr (split_one path kr k) (\<lambda>(first, rest). mapr (\<lambda>krs. first # krs) (split_loop path rest ks))"

fun split_key_ranges :: "u64 list \<Rightarrow> key_range \<Rightarrow> u64 list \<Rightarrow> (btree_error, key_range list) result" where
  "split_key_ranges path kr [] = Err (context_err path ''split_key_ranges: no keys present'')"
| "split_key_ranges path kr (k # ks) =
    split_loop path \<lparr>kr_start = Some k, kr_end = kr_end kr\<rparr> ks"

lemma split_one_Ok:
  "split_one path \<lparr>kr_start = Some s, kr_end = e\<rparr> k = Ok (a, b) \<longleftrightarrow>
    s < k \<and> (case e of None \<Rightarrow> True | Some e \<Rightarrow> k < e) \<and>
    a = \<lparr>kr_start = Some s, kr_end = Some k\<rparr> \<and> b = \<lparr>kr_start = Some k, kr_end = e\<rparr>"
  by (cases e) (auto simp: split_one_def kr_split_def)

lemma split_loop_Ok:
  "split_loop path \<lparr>kr_start = Some s, kr_end = e\<rparr> ks = Ok krs \<longleftrightarrow>
    keys_ascending (s # ks) \<and> (ks \<noteq> [] \<longrightarrow> (case e of None \<Rightarrow> True | Some e \<Rightarrow> last ks < e)) \<and>
    krs = map2 (\<lambda>a b. \<lparr>kr_start = Some a, kr_end = b\<rparr>) (s # ks) (map Some ks @ [e])"
proof (induction ks arbitrary: s krs)
  case Nil
  then show ?case by auto
next
  case (Cons k ks)
  have mono: "k \<le> last (k # ks)" if "keys_ascending (k # ks)"
    using that unfolding keys_ascending_sorted by (cases ks rule: rev_cases) (auto simp: sorted_wrt_append)
  show ?case
  proof
    assume "split_loop path \<lparr>kr_start = Some s, kr_end = e\<rparr> (k # ks) = Ok krs"
    then obtain rest where "s < k" "case e of None \<Rightarrow> True | Some e \<Rightarrow> k < e"
      "split_loop path \<lparr>kr_start = Some k, kr_end = e\<rparr> ks = Ok rest"
      "krs = \<lparr>kr_start = Some s, kr_end = Some k\<rparr> # rest"
      by (auto simp: split_one_Ok)
    then show "keys_ascending (s # k # ks) \<and>
      (k # ks \<noteq> [] \<longrightarrow> (case e of None \<Rightarrow> True | Some e \<Rightarrow> last (k # ks) < e)) \<and>
      krs = map2 (\<lambda>a b. \<lparr>kr_start = Some a, kr_end = b\<rparr>) (s # k # ks) (map Some (k # ks) @ [e])"
      unfolding Cons.IH by (cases ks; cases e) auto
  next
    assume r: "keys_ascending (s # k # ks) \<and>
      (k # ks \<noteq> [] \<longrightarrow> (case e of None \<Rightarrow> True | Some e \<Rightarrow> last (k # ks) < e)) \<and>
      krs = map2 (\<lambda>a b. \<lparr>kr_start = Some a, kr_end = b\<rparr>) (s # k # ks) (map Some (k # ks) @ [e])"
    then have one: "split_one path \<lparr>kr_start = Some s, kr_end = e\<rparr> k =
        Ok (\<lparr>kr_start = Some s, kr_end = Some k\<rparr>, \<lparr>kr_start = Some k, kr_end = e\<rparr>)"
      using mono by (auto simp: split_one_Ok split: option.splits)
    from r have "split_loop path \<lparr>kr_start = Some k, kr_end = e\<rparr> ks =
        Ok (map2 (\<lambda>a b. \<lparr>kr_start = Some a, kr_end = b\<rparr>) (k # ks) (map Some ks @ [e]))"
      unfolding Cons.IH by (cases e) auto
    with one r show "split_loop path \<lparr>kr_start = Some s, kr_end = e\<rparr> (k # ks) = Ok krs"
      by (simp add: mapr_def)
  qed
qed

section \<open>Paths\<close>

record 't base64 =
  b64_encode :: "bytes \<Rightarrow> 't"
  b64_len :: "'t \<Rightarrow> nat"
  b64_decode_len :: "nat \<Rightarrow> nat option"
  b64_decode_mut :: "'t \<Rightarrow> bytes option"

text \<open>Decoding undoes encoding; the output buffer that is asked for has whole groups of three bytes.\<close>

definition base64_laws :: "'t base64 \<Rightarrow> bool" where
  "base64_laws b64 \<longleftrightarrow> (\<forall>bs.
     b64_decode_len b64 (b64_len b64 (b64_encode b64 bs)) = Some (3 * ((length bs + 2) div 3)) \<and>
     b64_decode_mut b64 (b64_encode b64 bs) = Some bs)"

definition encode_path_bytes :: "u64 list \<Rightarrow> (io_error, bytes) result" where
  "encode_path_bytes path =
    assertr (length path < 256)
     (if path \<noteq> [] \<and> hd path = 0 then
        let count = push_bit 1 (word_of_nat (length path) - 1 :: u8) in
        seq (Ok (w_u8 count)) (pack_u64s (tl path))
      else
        let count = push_bit 1 (word_of_nat (length path) :: u8) OR 1 in
        seq (Ok (w_u8 count)) (pack_u64s path))"

definition encode_node_path :: "'t base64 \<Rightarrow> u64 list \<Rightarrow> (io_error, 't) result" where
  "encode_node_path b64 path = mapr (b64_encode b64) (encode_path_bytes path)"

datatype path_error = BadBase64 | PathIo io_error

definition decode_path_bytes :: "bytes \<Rightarrow> (io_error, u64 list) result" where
  "decode_path_bytes input =
    bindr (r_num le_u8 input) (\<lambda>(count, input).
    let prepend_zero = (count AND 1 = 0); count = unat (drop_bit 1 count) in
    bindr
      (if count = 0 then Ok []
       else bindr (exec vm_new input [] (count * 8)) (\<lambda>(written, vm, input, output).
         assertr (written = count * 8) (mapr fst (unpack_u64s output count)))) (\<lambda>path.
    if prepend_zero then Ok (0 # path) else Ok path))"

text \<open>The buffer is 128 bytes: slicing it for a longer text panics.\<close>

definition decode_node_path :: "'t base64 \<Rightarrow> 't \<Rightarrow> (path_error, u64 list) result" where
  "decode_node_path b64 text =
    (case b64_decode_len b64 (b64_len b64 text) of None \<Rightarrow> Panic
     | Some n \<Rightarrow> assertr (n \<le> 128)
        (case b64_decode_mut b64 text of None \<Rightarrow> Err BadBase64
         | Some bs \<Rightarrow> (case decode_path_bytes (bs @ replicate (n - length bs) 0) of
             Ok p \<Rightarrow> Ok p | Err e \<Rightarrow> Err (PathIo e) | Panic \<Rightarrow> Panic)))"

subsection \<open>How long a packed path is\<close>

lemma pack_wide_length: "pack_wide t n = Ok bs \<Longrightarrow> length bs \<le> 9"
  by (auto simp: pack_wide_def seq_Ok pack_tag_def assertr_def Let_def split: if_splits)

lemma pack_tag_length: "pack_tag t n = Ok bs \<Longrightarrow> length bs = 1"
  by (auto simp: pack_tag_def assertr_def Let_def split: if_splits)

lemma pack_count_length:
  "pack_count c = Ok bs \<Longrightarrow> c \<noteq> 0 \<Longrightarrow> length bs + 9 \<le> 9 * unat c"
proof -
  assume p: "pack_count c = Ok bs" and c: "c \<noteq> 0"
  show "length bs + 9 \<le> 9 * unat c"
  proof (cases "c = 1")
    case False
    have "unat c \<noteq> 0" using c by (metis unat_eq_0)
    moreover have "unat c \<noteq> 1" using False word_unat_eq_iff [of c 1] by simp
    moreover have "length bs \<le> 2" using p False
      by (auto simp: pack_count_def seq_Ok assertr_def Let_def dest!: pack_tag_length split: if_splits)
    ultimately show ?thesis by linarith
  qed (use p in \<open>simp add: pack_count_def\<close>)
qed

lemma pack_delta_length:
  assumes "pack_delta d = Ok bs" "0 < delta_count d"
  shows "length bs \<le> 9 * delta_count d"
proof (cases d)
  case (Base n)
  with assms pack_wide_length show ?thesis by auto
next
  case (Const c)
  have "length bs \<le> 2" using assms(1) unfolding Const
    by (auto simp: seq_Ok assertr_def Let_def dest!: pack_tag_length split: if_splits)
  with assms(2) show ?thesis by linarith
next
  case (Pos x c)
  then obtain a b where ab: "pack_count c = Ok a" "bs = a @ b"
    "(if x < 16 then pack_tag TPos (ucast x) else pack_wide TPosW x) = Ok b"
    using assms(1) by (auto simp: seq_Ok)
  moreover have "length b \<le> 9"
    using ab(3) by (auto dest!: pack_tag_length pack_wide_length split: if_splits)
  moreover have "c \<noteq> 0" using assms(2) unfolding Pos by auto
  ultimately show ?thesis using pack_count_length [OF ab(1)] unfolding Pos by simp
next
  case (Neg x c)
  then obtain a b where ab: "pack_count c = Ok a" "bs = a @ b"
    "(if x < 16 then pack_tag TNeg (ucast x) else pack_wide TNegW x) = Ok b"
    using assms(1) by (auto simp: seq_Ok)
  moreover have "length b \<le> 9"
    using ab(3) by (auto dest!: pack_tag_length pack_wide_length split: if_splits)
  moreover have "c \<noteq> 0" using assms(2) unfolding Neg by auto
  ultimately show ?thesis using pack_count_length [OF ab(1)] unfolding Neg by simp
qed

lemma pack_deltas_length:
  "pack_deltas ds = Ok bs \<Longrightarrow> \<forall>d \<in> set ds. 0 < delta_count d \<Longrightarrow>
    length bs \<le> 9 * length (from_delta_loop b ds)"
proof (induction ds arbitrary: bs b)
  case (Cons d ds)
  then obtain x y where xy: "pack_delta d = Ok x" "pack_deltas ds = Ok y" "bs = x @ y"
    by (auto simp: seq_Ok)
  from Cons.IH [OF xy(2), of "delta_end b d"] pack_delta_length [OF xy(1)] Cons.prems(2) xy(3) show ?case
    by (simp add: from_delta_loop_Cons length_delta_values)
qed simp

lemma pack_u64s_length:
  assumes "pack_u64s ns = Ok bs" "length ns < 2 ^ 64"
  shows "length bs \<le> 9 * length ns"
  using pack_deltas_length [of "to_delta ns" bs 0] assms to_delta_correct [OF assms(2)]
  by (simp add: pack_u64s_def)

lemma decode_path_packed:
  assumes p: "pack_u64s ns = Ok p" and n: "length ns < 128"
  shows "decode_path_bytes ((push_bit 1 (word_of_nat (length ns)) OR of_bool (\<not> z)) # p @ r) =
    Ok (if z then 0 # ns else ns)"
proof -
  let ?c = "push_bit 1 (word_of_nat (length ns)) OR of_bool (\<not> z) :: u8"
  have u: "unat (word_of_nat (length ns) :: u8) = length ns" using n by (simp add: unat_of_nat)
  have nb: "\<not> bit (word_of_nat (length ns) :: u8) i" if "7 \<le> i" for i
    using that n u by (intro small_no_bit [where n = 7]) simp_all
  have t: "x AND 1 = take_bit 1 x" for x :: u8 by (simp add: take_bit_eq_mask)
  have "?c AND 1 = of_bool (\<not> z)"
    unfolding t take_bit_or take_bit_push_bit by (cases z) simp_all
  then have low: "?c AND 1 = 0 \<longleftrightarrow> z" by simp
  have "drop_bit 1 ?c = word_of_nat (length ns)"
  proof (rule bit_word_eqI)
    fix i
    show "bit (drop_bit 1 ?c) i = bit (word_of_nat (length ns) :: u8) i"
      using nb [of i] unfolding bit_drop_bit_eq comp_def bit_or_iff bit_push_bit_iff
      by (cases "i < 7") (auto simp: bit_of_bool_iff possible_bit_word)
  qed
  then have cnt: "unat (drop_bit 1 ?c) = length ns" using u by simp
  show ?thesis
  proof (cases "ns = []")
    case True
    with low cnt show ?thesis by (simp add: decode_path_bytes_def r_num_def Let_def)
  next
    case False
    obtain vm' where "\<And>r. exec_loop vm_new (p @ r) [] (bytes_written vm_new) (length ns * 8) =
        Ok (vm', r, concat (map w_u64 ns))" "bytes_written vm' = bytes_written vm_new + length ns * 8"
      using exec_u64s [OF p, of vm_new] n by auto
    then have "exec vm_new (p @ r) [] (length ns * 8) = Ok (length ns * 8, vm', r, concat (map w_u64 ns))"
      by (simp add: exec_def mapr_def)
    with False low cnt unpack_u64s_concat [of ns "[]"] show ?thesis
      by (simp add: decode_path_bytes_def r_num_def Let_def assertr_def mapr_def)
  qed
qed

lemma encode_path_zero:
  "length ns < 255 \<Longrightarrow> pack_u64s ns = Ok p \<Longrightarrow>
    encode_path_bytes (0 # ns) = Ok (push_bit 1 (word_of_nat (Suc (length ns)) - 1) # p)"
  unfolding encode_path_bytes_def Let_def by (simp del: push_bit_Suc of_nat_Suc One_nat_def add: assertr_def w_u8_def)

lemma encode_path_other:
  "length ns < 256 \<Longrightarrow> pack_u64s ns = Ok p \<Longrightarrow> ns = [] \<or> hd ns \<noteq> 0 \<Longrightarrow>
    encode_path_bytes ns = Ok ((push_bit 1 (word_of_nat (length ns)) OR 1) # p)"
  unfolding encode_path_bytes_def Let_def by (auto simp del: push_bit_Suc of_nat_Suc One_nat_def simp: assertr_def w_u8_def)

lemma split_key_ranges_eq:
  "split_key_ranges path kr keys = Ok krs \<longleftrightarrow>
    keys \<noteq> [] \<and> sorted_wrt (<) keys \<and>
    (1 < length keys \<longrightarrow> (case kr_end kr of None \<Rightarrow> True | Some e \<Rightarrow> last keys < e)) \<and>
    length krs = length keys \<and>
    (\<forall>i < length keys. krs ! i = \<lparr>kr_start = Some (keys ! i),
       kr_end = (if Suc i < length keys then Some (keys ! Suc i) else kr_end kr)\<rparr>)"
proof (cases keys)
  case (Cons k ks)
  have nth: "(map Some ks @ [kr_end kr]) ! i = (if Suc i < length keys then Some (keys ! Suc i) else kr_end kr)"
    if "i < length keys" for i using that unfolding Cons by (auto simp: nth_append less_Suc_eq)
  have "krs = map2 (\<lambda>a b. \<lparr>kr_start = Some a, kr_end = b\<rparr>) keys (map Some ks @ [kr_end kr]) \<longleftrightarrow>
      length krs = length keys \<and> (\<forall>i < length keys. krs ! i = \<lparr>kr_start = Some (keys ! i),
       kr_end = (if Suc i < length keys then Some (keys ! Suc i) else kr_end kr)\<rparr>)"
    using nth unfolding list_eq_iff_nth_eq by (auto simp: Cons)
  moreover have "(ks \<noteq> [] \<longrightarrow> (case kr_end kr of None \<Rightarrow> True | Some e \<Rightarrow> last ks < e)) \<longleftrightarrow>
      (1 < length keys \<longrightarrow> (case kr_end kr of None \<Rightarrow> True | Some e \<Rightarrow> last keys < e))"
    by (cases ks; cases "kr_end kr") (simp_all add: Cons)
  ultimately show ?thesis
    using split_loop_Ok [of path k "kr_end kr" ks krs] unfolding keys_ascending_sorted by (simp add: Cons)
qed simp

section \<open>Properties\<close>



text \<open>C33: A path of at most 13 blocks, or of 14 blocks that starts at the superblock, is decoded from its text form,
  whatever the block numbers.\<close>

theorem node_path_roundtrip:
  assumes "base64_laws b64" "length path \<le> 13 \<or> (hd path = 0 \<and> length path = 14)"
  shows "\<exists>text. encode_node_path b64 path = Ok text \<and> decode_node_path b64 text = Ok path"
proof -
  define z where "z \<longleftrightarrow> path \<noteq> [] \<and> hd path = 0"
  define ns where "ns = (if z then tl path else path)"
  have n: "length ns \<le> 13" and path: "path = (if z then 0 # ns else ns)"
    using assms(2) by (cases path; auto simp: z_def ns_def)+
  obtain p where p: "pack_u64s ns = Ok p" using pack_u64s_ok [of ns] n by auto
  have pl: "length p \<le> 117" using pack_u64s_length [OF p] n by simp
  let ?c = "push_bit 1 (word_of_nat (length ns)) OR of_bool (\<not> z) :: u8"
  have w: "(word_of_nat (Suc (length ns)) - 1 :: u8) = word_of_nat (length ns)" by simp
  have enc: "encode_path_bytes path = Ok (?c # p)"
  proof (cases z)
    case True
    have "encode_path_bytes (0 # ns) = Ok (push_bit 1 (word_of_nat (length ns)) # p)"
      using encode_path_zero [OF _ p] n unfolding w by simp
    with True path show ?thesis by simp
  next
    case False
    then have pn: "path = ns" using path by simp
    have "ns = [] \<or> hd ns \<noteq> 0" using False unfolding z_def pn by blast
    with encode_path_other [OF _ p] n False show ?thesis unfolding pn by simp
  qed
  let ?n = "3 * ((length (?c # p) + 2) div 3)"
  have "decode_path_bytes ((?c # p) @ replicate (?n - length (?c # p)) 0) = Ok path"
    using decode_path_packed [OF p, of z "replicate (?n - length (?c # p)) 0"] n
    unfolding path by (simp only: append_Cons)
  moreover have "?n \<le> 128" using pl by simp
  ultimately show ?thesis
    using enc assms(1) by (simp add: encode_node_path_def decode_node_path_def mapr_def base64_laws_def assertr_def)
qed

definition plain_base64 :: "bytes base64" where
  "plain_base64 = \<lparr>b64_encode = (\<lambda>bs. bs), b64_len = length,
     b64_decode_len = (\<lambda>n. Some (3 * ((n + 2) div 3))), b64_decode_mut = Some\<rparr>"

theorem node_path_roundtrip_witness:
  "base64_laws plain_base64 \<and>
   (\<exists>text. encode_node_path plain_base64 [0, 123, 201231, 3102983012] = Ok text \<and>
      decode_node_path plain_base64 text = Ok [0, 123, 201231, 3102983012])"
proof -
  have "base64_laws plain_base64" by (simp add: base64_laws_def plain_base64_def)
  with node_path_roundtrip [OF this, of "[0, 123, 201231, 3102983012]"] show ?thesis by simp
qed



end
