(* ===== verification/Btree_Lookup.thy ===== *)
theory Btree_Lookup
  imports Btree_Path
begin

text \<open>
  \<open>src/pdata/btree_lookup.rs\<close> and \<open>src/pdata/btree_utils.rs\<close>: looking a key up in an on-disk btree and
  finding the depth of a possibly damaged one. The lookup follows block numbers without a check for
  cycles, so it may not return: it is a partial function. The depth search skips the blocks of its
  path and always returns. The relation \<open>btree\<close> says which key/value list a block is the root of.
\<close>

section \<open>Lookup\<close>

text \<open>\<open>slice::binary_search\<close> on strictly ascending keys: the index of the key, or where it would go.\<close>

definition binary_search :: "u64 list \<Rightarrow> u64 \<Rightarrow> nat + nat" where
  "binary_search ks k = (let i = length (takeWhile (\<lambda>x. x < k) ks) in
     if i < length ks \<and> ks ! i = k then Inl i else Inr i)"

datatype lookup_error = LookupIo | LookupNode btree_error

partial_function (option) lookup_loop ::
    "engine \<Rightarrow> 'v codec \<Rightarrow> u64 \<Rightarrow> u64 list \<Rightarrow> u64 \<Rightarrow> bool \<Rightarrow> (lookup_error, 'v option) result option" where
  "lookup_loop e c key path loc is_root =
    (case engine_read e loc of Err _ \<Rightarrow> Some (Err LookupIo) | Panic \<Rightarrow> Some Panic
     | Ok block \<Rightarrow>
    (case unpack_node c path (snd block) True is_root of
       Err x \<Rightarrow> Some (Err (LookupNode x)) | Panic \<Rightarrow> Some Panic
     | Ok (Internal h keys values) \<Rightarrow>
         (let idx = (case binary_search keys key of Inl i \<Rightarrow> Some i
                     | Inr i \<Rightarrow> if i = 0 then None else Some (i - 1)) in
          case idx of None \<Rightarrow> Some (Ok None)
          | Some idx \<Rightarrow> lookup_loop e c key (path @ [values ! idx]) (values ! idx) False)
     | Ok (Leaf h keys values) \<Rightarrow>
         (case binary_search keys key of Inl i \<Rightarrow> Some (Ok (Some (values ! i)))
          | Inr _ \<Rightarrow> Some (Ok None))))"

definition btree_lookup ::
    "engine \<Rightarrow> 'v codec \<Rightarrow> u64 \<Rightarrow> u64 \<Rightarrow> (lookup_error, 'v option) result option" where
  "btree_lookup e c root key = lookup_loop e c key [] root True"

section \<open>Trees on the device\<close>

text \<open>
  \<open>btree rd c root n loc kvs\<close>: in the blocks \<open>rd\<close>, the one at \<open>loc\<close> is the root of a tree of height \<open>n\<close> that holds
  exactly the pairs \<open>kvs\<close>. The keys under a child lie between its key in the parent and the next one.
\<close>

definition engine_rd :: "engine \<Rightarrow> u64 \<Rightarrow> bytes option" where
  "engine_rd e b = (if b < en_nr_blocks e then Some (en_data e b) else None)"

lemma engine_read_rd: "engine_rd e b = Some d \<longleftrightarrow> engine_read e b = Ok (b, d)"
  by (auto simp: engine_rd_def engine_read_def not_le)

inductive btree :: "(u64 \<Rightarrow> bytes option) \<Rightarrow> 'v codec \<Rightarrow> bool \<Rightarrow> nat \<Rightarrow> u64 \<Rightarrow> (u64 \<times> 'v) list \<Rightarrow> bool"
  for rd c where
  leaf: "rd loc = Some d \<Longrightarrow> unpack_node_raw c d True root = Ok (Leaf h ks vs) \<Longrightarrow>
    btree rd c root 0 loc (zip ks vs)"
| internal: "rd loc = Some d \<Longrightarrow> unpack_node_raw c d True root = Ok (Internal h ks vs) \<Longrightarrow>
    ks \<noteq> [] \<Longrightarrow> length ls = length ks \<Longrightarrow>
    (\<And>i. i < length ks \<Longrightarrow> btree rd c False n (vs ! i) (ls ! i)) \<Longrightarrow>
    (\<And>i k. i < length ks \<Longrightarrow> k \<in> fst ` set (ls ! i) \<Longrightarrow> ks ! i \<le> k) \<Longrightarrow>
    (\<And>i k. Suc i < length ks \<Longrightarrow> k \<in> fst ` set (ls ! i) \<Longrightarrow> k < ks ! Suc i) \<Longrightarrow>
    btree rd c root (Suc n) loc (concat ls)"

lemma map_le_Some: "m \<subseteq>\<^sub>m m' \<Longrightarrow> m x = Some y \<Longrightarrow> m' x = Some y"
  by (metis domI map_le_def)

lemma btree_mono: "btree rd c root n loc kvs \<Longrightarrow> rd \<subseteq>\<^sub>m rd' \<Longrightarrow> btree rd' c root n loc kvs"
proof (induction root n loc kvs rule: btree.induct)
  case (leaf loc d root h ks vs)
  from map_le_Some [OF leaf(3) leaf(1)] leaf(2) show ?case by (rule btree.leaf)
next
  case (internal loc d root h ks vs ls n)
  from map_le_Some [OF internal.prems internal(1)] internal show ?case by (intro btree.internal) blast+
qed

inductive_cases btree_0E: "btree rd c root 0 loc kvs"
inductive_cases btree_SucE: "btree rd c root (Suc n) loc kvs"

lemma takeWhile_index:
  assumes "sorted_wrt (<) (ks :: u64 list)"
  shows "i < length (takeWhile (\<lambda>x. x < k) ks) \<longleftrightarrow> i < length ks \<and> ks ! i < k"
proof -
  let ?n = "length (takeWhile (\<lambda>x. x < k) ks)"
  have "ks ! i < k" if "i < ?n" using that takeWhile_nth [of i "\<lambda>x. x < k" ks] nth_mem [OF that]
    by (auto dest: set_takeWhileD)
  moreover have "i < ?n" if "i < length ks" "ks ! i < k"
  proof (rule ccontr)
    assume "\<not> i < ?n"
    then have n: "?n \<le> i" "?n < length ks" using that(1) by simp_all
    then have "\<not> ks ! ?n < k" using nth_length_takeWhile [of "\<lambda>x. x < k" ks] by simp
    moreover have "ks ! ?n \<le> ks ! i"
      using sorted_wrt_nth_less [OF assms, of ?n i] n that(1) by (cases "?n = i") (auto intro: less_imp_le)
    ultimately show False using that(2) by simp
  qed
  moreover have "?n \<le> length ks" by (rule length_takeWhile_le)
  ultimately show ?thesis by (meson less_le_trans)
qed

lemma binary_search_Inl:
  "sorted_wrt (<) ks \<Longrightarrow> binary_search ks k = Inl i \<Longrightarrow> i < length ks \<and> ks ! i = k"
  by (auto simp: binary_search_def Let_def split: if_splits)

lemma binary_search_Inr:
  assumes "sorted_wrt (<) ks" "binary_search ks k = Inr i"
  shows "i \<le> length ks" "k \<notin> set ks" "\<And>j. j < i \<longleftrightarrow> j < length ks \<and> ks ! j < k"
proof -
  have i: "i = length (takeWhile (\<lambda>x. x < k) ks)" and ne: "i < length ks \<Longrightarrow> ks ! i \<noteq> k"
    using assms(2) by (auto simp: binary_search_def Let_def split: if_splits)
  show "i \<le> length ks" by (simp add: i length_takeWhile_le)
  show idx: "j < i \<longleftrightarrow> j < length ks \<and> ks ! j < k" for j
    unfolding i by (rule takeWhile_index [OF assms(1)])
  show "k \<notin> set ks"
  proof
    assume "k \<in> set ks"
    then obtain j where j: "j < length ks" "ks ! j = k" by (auto simp: in_set_conv_nth)
    then have "i \<le> j" using idx [of j] by simp
    with j ne have "i < j" by (cases "i = j") auto
    then have "ks ! i < k" using sorted_wrt_nth_less [OF assms(1), of i j] j by simp
    then show False using idx [of i] \<open>i < j\<close> j(1) by simp
  qed
qed

lemma map_of_zip_sorted:
  assumes "sorted_wrt (<) (ks :: u64 list)" "length vs = length ks"
  shows "i < length ks \<Longrightarrow> map_of (zip ks vs) (ks ! i) = Some (vs ! i)"
    "k \<notin> set ks \<Longrightarrow> map_of (zip ks vs) k = None"
proof -
  have "distinct ks" using assms(1) by (simp add: strict_sorted_iff)
  then show "i < length ks \<Longrightarrow> map_of (zip ks vs) (ks ! i) = Some (vs ! i)"
    using assms(2) by (simp add: map_of_zip_nth)
  show "k \<notin> set ks \<Longrightarrow> map_of (zip ks vs) k = None"
    by (auto simp: map_of_eq_None_iff dest: set_zip_leftD)
qed

lemma map_of_concat:
  assumes "\<And>j. j < length ls \<Longrightarrow> j \<noteq> i \<Longrightarrow> k \<notin> fst ` set (ls ! j)" "i < length ls"
  shows "map_of (concat ls) k = map_of (ls ! i) k"
proof -
  have "concat ls = concat (take i ls) @ ls ! i @ concat (drop (Suc i) ls)"
    using assms(2) by (metis concat.simps(2) concat_append id_take_nth_drop)
  moreover have "map_of (concat (take i ls)) k = None"
  proof -
    have "k \<notin> fst ` set l" if "l \<in> set (take i ls)" for l
    proof -
      from that obtain j where "j < i" "j < length ls" "l = ls ! j" by (auto simp: in_set_conv_nth)
      with assms(1) [of j] show ?thesis by simp
    qed
    then show ?thesis by (auto simp: map_of_eq_None_iff)
  qed
  moreover have "map_of (concat (drop (Suc i) ls)) k = None"
  proof -
    have "k \<notin> fst ` set l" if "l \<in> set (drop (Suc i) ls)" for l
    proof -
      from that obtain j where "j < length ls - Suc i" "l = ls ! (Suc i + j)" by (auto simp: in_set_conv_nth)
      then have "Suc i + j < length ls" "l = ls ! (Suc i + j)" by linarith+
      with assms(1) [of "Suc i + j"] show ?thesis by simp
    qed
    then show ?thesis by (auto simp: map_of_eq_None_iff)
  qed
  ultimately show ?thesis by (simp add: map_add_def split: option.splits)
qed

lemma unpack_node_Ok:
  "unpack_node_raw c d ig root = Ok nd \<Longrightarrow> unpack_node c path d ig root = Ok nd"
  by (simp add: unpack_node_def)

lemma lookup_loop_btree:
  "btree (engine_rd e) c root n loc kvs \<Longrightarrow> lookup_loop e c key path loc root = Some (Ok (map_of kvs key))"
proof (induction root n loc kvs arbitrary: path rule: btree.induct)
  case (leaf loc d root h ks vs)
  from unpack_node_raw_ok [OF leaf(2)] have s: "sorted_wrt (<) ks" "length vs = length ks"
    by (simp_all add: node_ok_def Let_def)
  have "(case binary_search ks key of Inl i \<Rightarrow> Some (Ok (Some (vs ! i))) | Inr _ \<Rightarrow> Some (Ok None)) =
      (Some (Ok (map_of (zip ks vs) key)) :: (lookup_error, 'a option) result option)"
    using binary_search_Inl [OF s(1), of key] binary_search_Inr(2) [OF s(1), of key] map_of_zip_sorted [OF s]
    by (auto split: sum.splits)
  then show ?case
    by (subst lookup_loop.simps) (simp add: leaf(1) [unfolded engine_read_rd] unpack_node_Ok [OF leaf(2)])
next
  case (internal loc d root h ks vs ls n)
  from unpack_node_raw_ok [OF internal.hyps(2)] have s: "sorted_wrt (<) ks" "length vs = length ks"
    by (simp_all add: node_ok_def Let_def)
  have step: "lookup_loop e c key path loc root = (case (case binary_search ks key of Inl i \<Rightarrow> Some i
      | Inr i \<Rightarrow> if i = 0 then None else Some (i - 1)) of None \<Rightarrow> Some (Ok None)
      | Some idx \<Rightarrow> lookup_loop e c key (path @ [vs ! idx]) (vs ! idx) False)"
    by (subst lookup_loop.simps) (simp add: internal.hyps(1) [unfolded engine_read_rd] unpack_node_Ok [OF internal.hyps(2)] Let_def)
  have go: "lookup_loop e c key path loc root = Some (Ok (map_of (concat ls) key))"
    if idx: "i < length ks" "ks ! i \<le> key" "Suc i < length ks \<Longrightarrow> key < ks ! Suc i"
      and sel: "lookup_loop e c key path loc root = lookup_loop e c key (path @ [vs ! i]) (vs ! i) False" for i
  proof -
    have "key \<notin> fst ` set (ls ! j)" if j: "j < length ls" "j \<noteq> i" for j
    proof
      assume k: "key \<in> fst ` set (ls ! j)"
      show False
      proof (cases "j < i")
        case True
        then have "key < ks ! Suc j" using internal.hyps(7) [of j key] k idx(1) by simp
        moreover have "ks ! Suc j \<le> ks ! i"
          using sorted_wrt_nth_less [OF s(1), of "Suc j" i] True idx(1)
          by (cases "Suc j = i") (auto intro: less_imp_le)
        ultimately show False using idx(2) by simp
      next
        case False
        then have ij: "i < j" "j < length ks" using j internal.hyps(4) by simp_all
        then have "ks ! Suc i \<le> ks ! j"
          using sorted_wrt_nth_less [OF s(1), of "Suc i" j] by (cases "Suc i = j") (auto intro: less_imp_le)
        moreover have "ks ! j \<le> key" using internal.hyps(6) [of j key] k ij by simp
        ultimately show False using idx(3) ij by simp
      qed
    qed
    then have "map_of (concat ls) key = map_of (ls ! i) key"
      using idx(1) internal.hyps(4) by (intro map_of_concat) simp_all
    with internal.IH [OF idx(1)] sel show ?thesis by simp
  qed
  show ?case
  proof (cases "binary_search ks key")
    case (Inl i)
    note i = binary_search_Inl [OF s(1) Inl]
    show ?thesis
      using i Inl step sorted_wrt_nth_less [OF s(1), of i "Suc i"] by (intro go [of i]) auto
  next
    case (Inr i)
    note i = binary_search_Inr [OF s(1) Inr]
    show ?thesis
    proof (cases "i = 0")
      case True
      have "key \<notin> fst ` set l" if "l \<in> set ls" for l
      proof
        assume k: "key \<in> fst ` set l"
        from that obtain j where "j < length ls" "l = ls ! j" by (auto simp: in_set_conv_nth)
        with k internal.hyps(4,6) have j: "j < length ks" "ks ! j \<le> key" by auto
        moreover have "ks ! j \<noteq> key" using i(2) j(1) by auto
        ultimately show False using i(3) [of j] True by simp
      qed
      then have "map_of (concat ls) key = None" by (auto simp: map_of_eq_None_iff)
      with step Inr True show ?thesis by simp
    next
      case False
      then obtain m where m: "i = Suc m" by (cases i) auto
      have lo: "m < length ks" "ks ! m < key" using i(3) [of m] m by simp_all
      have hi: "key < ks ! Suc m" if "Suc m < length ks"
      proof -
        have "\<not> ks ! Suc m < key" using i(3) [of "Suc m"] m that by simp
        moreover have "ks ! Suc m \<noteq> key" using i(2) nth_mem [OF that] by metis
        ultimately show ?thesis by simp
      qed
      have "lookup_loop e c key path loc root = lookup_loop e c key (path @ [vs ! m]) (vs ! m) False"
        using step Inr m by simp
      with lo hi show ?thesis by (intro go [of m]) (simp_all add: less_imp_le)
    qed
  qed
qed

section \<open>Depth\<close>

text \<open>
  The search for the first good leaf. Each call adds a block to the path that was not on it, so the number of
  blocks that can still be added bounds the recursion. The loop over the children keeps the first
  error; the path is the same after each child.
\<close>

function get_depth_rec :: "(bytes \<Rightarrow> u32) \<Rightarrow> engine \<Rightarrow> 'v codec \<Rightarrow> u64 list \<Rightarrow> u64 \<Rightarrow> bool \<Rightarrow> (btree_error, nat) result"
  and get_depth_children :: "(bytes \<Rightarrow> u32) \<Rightarrow> engine \<Rightarrow> 'v codec \<Rightarrow> u64 list \<Rightarrow> u64 list \<Rightarrow> btree_error option \<Rightarrow>
    (btree_error, nat) result"
where
  "get_depth_rec crc32c e c path root is_root =
    (case engine_read e root of Err _ \<Rightarrow> Err (io_err path) | Panic \<Rightarrow> Panic
     | Ok b \<Rightarrow>
    (case check_and_unpack_node crc32c c b True is_root of
       Err x \<Rightarrow> Err (node_err path x) | Panic \<Rightarrow> Panic
     | Ok (Internal h keys values) \<Rightarrow> get_depth_children crc32c e c path values None
     | Ok (Leaf h keys values) \<Rightarrow> Ok 0))"
| "get_depth_children crc32c e c path [] error =
    Err (case error of Some x \<Rightarrow> x | None \<Rightarrow> node_err path NumEntriesTooSmall)"
| "get_depth_children crc32c e c path (child # children) error =
    (if child \<in> set path then get_depth_children crc32c e c path children error
     else case get_depth_rec crc32c e c (path @ [child]) child False of
       Ok n \<Rightarrow> Ok (n + 1)
     | Err x \<Rightarrow> get_depth_children crc32c e c path children (case error of Some y \<Rightarrow> Some y | None \<Rightarrow> Some x)
     | Panic \<Rightarrow> Panic)"
  by pat_completeness auto
termination get_depth_rec
proof (relation "measures [
    \<lambda>x. case x of Inl (crc, e, c, path, root, r) \<Rightarrow> card (UNIV - set path)
      | Inr (crc, e, c, path, cs, err) \<Rightarrow> card (UNIV - set path),
    \<lambda>x. case x of Inl _ \<Rightarrow> 1 | Inr _ \<Rightarrow> 0,
    \<lambda>x. case x of Inl _ \<Rightarrow> 0 | Inr (crc, e, c, path, cs, err) \<Rightarrow> length cs]", goal_cases)
  case (4 crc32c e c path child children error)
  then have "UNIV - set (path @ [child]) \<subset> UNIV - set path" by auto
  then have "card (UNIV - set (path @ [child])) < card (UNIV - set path)"
    by (intro psubset_card_mono) simp_all
  then show ?case by simp
qed simp_all

declare get_depth_rec.simps [simp del]

definition get_depth :: "(bytes \<Rightarrow> u32) \<Rightarrow> engine \<Rightarrow> 'v codec \<Rightarrow> u64 \<Rightarrow> (btree_error, nat) result" where
  "get_depth crc32c e c root = get_depth_rec crc32c e c [root] root True"

text \<open>A path of blocks, each a good node that names the next as a child, down to a leaf.\<close>

fun good_path :: "(bytes \<Rightarrow> u32) \<Rightarrow> engine \<Rightarrow> 'v codec \<Rightarrow> bool \<Rightarrow> u64 list \<Rightarrow> bool" where
  "good_path crc32c e c is_root [] \<longleftrightarrow> False"
| "good_path crc32c e c is_root [b] \<longleftrightarrow> b < en_nr_blocks e \<and>
    (case check_and_unpack_node crc32c c (b, en_data e b) True is_root of Ok (Leaf _ _ _) \<Rightarrow> True | _ \<Rightarrow> False)"
| "good_path crc32c e c is_root (b # b' # bs) \<longleftrightarrow> b < en_nr_blocks e \<and>
    (case check_and_unpack_node crc32c c (b, en_data e b) True is_root of
       Ok (Internal _ _ vs) \<Rightarrow> b' \<in> set vs | _ \<Rightarrow> False) \<and>
    good_path crc32c e c False (b' # bs)"

lemma check_node_no_panic: "check_and_unpack_node crc32c c b ig r \<noteq> Panic"
  unfolding check_and_unpack_node_def verify_checksum_def
  using unpack_node_raw_no_panic [of c "snd b" ig r]
  by (auto simp: bindr_Panic split: BT.splits)

definition simple_from :: "u64 list \<Rightarrow> u64 list \<Rightarrow> bool" where
  "simple_from path p \<longleftrightarrow> distinct p \<and> set p \<inter> set path = {}"

lemma get_depth_rec_spec:
  "(\<forall>n. get_depth_rec crc32c e c path root is_root = Ok n \<longrightarrow>
      (\<exists>q. length q = n \<and> good_path crc32c e c is_root (root # q) \<and> simple_from path q)) \<and>
   ((\<exists>q. good_path crc32c e c is_root (root # q) \<and> simple_from path q) \<longrightarrow>
      (\<exists>n. get_depth_rec crc32c e c path root is_root = Ok n)) \<and>
   get_depth_rec crc32c e c path root is_root \<noteq> Panic"
  "(\<forall>n. get_depth_children crc32c e c path children error = Ok n \<longrightarrow>
      (\<exists>b q. n = Suc (length q) \<and> b \<in> set children \<and> good_path crc32c e c False (b # q) \<and> simple_from path (b # q))) \<and>
   ((\<exists>b q. b \<in> set children \<and> good_path crc32c e c False (b # q) \<and> simple_from path (b # q)) \<longrightarrow>
      (\<exists>n. get_depth_children crc32c e c path children error = Ok n)) \<and>
   get_depth_children crc32c e c path children error \<noteq> Panic"
proof (induction crc32c e c path root is_root and crc32c e c path children error
    rule: get_depth_rec_get_depth_children.induct)
  case (1 crc32c e c path root is_root)
  show ?case
  proof (cases "root < en_nr_blocks e")
    case False
    have "\<not> good_path crc32c e c is_root (root # q)" for q using False by (cases q) auto
    then show ?thesis using False by (simp add: get_depth_rec.simps engine_read_def not_less)
  next
    case True
    then have rd: "engine_read e root = Ok (root, en_data e root)" by (simp add: engine_read_def not_le)
    show ?thesis
    proof (cases "check_and_unpack_node crc32c c (root, en_data e root) True is_root")
      case (Err x)
      have "\<not> good_path crc32c e c is_root (root # q)" for q using Err by (cases q) auto
      then show ?thesis using Err rd by (simp add: get_depth_rec.simps)
    next
      case (Ok nd)
      show ?thesis
      proof (cases nd)
        case (Leaf h ks vs)
        have "good_path crc32c e c is_root [root]" using Ok Leaf True by simp
        then show ?thesis using Ok Leaf rd
          by (auto simp: get_depth_rec.simps simple_from_def intro!: exI [of _ "[]"])
      next
        case (Internal h ks vs)
        have eq: "get_depth_rec crc32c e c path root is_root = get_depth_children crc32c e c path vs None"
          using Ok Internal rd by (simp add: get_depth_rec.simps)
        have gp: "good_path crc32c e c is_root (root # q) \<longleftrightarrow>
            (\<exists>b r. q = b # r \<and> b \<in> set vs \<and> good_path crc32c e c False (b # r))" for q
          using Ok Internal True by (cases q) auto
        have IH: "(\<forall>n. get_depth_children crc32c e c path vs None = Ok n \<longrightarrow>
            (\<exists>b q. n = Suc (length q) \<and> b \<in> set vs \<and> good_path crc32c e c False (b # q) \<and> simple_from path (b # q))) \<and>
          ((\<exists>b q. b \<in> set vs \<and> good_path crc32c e c False (b # q) \<and> simple_from path (b # q)) \<longrightarrow>
            (\<exists>n. get_depth_children crc32c e c path vs None = Ok n)) \<and>
          get_depth_children crc32c e c path vs None \<noteq> Panic"
          using "1.IH" [OF rd] Ok Internal by simp
        then show ?thesis unfolding eq gp by (metis length_Cons)
      qed
    qed (use check_node_no_panic in blast)
  qed
next
  case (3 crc32c e c path child children error)
  show ?case
  proof (cases "child \<in> set path")
    case True
    have "\<not> simple_from path (child # q)" for q using True by (simp add: simple_from_def)
    then have conv: "b \<in> set (child # children) \<and> good_path crc32c e c False (b # q) \<and> simple_from path (b # q) \<longleftrightarrow>
        b \<in> set children \<and> good_path crc32c e c False (b # q) \<and> simple_from path (b # q)" for b q by auto
    have eq: "get_depth_children crc32c e c path (child # children) error =
        get_depth_children crc32c e c path children error" using True by (simp add: get_depth_rec.simps)
    show ?thesis unfolding eq conv by (rule "3.IH"(1) [OF True])
  next
    case False
    have sp: "simple_from path (child # q) \<longleftrightarrow> simple_from (path @ [child]) q" for q
      using False by (auto simp: simple_from_def)
    note IH1 = "3.IH"(2) [OF False]
    show ?thesis
    proof (cases "get_depth_rec crc32c e c (path @ [child]) child False")
      case (Ok n)
      then obtain q where q: "length q = n" "good_path crc32c e c False (child # q)" "simple_from (path @ [child]) q"
        using IH1 by blast
      have "get_depth_children crc32c e c path (child # children) error = Ok (Suc n)"
        using Ok False by (simp add: get_depth_rec.simps)
      with q sp show ?thesis by auto
    next
      case (Err x)
      have no: "\<not> (good_path crc32c e c False (child # q) \<and> simple_from path (child # q))" for q
        using IH1 Err sp by auto
      then have conv: "b \<in> set (child # children) \<and> good_path crc32c e c False (b # q) \<and> simple_from path (b # q) \<longleftrightarrow>
        b \<in> set children \<and> good_path crc32c e c False (b # q) \<and> simple_from path (b # q)" for b q by auto
      have eq: "get_depth_children crc32c e c path (child # children) error =
          get_depth_children crc32c e c path children (case error of Some y \<Rightarrow> Some y | None \<Rightarrow> Some x)"
        using Err False by (simp add: get_depth_rec.simps)
      show ?thesis unfolding eq conv by (rule "3.IH"(3) [OF False Err])
    qed (use IH1 in simp)
  qed
qed (simp add: get_depth_rec.simps)

section \<open>Properties\<close>

text \<open>C8: On a tree as the builder makes it, a lookup returns, without an error, exactly the value the tree
  holds for the key, or nothing where it holds none.\<close>

theorem btree_lookup_correct:
  assumes "btree (engine_rd e) c True n root kvs"
  shows "btree_lookup e c root key = Some (Ok (map_of kvs key))"
  using lookup_loop_btree [OF assms] by (simp add: btree_lookup_def)

definition sample_leaf :: "u64 \<Rightarrow> u64 \<Rightarrow> u64 node" where
  "sample_leaf b k = Leaf \<lparr>nh_block = b, nh_is_leaf = True, nh_nr_entries = 1, nh_max_entries = 252,
     nh_value_size = 8\<rparr> [k] [k + 100]"

definition sample_root :: "u64 node" where
  "sample_root = Internal \<lparr>nh_block = 1, nh_is_leaf = False, nh_nr_entries = 2, nh_max_entries = 252,
     nh_value_size = 8\<rparr> [10, 20] [2, 3]"

definition sample_block :: "u64 node \<Rightarrow> bytes" where
  "sample_block nd = (let d = pack_node u64_codec nd in d @ replicate (BLOCK_SIZE - length d) 0)"

definition sample_engine :: engine where
  "sample_engine = engine_new (\<lambda>b. sample_block
     (if b = 1 then sample_root else if b = 2 then sample_leaf 2 10 else sample_leaf 3 20)) 4"

lemma sample_fits:
  "node_fits u64_codec (\<lambda>_. True) sample_root" "node_fits u64_codec (\<lambda>_. True) (sample_leaf b k)"
  by (simp_all add: node_fits_def node_ok_def sample_root_def sample_leaf_def u64_codec_def)

lemma sample_unpack:
  assumes "node_fits u64_codec (\<lambda>_. True) nd"
  shows "unpack_node_raw u64_codec (sample_block nd) True r = Ok nd" "length (sample_block nd) = BLOCK_SIZE"
proof -
  have l: "length (pack_node u64_codec nd) \<le> 4096" using node_bytes [OF u64c.value_codec_axioms assms] by blast
  then show "length (sample_block nd) = BLOCK_SIZE" by (simp add: sample_block_def Let_def BLOCK_SIZE_def)
  then show "unpack_node_raw u64_codec (sample_block nd) True r = Ok nd"
    by (intro unpack_pack_node [OF u64c.value_codec_axioms assms, where r = "replicate (BLOCK_SIZE - length (pack_node u64_codec nd)) 0"])
      (simp_all add: sample_block_def Let_def BLOCK_SIZE_def)
qed

lemma sample_btree: "btree (engine_rd sample_engine) u64_codec True 1 1 [(10, 110), (20, 120)]"
proof -
  have leaf: "btree (engine_rd sample_engine) u64_codec False 0 b (zip [k] [k + 100])" if "b = 2 \<and> k = 10 \<or> b = 3 \<and> k = 20" for b k
    using that sample_unpack(1) [OF sample_fits(2), of b k False]
    by (intro btree.leaf [where d = "sample_block (sample_leaf b k)"])
       (auto simp: engine_rd_def sample_engine_def engine_new_def word_less_nat_alt sample_leaf_def)
  have four: "\<not> (4 :: u64) \<le> 1" by (simp add: word_le_nat_alt)
  have "btree (engine_rd sample_engine) u64_codec True (Suc 0) 1 (concat [[(10, 110)], [(20, 120)]])"
    using sample_unpack(1) [OF sample_fits(1), of True] leaf [of 2 10] leaf [of 3 20]
    by (intro btree.internal [where d = "sample_block sample_root" and ks = "[10, 20]" and vs = "[2, 3]"])
       (auto simp: engine_rd_def sample_engine_def engine_new_def word_less_nat_alt sample_root_def less_Suc_eq four)
  then show ?thesis by simp
qed

text \<open>With this CRC function the unsalted sample blocks carry the checksum of a node.\<close>

definition sample_crc :: "bytes \<Rightarrow> u32" where
  "sample_crc d = BTREE_CSUM_XOR XOR 0xffffffff"

lemma sample_good_path: "good_path sample_crc sample_engine u64_codec True [2]"
proof -
  have "metadata_block_type sample_crc (sample_block (sample_leaf 2 10)) = BT_NODE"
    using sample_unpack(2) [OF sample_fits(2), of 2 10]
    by (simp add: metadata_block_type_def checksum_def sample_crc_def sample_block_def Let_def sample_leaf_def
        node_header_pack_def csum_xor_defs)
  then show ?thesis using sample_unpack(1) [OF sample_fits(2), of 2 10 True]
    by (simp add: check_and_unpack_node_def verify_checksum_def sample_engine_def engine_new_def word_less_nat_alt)
       (simp add: sample_leaf_def)
qed

theorem btree_lookup_correct_witness:
  "btree_lookup sample_engine u64_codec 1 20 = Some (Ok (Some 120)) \<and>
   btree_lookup sample_engine u64_codec 1 15 = Some (Ok None)"
  using btree_lookup_correct [OF sample_btree, of 20] btree_lookup_correct [OF sample_btree, of 15] by simp

text \<open>C30: \<open>get_depth\<close> always returns and never panics; it returns a depth exactly when some path without
  repetition leads from the root over good nodes to a good leaf, and the depth is the length of
  such a path: one bad subtree does not hide a good one, and cycles do no harm.\<close>

theorem get_depth_spec:
  "(\<forall>n. get_depth crc32c e c root = Ok n \<longrightarrow>
      (\<exists>p. length p = n \<and> distinct (root # p) \<and> good_path crc32c e c True (root # p))) \<and>
   ((\<exists>p. distinct (root # p) \<and> good_path crc32c e c True (root # p)) \<longleftrightarrow> is_ok (get_depth crc32c e c root)) \<and>
   get_depth crc32c e c root \<noteq> Panic"
proof -
  have sp: "simple_from [root] p \<longleftrightarrow> distinct (root # p)" for p by (auto simp: simple_from_def)
  note spec = get_depth_rec_spec(1) [of crc32c e c "[root]" root True, folded get_depth_def, unfolded sp]
  have "is_ok r \<longleftrightarrow> (\<exists>n. r = Ok n)" for r :: "(btree_error, nat) result" by (cases r) auto
  with spec show ?thesis by blast
qed

theorem get_depth_spec_witness:
  "\<exists>n p. get_depth sample_crc sample_engine u64_codec 2 = Ok n \<and> length p = n \<and> distinct (2 # p) \<and>
    good_path sample_crc sample_engine u64_codec True (2 # p)"
proof -
  note spec = get_depth_spec [of sample_crc sample_engine u64_codec 2]
  have "is_ok (get_depth sample_crc sample_engine u64_codec 2)"
    using spec sample_good_path by (metis distinct.simps(1) distinct_singleton)
  then obtain n where "get_depth sample_crc sample_engine u64_codec 2 = Ok n"
    by (cases "get_depth sample_crc sample_engine u64_codec 2") auto
  with spec show ?thesis by blast
qed

end
