(* ===== verification/Btree_Tree.thy ===== *)
theory Btree_Tree
  imports Btree_Lookup
begin

text \<open>
  Trees on the device every node of which passes the checks the tools make: checksum, location, order and, unless
  they are lenient, the number of entries. \<open>wtree\<close> lists the blocks of such a tree and its leaves in the order of the
  keys; no block occurs twice in one. \<open>ctree\<close> forgets the blocks.
\<close>

section \<open>Checked trees\<close>

definition leaf_pairs :: "(u64 list \<times> 'v list) list \<Rightarrow> (u64 \<times> 'v) list" where
  "leaf_pairs lvs = concat (map (\<lambda>(ks, vs). zip ks vs) lvs)"

lemma leaf_pairs_simps [simp]:
  "leaf_pairs [] = []" "leaf_pairs (l # lvs) = zip (fst l) (snd l) @ leaf_pairs lvs" "leaf_pairs (a @ b) = leaf_pairs a @ leaf_pairs b"
  by (simp_all add: leaf_pairs_def case_prod_beta)

lemma leaf_pairs_concat: "leaf_pairs (concat lss) = concat (map leaf_pairs lss)"
  by (induction lss) simp_all

lemma in_concat_nth: "x \<in> set (concat xss) \<longleftrightarrow> (\<exists>i < length xss. x \<in> set (xss ! i))"
  by (induction xss) (auto simp: nth_Cons' less_Suc_eq_0_disj)

inductive wtree :: "(bytes \<Rightarrow> u32) \<Rightarrow> (u64 \<Rightarrow> bytes option) \<Rightarrow> 'v codec \<Rightarrow> bool \<Rightarrow> bool \<Rightarrow> nat \<Rightarrow> u64 \<Rightarrow> u64 list \<Rightarrow>
    (u64 list \<times> 'v list) list \<Rightarrow> bool"
  for crc32c rd c ig where
  leaf: "rd loc = Some d \<Longrightarrow> check_and_unpack_node crc32c c (loc, d) ig root = Ok (Leaf h ks vs) \<Longrightarrow>
    wtree crc32c rd c ig root 0 loc [loc] [(ks, vs)]"
| internal: "rd loc = Some d \<Longrightarrow> check_and_unpack_node crc32c c (loc, d) ig root = Ok (Internal h ks vs) \<Longrightarrow>
    ks \<noteq> [] \<Longrightarrow> length bss = length ks \<Longrightarrow> length lss = length ks \<Longrightarrow>
    (\<And>i. i < length ks \<Longrightarrow> wtree crc32c rd c ig False n (vs ! i) (bss ! i) (lss ! i)) \<Longrightarrow>
    (\<And>i. i < length ks \<Longrightarrow> leaf_pairs (lss ! i) \<noteq> []) \<Longrightarrow>
    (\<And>i k. i < length ks \<Longrightarrow> k \<in> fst ` set (leaf_pairs (lss ! i)) \<Longrightarrow> ks ! i \<le> k) \<Longrightarrow>
    (\<And>i k. Suc i < length ks \<Longrightarrow> k \<in> fst ` set (leaf_pairs (lss ! i)) \<Longrightarrow> k < ks ! Suc i) \<Longrightarrow>
    wtree crc32c rd c ig root (Suc n) loc (loc # concat bss) (concat lss)"

lemma unpack_node_lax:
  assumes "unpack_node_raw c d ig r = Ok n"
  shows "unpack_node_raw c d True r' = Ok n"
  using assms by (auto simp: unpack_node_raw_def Let_def split: if_splits)

lemma check_unpack:
  "check_and_unpack_node crc32c c (loc, d) ig r = Ok n \<Longrightarrow> unpack_node_raw c d True r' = Ok n"
  by (auto simp: check_and_unpack_node_def split: if_splits intro: unpack_node_lax)

lemma wtree_btree: "wtree crc32c rd c ig root n loc bs lvs \<Longrightarrow> btree rd c root n loc (leaf_pairs lvs)"
proof (induction root n loc bs lvs rule: wtree.induct)
  case (leaf loc d root h ks vs)
  from btree.leaf [where rd = rd and loc = loc, OF leaf(1) check_unpack [OF leaf(2)]] show ?case by simp
next
  case (internal loc d root h ks vs bss lss n)
  have "btree rd c root (Suc n) loc (concat (map leaf_pairs lss))"
    by (rule btree.internal [where rd = rd and loc = loc, OF internal(1) check_unpack [OF internal(2)] internal(3)])
      (use internal in \<open>simp_all\<close>)
  then show ?case by (simp add: leaf_pairs_concat)
qed

lemma btree_unique:
  "btree rd c r n loc kvs \<Longrightarrow> btree rd c r' n' loc kvs' \<Longrightarrow> n = n' \<and> kvs = kvs'"
proof (induction r n loc kvs arbitrary: r' n' kvs' rule: btree.induct)
  case (leaf loc d root h ks vs)
  note u = unpack_node_lax [OF leaf(2)]
  from leaf(3) show ?case
    by (cases rule: btree.cases) (use leaf(1) u in auto)
next
  case (internal loc d root h ks vs ls n)
  note u = unpack_node_lax [OF internal.hyps(2)]
  from internal.prems show ?case
  proof (cases rule: btree.cases)
    case (internal d' h' ks' vs' ls' m)
    with internal.hyps(1) u [of r'] have e: "d' = d" "ks' = ks" "vs' = vs" by auto
    have "n = m \<and> ls ! i = ls' ! i" if "i < length ks" for i
      using internal.IH [OF that] internal(7) [of i] that unfolding e by blast
    moreover have "0 < length ks" using internal.hyps(3) by simp
    ultimately have "n = m" "ls = ls'" using internal.hyps(4) internal(6) e by (auto intro: nth_equalityI)
    then show ?thesis using internal by simp
  qed (use internal.hyps(1) u in auto)
qed

lemma wtree_root: "wtree crc32c rd c ig root n loc bs lvs \<Longrightarrow> bs = loc # tl bs"
  by (cases rule: wtree.cases) auto

text \<open>Every block of a tree is the root of a part of it.\<close>

lemma wtree_block:
  "wtree crc32c rd c ig root n loc bs lvs \<Longrightarrow> b \<in> set bs \<Longrightarrow>
    \<exists>m kvs r. btree rd c r m b kvs \<and> m \<le> n \<and> (b \<in> set (tl bs) \<longrightarrow> m < n) \<and>
      set kvs \<subseteq> set (leaf_pairs lvs) \<and> (leaf_pairs lvs \<noteq> [] \<longrightarrow> kvs \<noteq> [])"
proof (induction root n loc bs lvs rule: wtree.induct)
  case (leaf loc d root h ks vs)
  from wtree_btree [OF wtree.leaf [where rd = rd and loc = loc, OF leaf(1,2)]] leaf(3) show ?case by auto
next
  case (internal loc d root h ks vs bss lss n)
  show ?case
  proof (cases "b \<in> set (concat bss)")
    case True
    then obtain i where i: "i < length ks" "b \<in> set (bss ! i)" using internal.hyps(4) unfolding in_concat_nth by auto
    from internal.IH [OF this] internal.hyps(7) [OF i(1)] obtain m kvs r where
      "btree rd c r m b kvs" "m \<le> n" "set kvs \<subseteq> set (leaf_pairs (lss ! i))" "kvs \<noteq> []" by blast
    moreover have "set (leaf_pairs (lss ! i)) \<subseteq> set (leaf_pairs (concat lss))"
      using i(1) internal.hyps(5) unfolding leaf_pairs_concat set_concat set_map by (auto intro!: bexI [of _ "lss ! i"])
    ultimately show ?thesis by (meson le_SucI le_imp_less_Suc order_trans)
  next
    case False
    have "wtree crc32c rd c ig root (Suc n) loc (loc # concat bss) (concat lss)"
      using internal by (intro wtree.internal)
    from wtree_btree [OF this] internal.prems False show ?thesis by (intro exI [of _ "Suc n"]) auto
  qed
qed

lemma wtree_distinct: "wtree crc32c rd c ig root n loc bs lvs \<Longrightarrow> distinct bs"
proof (induction root n loc bs lvs rule: wtree.induct)
  case (internal loc d root h ks vs bss lss n)
  note t = wtree.internal [where rd = rd and loc = loc, OF internal.hyps(1-5) internal.hyps(6) internal.hyps(7-9)]
  have sorted: "sorted_wrt (<) ks"
    using unpack_node_raw_ok [OF check_unpack [OF internal.hyps(2)]] by (simp add: node_ok_def Let_def)
  have root: "loc \<notin> set (concat bss)"
  proof
    assume l: "loc \<in> set (concat bss)"
    then obtain m kvs r where "btree rd c r m loc kvs" "m < Suc n"
      using wtree_block [OF t, of loc] by auto
    with btree_unique [OF wtree_btree [OF t]] show False by blast
  qed
  have apart: "set (bss ! i) \<inter> set (bss ! j) = {}" if ij: "i < j" "j < length ks" for i j
  proof (rule equals0I)
    fix b assume b: "b \<in> set (bss ! i) \<inter> set (bss ! j)"
    have i: "i < length ks" using ij by simp
    obtain m kvs r where m: "btree rd c r m b kvs" "set kvs \<subseteq> set (leaf_pairs (lss ! i))" "kvs \<noteq> []"
      using wtree_block [OF internal.hyps(6) [OF i], of b] b internal.hyps(7) [OF i] by blast
    obtain m' kvs' r' where m': "btree rd c r' m' b kvs'" "set kvs' \<subseteq> set (leaf_pairs (lss ! j))"
      using wtree_block [OF internal.hyps(6) [OF ij(2)], of b] b by blast
    obtain k v where kv: "(k, v) \<in> set kvs" using m(3) by (cases kvs) auto
    from btree_unique [OF m(1) m'(1)] kv m(2) m'(2) have "k \<in> fst ` set (leaf_pairs (lss ! i))" "k \<in> fst ` set (leaf_pairs (lss ! j))"
      by (force intro: image_eqI [of _ fst "(k, v)"])+
    with internal.hyps(9) [of i k] internal.hyps(8) [OF ij(2), of k] ij have "k < ks ! Suc i" "ks ! j \<le> k" by simp_all
    moreover have "ks ! Suc i \<le> ks ! j"
      using sorted_wrt_nth_less [OF sorted, of "Suc i" j] ij by (cases "Suc i = j") (auto intro: less_imp_le)
    ultimately show False by simp
  qed
  have ne: "bss ! i \<noteq> []" if "i < length ks" for i using wtree_root [OF internal.hyps(6) [OF that]] by auto
  have "distinct (concat bss)"
  proof (rule distinct_concat)
    show "distinct bss" unfolding distinct_conv_nth
    proof (intro allI impI)
      fix i j assume "i < length bss" "j < length bss" "i \<noteq> j"
      then show "bss ! i \<noteq> bss ! j"
        using apart [of i j] apart [of j i] ne [of i] ne [of j] internal.hyps(4) by (cases "i < j") auto
    qed
    show "distinct l" if "l \<in> set bss" for l
      using that internal.IH internal.hyps(4) by (auto simp: in_set_conv_nth)
    show "set a \<inter> set b = {}" if ab: "a \<in> set bss" "b \<in> set bss" "a \<noteq> b" for a b
    proof -
      obtain i where "a = bss ! i" "i < length ks" using ab(1) internal.hyps(4) unfolding in_set_conv_nth by auto
      moreover obtain j where "b = bss ! j" "j < length ks"
        using ab(2) internal.hyps(4) unfolding in_set_conv_nth by auto
      ultimately show ?thesis using apart [of i j] apart [of j i] ab(3) by (cases "i < j"; cases "j < i") auto
    qed
  qed
  with root show ?case by simp
qed simp

lemma leaves_lengths:
  "wtree crc32c rd c ig root n loc bs lvs \<Longrightarrow> \<forall>l \<in> set lvs. length (fst l) = length (snd l)"
proof (induction root n loc bs lvs rule: wtree.induct)
  case (leaf loc d root h ks vs)
  then show ?case using unpack_node_raw_ok [OF check_unpack [OF leaf(2)]] by (simp add: node_ok_def Let_def)
next
  case (internal loc d root h ks vs bss lss n)
  then show ?case unfolding Ball_def in_concat_nth by metis
qed

lemma sorted_concatI:
  assumes "\<And>i. i < length ls \<Longrightarrow> sorted_wrt (<) (map fst (ls ! i))"
    "\<And>i j x y. i < j \<Longrightarrow> j < length ls \<Longrightarrow> x \<in> fst ` set (ls ! i) \<Longrightarrow> y \<in> fst ` set (ls ! j) \<Longrightarrow> x < (y :: u64)"
  shows "sorted_wrt (<) (map fst (concat ls))"
  using assms
proof (induction ls)
  case (Cons l ls)
  have "sorted_wrt (<) (map fst (concat ls))" using Cons.prems(1) [of "Suc _"] Cons.prems(2) [of "Suc _" "Suc _"]
    by (intro Cons.IH) auto
  moreover have "x < y" if xy: "x \<in> fst ` set l" "y \<in> fst ` set (concat ls)" for x y
  proof -
    obtain p where p: "p \<in> set (concat ls)" "y = fst p" using xy(2) by blast
    then obtain j where "j < length ls" "p \<in> set (ls ! j)" unfolding in_concat_nth by blast
    then show ?thesis using Cons.prems(2) [of 0 "Suc j" x y] xy(1) p(2) by simp
  qed
  ultimately show ?case using Cons.prems(1) [of 0] by (auto simp: sorted_wrt_append)
qed simp

lemma btree_sorted: "btree rd c r n loc kvs \<Longrightarrow> sorted_wrt (<) (map fst kvs)"
proof (induction r n loc kvs rule: btree.induct)
  case (leaf loc d r h ks vs)
  from unpack_node_raw_ok [OF leaf(2)] show ?case by (simp add: node_ok_def Let_def)
next
  case (internal loc d r h ks vs ls n)
  have sorted: "sorted_wrt (<) ks" using unpack_node_raw_ok [OF internal.hyps(2)] by (simp add: node_ok_def Let_def)
  show ?case
  proof (rule sorted_concatI)
    fix i j x y assume ij: "i < j" "j < length ls" and xy: "x \<in> fst ` set (ls ! i)" "y \<in> fst ` set (ls ! j)"
    have "x < ks ! Suc i" "ks ! j \<le> y" using internal.hyps(4,6,7) ij xy by auto
    moreover have "ks ! Suc i \<le> ks ! j" using sorted_wrt_nth_less [OF sorted, of "Suc i" j] ij internal.hyps(4)
      by (cases "Suc i = j") (auto intro: less_imp_le)
    ultimately show "x < y" by simp
  qed (use internal.IH internal.hyps(4) in simp)
qed

lemma wtree_in_range:
  assumes "wtree crc32c rd c ig root n loc bs lvs" "b \<in> set bs"
  shows "rd b \<noteq> None"
proof -
  obtain m kvs r where "btree rd c r m b kvs" using wtree_block [OF assms] by blast
  then show ?thesis by (cases rule: btree.cases) auto
qed

lemma wtree_mono: "wtree crc32c rd c ig root n loc bs lvs \<Longrightarrow> rd \<subseteq>\<^sub>m rd' \<Longrightarrow> wtree crc32c rd' c ig root n loc bs lvs"
proof (induction root n loc bs lvs rule: wtree.induct)
  case (leaf loc d root h ks vs)
  from map_le_Some [OF leaf(3) leaf(1)] leaf(2) show ?case by (rule wtree.leaf)
next
  case (internal loc d root h ks vs bss lss n)
  from map_le_Some [OF internal.prems internal(1)] internal show ?case by (intro wtree.internal) blast+
qed

section \<open>Contents of a checked tree\<close>

definition ctree :: "(bytes \<Rightarrow> u32) \<Rightarrow> (u64 \<Rightarrow> bytes option) \<Rightarrow> 'v codec \<Rightarrow> bool \<Rightarrow> bool \<Rightarrow> nat \<Rightarrow> u64 \<Rightarrow>
    (u64 \<times> 'v) list \<Rightarrow> bool" where
  "ctree crc32c rd c ig root n loc kvs \<longleftrightarrow> (\<exists>bs lvs. wtree crc32c rd c ig root n loc bs lvs \<and> leaf_pairs lvs = kvs)"

lemma ctree_btree: "ctree crc32c rd c ig root n loc kvs \<Longrightarrow> btree rd c root n loc kvs"
  by (auto simp: ctree_def dest: wtree_btree)

lemma ctree_mono: "ctree crc32c rd c ig root n loc kvs \<Longrightarrow> rd \<subseteq>\<^sub>m rd' \<Longrightarrow> ctree crc32c rd' c ig root n loc kvs"
  unfolding ctree_def by (blast intro: wtree_mono)

lemma ctree_leaf:
  assumes "rd loc = Some d" "check_and_unpack_node crc32c c (loc, d) ig root = Ok (Leaf h ks vs)"
  shows "ctree crc32c rd c ig root 0 loc (zip ks vs)"
  unfolding ctree_def
  using wtree.leaf [where rd = rd and loc = loc, OF assms] by (intro exI [of _ "[loc]"] exI [of _ "[(ks, vs)]"]) simp

lemma ctree_internal:
  assumes "rd loc = Some d" "check_and_unpack_node crc32c c (loc, d) ig root = Ok (Internal h ks vs)"
    and ne: "ks \<noteq> []" and len: "length ls = length ks"
    and child: "\<And>i. i < length ks \<Longrightarrow> ctree crc32c rd c ig False n (vs ! i) (ls ! i)"
    and full: "\<And>i. i < length ks \<Longrightarrow> ls ! i \<noteq> []"
    and low: "\<And>i k. i < length ks \<Longrightarrow> k \<in> fst ` set (ls ! i) \<Longrightarrow> ks ! i \<le> k"
    and high: "\<And>i k. Suc i < length ks \<Longrightarrow> k \<in> fst ` set (ls ! i) \<Longrightarrow> k < ks ! Suc i"
  shows "ctree crc32c rd c ig root (Suc n) loc (concat ls)"
proof -
  have "\<forall>i. \<exists>p. i < length ks \<longrightarrow> wtree crc32c rd c ig False n (vs ! i) (fst p) (snd p) \<and> leaf_pairs (snd p) = ls ! i"
    using child by (auto simp: ctree_def)
  then obtain p where p: "\<And>i. i < length ks \<Longrightarrow> wtree crc32c rd c ig False n (vs ! i) (fst (p i)) (snd (p i))"
    "\<And>i. i < length ks \<Longrightarrow> leaf_pairs (snd (p i)) = ls ! i" by metis
  let ?bss = "map (\<lambda>i. fst (p i)) [0..<length ks]" and ?lss = "map (\<lambda>i. snd (p i)) [0..<length ks]"
  have "wtree crc32c rd c ig root (Suc n) loc (loc # concat ?bss) (concat ?lss)"
    by (rule wtree.internal [where rd = rd and loc = loc, OF assms(1,2) ne])
      (use p full low high in \<open>simp_all del: map_map\<close>)
  moreover have "leaf_pairs (concat ?lss) = concat ls"
    unfolding leaf_pairs_concat using p(2) len by (intro arg_cong [of _ _ concat] nth_equalityI) simp_all
  ultimately show ?thesis unfolding ctree_def by blast
qed

end
