(* ===== verification/Write_Batcher.thy ===== *)
theory Write_Batcher
  imports Superblock Space_Map Btree_Node
begin

text \<open>
  \<open>src/write_batcher.rs\<close>: writes of metadata blocks go through a queue, which is written out when it is full;
  reads see the queue first. New blocks come from a space map. The space map is a trait object in the source,
  so its operations are a record here, and the locale \<open>space_map\<close> states what its users need of
  it; the maps of \<open>Space_Map\<close> interpret it. \<open>we_view\<close> is what the methods on \<open>&self\<close> of a space map return. The
  set of allocated ranges is the \<open>rangemap\<close> crate's, of which the constructor, \<open>insert\<close> and the iteration over the ranges are used. Memory that is not initialised is the argument \<open>fresh\<close>.
\<close>

record sm_view =
  sv_get :: "u64 \<Rightarrow> (sm_error, u32) result"
  sv_nr_blocks :: "(sm_error, u64) result"
  sv_nr_allocated :: "(sm_error, u64) result"

record ('s, 'r) wenv =
  we_crc32c :: "bytes \<Rightarrow> u32"
  we_fresh :: "u64 \<Rightarrow> bytes"
  we_alloc :: "'s \<Rightarrow> ('s, u64 option) sm_op"
  we_inc :: "'s \<Rightarrow> u64 \<Rightarrow> u64 \<Rightarrow> ('s, unit) sm_op"
  we_dec :: "'s \<Rightarrow> u64 \<Rightarrow> ('s, bool) sm_op"
  we_rs_new :: 'r
  we_rs_insert :: "'r \<Rightarrow> u64 \<Rightarrow> u64 \<Rightarrow> 'r"
  we_rs_ranges :: "'r \<Rightarrow> (u64 \<times> u64) list"
  we_view :: "'s \<Rightarrow> sm_view"

record ('s, 'r) batcher =
  wb_engine :: engine
  wb_sm :: 's
  wb_batch_size :: nat
  wb_queue :: "block list"
  wb_allocations :: 'r

datatype wb_error = WbSpaceMap sm_error | OutOfMetadataSpace | WbChecksum | WbReadBlock
  | WbNode btree_error | WbPack | WbUnpack | KeysOutOfOrder

type_synonym ('t, 'a) wb_op = "(wb_error, 'a) result \<times> 't"

definition wb_new :: "('s, 'r) wenv \<Rightarrow> engine \<Rightarrow> 's \<Rightarrow> nat \<Rightarrow> ('s, 'r) batcher" where
  "wb_new env e sm batch_size = \<lparr>wb_engine = e, wb_sm = sm, wb_batch_size = batch_size, wb_queue = [],
     wb_allocations = we_rs_new env\<rparr>"

text \<open>Running an operation of the space map behind its mutex.\<close>

definition with_sm :: "('s \<Rightarrow> ('s, 'a) sm_op) \<Rightarrow> ('s, 'r) batcher \<Rightarrow> (('s, 'r) batcher, 'a) wb_op" where
  "with_sm f w = (case f (wb_sm w) of (r, s) \<Rightarrow>
     ((case r of Ok a \<Rightarrow> Ok a | Err e \<Rightarrow> Err (WbSpaceMap e) | Panic \<Rightarrow> Panic), w\<lparr>wb_sm := s\<rparr>))"

definition alloc_loc :: "('s, 'r) wenv \<Rightarrow> ('s, 'r) batcher \<Rightarrow> (('s, 'r) batcher, u64) wb_op" where
  "alloc_loc env w = binds (with_sm (we_alloc env) w) (\<lambda>b w.
     case b of None \<Rightarrow> (Err OutOfMetadataSpace, w)
     | Some loc \<Rightarrow> (Ok loc, w\<lparr>wb_allocations := we_rs_insert env (wb_allocations w) loc (loc + 1)\<rparr>))"

definition wb_alloc :: "('s, 'r) wenv \<Rightarrow> ('s, 'r) batcher \<Rightarrow> (('s, 'r) batcher, block) wb_op" where
  "wb_alloc env w = binds (alloc_loc env w) (\<lambda>loc w. (Ok (loc, we_fresh env loc), w))"

definition wb_alloc_zeroed :: "('s, 'r) wenv \<Rightarrow> ('s, 'r) batcher \<Rightarrow> (('s, 'r) batcher, block) wb_op" where
  "wb_alloc_zeroed env w = binds (alloc_loc env w) (\<lambda>loc w. (Ok (block_zeroed loc), w))"

definition clear_allocations :: "('s, 'r) wenv \<Rightarrow> ('s, 'r) batcher \<Rightarrow> 'r \<times> ('s, 'r) batcher" where
  "clear_allocations env w = (wb_allocations w, w\<lparr>wb_allocations := we_rs_new env\<rparr>)"

text \<open>\<open>write_many\<close> succeeds as a call; the results of the single blocks are dropped.\<close>

definition flush_queue :: "block list \<Rightarrow> ('s, 'r) batcher \<Rightarrow> (('s, 'r) batcher, unit) wb_op" where
  "flush_queue queue w = (let (_, e) = engine_write_many (wb_engine w) queue in (Ok (), w\<lparr>wb_engine := e\<rparr>))"

fun replace_last :: "block \<Rightarrow> block list \<Rightarrow> block list option" where
  "replace_last b [] = None"
| "replace_last b (q # qs) = (case replace_last b qs of Some qs' \<Rightarrow> Some (q # qs')
     | None \<Rightarrow> if fst q = fst b then Some (b # qs) else None)"

definition wb_write :: "('s, 'r) wenv \<Rightarrow> block \<Rightarrow> BT \<Rightarrow> ('s, 'r) batcher \<Rightarrow> (('s, 'r) batcher, unit) wb_op" where
  "wb_write env b kind w =
    (case write_checksum (we_crc32c env) (snd b) kind of
       Err _ \<Rightarrow> (Err WbChecksum, w) | Panic \<Rightarrow> (Panic, w)
     | Ok d \<Rightarrow> (let b = (fst b, d) in
         case replace_last b (wb_queue w) of
           Some queue \<Rightarrow> (Ok (), w\<lparr>wb_queue := queue\<rparr>)
         | None \<Rightarrow>
             binds (if length (wb_queue w) = wb_batch_size w
                    then flush_queue (wb_queue w) (w\<lparr>wb_queue := []\<rparr>) else (Ok (), w)) (\<lambda>_ w.
             (Ok (), w\<lparr>wb_queue := wb_queue w @ [b]\<rparr>))))"

definition wb_read :: "u64 \<Rightarrow> ('s, 'r) batcher \<Rightarrow> (wb_error, block) result" where
  "wb_read blocknr w = (case find (\<lambda>b. fst b = blocknr) (rev (wb_queue w)) of
     Some b \<Rightarrow> Ok b
   | None \<Rightarrow> map_err WbReadBlock (engine_read (wb_engine w) blocknr))"

definition wb_flush :: "('s, 'r) batcher \<Rightarrow> (('s, 'r) batcher, unit) wb_op" where
  "wb_flush w = (if wb_queue w = [] then (Ok (), w) else flush_queue (wb_queue w) (w\<lparr>wb_queue := []\<rparr>))"

section \<open>The device as its users see it\<close>

text \<open>The device with the queue written to it.\<close>

definition wb_view :: "('s, 'r) batcher \<Rightarrow> engine" where
  "wb_view w = snd (engine_write_many (wb_engine w) (wb_queue w))"

definition wb_ok :: "('s, 'r) batcher \<Rightarrow> bool" where
  "wb_ok w \<longleftrightarrow> (\<forall>b \<in> set (wb_queue w). fst b < en_nr_blocks (wb_engine w))"

lemma wb_read_view:
  assumes "wb_ok w"
  shows "wb_read l w = map_err WbReadBlock (engine_read (wb_view w) l)"
  using engine_read_write_many [of "wb_queue w" "wb_engine w" l] assms
  by (auto simp: wb_read_def wb_view_def wb_ok_def map_err_def split: option.splits)

lemma engine_write_many_append:
  "engine_write_many e (xs @ ys) =
    (let (rs, e1) = engine_write_many e xs; (rs', e2) = engine_write_many e1 ys in (rs @ rs', e2))"
  by (induction xs arbitrary: e) (simp_all add: case_prod_beta Let_def)

lemma wb_flush_view:
  "wb_flush w = (Ok (), w\<lparr>wb_engine := wb_view w, wb_queue := []\<rparr>)"
  by (cases w) (simp add: wb_flush_def flush_queue_def wb_view_def case_prod_beta)

lemma replace_last_None: "replace_last b qs = None \<longleftrightarrow> (\<forall>q \<in> set qs. fst q \<noteq> fst b)"
  by (induction qs) (auto split: option.splits)

lemma replace_last_find:
  "replace_last b qs = Some qs' \<Longrightarrow> find (\<lambda>x. fst x = l) (rev qs') =
    (if l = fst b then Some b else find (\<lambda>x. fst x = l) (rev qs))"
proof (induction qs arbitrary: qs')
  case (Cons q qs)
  show ?case
  proof (cases "replace_last b qs")
    case None
    then have "find (\<lambda>x. fst x = fst b) (rev qs) = None" by (auto simp: replace_last_None find_None_iff)
    with Cons.prems None show ?thesis by (auto simp: find_append split: if_splits option.splits)
  next
    case (Some qs1)
    with Cons.prems Cons.IH [OF Some] show ?thesis by (auto simp: find_append split: option.splits)
  qed
qed simp

lemma replace_last_set: "replace_last b qs = Some qs' \<Longrightarrow> fst ` set qs' = fst ` set qs"
proof (induction qs arbitrary: qs')
  case (Cons q qs)
  show ?case
  proof (cases "replace_last b qs")
    case None
    with Cons.prems show ?thesis by (simp split: if_splits) (force simp: image_def)
  next
    case (Some qs1)
    with Cons.prems have "qs' = q # qs1" by simp
    then show ?thesis using Cons.IH [OF Some] by (simp only: list.set image_insert)
  qed
qed simp

text \<open>A write of a block of the device: the view changes there and nowhere else.\<close>

lemma wb_write_view:
  assumes ok: "wb_ok w" and loc: "fst b < en_nr_blocks (wb_engine w)"
    and d: "write_checksum (we_crc32c env) (snd b) kind = Ok d"
  obtains w' where "wb_write env b kind w = (Ok (), w')" "wb_ok w'" "wb_sm w' = wb_sm w"
    "en_nr_blocks (wb_engine w') = en_nr_blocks (wb_engine w)"
    "\<And>l. engine_read (wb_view w') l = (if l = fst b then Ok (fst b, d) else engine_read (wb_view w) l)"
proof (cases "replace_last (fst b, d) (wb_queue w)")
  case (Some qs)
  note f = replace_last_find [OF Some] replace_last_set [OF Some]
  let ?w = "w\<lparr>wb_queue := qs\<rparr>"
  have "(\<forall>b \<in> set qs. fst b < n) \<longleftrightarrow> (\<forall>l \<in> fst ` set qs. l < n)" for n by auto
  then have ok': "wb_ok ?w" using ok unfolding wb_ok_def by (simp add: f(2))
  show thesis
  proof (rule that [of ?w])
    show "wb_write env b kind w = (Ok (), ?w)" using d Some by (simp add: wb_write_def)
    show "engine_read (wb_view ?w) l = (if l = fst b then Ok (fst b, d) else engine_read (wb_view w) l)" for l
      using engine_read_write_many [of "wb_queue w" "wb_engine w" l] engine_read_write_many [of qs "wb_engine w" l]
        ok ok' f(1) [of l] by (auto simp: wb_view_def wb_ok_def split: option.splits)
  qed (use ok' in simp_all)
next
  case None
  let ?w1 = "if length (wb_queue w) = wb_batch_size w then w\<lparr>wb_engine := wb_view w, wb_queue := []\<rparr> else w"
  let ?w = "?w1\<lparr>wb_queue := wb_queue ?w1 @ [(fst b, d)]\<rparr>"
  have view1: "wb_view ?w1 = wb_view w" by (simp add: wb_view_def)
  have nr: "en_nr_blocks (wb_engine ?w1) = en_nr_blocks (wb_engine w)"
    by (simp add: wb_view_def engine_write_many_nr)
  have "wb_view ?w = snd (engine_write_many (wb_view ?w1) [(fst b, d)])"
    by (simp add: wb_view_def engine_write_many_append case_prod_beta Let_def)
  then have v: "wb_view ?w = snd (engine_write_many (wb_view w) [(fst b, d)])" using view1 by simp
  have nrv: "en_nr_blocks (wb_view w) = en_nr_blocks (wb_engine w)" by (simp add: wb_view_def engine_write_many_nr)
  show thesis
  proof (rule that [of ?w])
    show "wb_write env b kind w = (Ok (), ?w)"
      using d None by (cases w) (auto simp: wb_write_def flush_queue_def wb_view_def case_prod_beta)
    show "wb_ok ?w" using ok loc nr nrv by (auto simp: wb_ok_def)
    show "engine_read (wb_view ?w) l = (if l = fst b then Ok (fst b, d) else engine_read (wb_view w) l)" for l
      using engine_read_write_many [of "[(fst b, d)]" "wb_view w" l] loc nrv unfolding v by auto
  qed (use nr in auto)
qed

section \<open>The space map under a batcher\<close>

text \<open>The batcher over a device of \<open>nr\<close> blocks.\<close>

definition batcher_inv :: "('s, 'r) wenv \<Rightarrow> ('s \<Rightarrow> bool) \<Rightarrow> u64 \<Rightarrow> ('s, 'r) batcher \<Rightarrow> bool" where
  "batcher_inv env sinv nr w \<longleftrightarrow> wb_ok w \<and> sinv (wb_sm w) \<and> en_nr_blocks (wb_engine w) = nr \<and>
     (\<forall>l. length (we_fresh env l) = BLOCK_SIZE)"

locale space_map =
  fixes env :: "('s, 'r) wenv" and inv :: "'s \<Rightarrow> bool" and count :: "'s \<Rightarrow> u64 \<Rightarrow> nat" and nr :: u64
  assumes alloc_cases: "inv s \<Longrightarrow>
      (we_alloc env s = (Ok None, s) \<and> (\<forall>b < nr. 0 < count s b)) \<or>
      (\<exists>b s'. we_alloc env s = (Ok (Some b), s') \<and> b < nr \<and> count s b = 0 \<and> inv s' \<and> count s' = (count s)(b := 1))"
    and dec_counted: "inv s \<Longrightarrow> b < nr \<Longrightarrow> 0 < count s b \<Longrightarrow>
      \<exists>s'. we_dec env s b = (Ok (count s b = 1), s') \<and> inv s' \<and> count s' = (count s)(b := count s b - 1)"
begin

abbreviation wb_inv :: "('s, 'r) batcher \<Rightarrow> bool" where
  "wb_inv \<equiv> batcher_inv env inv nr"

abbreviation cnt :: "('s, 'r) batcher \<Rightarrow> u64 \<Rightarrow> nat" where
  "cnt w \<equiv> count (wb_sm w)"

lemma wb_alloc_cases:
  assumes "wb_inv w"
  obtains (full) "wb_alloc env w = (Err OutOfMetadataSpace, w)" "\<forall>b < nr. 0 < cnt w b"
    | (ok) loc w' where "wb_alloc env w = (Ok (loc, we_fresh env loc), w')" "loc < nr" "cnt w loc = 0"
      "wb_inv w'" "cnt w' = (cnt w)(loc := 1)" "wb_view w' = wb_view w"
proof -
  have inv: "inv (wb_sm w)" using assms by (simp add: batcher_inv_def)
  consider "we_alloc env (wb_sm w) = (Ok None, wb_sm w)" "\<forall>b < nr. 0 < cnt w b"
    | b s' where "we_alloc env (wb_sm w) = (Ok (Some b), s')" "b < nr" "cnt w b = 0" "inv s'"
      "count s' = (cnt w)(b := 1)"
    using alloc_cases [OF inv] by blast
  then show thesis
  proof cases
    case 1
    then show thesis by (intro full) (simp_all add: wb_alloc_def alloc_loc_def with_sm_def)
  next
    case (2 b s')
    let ?w = "w\<lparr>wb_sm := s', wb_allocations := we_rs_insert env (wb_allocations w) b (b + 1)\<rparr>"
    show thesis
      using 2 assms by (intro ok [of b ?w])
        (auto simp: wb_alloc_def alloc_loc_def with_sm_def batcher_inv_def wb_ok_def wb_view_def)
  qed
qed

lemma wb_dec:
  assumes "wb_inv w" "b < nr" "0 < cnt w b"
  obtains w' where "with_sm (\<lambda>s. we_dec env s b) w = (Ok (cnt w b = 1), w')" "wb_inv w'"
    "cnt w' = (cnt w)(b := cnt w b - 1)" "wb_view w' = wb_view w"
proof -
  obtain s' where s': "we_dec env (wb_sm w) b = (Ok (cnt w b = 1), s')" "inv s'"
    "count s' = (cnt w)(b := cnt w b - 1)"
    using dec_counted [of "wb_sm w" b] assms by (auto simp: batcher_inv_def)
  show thesis
    using s' assms(1) by (intro that [of "w\<lparr>wb_sm := s'\<rparr>"])
      (auto simp: with_sm_def batcher_inv_def wb_ok_def wb_view_def)
qed

end

text \<open>A core space map of 32 bit counters, with a set of block numbers for the allocations.\<close>

fun runs_of :: "u64 list \<Rightarrow> (u64 \<times> u64) list" where
  "runs_of [] = []"
| "runs_of (b # bs) = (case runs_of bs of
     (s, e) # rs \<Rightarrow> if s = b + 1 then (b, e) # rs else (b, b + 1) # (s, e) # rs
   | [] \<Rightarrow> [(b, b + 1)])"

definition core_view :: "u32 core_sm \<Rightarrow> sm_view" where
  "core_view sm = \<lparr>sv_get = core_get sm, sv_nr_blocks = Ok (core_get_nr_blocks sm), sv_nr_allocated = Ok (nr_allocated sm)\<rparr>"

definition core_env :: "(bytes \<Rightarrow> u32) \<Rightarrow> (u64 \<Rightarrow> bytes) \<Rightarrow> (u32 core_sm, u64 set) wenv" where
  "core_env crc32c fresh = \<lparr>we_crc32c = crc32c, we_fresh = fresh, we_alloc = core_alloc, we_inc = core_inc,
     we_dec = core_dec, we_rs_new = {}, we_rs_insert = (\<lambda>r b e. r \<union> {b..<e}),
     we_rs_ranges = (\<lambda>r. runs_of (sorted_list_of_set r)), we_view = core_view\<rparr>"

definition core_sm_inv :: "u64 \<Rightarrow> u32 core_sm \<Rightarrow> bool" where
  "core_sm_inv nr sm \<longleftrightarrow> core_inv sm \<and> length (counts sm) = unat nr"

definition core_sm_count :: "u32 core_sm \<Rightarrow> u64 \<Rightarrow> nat" where
  "core_sm_count sm b = (if unat b < length (counts sm) then core_count sm ! unat b else 0)"

lemma core_sm_count_update:
  assumes "core_count s' = (core_count sm)[unat b := n]" "unat b < length (counts sm)"
  shows "core_sm_count s' = (core_sm_count sm)(b := n)"
proof
  fix x
  have "length (counts s') = length (counts sm)" using arg_cong [OF assms(1), of length] by simp
  then show "core_sm_count s' x = ((core_sm_count sm)(b := n)) x"
    using assms by (auto simp: core_sm_count_def word_unat_eq_iff nth_list_update)
qed

interpretation core_batch: space_map "core_env crc32c fresh" "core_sm_inv nr" core_sm_count nr
  for crc32c fresh nr
proof unfold_locales
  fix s :: "u32 core_sm" assume i: "core_sm_inv nr s"
  then have inv: "core_inv s" and l: "length (counts s) = unat nr" by (simp_all add: core_sm_inv_def)
  show "we_alloc (core_env crc32c fresh) s = (Ok None, s) \<and> (\<forall>b < nr. 0 < core_sm_count s b) \<or>
    (\<exists>b s'. we_alloc (core_env crc32c fresh) s = (Ok (Some b), s') \<and> b < nr \<and> core_sm_count s b = 0 \<and>
       core_sm_inv nr s' \<and> core_sm_count s' = (core_sm_count s)(b := 1))"
  proof (cases "find (\<lambda>b. counts s ! unat b = 0) (alloc_order (alloc_begin s) (length (counts s)))")
    case None
    then have a: "core_alloc s = (Ok None, s)" by (simp add: core_alloc_eq [OF inv])
    then have "\<forall>i < length (counts s). core_count s ! i \<noteq> 0" using core_alloc_None [OF inv] by simp
    with a l show ?thesis by (simp add: core_env_def core_sm_count_def word_less_nat_alt)
  next
    case (Some b)
    then obtain s' where a: "core_alloc s = (Ok (Some b), s')" by (simp add: core_alloc_eq [OF inv])
    note c = core_alloc_Some [OF inv a]
    have "length (counts s') = length (counts s)" using arg_cong [OF c(4), of length] by simp
    moreover have "core_sm_count s' = (core_sm_count s)(b := 1)"
      using c by (intro core_sm_count_update) simp_all
    ultimately show ?thesis using a c l
      by (simp add: core_env_def core_sm_inv_def core_sm_count_def word_less_nat_alt)
  qed
next
  fix s :: "u32 core_sm" and b :: u64
  assume i: "core_sm_inv nr s" and b: "b < nr" and pos: "0 < core_sm_count s b"
  then have inv: "core_inv s" and l: "length (counts s) = unat nr" and bl: "unat b < length (core_count s)"
    by (simp_all add: core_sm_inv_def word_less_nat_alt)
  then have c: "core_sm_count s b = core_count s ! unat b" by (simp add: core_sm_count_def)
  obtain s' where s': "core_dec s b = (Ok (core_count s ! unat b = 1), s')" "core_inv s'"
    "core_count s' = (core_count s)[unat b := core_count s ! unat b - 1]"
    using core.dec_positive [OF inv bl] pos c unfolding core_dec_def by auto
  have "length (counts s') = length (counts s)" using arg_cong [OF s'(3), of length] by simp
  moreover have "core_sm_count s' = (core_sm_count s)(b := core_count s ! unat b - 1)"
    using s' bl by (intro core_sm_count_update) simp_all
  ultimately show "\<exists>s'. we_dec (core_env crc32c fresh) s b = (Ok (core_sm_count s b = 1), s') \<and>
      core_sm_inv nr s' \<and> core_sm_count s' = (core_sm_count s)(b := core_sm_count s b - 1)"
    using s' c l by (auto simp: core_env_def core_sm_inv_def)
qed

section \<open>Properties\<close>



text \<open>C14: A write to a block of the device succeeds, and from then on, whether the queue was full or
  not and whether the block was queued before, a read of the block gives the data with its checksum, and
  a read of any other block what it gave before.\<close>

theorem write_then_read_batched:
  assumes "\<forall>q \<in> set (wb_queue w). fst q < en_nr_blocks (wb_engine w)" "fst b < en_nr_blocks (wb_engine w)"
    "length (snd b) = BLOCK_SIZE" "kind \<noteq> BT_UNKNOWN"
  shows "\<exists>w' d. wb_write env b kind w = (Ok (), w') \<and> write_checksum (we_crc32c env) (snd b) kind = Ok d \<and>
    wb_read (fst b) w' = Ok (fst b, d) \<and> (\<forall>l. l \<noteq> fst b \<longrightarrow> wb_read l w' = wb_read l w)"
proof -
  have ok: "wb_ok w" using assms(1) by (simp add: wb_ok_def)
  obtain d where d: "write_checksum (we_crc32c env) (snd b) kind = Ok d"
    using assms(3,4) by (cases kind) (auto simp: write_checksum_def)
  obtain w' where w': "wb_write env b kind w = (Ok (), w')" "wb_ok w'"
    "\<And>l. engine_read (wb_view w') l = (if l = fst b then Ok (fst b, d) else engine_read (wb_view w) l)"
    using wb_write_view [OF ok assms(2) d] by blast
  with d show ?thesis using wb_read_view [OF ok] wb_read_view [OF w'(2)] by (auto simp: map_err_def)
qed

theorem write_then_read_batched_witness:
  "\<exists>w' d. wb_write (core_env (\<lambda>_. 0) (\<lambda>_. [])) (1, replicate BLOCK_SIZE 7) BT_NODE
      (wb_new (core_env (\<lambda>_. 0) (\<lambda>_. [])) (engine_new (\<lambda>_. []) 2) (core_new 2) 1) = (Ok (), w') \<and>
    wb_read 1 w' = Ok (1, d)"
  using write_then_read_batched [of "wb_new (core_env (\<lambda>_. 0) (\<lambda>_. [])) (engine_new (\<lambda>_. []) 2) (core_new 2) 1"
      "(1, replicate BLOCK_SIZE 7)" BT_NODE "core_env (\<lambda>_. 0) (\<lambda>_. [])"]
  by (auto simp: wb_new_def engine_new_def)

end
