(* ===== verification/Btree_Builder.thy ===== *)
theory Btree_Builder
  imports Btree_Tree Write_Batcher
begin

text \<open>
  \<open>src/pdata/btree_builder.rs\<close>: building a btree from values in key order. A \<open>NodeBuilder\<close> packs values into
  full nodes and keeps up to two nodes' worth of values back, so that the last node can be balanced; it can
  also take nodes that were built before and are shared. \<open>build_btree\<close> adds layers of internal nodes
  until one node is left. The kind of node (\<open>NodeIO\<close>) and the counter of the values (\<open>RefCounter\<close>) are
  trait objects in the source and records here. The state of a method is the builder, the batcher and the
  state of the counter.
\<close>

section \<open>Reference counters\<close>

record ('q, 'v) ref_counting =
  rc_get :: "'v \<Rightarrow> 'q \<Rightarrow> (wb_error, u32) result"
  rc_inc :: "'v \<Rightarrow> 'q \<Rightarrow> ('q, unit) wb_op"
  rc_dec :: "'v \<Rightarrow> 'q \<Rightarrow> ('q, unit) wb_op"

definition noop_rc :: "('q, 'v) ref_counting" where
  "noop_rc = \<lparr>rc_get = (\<lambda>v q. Ok 0), rc_inc = (\<lambda>v q. (Ok (), q)), rc_dec = (\<lambda>v q. (Ok (), q))\<rparr>"

fun sm_result :: "(sm_error, 'a) result \<Rightarrow> (wb_error, 'a) result" where
  "sm_result (Ok a) = Ok a"
| "sm_result (Err e) = Err (WbSpaceMap e)"
| "sm_result Panic = Panic"

text \<open>\<open>SMRefCounter\<close>, over the operations of its space map.\<close>

definition sm_ref_counter :: "('s \<Rightarrow> u64 \<Rightarrow> (sm_error, u32) result) \<Rightarrow>
    ('s \<Rightarrow> u64 \<Rightarrow> u64 \<Rightarrow> ('s, unit) sm_op) \<Rightarrow> ('s \<Rightarrow> u64 \<Rightarrow> ('s, bool) sm_op) \<Rightarrow> ('s, u64) ref_counting" where
  "sm_ref_counter sget sinc sdec = \<lparr>rc_get = (\<lambda>v sm. sm_result (sget sm v)),
     rc_inc = (\<lambda>v sm. map_prod sm_result id (sinc sm v 1)),
     rc_dec = (\<lambda>v sm. binds (map_prod sm_result id (sdec sm v)) (\<lambda>_ sm. (Ok (), sm)))\<rparr>"

section \<open>Writing and reading nodes\<close>

record write_result =
  wr_first_key :: u64
  wr_loc :: u64

definition write_node :: "('s, 'r) wenv \<Rightarrow> 'v codec \<Rightarrow> 'v node \<Rightarrow> ('s, 'r) batcher \<Rightarrow>
    (('s, 'r) batcher, write_result) wb_op" where
  "write_node env c node w =
    (let keys = get_keys node; first_key = (if keys = [] then 0 else hd keys) in
     binds (wb_alloc env w) (\<lambda>(loc, buf) w.
     let node = set_block node loc in
     case cursor_write buf (pack_node c node) of
       Err _ \<Rightarrow> (Err WbPack, w) | Panic \<Rightarrow> (Panic, w)
     | Ok data \<Rightarrow> binds (wb_write env (loc, data) BT_NODE w) (\<lambda>_ w.
         (Ok \<lparr>wr_first_key = first_key, wr_loc = loc\<rparr>, w))))"

record ('s, 'r, 'v) node_io =
  io_write :: "u64 list \<Rightarrow> 'v list \<Rightarrow> ('s, 'r) batcher \<Rightarrow> (('s, 'r) batcher, write_result) wb_op"
  io_read :: "u64 \<Rightarrow> ('s, 'r) batcher \<Rightarrow> (wb_error, u64 list \<times> 'v list) result"

definition leaf_io :: "('s, 'r) wenv \<Rightarrow> 'v codec \<Rightarrow> ('s, 'r, 'v) node_io" where
  "leaf_io env c = \<lparr>
     io_write = (\<lambda>keys values w.
       let header = \<lparr>nh_block = 0, nh_is_leaf = True, nh_nr_entries = word_of_nat (length keys),
         nh_max_entries = word_of_nat (calc_max_entries c), nh_value_size = disk_size c\<rparr> in
       write_node env c (Leaf header keys values) w),
     io_read = (\<lambda>block w. bindr (wb_read block w) (\<lambda>b.
       case unpack_node c [] (snd b) True True of
         Ok (Internal _ _ _) \<Rightarrow> Panic | Ok (Leaf _ keys values) \<Rightarrow> Ok (keys, values)
       | Err e \<Rightarrow> Err (WbNode e) | Panic \<Rightarrow> Panic))\<rparr>"

definition internal_io :: "('s, 'r) wenv \<Rightarrow> ('s, 'r, u64) node_io" where
  "internal_io env = \<lparr>
     io_write = (\<lambda>keys values w.
       let header = \<lparr>nh_block = 0, nh_is_leaf = False, nh_nr_entries = word_of_nat (length keys),
         nh_max_entries = word_of_nat (calc_max_entries u64_codec), nh_value_size = disk_size u64_codec\<rparr> in
       write_node env u64_codec (Internal header keys values) w),
     io_read = (\<lambda>block w. bindr (wb_read block w) (\<lambda>b.
       case unpack_node u64_codec [] (snd b) True True of
         Ok (Internal _ keys values) \<Rightarrow> Ok (keys, values) | Ok (Leaf _ _ _) \<Rightarrow> Panic
       | Err e \<Rightarrow> Err (WbNode e) | Panic \<Rightarrow> Panic))\<rparr>"

section \<open>The node builder\<close>

record built_node =
  bn_block :: u64
  bn_key :: u64
  bn_nr_entries :: nat
  bn_shared :: bool

record 'v node_builder =
  nb_max :: nat
  nb_values :: "(u64 \<times> 'v) list"
  nb_nodes :: "built_node list"
  nb_shared :: bool
  nb_last_key :: "u64 option"

type_synonym ('s, 'r, 'q, 'v) nb_state = "'v node_builder \<times> ('s, 'r) batcher \<times> 'q"
type_synonym ('s, 'r, 'q, 'v, 'a) nb_op =
  "('s, 'r, 'q, 'v) nb_state \<Rightarrow> (('s, 'r, 'q, 'v) nb_state, 'a) wb_op"

definition on_batcher :: "(('s, 'r) batcher \<Rightarrow> (('s, 'r) batcher, 'a) wb_op) \<Rightarrow> ('s, 'r, 'q, 'v, 'a) nb_op" where
  "on_batcher f = (\<lambda>(nb, w, q). case f w of (r, w) \<Rightarrow> (r, (nb, w, q)))"

definition on_counter :: "('q \<Rightarrow> ('q, 'a) wb_op) \<Rightarrow> ('s, 'r, 'q, 'v, 'a) nb_op" where
  "on_counter f = (\<lambda>(nb, w, q). case f q of (r, q) \<Rightarrow> (r, (nb, w, q)))"

definition on_builder :: "('v node_builder \<Rightarrow> 'v node_builder) \<Rightarrow> ('s, 'r, 'q, 'v, unit) nb_op" where
  "on_builder f = (\<lambda>(nb, w, q). (Ok (), (f nb, w, q)))"

definition nb_new :: "'v codec \<Rightarrow> bool \<Rightarrow> 'v node_builder" where
  "nb_new c shared = \<lparr>nb_max = calc_max_entries c, nb_values = [], nb_nodes = [], nb_shared = shared,
     nb_last_key = None\<rparr>"

definition half_full :: "'v node_builder \<Rightarrow> nat" where
  "half_full nb = nb_max nb div 2"

definition check_ordered_key :: "u64 \<Rightarrow> ('s, 'r, 'q, 'v, unit) nb_op" where
  "check_ordered_key key = (\<lambda>(nb, w, q).
     if (case nb_last_key nb of Some last_key \<Rightarrow> key \<le> last_key | None \<Rightarrow> False) then (Err KeysOutOfOrder, (nb, w, q))
     else (Ok (), (nb\<lparr>nb_last_key := Some key\<rparr>, w, q)))"

definition read_node :: "('s, 'r, 'v) node_io \<Rightarrow> u64 \<Rightarrow> ('s, 'r, 'q, 'v, u64 list \<times> 'v list) nb_op" where
  "read_node io block = (\<lambda>(nb, w, q). (io_read io block w, (nb, w, q)))"

definition emit_values :: "('s, 'r, 'v) node_io \<Rightarrow> nat \<Rightarrow> ('s, 'r, 'q, 'v, unit) nb_op" where
  "emit_values io nr_entries = (\<lambda>(nb, w, q).
     if length (nb_values nb) < nr_entries then (Panic, (nb, w, q))
     else
       let kvs = take nr_entries (nb_values nb); nb = nb\<lparr>nb_values := drop nr_entries (nb_values nb)\<rparr> in
       binds (on_batcher (io_write io (map fst kvs) (map snd kvs)) (nb, w, q)) (\<lambda>wresult.
       on_builder (\<lambda>nb. nb\<lparr>nb_nodes := nb_nodes nb @ [\<lparr>bn_block = wr_loc wresult, bn_key = wr_first_key wresult,
         bn_nr_entries = nr_entries, bn_shared = nb_shared nb\<rparr>]\<rparr>)))"

definition emit_node :: "('s, 'r, 'v) node_io \<Rightarrow> ('s, 'r, 'q, 'v, unit) nb_op" where
  "emit_node io = (\<lambda>(nb, w, q). emit_values io (nb_max nb) (nb, w, q))"

definition emit_all :: "('s, 'r, 'v) node_io \<Rightarrow> ('s, 'r, 'q, 'v, unit) nb_op" where
  "emit_all io = (\<lambda>(nb, w, q).
     let n = length (nb_values nb) in
     if n = 0 then (Ok (), (nb, w, q))
     else if n \<le> nb_max nb then emit_values io n (nb, w, q)
     else if n \<le> nb_max nb * 2 then
       let n1 = n div 2; n2 = n - n1 in
       binds (emit_values io n1 (nb, w, q)) (\<lambda>_. emit_values io n2)
     else (Panic, (nb, w, q)))"

definition emit_empty_leaf :: "('s, 'r, 'v) node_io \<Rightarrow> ('s, 'r, 'q, 'v, unit) nb_op" where
  "emit_empty_leaf io = emit_values io 0"

text \<open>\<open>&values[i]\<close> panics when the node has fewer values than keys; \<open>zip\<close> is the loop for the nodes \<open>read\<close> returns,
  which have as many values as keys (\<open>Btree_Node.unpack_node_sound\<close>).\<close>

definition unshift_node ::
    "('s, 'r) wenv \<Rightarrow> ('s, 'r, 'v) node_io \<Rightarrow> ('q, 'v) ref_counting \<Rightarrow> ('s, 'r, 'q, 'v, unit) nb_op" where
  "unshift_node env io rc = (\<lambda>(nb, w, q).
     if nb_nodes nb = [] then (Panic, (nb, w, q))
     else
       let ls = List.last (nb_nodes nb); nb = nb\<lparr>nb_nodes := butlast (nb_nodes nb)\<rparr> in
       binds (read_node io (bn_block ls) (nb, w, q)) (\<lambda>(keys, values) s.
       if length values < length keys then (Panic, s) else
       binds (on_batcher (with_sm (\<lambda>sm. we_dec env sm (bn_block ls))) s) (\<lambda>_ s.
       binds (if bn_shared ls then for_each (\<lambda>v. on_counter (rc_inc rc v)) (take (length keys) values) s
              else (Ok (), s)) (\<lambda>_.
       on_builder (\<lambda>nb. nb\<lparr>nb_values := zip keys values @ nb_values nb\<rparr>)))))"

definition push_value :: "('s, 'r) wenv \<Rightarrow> ('s, 'r, 'v) node_io \<Rightarrow> ('q, 'v) ref_counting \<Rightarrow> u64 \<Rightarrow> 'v \<Rightarrow>
    ('s, 'r, 'q, 'v, unit) nb_op" where
  "push_value env io rc key val = (\<lambda>(nb, w, q).
     binds
       (if length (nb_nodes nb) = 1 \<and> bn_nr_entries (List.last (nb_nodes nb)) < half_full nb
        then unshift_node env io rc (nb, w, q)
        else if length (nb_values nb) = nb_max nb * 2 then emit_node io (nb, w, q)
        else (Ok (), (nb, w, q))) (\<lambda>_ s.
     binds (check_ordered_key key s) (\<lambda>_ s.
     binds (on_counter (rc_inc rc val) s) (\<lambda>_.
     on_builder (\<lambda>nb. nb\<lparr>nb_values := nb_values nb @ [(key, val)]\<rparr>)))))"

definition append_values :: "('s, 'r, 'v) node_io \<Rightarrow> ('q, 'v) ref_counting \<Rightarrow> built_node \<Rightarrow>
    ('s, 'r, 'q, 'v, unit) nb_op" where
  "append_values io rc node s =
     binds (read_node io (bn_block node) s) (\<lambda>(keys, values) s.
     if length values < length keys then (Panic, s) else
     for_each (\<lambda>(k, v) s. binds (on_counter (rc_inc rc v) s) (\<lambda>_.
       on_builder (\<lambda>nb. nb\<lparr>nb_values := nb_values nb @ [(k, v)]\<rparr>))) (zip keys values) s)"

text \<open>\<open>w.sm.lock().unwrap().inc(n.block, 1)?; self.nodes.push(n.clone())\<close>\<close>

definition share_node :: "('s, 'r) wenv \<Rightarrow> built_node \<Rightarrow> ('s, 'r, 'q, 'v, unit) nb_op" where
  "share_node env n s =
     binds (on_batcher (with_sm (\<lambda>sm. we_inc env sm (bn_block n) 1)) s) (\<lambda>_.
     on_builder (\<lambda>nb. nb\<lparr>nb_nodes := nb_nodes nb @ [n]\<rparr>))"

definition push_nodes :: "('s, 'r) wenv \<Rightarrow> ('s, 'r, 'v) node_io \<Rightarrow> ('q, 'v) ref_counting \<Rightarrow> built_node list \<Rightarrow>
    ('s, 'r, 'q, 'v, unit) nb_op" where
  "push_nodes env io rc nodes = (\<lambda>(nb, w, q).
     if nodes = [] then (Panic, (nb, w, q))
     else if length nodes = 1 \<and> nb_nodes nb = [] \<and> nb_values nb = [] then share_node env (hd nodes) (nb, w, q)
     else if 1 < length nodes \<and> (\<exists>n \<in> set nodes. bn_nr_entries n < half_full nb) then (Panic, (nb, w, q))
     else if (case nb_last_key nb of Some last_key \<Rightarrow> bn_key (hd nodes) \<le> last_key | None \<Rightarrow> False)
       then (Err KeysOutOfOrder, (nb, w, q))
     else
       binds (if length (nb_nodes nb) = 1 \<and> bn_nr_entries (hd (nb_nodes nb)) < half_full nb
              then unshift_node env io rc (nb, w, q) else (Ok (), (nb, w, q))) (\<lambda>_ (nb, w, q).
       binds (if nb_values nb \<noteq> [] \<and> length (nb_values nb) < half_full nb
              then binds (append_values io rc (hd nodes) (nb, w, q)) (\<lambda>_ s.
                if 1 < length nodes
                then binds (emit_all io s) (\<lambda>_. for_each (share_node env) (tl nodes))
                else (Ok (), s))
              else binds (emit_all io (nb, w, q)) (\<lambda>_ s.
                if bn_nr_entries (hd nodes) < half_full nb then append_values io rc (hd nodes) s
                else for_each (share_node env) nodes s)) (\<lambda>_.
       on_builder (\<lambda>nb. nb\<lparr>nb_last_key := Some (bn_key (List.last nodes))\<rparr>))))"

definition nb_complete :: "('s, 'r) wenv \<Rightarrow> ('s, 'r, 'v) node_io \<Rightarrow> ('q, 'v) ref_counting \<Rightarrow>
    ('s, 'r, 'q, 'v, built_node list) nb_op" where
  "nb_complete env io rc = (\<lambda>(nb, w, q).
     binds (if nb_values nb \<noteq> [] \<and> length (nb_values nb) < half_full nb \<and> nb_nodes nb \<noteq> []
            then unshift_node env io rc (nb, w, q) else (Ok (), (nb, w, q))) (\<lambda>_ s.
     binds (emit_all io s) (\<lambda>_ (nb, w, q).
     binds (if nb_nodes nb = [] then emit_empty_leaf io (nb, w, q) else (Ok (), (nb, w, q))) (\<lambda>_ (nb, w, q).
     (Ok (nb_nodes nb), (nb, w, q))))))"

section \<open>The tree builder\<close>

text \<open>One layer of \<open>build_btree\<close>: the key and block of every node go into a fresh builder of internal nodes.\<close>

definition build_layer :: "('s, 'r) wenv \<Rightarrow> built_node list \<Rightarrow> ('s, 'r) batcher \<Rightarrow>
    (('s, 'r) batcher, built_node list) wb_op" where
  "build_layer env nodes w =
    (let io = internal_io env; rc = noop_rc;
         (r, (_, w, _)) = binds (for_each (\<lambda>n. push_value env io rc (bn_key n) (bn_block n)) nodes
           (nb_new u64_codec False, w, ())) (\<lambda>_. nb_complete env io rc)
     in (r, w))"

partial_function (option) build_btree :: "('s, 'r) wenv \<Rightarrow> built_node list \<Rightarrow> ('s, 'r) batcher \<Rightarrow>
    (('s, 'r) batcher, u64) wb_op option" where
  "build_btree env nodes w =
    (if 1 < length nodes then
       (case build_layer env nodes w of
          (Ok nodes, w) \<Rightarrow> build_btree env nodes w
        | (Err e, w) \<Rightarrow> Some (Err e, w)
        | (Panic, w) \<Rightarrow> Some (Panic, w))
     else if length nodes = 1 then Some (Ok (bn_block (hd nodes)), w) else Some (Panic, w))"

text \<open>\<open>BTreeBuilder\<close> is a builder of unshared leaves.\<close>

definition bb_new :: "'v codec \<Rightarrow> 'v node_builder" where
  "bb_new c = nb_new c False"

definition bb_push_value :: "('s, 'r) wenv \<Rightarrow> 'v codec \<Rightarrow> ('q, 'v) ref_counting \<Rightarrow> u64 \<Rightarrow> 'v \<Rightarrow>
    ('s, 'r, 'q, 'v, unit) nb_op" where
  "bb_push_value env c rc k v = push_value env (leaf_io env c) rc k v"

definition bb_push_leaves :: "('s, 'r) wenv \<Rightarrow> 'v codec \<Rightarrow> ('q, 'v) ref_counting \<Rightarrow> built_node list \<Rightarrow>
    ('s, 'r, 'q, 'v, unit) nb_op" where
  "bb_push_leaves env c rc leaves = push_nodes env (leaf_io env c) rc leaves"

definition bb_complete :: "('s, 'r) wenv \<Rightarrow> 'v codec \<Rightarrow> ('q, 'v) ref_counting \<Rightarrow> ('s, 'r, 'q, 'v) nb_state \<Rightarrow>
    (('s, 'r) batcher \<times> 'q, u64) wb_op option" where
  "bb_complete env c rc s =
    (case nb_complete env (leaf_io env c) rc s of
       (Ok nodes, (_, w, q)) \<Rightarrow> map_option (\<lambda>(r, w). (r, (w, q))) (build_btree env nodes w)
     | (Err e, (_, w, q)) \<Rightarrow> Some (Err e, (w, q))
     | (Panic, (_, w, q)) \<Rightarrow> Some (Panic, (w, q)))"

definition release_leaves :: "('s, 'r) wenv \<Rightarrow> 'v codec \<Rightarrow> ('q, 'v) ref_counting \<Rightarrow> built_node list \<Rightarrow>
    ('s, 'r) batcher \<times> 'q \<Rightarrow> (('s, 'r) batcher \<times> 'q, unit) wb_op" where
  "release_leaves env c rc leaves = for_each (\<lambda>n (w, q).
     (case with_sm (\<lambda>sm. we_dec env sm (bn_block n)) w of
        (Err e, w) \<Rightarrow> (Err e, (w, q)) | (Panic, w) \<Rightarrow> (Panic, (w, q))
      | (Ok deleted, w) \<Rightarrow>
          if deleted then
            (case io_read (leaf_io env c) (bn_block n) w of
               Err e \<Rightarrow> (Err e, (w, q)) | Panic \<Rightarrow> (Panic, (w, q))
             | Ok (_, values) \<Rightarrow> for_each (\<lambda>v (w, q). case rc_dec rc v q of (r, q) \<Rightarrow> (r, (w, q))) values (w, q))
          else (Ok (), (w, q)))) leaves"

section \<open>The blocks that are in use\<close>

text \<open>What a reader of the batcher finds in the blocks with a positive count.\<close>

definition live_rd :: "('s \<Rightarrow> u64 \<Rightarrow> nat) \<Rightarrow> u64 \<Rightarrow> ('s, 'r) batcher \<Rightarrow> u64 \<Rightarrow> bytes option" where
  "live_rd count nr w b = (if b < nr \<and> 0 < count (wb_sm w) b then Some (en_data (wb_view w) b) else None)"

text \<open>Written nodes pass the checks, the strict ones if they are the root or a third full.\<close>

definition leaf_holds :: "(bytes \<Rightarrow> u32) \<Rightarrow> 'v codec \<Rightarrow> (u64 \<Rightarrow> bytes option) \<Rightarrow> u64 \<Rightarrow> (u64 \<times> 'v) list \<Rightarrow> bool" where
  "leaf_holds crc32c c rd loc kvs \<longleftrightarrow> (\<exists>d h. rd loc = Some d \<and>
     (\<forall>ig r. ig \<or> r \<or> calc_max_entries c div 3 \<le> length kvs \<longrightarrow>
        check_and_unpack_node crc32c c (loc, d) ig r = Ok (Leaf h (map fst kvs) (map snd kvs))))"

definition internal_holds :: "(bytes \<Rightarrow> u32) \<Rightarrow> (u64 \<Rightarrow> bytes option) \<Rightarrow> u64 \<Rightarrow> (u64 \<times> u64) list \<Rightarrow> bool" where
  "internal_holds crc32c rd loc kvs \<longleftrightarrow> (\<exists>d h. rd loc = Some d \<and>
     (\<forall>ig r. ig \<or> r \<or> calc_max_entries u64_codec div 3 \<le> length kvs \<longrightarrow>
        check_and_unpack_node crc32c u64_codec (loc, d) ig r = Ok (Internal h (map fst kvs) (map snd kvs))))"

definition first_key :: "(u64 \<times> 'v) list \<Rightarrow> u64" where
  "first_key kvs = (if kvs = [] then 0 else fst (hd kvs))"

lemma engine_read_data: "b < en_nr_blocks e \<Longrightarrow> engine_read e b = Ok (b, en_data e b)"
  by (simp add: engine_read_def not_le)

lemma calc_max_entries_fits:
  assumes "unat (disk_size c) \<le> 1000"
  shows "3 \<le> calc_max_entries c" "calc_max_entries c * (unat (disk_size c) + 8) + 32 \<le> 4096"
    "calc_max_entries c \<le> 508"
proof -
  let ?e = "8 + unat (disk_size c)"
  have e: "calc_max_entries c = (4064 div ?e) div 3 * 3" by (simp add: calc_max_entries_def BLOCK_SIZE_def Let_def)
  have "4064 div 1008 \<le> 4064 div ?e" using assms by (intro div_le_mono2) simp_all
  then have "4 \<le> 4064 div ?e" by simp
  then have "1 \<le> 4064 div ?e div 3" using div_le_mono [of 3 "4064 div ?e" 3] by simp
  then show "3 \<le> calc_max_entries c" unfolding e by simp
  have "calc_max_entries c \<le> 4064 div ?e" unfolding e by simp
  then have "calc_max_entries c * ?e \<le> 4064 div ?e * ?e" by (rule mult_le_mono1)
  also have "\<dots> \<le> 4064" by simp
  finally have m: "calc_max_entries c * ?e \<le> 4064" .
  then show "calc_max_entries c * (unat (disk_size c) + 8) + 32 \<le> 4096" by (simp add: algebra_simps)
  have "calc_max_entries c * 8 \<le> calc_max_entries c * ?e" by simp
  with m show "calc_max_entries c \<le> 508" by linarith
qed

text \<open>The node that the writers build fits into a block.\<close>

definition built_header :: "'v codec \<Rightarrow> nat \<Rightarrow> bool \<Rightarrow> u64 \<Rightarrow> node_header" where
  "built_header c n leaf loc = \<lparr>nh_block = loc, nh_is_leaf = leaf, nh_nr_entries = word_of_nat n,
    nh_max_entries = word_of_nat (calc_max_entries c), nh_value_size = disk_size c\<rparr>"

lemma built_leaf_fits:
  assumes sz: "unat (disk_size c) \<le> 1000" and len: "length kvs \<le> calc_max_entries c"
    and sorted: "sorted_wrt (<) (map fst kvs)" and valid: "\<forall>v \<in> snd ` set kvs. valid v"
  shows "node_fits c valid (Leaf (built_header c (length kvs) True loc) (map fst kvs) (map snd kvs))"
proof -
  note m = calc_max_entries_fits [OF sz]
  have u: "unat (word_of_nat (calc_max_entries c) :: u32) = calc_max_entries c"
    "unat (word_of_nat (length kvs) :: u32) = length kvs"
    using m(3) len by (simp_all add: unat_of_nat_eq)
  have v: "unat (disk_size c + 8) = unat (disk_size c) + 8"
    using sz by (intro trans [OF unat_plus_no_overflow]) simp_all
  have "(unat (disk_size c) + 8) * calc_max_entries c + 32 \<le> 4096" using m(2) by (simp add: mult.commute)
  with sorted len valid sz show ?thesis
    by (auto simp: node_fits_def node_ok_def built_header_def Let_def u v word_le_nat_alt)
qed

lemma built_internal_fits:
  assumes "length kvs \<le> calc_max_entries u64_codec" "sorted_wrt (<) (map fst kvs)"
  shows "node_fits u64_codec (\<lambda>_. True)
    (Internal (built_header u64_codec (length kvs) False loc) (map fst kvs) (map snd kvs))"
  using built_leaf_fits [OF _ assms, of "\<lambda>_. True" loc]
  by (auto simp: node_fits_def node_ok_def Let_def u64_codec_def built_header_def)

lemma built_strict:
  assumes "unat (disk_size c) \<le> 1000" "length kvs \<le> calc_max_entries c" "r \<or> calc_max_entries c div 3 \<le> length kvs"
  shows "node_strict (Leaf (built_header c (length kvs) True loc) ks vs) r"
    "node_strict (Internal (built_header c (length kvs) False loc) ks ns) r"
proof -
  have m: "calc_max_entries c \<le> 508" using calc_max_entries_fits [OF assms(1)] by simp
  have u: "unat (word_of_nat (calc_max_entries c) :: u32) = calc_max_entries c"
    "unat (word_of_nat (length kvs) :: u32) = length kvs"
    using m assms(2) by (simp_all add: unat_of_nat_eq)
  have "calc_max_entries c mod 3 = 0" by (simp add: calc_max_entries_def Let_def)
  then have "(word_of_nat (calc_max_entries c) :: u32) mod 3 = 0"
    using u(1) by (simp add: word_unat_eq_iff unat_mod)
  then show "node_strict (Leaf (built_header c (length kvs) True loc) ks vs) r"
    "node_strict (Internal (built_header c (length kvs) False loc) ks ns) r"
    using assms(3) u by (auto simp: node_strict_def divisible_by_3_def built_header_def Let_def word_le_nat_alt unat_div)
qed

context space_map
begin

abbreviation live :: "('s, 'r) batcher \<Rightarrow> u64 \<Rightarrow> bytes option" where
  "live \<equiv> live_rd count nr"

abbreviation full :: "('s, 'r) batcher \<Rightarrow> bool" where
  "full w \<equiv> \<forall>b < nr. 0 < cnt w b"

abbreviation frame :: "('s, 'r) batcher \<Rightarrow> ('s, 'r) batcher \<Rightarrow> bool" where
  "frame w w' \<equiv> wb_inv w' \<and> live w \<subseteq>\<^sub>m live w' \<and> (\<forall>b. 0 < cnt w b \<longrightarrow> cnt w' b = cnt w b)"

lemma frame_trans: "frame w w' \<Longrightarrow> frame w' w'' \<Longrightarrow> frame w w''"
  by (metis map_le_trans)

text \<open>Writing a whole block in use: what a reader finds there is the data, with a checksum in its first four bytes.\<close>

lemma wb_write_live:
  assumes inv: "wb_inv w" and loc: "loc < nr" "0 < cnt w loc" and len: "length buf = BLOCK_SIZE"
    and kind: "kind \<noteq> BT_UNKNOWN"
  obtains w' d where "wb_write env (loc, buf) kind w = (Ok (), w')" "wb_inv w'" "wb_sm w' = wb_sm w"
    "live w' = (live w)(loc \<mapsto> d)" "drop 4 d = drop 4 buf" "length d = 4096"
    "metadata_block_type (we_crc32c env) d = kind"
proof -
  obtain d where d: "write_checksum (we_crc32c env) buf kind = Ok d"
    using len kind by (cases kind) (simp_all add: write_checksum_def)
  obtain s where "d = w_u32 (checksum (we_crc32c env) buf XOR s) @ drop 4 buf"
    using write_checksum_Ok [OF d] by blast
  then have d4: "drop 4 d = drop 4 buf" "length d = 4096" using len by (simp_all add: BLOCK_SIZE_def)
  have okw: "wb_ok w" "loc < en_nr_blocks (wb_engine w)" using inv loc by (simp_all add: batcher_inv_def)
  obtain w' where w': "wb_write env (loc, buf) kind w = (Ok (), w')" "wb_ok w'" "wb_sm w' = wb_sm w"
    "en_nr_blocks (wb_engine w') = en_nr_blocks (wb_engine w)"
    "\<And>l. engine_read (wb_view w') l = (if l = loc then Ok (loc, d) else engine_read (wb_view w) l)"
    using wb_write_view [OF okw(1), of "(loc, buf)" env kind d, unfolded fst_conv snd_conv, OF okw(2) d] by blast
  have inv': "wb_inv w'" using w' inv by (simp add: batcher_inv_def)
  have nrv: "en_nr_blocks (wb_view w) = nr" "en_nr_blocks (wb_view w') = nr"
    using inv inv' by (simp_all add: batcher_inv_def wb_view_def engine_write_many_nr)
  have data: "en_data (wb_view w') b = (if b = loc then d else en_data (wb_view w) b)" if "b < nr" for b
    using w'(5) [of b] engine_read_data [of b "wb_view w'"] engine_read_data [of b "wb_view w"] that nrv
    by (auto split: if_splits)
  have "live w' = (live w)(loc \<mapsto> d)" using data loc w'(3) by (auto simp: live_rd_def fun_eq_iff)
  with that w' inv' d4 write_checksum_type(1) [OF d] show thesis by blast
qed

text \<open>A block that was just allocated and then written.\<close>

lemma frame_new:
  assumes "wb_inv w'" "cnt w loc = 0" "cnt w' = (cnt w)(loc := 1)" "live w' = (live w)(loc \<mapsto> d)"
  shows "frame w w'"
proof -
  have "live w loc = None" using assms(2) by (simp add: live_rd_def)
  then have "live w \<subseteq>\<^sub>m live w'" unfolding assms(4) by (auto simp: map_le_def)
  with assms show ?thesis by simp
qed

lemma write_node_spec:
  assumes inv: "wb_inv w" and fits: "\<And>loc. length (pack_node c (set_block node loc)) \<le> 4096"
  obtains (full) "write_node env c node w = (Err OutOfMetadataSpace, w)" "full w"
    | (ok) loc w' d r where "write_node env c node w =
        (Ok \<lparr>wr_first_key = (if get_keys node = [] then 0 else hd (get_keys node)), wr_loc = loc\<rparr>, w')"
      "wb_inv w'" "loc < nr" "cnt w loc = 0" "cnt w' = (cnt w)(loc := 1)" "live w' = (live w)(loc \<mapsto> d)"
      "drop 4 d = drop 4 (pack_node c (set_block node loc) @ r)" "length d = 4096"
      "metadata_block_type (we_crc32c env) d = BT_NODE"
proof (cases rule: wb_alloc_cases [OF inv])
  case 1
  then show thesis by (intro full) (simp_all add: write_node_def)
next
  case (2 loc w1)
  let ?p = "pack_node c (set_block node loc)"
  let ?buf = "?p @ drop (length ?p) (we_fresh env loc)"
  have l: "length (we_fresh env loc) = 4096" using inv by (simp add: batcher_inv_def BLOCK_SIZE_def)
  have cw: "cursor_write (we_fresh env loc) ?p = Ok ?buf" using fits [of loc] l by (simp add: cursor_write_def)
  have len: "length ?buf = BLOCK_SIZE" using cursor_write_length [OF cw] l by (simp add: BLOCK_SIZE_def)
  have c1: "0 < cnt w1 loc" using 2 by simp
  have live1: "(live w1)(loc \<mapsto> d) = (live w)(loc \<mapsto> d)" for d using 2 by (auto simp: live_rd_def fun_eq_iff)
  obtain w' d where w': "wb_write env (loc, ?buf) BT_NODE w1 = (Ok (), w')" "wb_inv w'" "wb_sm w' = wb_sm w1"
    "live w' = (live w1)(loc \<mapsto> d)" "drop 4 d = drop 4 ?buf" "length d = 4096"
    "metadata_block_type (we_crc32c env) d = BT_NODE"
    using wb_write_live [OF 2(4,2) c1 len] by blast
  show thesis
  proof (rule ok)
    show "write_node env c node w =
        (Ok \<lparr>wr_first_key = (if get_keys node = [] then 0 else hd (get_keys node)), wr_loc = loc\<rparr>, w')"
      using 2(1) cw w'(1) by (simp add: write_node_def Let_def)
    show "drop 4 d = drop 4 (pack_node c (set_block node loc) @ drop (length ?p) (we_fresh env loc))"
      using w'(5) by simp
  qed (use 2 w' live1 in simp_all)
qed

end

section \<open>Writers of nodes\<close>

text \<open>What the builder needs of a kind of node: writing stores exactly the entries in a block that was free, and
  reading gives back what a block in use holds.\<close>

locale node_writer = space_map env inv count nr
  for env :: "('s, 'r) wenv" and inv :: "'s \<Rightarrow> bool" and count :: "'s \<Rightarrow> u64 \<Rightarrow> nat" and nr :: u64 +
  fixes io :: "('s, 'r, 'v) node_io" and holds :: "(u64 \<Rightarrow> bytes option) \<Rightarrow> u64 \<Rightarrow> (u64 \<times> 'v) list \<Rightarrow> bool"
    and mx :: nat and valid :: "'v \<Rightarrow> bool"
  assumes mx3: "3 \<le> mx"
    and write_cases: "batcher_inv env inv nr w \<Longrightarrow> length kvs \<le> mx \<Longrightarrow> sorted_wrt (<) (map fst kvs) \<Longrightarrow>
      \<forall>v \<in> snd ` set kvs. valid v \<Longrightarrow>
      (io_write io (map fst kvs) (map snd kvs) w = (Err OutOfMetadataSpace, w) \<and> (\<forall>b < nr. 0 < count (wb_sm w) b)) \<or>
      (\<exists>loc w' d. io_write io (map fst kvs) (map snd kvs) w =
          (Ok \<lparr>wr_first_key = first_key kvs, wr_loc = loc\<rparr>, w') \<and> batcher_inv env inv nr w' \<and> loc < nr \<and>
        count (wb_sm w) loc = 0 \<and> count (wb_sm w') = (count (wb_sm w))(loc := 1) \<and>
        live_rd count nr w' = (live_rd count nr w)(loc \<mapsto> d) \<and> holds (live_rd count nr w') loc kvs)"
    and read_holds: "batcher_inv env inv nr w \<Longrightarrow> holds (live_rd count nr w) loc kvs \<Longrightarrow>
      io_read io loc w = Ok (map fst kvs, map snd kvs)"
    and holds_mono: "holds rd loc kvs \<Longrightarrow> rd \<subseteq>\<^sub>m rd' \<Longrightarrow> holds rd' loc kvs"

context space_map
begin

lemma read_live:
  assumes "wb_inv w" "live w loc = Some d"
  shows "wb_read loc w = Ok (loc, d)"
proof -
  have "loc < nr" "d = en_data (wb_view w) loc" using assms(2) by (auto simp: live_rd_def split: if_splits)
  moreover have "wb_ok w" "en_nr_blocks (wb_view w) = nr"
    using assms(1) by (simp_all add: batcher_inv_def wb_view_def engine_write_many_nr)
  ultimately show ?thesis by (simp add: wb_read_view engine_read_data map_err_def)
qed

lemma written_node:
  assumes inv: "wb_inv w" and c: "value_codec c valid"
    and fits: "\<And>loc. node_fits c valid (set_block node loc)"
    and keys: "get_keys node = map fst kvs"
    and holds: "\<And>rd loc d. rd loc = Some d \<Longrightarrow> (\<And>ig r. ig \<or> node_strict node r \<Longrightarrow>
        check_and_unpack_node (we_crc32c env) c (loc, d) ig r = Ok (set_block node loc)) \<Longrightarrow> holds rd loc kvs"
  shows "(write_node env c node w = (Err OutOfMetadataSpace, w) \<and> full w) \<or>
    (\<exists>loc w' d. write_node env c node w = (Ok \<lparr>wr_first_key = first_key kvs, wr_loc = loc\<rparr>, w') \<and> wb_inv w' \<and>
      loc < nr \<and> cnt w loc = 0 \<and> cnt w' = (cnt w)(loc := 1) \<and> live w' = (live w)(loc \<mapsto> d) \<and> holds (live w') loc kvs)"
proof -
  have len: "length (pack_node c (set_block node loc)) \<le> 4096" for loc
    using node_bytes [OF c fits] by blast
  show ?thesis
  proof (cases rule: write_node_spec [OF inv len])
    case (2 loc w' d r)
    have "node_strict (set_block node loc) r' = node_strict node r'" for r' by (cases node) (simp_all add: node_strict_def)
    then have "unpack_node_raw c d ig r' = Ok (set_block node loc)" if "ig \<or> node_strict node r'" for ig r'
      using that 2(8) by (intro unpack_pack_node [OF c fits _ 2(7)]) simp_all
    moreover have "nh_block (get_header (set_block node loc)) = loc" by (cases node) simp_all
    ultimately have "check_and_unpack_node (we_crc32c env) c (loc, d) ig r' = Ok (set_block node loc)"
      if "ig \<or> node_strict node r'" for ig r'
      using that 2(9) by (simp add: check_and_unpack_node_def verify_checksum_def)
    moreover have "live w' loc = Some d" by (simp add: 2(6))
    ultimately have "holds (live w') loc kvs" by (intro holds)
    moreover have "(if get_keys node = [] then 0 else hd (get_keys node)) = first_key kvs"
      by (cases kvs) (simp_all add: keys first_key_def)
    ultimately show ?thesis using 2 by auto
  qed simp
qed

lemma leaf_writer:
  assumes c: "value_codec c valid" "unat (disk_size c) \<le> 1000"
  shows "node_writer env inv count nr (leaf_io env c) (leaf_holds (we_crc32c env) c) (calc_max_entries c) valid"
proof unfold_locales
  fix w and kvs :: "(u64 \<times> 'a) list"
  assume w: "wb_inv w" and kvs: "length kvs \<le> calc_max_entries c" "sorted_wrt (<) (map fst kvs)"
    "\<forall>v \<in> snd ` set kvs. valid v"
  let ?n = "Leaf (built_header c (length kvs) True 0) (map fst kvs) (map snd kvs)"
  have b: "set_block ?n loc = Leaf (built_header c (length kvs) True loc) (map fst kvs) (map snd kvs)" for loc
    by (simp add: built_header_def)
  have io: "io_write (leaf_io env c) (map fst kvs) (map snd kvs) w = write_node env c ?n w"
    by (simp add: leaf_io_def built_header_def Let_def)
  show "(io_write (leaf_io env c) (map fst kvs) (map snd kvs) w = (Err OutOfMetadataSpace, w) \<and> full w) \<or>
    (\<exists>loc w' d. io_write (leaf_io env c) (map fst kvs) (map snd kvs) w =
        (Ok \<lparr>wr_first_key = first_key kvs, wr_loc = loc\<rparr>, w') \<and> wb_inv w' \<and> loc < nr \<and>
      cnt w loc = 0 \<and> cnt w' = (cnt w)(loc := 1) \<and> live w' = (live w)(loc \<mapsto> d) \<and>
      leaf_holds (we_crc32c env) c (live w') loc kvs)"
    unfolding io
  proof (rule written_node [OF w c(1)])
    fix rd loc d
    assume "rd loc = Some d" "\<And>ig r. ig \<or> node_strict ?n r \<Longrightarrow>
      check_and_unpack_node (we_crc32c env) c (loc, d) ig r = Ok (set_block ?n loc)"
    then show "leaf_holds (we_crc32c env) c rd loc kvs"
      unfolding leaf_holds_def b using built_strict(1) [OF c(2) kvs(1)] by blast
  qed (use built_leaf_fits [OF c(2) kvs] in \<open>simp_all add: b del: set_block.simps\<close>)
next
  fix w loc and kvs :: "(u64 \<times> 'a) list"
  assume w: "wb_inv w" and h: "leaf_holds (we_crc32c env) c (live w) loc kvs"
  then obtain d h where "live w loc = Some d" "unpack_node_raw c d True True = Ok (Leaf h (map fst kvs) (map snd kvs))"
    unfolding leaf_holds_def by (meson check_unpack)
  with read_live [OF w] show "io_read (leaf_io env c) loc w = Ok (map fst kvs, map snd kvs)"
    by (simp add: leaf_io_def unpack_node_def)
qed (use calc_max_entries_fits [OF c(2)] in \<open>auto simp: leaf_holds_def dest: map_le_Some\<close>)

lemma internal_writer:
  "node_writer env inv count nr (internal_io env) (internal_holds (we_crc32c env))
    (calc_max_entries u64_codec) (\<lambda>_. True)"
proof unfold_locales
  fix w and kvs :: "(u64 \<times> u64) list"
  assume w: "wb_inv w" and kvs: "length kvs \<le> calc_max_entries u64_codec" "sorted_wrt (<) (map fst kvs)"
  have sz: "unat (disk_size u64_codec) \<le> 1000" by (simp add: u64_codec_def)
  let ?n = "Internal (built_header u64_codec (length kvs) False 0) (map fst kvs) (map snd kvs) :: u64 node"
  have b: "set_block ?n loc = Internal (built_header u64_codec (length kvs) False loc) (map fst kvs) (map snd kvs)" for loc
    by (simp add: built_header_def)
  have io: "io_write (internal_io env) (map fst kvs) (map snd kvs) w = write_node env u64_codec ?n w"
    by (simp add: internal_io_def built_header_def Let_def)
  show "(io_write (internal_io env) (map fst kvs) (map snd kvs) w = (Err OutOfMetadataSpace, w) \<and> full w) \<or>
    (\<exists>loc w' d. io_write (internal_io env) (map fst kvs) (map snd kvs) w =
        (Ok \<lparr>wr_first_key = first_key kvs, wr_loc = loc\<rparr>, w') \<and> wb_inv w' \<and> loc < nr \<and>
      cnt w loc = 0 \<and> cnt w' = (cnt w)(loc := 1) \<and> live w' = (live w)(loc \<mapsto> d) \<and>
      internal_holds (we_crc32c env) (live w') loc kvs)"
    unfolding io
  proof (rule written_node [OF w u64c.value_codec_axioms])
    fix rd :: "u64 \<Rightarrow> bytes option" and loc d
    assume "rd loc = Some d" "\<And>ig r. ig \<or> node_strict ?n r \<Longrightarrow>
      check_and_unpack_node (we_crc32c env) u64_codec (loc, d) ig r = Ok (set_block ?n loc)"
    then show "internal_holds (we_crc32c env) rd loc kvs"
      unfolding internal_holds_def b using built_strict(2) [OF sz kvs(1)] by blast
  qed (use built_internal_fits [OF kvs] in \<open>simp_all add: b del: set_block.simps\<close>)
next
  fix w loc and kvs :: "(u64 \<times> u64) list"
  assume w: "wb_inv w" and h: "internal_holds (we_crc32c env) (live w) loc kvs"
  then obtain d h where "live w loc = Some d"
    "unpack_node_raw u64_codec d True True = Ok (Internal h (map fst kvs) (map snd kvs))"
    unfolding internal_holds_def by (meson check_unpack)
  with read_live [OF w] show "io_read (internal_io env) loc w = Ok (map fst kvs, map snd kvs)"
    by (simp add: internal_io_def unpack_node_def)
qed (use calc_max_entries_fits [of u64_codec] in \<open>auto simp: internal_holds_def u64_codec_def dest: map_le_Some\<close>)

end

section \<open>What the builder keeps\<close>

definition node_holds :: "((u64 \<Rightarrow> bytes option) \<Rightarrow> u64 \<Rightarrow> (u64 \<times> 'v) list \<Rightarrow> bool) \<Rightarrow> (u64 \<Rightarrow> bytes option) \<Rightarrow>
    built_node \<Rightarrow> (u64 \<times> 'v) list \<Rightarrow> bool" where
  "node_holds holds rd n l \<longleftrightarrow> holds rd (bn_block n) l \<and> bn_key n = first_key l \<and> bn_nr_entries n = length l"

text \<open>A builder that was given the values \<open>kvs\<close>, and nothing else: full nodes, then the values held back.\<close>

definition nb_inv :: "((u64 \<Rightarrow> bytes option) \<Rightarrow> u64 \<Rightarrow> (u64 \<times> 'v) list \<Rightarrow> bool) \<Rightarrow> nat \<Rightarrow> (u64 \<Rightarrow> bytes option) \<Rightarrow>
    'v node_builder \<Rightarrow> (u64 \<times> 'v) list \<Rightarrow> bool" where
  "nb_inv holds mx rd nb kvs \<longleftrightarrow> nb_max nb = mx \<and>
     (\<exists>lss. list_all2 (node_holds holds rd) (nb_nodes nb) lss \<and> (\<forall>l \<in> set lss. length l = mx) \<and>
        kvs = concat lss @ nb_values nb) \<and>
     length (nb_values nb) \<le> 2 * mx \<and> (nb_nodes nb \<noteq> [] \<longrightarrow> mx \<le> length (nb_values nb)) \<and>
     nb_last_key nb = (if kvs = [] then None else Some (fst (List.last kvs)))"

text \<open>The nodes of a finished layer.\<close>

definition layer_nodes :: "((u64 \<Rightarrow> bytes option) \<Rightarrow> u64 \<Rightarrow> (u64 \<times> 'v) list \<Rightarrow> bool) \<Rightarrow> nat \<Rightarrow> (u64 \<Rightarrow> bytes option) \<Rightarrow>
    built_node list \<Rightarrow> (u64 \<times> 'v) list list \<Rightarrow> bool" where
  "layer_nodes holds mx rd ns lss \<longleftrightarrow> list_all2 (node_holds holds rd) ns lss \<and> lss \<noteq> [] \<and>
     (\<forall>l \<in> set lss. length l \<le> mx \<and> (1 < length lss \<longrightarrow> mx div 2 \<le> length l))"

context node_writer
begin

lemma nodes_mono:
  "list_all2 (node_holds holds rd) ns lss \<Longrightarrow> rd \<subseteq>\<^sub>m rd' \<Longrightarrow> list_all2 (node_holds holds rd') ns lss"
  by (erule list_all2_mono) (auto simp: node_holds_def intro: holds_mono)

lemma nb_inv_mono:
  assumes "nb_inv holds mx rd nb kvs" "rd \<subseteq>\<^sub>m rd'"
  shows "nb_inv holds mx rd' nb kvs"
proof -
  obtain lss where "list_all2 (node_holds holds rd) (nb_nodes nb) lss" "\<forall>l \<in> set lss. length l = mx"
    "kvs = concat lss @ nb_values nb" using assms(1) by (auto simp: nb_inv_def)
  with nodes_mono [OF this(1) assms(2)] assms(1) show ?thesis unfolding nb_inv_def by blast
qed

text \<open>Writing a node either finds every block in use or adds the node.\<close>

lemma emit_values_cases:
  assumes inv: "wb_inv w" and n: "n \<le> length (nb_values nb)" "n \<le> mx"
    and sorted: "sorted_wrt (<) (map fst (nb_values nb))" and valid: "\<forall>v \<in> snd ` set (nb_values nb). valid v"
  obtains (full) nb' where "emit_values io n (nb, w, q) = (Err OutOfMetadataSpace, (nb', w, q))" "full w"
    | (ok) node w' where "emit_values io n (nb, w, q) =
        (Ok (), (nb\<lparr>nb_values := drop n (nb_values nb), nb_nodes := nb_nodes nb @ [node]\<rparr>, w', q))"
      "frame w w'" "node_holds holds (live w') node (take n (nb_values nb))"
proof -
  let ?kvs = "take n (nb_values nb)"
  have "sorted_wrt (<) (map fst ?kvs)" using sorted by (metis sorted_wrt_take take_map)
  moreover have "\<forall>v \<in> snd ` set ?kvs. valid v" using valid by (auto dest: in_set_takeD)
  moreover have "length ?kvs \<le> mx" using n by simp
  ultimately consider "io_write io (map fst ?kvs) (map snd ?kvs) w = (Err OutOfMetadataSpace, w)" "full w"
    | loc w' d where "io_write io (map fst ?kvs) (map snd ?kvs) w = (Ok \<lparr>wr_first_key = first_key ?kvs, wr_loc = loc\<rparr>, w')"
      "wb_inv w'" "cnt w loc = 0" "cnt w' = (cnt w)(loc := 1)" "live w' = (live w)(loc \<mapsto> d)" "holds (live w') loc ?kvs"
    using write_cases [OF inv, of ?kvs] by blast
  then show thesis
  proof cases
    case 1
    with n show thesis
      by (intro full [of "nb\<lparr>nb_values := drop n (nb_values nb)\<rparr>"]) (auto simp: emit_values_def on_batcher_def Let_def)
  next
    case (2 loc w' d)
    with frame_new [OF 2(2,3,4,5)] 2 n show thesis
      by (intro ok [of "\<lparr>bn_block = loc, bn_key = first_key ?kvs, bn_nr_entries = n, bn_shared = nb_shared nb\<rparr>" w'])
        (auto simp: emit_values_def on_batcher_def on_builder_def Let_def node_holds_def)
  qed
qed

lemma push_value_cases:
  assumes inv: "wb_inv w" and nb: "nb_inv holds mx (live w) nb kvs"
    and sorted: "sorted_wrt (<) (map fst (kvs @ [(k, v)]))" and valid: "\<forall>v \<in> snd ` set kvs. valid v"
    and rc: "rc_inc rc v q = (Ok (), q')"
  obtains (full) nb' where "push_value env io rc k v (nb, w, q) = (Err OutOfMetadataSpace, (nb', w, q))" "full w"
    | (ok) nb' w' where "push_value env io rc k v (nb, w, q) = (Ok (), (nb', w', q'))" "frame w w'"
      "nb_inv holds mx (live w') nb' (kvs @ [(k, v)])"
proof -
  obtain lss where lss: "list_all2 (node_holds holds (live w)) (nb_nodes nb) lss" "\<forall>l \<in> set lss. length l = mx"
    "kvs = concat lss @ nb_values nb" and mx: "nb_max nb = mx" "length (nb_values nb) \<le> 2 * mx"
    and kept: "nb_nodes nb \<noteq> [] \<longrightarrow> mx \<le> length (nb_values nb)"
    and last_key: "nb_last_key nb = (if kvs = [] then None else Some (fst (List.last kvs)))"
    using nb by (auto simp: nb_inv_def)
  have no_unshift: "\<not> (length (nb_nodes nb) = 1 \<and> bn_nr_entries (List.last (nb_nodes nb)) < half_full nb)"
  proof
    assume a: "length (nb_nodes nb) = 1 \<and> bn_nr_entries (List.last (nb_nodes nb)) < half_full nb"
    then obtain n where n: "nb_nodes nb = [n]" by (auto simp: length_Suc_conv)
    with lss(1) obtain l where "lss = [l]" "bn_nr_entries n = length l"
      by (auto simp: list_all2_Cons1 node_holds_def)
    with lss(2) a n mx(1) show False by (simp add: half_full_def)
  qed
  have key: "\<not> (case nb_last_key nb of Some last_key \<Rightarrow> k \<le> last_key | None \<Rightarrow> False)"
    using sorted last_key by (cases kvs rule: rev_cases) (auto simp: sorted_wrt_append not_le)
  let ?fin = "\<lambda>nb. nb\<lparr>nb_last_key := Some k, nb_values := nb_values nb @ [(k, v)]\<rparr>"
  have rest: "push_value env io rc k v (nb, w, q) =
      binds (if length (nb_values nb) = mx * 2 then emit_node io (nb, w, q) else (Ok (), (nb, w, q))) (\<lambda>_ s.
      binds (check_ordered_key k s) (\<lambda>_ s. binds (on_counter (rc_inc rc v) s) (\<lambda>_.
       on_builder (\<lambda>nb. nb\<lparr>nb_values := nb_values nb @ [(k, v)]\<rparr>))))"
    by (simp only: push_value_def prod.case no_unshift if_False mx(1))
  have tail: "binds (check_ordered_key k (nb1, w1, q)) (\<lambda>_ s. binds (on_counter (rc_inc rc v) s) (\<lambda>_.
       on_builder (\<lambda>nb. nb\<lparr>nb_values := nb_values nb @ [(k, v)]\<rparr>))) = (Ok (), (?fin nb1, w1, q'))"
    if "nb_last_key nb1 = nb_last_key nb" for nb1 w1
    using that key rc by (auto simp: check_ordered_key_def on_counter_def on_builder_def split: option.splits)
  show thesis
  proof (cases "length (nb_values nb) = mx * 2")
    case False
    have "nb_inv holds mx (live w) (?fin nb) (kvs @ [(k, v)])"
      unfolding nb_inv_def using lss mx kept False by auto
    with False tail [OF refl] inv show thesis unfolding rest by (intro ok) (auto simp: rest)
  next
    case True
    have s: "sorted_wrt (<) (map fst (nb_values nb))" "\<forall>v \<in> snd ` set (nb_values nb). valid v"
      using sorted valid unfolding lss(3) by (auto simp: sorted_wrt_append)
    show thesis
    proof (cases rule: emit_values_cases [OF inv _ _ s, of mx q])
      case (3 nb')
      then show thesis using True mx rest by (intro full [of nb']) (auto simp: emit_node_def)
    next
      case (4 node w')
      let ?nb = "nb\<lparr>nb_values := drop mx (nb_values nb), nb_nodes := nb_nodes nb @ [node]\<rparr>"
      have "list_all2 (node_holds holds (live w')) (nb_nodes nb @ [node]) (lss @ [take mx (nb_values nb)])"
        using nodes_mono [OF lss(1)] 4 by (auto intro!: list_all2_appendI)
      moreover have "kvs = concat (lss @ [take mx (nb_values nb)]) @ drop mx (nb_values nb)" using lss(3) by simp
      moreover have "\<forall>l \<in> set (lss @ [take mx (nb_values nb)]). length l = mx" using lss(2) True by auto
      ultimately have "nb_inv holds mx (live w') (?fin ?nb) (kvs @ [(k, v)])"
        unfolding nb_inv_def using mx True mx3 by (auto intro!: exI [of _ "lss @ [take mx (nb_values nb)]"])
      moreover have "push_value env io rc k v (nb, w, q) = (Ok (), (?fin ?nb, w', q'))"
        unfolding rest using True tail [of ?nb w'] 4(1) mx by (simp add: emit_node_def)
      ultimately show thesis using 4(2) by (intro ok) auto
    qed (use True in simp_all)
  qed
qed

end

context node_writer
begin

lemma push_all_cases:
  assumes "wb_inv w" "nb_inv holds mx (live w) nb kvs" "sorted_wrt (<) (map fst (kvs @ kvs'))"
    "\<forall>v \<in> snd ` set (kvs @ kvs'). valid v" and rc: "\<And>v q. \<exists>q'. rc_inc rc v q = (Ok (), q')"
  obtains (full) nb' w' q' where "for_each (\<lambda>(k, v). push_value env io rc k v) kvs' (nb, w, q) =
      (Err OutOfMetadataSpace, (nb', w', q'))" "full w'" "frame w w'"
    | (ok) nb' w' q' where "for_each (\<lambda>(k, v). push_value env io rc k v) kvs' (nb, w, q) = (Ok (), (nb', w', q'))"
      "frame w w'" "nb_inv holds mx (live w') nb' (kvs @ kvs')"
  using assms(1-4)
proof (induction kvs' arbitrary: nb w q kvs thesis)
  case Nil
  then show ?case by simp
next
  case (Cons kv kvs')
  obtain k v where kv: "kv = (k, v)" by fastforce
  obtain q' where q': "rc_inc rc v q = (Ok (), q')" using rc by blast
  have s: "sorted_wrt (<) (map fst (kvs @ [(k, v)]))" "\<forall>v \<in> snd ` set kvs. valid v"
    using Cons.prems(5,6) by (auto simp: kv sorted_wrt_append)
  show ?case
  proof (cases rule: push_value_cases [OF Cons.prems(3,4) s q'])
    case (1 nb')
    then show ?thesis using Cons.prems(1) [of nb' w q] Cons.prems(3) by (simp add: kv)
  next
    case (2 nb1 w1)
    have p: "wb_inv w1" "sorted_wrt (<) (map fst ((kvs @ [(k, v)]) @ kvs'))"
      "\<forall>v \<in> snd ` set ((kvs @ [(k, v)]) @ kvs'). valid v"
      using Cons.prems(5,6) 2(2) by (simp_all add: kv)
    show ?thesis
    proof (rule Cons.IH [OF _ _ p(1) 2(3) p(2,3)])
      fix nb' w' q''
      assume a: "for_each (\<lambda>(k, v). push_value env io rc k v) kvs' (nb1, w1, q') =
          (Err OutOfMetadataSpace, (nb', w', q''))" "full w'" "frame w1 w'"
      show ?thesis by (rule Cons.prems(1)) (use a 2(1) frame_trans [OF 2(2) a(3)] in \<open>simp_all add: kv\<close>)
    next
      fix nb' w' q''
      assume a: "for_each (\<lambda>(k, v). push_value env io rc k v) kvs' (nb1, w1, q') = (Ok (), (nb', w', q''))"
        "frame w1 w'" "nb_inv holds mx (live w') nb' ((kvs @ [(k, v)]) @ kvs')"
      show ?thesis by (rule Cons.prems(2)) (use a 2(1) frame_trans [OF 2(2) a(2)] in \<open>simp_all add: kv\<close>)
    qed
  qed
qed

text \<open>Finishing: the values held back go into one or two nodes, which are at least half full.\<close>

lemma emit_all_cases:
  assumes inv: "wb_inv w" and nb: "nb_inv holds mx (live w) nb kvs"
    and sorted: "sorted_wrt (<) (map fst kvs)" and valid: "\<forall>v \<in> snd ` set kvs. valid v" and ne: "kvs \<noteq> []"
  obtains (full) nb' w' where "emit_all io (nb, w, q) = (Err OutOfMetadataSpace, (nb', w', q))" "full w'" "frame w w'"
    | (ok) nb' w' lss where "emit_all io (nb, w, q) = (Ok (), (nb', w', q))" "frame w w'"
      "layer_nodes holds mx (live w') (nb_nodes nb') lss" "concat lss = kvs"
proof -
  obtain lss where lss: "list_all2 (node_holds holds (live w)) (nb_nodes nb) lss" "\<forall>l \<in> set lss. length l = mx"
    "kvs = concat lss @ nb_values nb" and mx: "nb_max nb = mx" "length (nb_values nb) \<le> 2 * mx"
    and kept: "nb_nodes nb \<noteq> [] \<longrightarrow> mx \<le> length (nb_values nb)"
    using nb by (auto simp: nb_inv_def)
  let ?n = "length (nb_values nb)"
  have s: "sorted_wrt (<) (map fst (nb_values nb))" "\<forall>v \<in> snd ` set (nb_values nb). valid v"
    using sorted valid unfolding lss(3) by (auto simp: sorted_wrt_append)
  have n0: "?n \<noteq> 0" using ne lss(1,3) kept mx3 by (cases "nb_nodes nb") auto
  show thesis
  proof (cases "?n \<le> mx")
    case True
    have e: "emit_all io (nb, w, q) = emit_values io ?n (nb, w, q)" using n0 True mx by (simp add: emit_all_def Let_def)
    show thesis
    proof (cases rule: emit_values_cases [OF inv _ True s, of q])
      case (2 nb')
      then show thesis using inv by (intro full [of nb' w]) (auto simp: e)
    next
      case (3 node w')
      have "list_all2 (node_holds holds (live w')) (nb_nodes nb @ [node]) (lss @ [nb_values nb])"
        using nodes_mono [OF lss(1)] 3 by (auto intro!: list_all2_appendI)
      moreover have "mx div 2 \<le> ?n" if "lss \<noteq> []" using that lss(1) kept by (cases "nb_nodes nb") auto
      ultimately have "layer_nodes holds mx (live w') (nb_nodes nb @ [node]) (lss @ [nb_values nb])"
        using True lss(2) by (auto simp: layer_nodes_def)
      with 3 lss(3) show thesis by (intro ok) (auto simp: e)
    qed simp
  next
    case False
    let ?k = "?n div 2"
    have e: "emit_all io (nb, w, q) = binds (emit_values io ?k (nb, w, q)) (\<lambda>_. emit_values io (?n - ?k))"
      using n0 False mx by (simp add: emit_all_def Let_def)
    have k: "?k \<le> mx" "mx div 2 \<le> ?k" "?n - ?k \<le> mx" "mx div 2 \<le> ?n - ?k" using False mx by linarith+
    show thesis
    proof (cases rule: emit_values_cases [OF inv _ k(1) s, of q])
      case (2 nb')
      then show thesis using inv by (intro full [of nb' w]) (auto simp: e)
    next
      case (3 node w1)
      let ?nb = "nb\<lparr>nb_values := drop ?k (nb_values nb), nb_nodes := nb_nodes nb @ [node]\<rparr>"
      have s1: "sorted_wrt (<) (map fst (nb_values ?nb))" "\<forall>v \<in> snd ` set (nb_values ?nb). valid v"
        using s by (auto simp: sorted_wrt_drop drop_map [symmetric] dest: in_set_dropD)
      show thesis
      proof (cases rule: emit_values_cases [OF _ _ k(3) s1, of w1 q])
        case (3 nb')
        then show thesis using \<open>frame w w1\<close> by (intro full [of nb' w1])
          (auto simp: e \<open>emit_values io ?k (nb, w, q) = (Ok (), (?nb, w1, q))\<close>)
      next
        case (4 node' w')
        let ?l = "take ?k (nb_values nb)" and ?r = "drop ?k (nb_values nb)"
        have t: "take (?n - ?k) (nb_values ?nb) = ?r" by simp
        have f: "frame w w'" using frame_trans 3(2) 4(2) by blast
        have "node_holds holds (live w') node ?l"
          using 3(3) 4(2) by (auto simp: node_holds_def intro: holds_mono)
        moreover have "node_holds holds (live w') node' ?r" using 4(3) t by simp
        moreover have "list_all2 (node_holds holds (live w')) (nb_nodes nb) lss" using nodes_mono [OF lss(1)] f by blast
        ultimately have "list_all2 (node_holds holds (live w')) (nb_nodes nb @ [node, node']) (lss @ [?l, ?r])"
          by (intro list_all2_appendI) simp_all
        then have "layer_nodes holds mx (live w') (nb_nodes nb @ [node, node']) (lss @ [?l, ?r])"
          using k lss(2) by (auto simp: layer_nodes_def)
        moreover have "emit_all io (nb, w, q) =
            (Ok (), (?nb\<lparr>nb_values := drop (?n - ?k) (nb_values ?nb), nb_nodes := nb_nodes ?nb @ [node']\<rparr>, w', q))"
          by (simp only: e 3(1) binds.simps 4(1))
        ultimately show thesis using f lss(3) by (intro ok) auto
      qed (use 3(2) in simp_all)
    qed simp
  qed
qed

end

context node_writer
begin

lemma complete_cases:
  assumes inv: "wb_inv w" and nb: "nb_inv holds mx (live w) nb kvs"
    and sorted: "sorted_wrt (<) (map fst kvs)" and valid: "\<forall>v \<in> snd ` set kvs. valid v"
  obtains (full) nb' w' where "nb_complete env io rc (nb, w, q) = (Err OutOfMetadataSpace, (nb', w', q))" "full w'"
      "frame w w'"
    | (ok) ns nb' w' lss where "nb_complete env io rc (nb, w, q) = (Ok ns, (nb', w', q))" "frame w w'"
      "layer_nodes holds mx (live w') ns lss" "concat lss = kvs"
proof -
  have u: "\<not> (nb_values nb \<noteq> [] \<and> length (nb_values nb) < half_full nb \<and> nb_nodes nb \<noteq> [])"
    using nb by (auto simp: nb_inv_def half_full_def)
  have e: "nb_complete env io rc (nb, w, q) = binds (emit_all io (nb, w, q)) (\<lambda>_ (nb, w, q).
     binds (if nb_nodes nb = [] then emit_empty_leaf io (nb, w, q) else (Ok (), (nb, w, q))) (\<lambda>_ (nb, w, q).
     (Ok (nb_nodes nb), (nb, w, q))))"
    by (simp only: nb_complete_def prod.case u if_False binds.simps)
  show thesis
  proof (cases "kvs = []")
    case False
    show thesis
    proof (cases rule: emit_all_cases [OF inv nb sorted valid False, of q])
      case (1 nb' w')
      then show thesis by (intro full) (auto simp: e)
    next
      case (2 nb' w' lss)
      then have "nb_nodes nb' \<noteq> []" by (auto simp: layer_nodes_def)
      with 2 show thesis by (intro ok) (auto simp: e)
    qed
  next
    case True
    with nb mx3 have "nb_values nb = []" "nb_nodes nb = []" by (auto simp: nb_inv_def)
    then have e': "nb_complete env io rc (nb, w, q) =
        binds (emit_values io 0 (nb, w, q)) (\<lambda>_ (nb, w, q). (Ok (nb_nodes nb), (nb, w, q)))"
      by (simp add: e emit_all_def emit_empty_leaf_def)
    have s: "sorted_wrt (<) (map fst (nb_values nb))" "\<forall>v \<in> snd ` set (nb_values nb). valid v"
      using \<open>nb_values nb = []\<close> by simp_all
    show thesis
    proof (cases rule: emit_values_cases [OF inv _ _ s, of 0 q])
      case (3 nb')
      then show thesis using inv by (intro full) (auto simp: e')
    next
      case (4 node w')
      then have "layer_nodes holds mx (live w') [node] [[]]" by (auto simp: layer_nodes_def)
      with 4 \<open>nb_nodes nb = []\<close> True show thesis by (intro ok) (auto simp: e')
    qed simp_all
  qed
qed

text \<open>A fresh builder that is given ascending keys.\<close>

lemma layer_cases:
  assumes inv: "wb_inv w" and nb: "nb_max nb = mx" "nb_values nb = []" "nb_nodes nb = []" "nb_last_key nb = None"
    and sorted: "sorted_wrt (<) (map fst kvs)" and valid: "\<forall>v \<in> snd ` set kvs. valid v"
    and rc: "\<And>v q. \<exists>q'. rc_inc rc v q = (Ok (), q')"
  obtains (full) nb' w' q' where "binds (for_each (\<lambda>(k, v). push_value env io rc k v) kvs (nb, w, q))
        (\<lambda>_. nb_complete env io rc) = (Err OutOfMetadataSpace, (nb', w', q'))" "full w'" "frame w w'"
    | (ok) ns nb' w' q' lss where "binds (for_each (\<lambda>(k, v). push_value env io rc k v) kvs (nb, w, q))
        (\<lambda>_. nb_complete env io rc) = (Ok ns, (nb', w', q'))" "frame w w'"
      "layer_nodes holds mx (live w') ns lss" "concat lss = kvs"
proof -
  have i: "nb_inv holds mx (live w) nb []" using nb by (simp add: nb_inv_def)
  have p: "sorted_wrt (<) (map fst ([] @ kvs))" "\<forall>v \<in> snd ` set ([] @ kvs). valid v" using sorted valid by simp_all
  show thesis
  proof (cases rule: push_all_cases [OF inv i p rc, of q])
    case (1 nb' w' q')
    then show thesis by (intro full) auto
  next
    case (2 nb1 w1 q1)
    then have b: "wb_inv w1" "nb_inv holds mx (live w1) nb1 kvs" by simp_all
    show thesis
    proof (cases rule: complete_cases [OF b sorted valid, of rc q1])
      case (1 nb' w')
      show thesis by (rule full) (use 1 2(1) frame_trans [OF 2(2) 1(3)] in simp_all)
    next
      case (2 ns nb' w' lss)
      show thesis by (rule ok) (use 2 \<open>for_each _ kvs _ = _\<close> frame_trans [OF \<open>frame w w1\<close> 2(2)] in simp_all)
    qed
  qed
qed

end

section \<open>Layers and trees\<close>

lemma unpack_internal_any_codec:
  assumes "unpack_node_raw c d ig r = Ok (Internal h ks vs)"
  shows "unpack_node_raw c' d ig r = Ok (Internal h ks vs)"
proof -
  have l: "\<not> nh_is_leaf h" "get_header (Internal h ks vs :: 'a node) = h"
    using unpack_node_raw_ok [OF assms] by (simp_all add: node_ok_def Let_def)
  obtain i where "node_header_unpack d = Some (i, h)"
    using assms by (auto simp: unpack_node_raw_def Let_def split: if_splits)
  with assms l show ?thesis
    by (simp add: unpack_node_raw_def Let_def convert_result_def ensure_node_def)
qed

lemma check_internal_any_codec:
  "check_and_unpack_node crc32c c b ig r = Ok (Internal h ks vs) \<Longrightarrow> check_and_unpack_node crc32c c' b ig r = Ok (Internal h ks vs)"
  using unpack_internal_any_codec [of c "snd b" ig r h ks vs c']
  by (force simp: check_and_unpack_node_def split: if_splits)

lemma sorted_concat_nth:
  assumes "sorted_wrt (<) (map fst (concat ls))" "i < j" "j < length ls" "x \<in> set (ls ! i)" "y \<in> set (ls ! j)"
  shows "fst x < fst y"
  using assms
proof (induction ls arbitrary: i j)
  case (Cons l ls)
  then obtain j' where j: "j = Suc j'" by (cases j) auto
  show ?case
  proof (cases i)
    case 0
    have "y \<in> set (concat ls)" using Cons.prems(3,5) by (auto simp: j)
    then show ?thesis using Cons.prems 0 by (auto simp: sorted_wrt_append)
  next
    case (Suc i')
    with Cons j show ?thesis by (auto simp: sorted_wrt_append)
  qed
qed simp

text \<open>The nodes of one height: each is the root of a tree, keyed by its first entry, and, if there are others,
  big enough for the strict checks.\<close>

definition tree_node :: "(bytes \<Rightarrow> u32) \<Rightarrow> (u64 \<Rightarrow> bytes option) \<Rightarrow> 'v codec \<Rightarrow> bool \<Rightarrow> nat \<Rightarrow> built_node \<Rightarrow>
    (u64 \<times> 'v) list \<Rightarrow> bool" where
  "tree_node crc32c rd c big n b l \<longleftrightarrow>
    (\<forall>ig r. ig \<or> r \<or> big \<longrightarrow> ctree crc32c rd c ig r n (bn_block b) l) \<and> bn_key b = first_key l"

lemma first_key_le: "sorted_wrt (<) (map fst l) \<Longrightarrow> x \<in> set l \<Longrightarrow> first_key l \<le> fst x"
  by (cases l) (auto simp: first_key_def)

lemma tree_node_Suc:
  assumes holds: "internal_holds crc32c rd (bn_block n) (map (\<lambda>n. (bn_key n, bn_block n)) ns)"
    and big: "big \<longrightarrow> calc_max_entries u64_codec div 3 \<le> length ns"
    and ns: "list_all2 (tree_node crc32c rd c True h) ns ls" "ns \<noteq> []" and ne: "\<forall>l \<in> set ls. l \<noteq> []"
    and sorted: "sorted_wrt (<) (map fst (concat ls))" and key: "bn_key n = bn_key (hd ns)"
  shows "tree_node crc32c rd c big (Suc h) n (concat ls)"
proof -
  let ?ks = "map bn_key ns" and ?vs = "map bn_block ns"
  note len = list_all2_lengthD [OF ns(1)]
  have nth: "tree_node crc32c rd c True h (ns ! i) (ls ! i)" if "i < length ns" for i by (rule list_all2_nthD [OF ns(1) that])
  have s: "sorted_wrt (<) (map fst (ls ! i))" if "i < length ls" for i
  proof -
    have "concat ls = concat (take i ls) @ ls ! i @ concat (drop (Suc i) ls)"
      by (subst id_take_nth_drop [OF that]) simp
    then show ?thesis using sorted by (simp add: sorted_wrt_append)
  qed
  have "ctree crc32c rd c ig r (Suc h) (bn_block n) (concat ls)" if "ig \<or> r \<or> big" for ig r
  proof -
    have "ig \<or> r \<or> calc_max_entries u64_codec div 3 \<le> length ns" using that big by blast
    then obtain d hdr where d: "rd (bn_block n) = Some d"
      "check_and_unpack_node crc32c u64_codec (bn_block n, d) ig r = Ok (Internal hdr ?ks ?vs)"
      using holds by (auto simp: internal_holds_def comp_def)
    show ?thesis
    proof (rule ctree_internal [where rd = rd and loc = "bn_block n", OF d(1) check_internal_any_codec [OF d(2)]])
      fix i k assume i: "i < length ?ks" "k \<in> fst ` set (ls ! i)"
      then show "?ks ! i \<le> k" using nth [of i] first_key_le [OF s, of i] len by (auto simp: tree_node_def)
    next
      fix i k assume i: "Suc i < length ?ks" "k \<in> fst ` set (ls ! i)"
      have "ls ! Suc i \<noteq> []" using ne i(1) len by (metis length_map nth_mem)
      then have h: "first_key (ls ! Suc i) = fst (hd (ls ! Suc i))" "hd (ls ! Suc i) \<in> set (ls ! Suc i)"
        by (simp_all add: first_key_def)
      obtain x where x: "x \<in> set (ls ! i)" "k = fst x" using i(2) by blast
      have "fst x < fst (hd (ls ! Suc i))"
        using i(1) len by (intro sorted_concat_nth [OF sorted _ _ x(1) h(2)]) simp_all
      then show "k < ?ks ! Suc i" using nth [of "Suc i"] i(1) x(2) h(1) by (simp add: tree_node_def)
    qed (use ns(2) len nth ne in \<open>auto simp: tree_node_def\<close>)
  qed
  moreover have "bn_key n = first_key (concat ls)"
  proof -
    obtain b bs where b: "ns = b # bs" using ns(2) by (cases ns) auto
    then obtain l ls' where l: "ls = l # ls'" "tree_node crc32c rd c True h b l" using ns(1) by (auto simp: list_all2_Cons1)
    then show ?thesis using key b ne by (cases l) (auto simp: tree_node_def first_key_def)
  qed
  ultimately show ?thesis by (simp add: tree_node_def)
qed

text \<open>A layer of internal nodes over the nodes below: shorter, and with the same contents.\<close>

lemma tree_layer:
  assumes "list_all2 (node_holds (internal_holds crc32c) rd) ns' gs" "concat gs = map (\<lambda>n. (bn_key n, bn_block n)) ns"
    and "list_all2 (tree_node crc32c rd c True h) ns ls" "\<forall>l \<in> set ls. l \<noteq> []" "\<forall>g \<in> set gs. g \<noteq> []"
    and "sorted_wrt (<) (map fst (concat ls))" "big \<longrightarrow> (\<forall>g \<in> set gs. calc_max_entries u64_codec div 3 \<le> length g)"
  shows "\<exists>ls'. list_all2 (tree_node crc32c rd c big (Suc h)) ns' ls' \<and> concat ls' = concat ls \<and> (\<forall>l \<in> set ls'. l \<noteq> [])"
  using assms
proof (induction ns' arbitrary: gs ns ls)
  case Nil
  then show ?case by (intro exI [of _ "[]"]) auto
next
  case (Cons n' ns')
  then obtain g gs' where g: "gs = g # gs'" "node_holds (internal_holds crc32c) rd n' g"
    "list_all2 (node_holds (internal_holds crc32c) rd) ns' gs'" by (auto simp: list_all2_Cons1)
  let ?k = "length g"
  let ?ns1 = "take ?k ns" and ?ns2 = "drop ?k ns" and ?ls1 = "take ?k ls" and ?ls2 = "drop ?k ls"
  have cg: "g @ concat gs' = map (\<lambda>n. (bn_key n, bn_block n)) ns" using Cons.prems(2) by (simp add: g)
  have g1: "g = map (\<lambda>n. (bn_key n, bn_block n)) ?ns1" using arg_cong [OF cg, of "take ?k"] by (simp add: take_map)
  have g2: "concat gs' = map (\<lambda>n. (bn_key n, bn_block n)) ?ns2" using arg_cong [OF cg, of "drop ?k"] by (simp add: drop_map)
  have l1: "list_all2 (tree_node crc32c rd c True h) ?ns1 ?ls1" and l2: "list_all2 (tree_node crc32c rd c True h) ?ns2 ?ls2"
    using Cons.prems(3) by (auto intro: list_all2_takeI list_all2_dropI)
  have split: "concat ls = concat ?ls1 @ concat ?ls2" by (metis append_take_drop_id concat_append)
  have s: "sorted_wrt (<) (map fst (concat ?ls1))" "sorted_wrt (<) (map fst (concat ?ls2))"
    using Cons.prems(6) unfolding split by (auto simp: sorted_wrt_append)
  have ne: "\<forall>l \<in> set ?ls1. l \<noteq> []" "\<forall>l \<in> set ?ls2. l \<noteq> []" "\<forall>g \<in> set gs'. g \<noteq> []" "?ns1 \<noteq> []"
    using Cons.prems(4,5) g(1) g1 by (auto dest: in_set_takeD in_set_dropD)
  have b: "big \<longrightarrow> (\<forall>g \<in> set gs'. calc_max_entries u64_codec div 3 \<le> length g)"
    "big \<longrightarrow> calc_max_entries u64_codec div 3 \<le> length ?ns1"
    using Cons.prems(7) arg_cong [OF g1, of length] by (simp_all add: g)
  obtain ls' where ls': "list_all2 (tree_node crc32c rd c big (Suc h)) ns' ls'" "concat ls' = concat ?ls2" "\<forall>l \<in> set ls'. l \<noteq> []"
    using Cons.IH [OF g(3) g2 l2 ne(2,3) s(2) b(1)] by blast
  have h1: "internal_holds crc32c rd (bn_block n') (map (\<lambda>n. (bn_key n, bn_block n)) ?ns1)" "bn_key n' = first_key g"
    using g(2) g1 by (simp_all add: node_holds_def)
  have "first_key g = bn_key (hd ?ns1)" using ne(4) by (subst g1) (simp add: first_key_def hd_map)
  then have "tree_node crc32c rd c big (Suc h) n' (concat ?ls1)"
    using h1(2) by (intro tree_node_Suc [OF h1(1) b(2) l1 ne(4,1) s(1)]) simp
  moreover have "concat ?ls1 \<noteq> []"
  proof -
    have "?ls1 \<noteq> []" using ne(4) list_all2_lengthD [OF l1] by (metis length_0_conv)
    then show ?thesis using ne(1) by (cases ?ls1) auto
  qed
  ultimately show ?case using ls' split by (intro exI [of _ "concat ?ls1 # ls'"]) auto
qed

lemma length_concat_ge: "\<forall>l \<in> set ls. k \<le> length l \<Longrightarrow> k * length ls \<le> length (concat ls)"
  by (induction ls) auto

lemma max_entries_u64: "calc_max_entries u64_codec = 252"
  by (simp add: calc_max_entries_def u64_codec_def BLOCK_SIZE_def Let_def)

lemma tree_nodes_mono:
  "list_all2 (tree_node crc32c rd c big h) ns ls \<Longrightarrow> rd \<subseteq>\<^sub>m rd' \<Longrightarrow> list_all2 (tree_node crc32c rd' c big h) ns ls"
  by (erule list_all2_mono) (auto simp: tree_node_def intro: ctree_mono)

lemma tree_keys_sorted:
  assumes "list_all2 (tree_node crc32c rd c big h) ns ls" "\<forall>l \<in> set ls. l \<noteq> []" "sorted_wrt (<) (map fst (concat ls))"
  shows "sorted_wrt (<) (map bn_key ns)"
  unfolding sorted_wrt_iff_nth_less
proof (intro allI impI)
  fix i j assume ij: "i < j" "j < length (map bn_key ns)"
  have k: "bn_key (ns ! k) = fst (hd (ls ! k)) \<and> hd (ls ! k) \<in> set (ls ! k)" if "k < length ns" for k
    using list_all2_nthD [OF assms(1) that] assms(2) list_all2_lengthD [OF assms(1)] that
    by (auto simp: tree_node_def first_key_def)
  show "map bn_key ns ! i < map bn_key ns ! j"
    using sorted_concat_nth [OF assms(3) ij(1), of "hd (ls ! i)" "hd (ls ! j)"] k [of i] k [of j] ij
      list_all2_lengthD [OF assms(1)] by simp
qed

context space_map
begin

lemma build_layer_cases:
  assumes inv: "wb_inv w" and ns: "list_all2 (tree_node (we_crc32c env) (live w) c True h) ns ls" "1 < length ns"
    and ls: "\<forall>l \<in> set ls. l \<noteq> []" "sorted_wrt (<) (map fst (concat ls))"
  obtains (full) w' where "build_layer env ns w = (Err OutOfMetadataSpace, w')" "full w'" "frame w w'"
    | (ok) ns' w' ls' where "build_layer env ns w = (Ok ns', w')" "frame w w'" "ns' \<noteq> []"
      "length ns' = 1 \<or> 126 * length ns' \<le> length ns"
      "list_all2 (tree_node (we_crc32c env) (live w') c (1 < length ns') (Suc h)) ns' ls'" "concat ls' = concat ls"
      "\<forall>l \<in> set ls'. l \<noteq> []"
proof -
  let ?kvs = "map (\<lambda>n. (bn_key n, bn_block n)) ns"
  have keys: "sorted_wrt (<) (map fst ?kvs)" using tree_keys_sorted [OF ns(1) ls] by (simp add: comp_def)
  have layer: "build_layer env ns w = (fst x, fst (snd (snd x)))"
    if "binds (for_each (\<lambda>(k, v). push_value env (internal_io env) noop_rc k v) ?kvs (nb_new u64_codec False, w, ()))
        (\<lambda>_. nb_complete env (internal_io env) noop_rc) = x" for x
    unfolding build_layer_def Let_def that [unfolded for_each_map, symmetric] by (simp add: case_prod_beta)
  show thesis
  proof (cases rule: node_writer.layer_cases [OF internal_writer inv, of "nb_new u64_codec False" ?kvs noop_rc "()"])
    case (8 nb' w' q')
    from layer [OF 8(1)] 8(2,3) show thesis by (intro full) simp_all
  next
    case (9 ns' nb' w' q' gs)
    note l = 9(3) [unfolded layer_nodes_def max_entries_u64]
    have len: "length ns' = length gs" "length (concat gs) = length ns"
      using l list_all2_lengthD 9(4) by auto
    have ne: "\<forall>g \<in> set gs. g \<noteq> []"
    proof (cases "length gs = 1")
      case True
      then obtain g where "gs = [g]" by (auto simp: length_Suc_conv)
      then show ?thesis using len ns(2) by auto
    next
      case False
      with l show ?thesis by (cases gs) force+
    qed
    have big: "1 < length ns' \<longrightarrow> (\<forall>g \<in> set gs. calc_max_entries u64_codec div 3 \<le> length g)"
      using l len unfolding max_entries_u64 by fastforce
    have t: "list_all2 (tree_node (we_crc32c env) (live w') c True h) ns ls" using tree_nodes_mono [OF ns(1)] 9(2) by blast
    obtain ls' where ls': "list_all2 (tree_node (we_crc32c env) (live w') c (1 < length ns') (Suc h)) ns' ls'"
      "concat ls' = concat ls" "\<forall>l \<in> set ls'. l \<noteq> []"
      using tree_layer [OF _ 9(4) t ls(1) ne ls(2) big] l by blast
    have "length ns' = 1 \<or> 126 * length ns' \<le> length ns"
      using l len length_concat_ge [of gs 126] by (cases "length gs = 1") (auto simp: Suc_lessI)
    moreover have "ns' \<noteq> []" using l len by auto
    ultimately show thesis using layer [OF 9(1)] 9(2) ls' by (intro ok) simp_all
  qed (use keys in \<open>simp_all add: nb_new_def noop_rc_def\<close>)
qed

text \<open>Building always returns: with the root of a tree of the contents of the leaves, or with every block in use.\<close>

lemma build_btree_cases:
  assumes "wb_inv w" "list_all2 (tree_node (we_crc32c env) (live w) c (1 < length ns) h) ns ls" "ns \<noteq> []"
    "1 < length ns \<longrightarrow> (\<forall>l \<in> set ls. l \<noteq> [])" "sorted_wrt (<) (map fst (concat ls))"
  shows "\<exists>r w'. build_btree env ns w = Some (r, w') \<and> frame w w' \<and>
    (r = Err OutOfMetadataSpace \<and> full w' \<or>
     (\<exists>root h'. r = Ok root \<and> (\<forall>ig. ctree (we_crc32c env) (live w') c ig True h' root (concat ls)) \<and>
        (if length ns = 1 then h' = h else h < h' \<and> 126 ^ (h' - h - 1) \<le> length ns)))"
  using assms
proof (induction "length ns" arbitrary: ns ls w h rule: less_induct)
  case less
  show ?case
  proof (cases "1 < length ns")
    case False
    with less.prems(3) obtain n where n: "ns = [n]" by (cases ns) auto
    with less.prems(2) obtain l where l: "ls = [l]" "tree_node (we_crc32c env) (live w) c False h n l" by (auto simp: list_all2_Cons1)
    with less.prems(1) n have "build_btree env ns w = Some (Ok (bn_block n), w) \<and> frame w w \<and>
        (\<forall>ig. ctree (we_crc32c env) (live w) c ig True h (bn_block n) (concat ls))"
      by (simp add: build_btree.simps [of env "[n]"] tree_node_def)
    with n show ?thesis by (intro exI [of _ "Ok (bn_block n)"] exI [of _ w]) auto
  next
    case True
    with less.prems(4) have ne: "\<forall>l \<in> set ls. l \<noteq> []" by simp
    have t: "list_all2 (tree_node (we_crc32c env) (live w) c True h) ns ls" using less.prems(2) True by simp
    show ?thesis
    proof (cases rule: build_layer_cases [OF less.prems(1) t True ne less.prems(5)])
      case (1 w')
      then show ?thesis using True by (simp add: build_btree.simps [of env ns])
    next
      case (2 ns' w' ls')
      have lt: "length ns' < length ns" using 2(3,4) True by (cases ns') auto
      have s: "sorted_wrt (<) (map fst (concat ls'))" using less.prems(5) 2(6) by simp
      have "wb_inv w'" "1 < length ns' \<longrightarrow> (\<forall>l \<in> set ls'. l \<noteq> [])" using 2 by simp_all
      from less.hyps [OF lt this(1) 2(5,3) this(2) s] obtain r w'' where IH: "build_btree env ns' w' = Some (r, w'')"
        "frame w' w''" "r = Err OutOfMetadataSpace \<and> full w'' \<or> (\<exists>root h'. r = Ok root \<and>
          (\<forall>ig. ctree (we_crc32c env) (live w'') c ig True h' root (concat ls)) \<and>
          (if length ns' = 1 then h' = Suc h else Suc h < h' \<and> 126 ^ (h' - Suc h - 1) \<le> length ns'))"
        unfolding 2(6) by blast
      have b: "build_btree env ns w = Some (r, w'')" using True 2(1) IH(1) by (simp add: build_btree.simps [of env ns])
      have f: "frame w w''" using frame_trans [OF 2(2) IH(2)] .
      have height: "h < h' \<and> 126 ^ (h' - h - 1) \<le> length ns"
        if h': "if length ns' = 1 then h' = Suc h else Suc h < h' \<and> 126 ^ (h' - Suc h - 1) \<le> length ns'" for h'
      proof (cases "length ns' = 1")
        case False
        with h' have "Suc h < h'" "126 ^ (h' - Suc h - 1) \<le> length ns'" by simp_all
        moreover from this have "h' - h - 1 = Suc (h' - Suc h - 1)" by simp
        ultimately show ?thesis using 2(4) False by simp
      qed (use h' True in simp)
      show ?thesis using b f IH(3) height True by (intro exI [of _ r] exI [of _ w'']) auto
    qed
  qed
qed

end

section \<open>Building a whole tree\<close>

text \<open>The loop of the callers: a fresh builder, every pair pushed, the tree completed.\<close>

definition bb_build :: "('s, 'r) wenv \<Rightarrow> 'v codec \<Rightarrow> ('q, 'v) ref_counting \<Rightarrow> (u64 \<times> 'v) list \<Rightarrow>
    ('s, 'r) batcher \<Rightarrow> 'q \<Rightarrow> (('s, 'r) batcher \<times> 'q, u64) wb_op option" where
  "bb_build env c rc kvs w q =
    (case for_each (\<lambda>(k, v). bb_push_value env c rc k v) kvs (bb_new c, w, q) of
       (Ok _, s) \<Rightarrow> bb_complete env c rc s
     | (Err e, (_, w, q)) \<Rightarrow> Some (Err e, (w, q))
     | (Panic, (_, w, q)) \<Rightarrow> Some (Panic, (w, q)))"

text \<open>The height of a tree over \<open>n\<close> entries whose leaves take up to \<open>mx\<close>.\<close>

definition height_ok :: "nat \<Rightarrow> nat \<Rightarrow> nat \<Rightarrow> bool" where
  "height_ok mx n h \<longleftrightarrow> (if h = 0 then n \<le> mx else mx div 2 * 126 ^ (h - 1) \<le> n)"

lemma leaf_holds_ctree:
  assumes "leaf_holds crc32c c rd loc l" "ig \<or> r \<or> calc_max_entries c div 3 \<le> length l"
  shows "ctree crc32c rd c ig r 0 loc l"
proof -
  obtain d h where "rd loc = Some d" "check_and_unpack_node crc32c c (loc, d) ig r = Ok (Leaf h (map fst l) (map snd l))"
    using assms unfolding leaf_holds_def by blast
  from ctree_leaf [where rd = rd and loc = loc, OF this] show ?thesis by (simp add: zip_map_fst_snd)
qed

lemma layer_height:
  assumes "concat lss = kvs" "lss \<noteq> []" "\<forall>l \<in> set lss. length l \<le> mx \<and> (1 < length lss \<longrightarrow> mx div 2 \<le> length l)"
    and h: "if length lss = 1 then h = 0 else 0 < h \<and> 126 ^ (h - 1) \<le> length lss"
  shows "height_ok mx (length kvs) h"
proof (cases "length lss = 1")
  case True
  then obtain l where "lss = [l]" by (auto simp: length_Suc_conv)
  with assms show ?thesis by (auto simp: height_ok_def)
next
  case False
  with assms(2,3) have "\<forall>l \<in> set lss. mx div 2 \<le> length l" by (cases lss) auto
  then have "mx div 2 * length lss \<le> length kvs" using length_concat_ge [of lss "mx div 2"] assms(1) by simp
  moreover have "mx div 2 * 126 ^ (h - 1) \<le> mx div 2 * length lss" using False h by simp
  ultimately have "mx div 2 * 126 ^ (h - 1) \<le> length kvs" by (rule order_trans [rotated])
  with False h show ?thesis by (auto simp: height_ok_def)
qed

context space_map
begin

lemma bb_complete_cases:
  assumes inv: "wb_inv w" and c: "value_codec c valid" "unat (disk_size c) \<le> 1000"
    and nb: "nb_inv (leaf_holds (we_crc32c env) c) (calc_max_entries c) (live w) nb kvs"
    and kvs: "sorted_wrt (<) (map fst kvs)" "\<forall>v \<in> snd ` set kvs. valid v"
  obtains (full) w' where "bb_complete env c rc (nb, w, q) = Some (Err OutOfMetadataSpace, (w', q))" "full w'" "frame w w'"
    | (ok) root h w' where "bb_complete env c rc (nb, w, q) = Some (Ok root, (w', q))" "frame w w'"
      "\<And>ig. ctree (we_crc32c env) (live w') c ig True h root kvs" "height_ok (calc_max_entries c) (length kvs) h"
proof (cases rule: node_writer.complete_cases [OF leaf_writer [OF c] inv nb kvs, of rc q])
  case (1 nb' w')
  then show thesis by (intro full [of w']) (simp_all add: bb_complete_def)
next
  case (2 ns nb' w' lss)
  let ?mx = "calc_max_entries c"
  note l = 2(3) [unfolded layer_nodes_def]
  have len: "length ns = length lss" using l list_all2_lengthD by blast
  have tree: "list_all2 (tree_node (we_crc32c env) (live w') c (1 < length ns) 0) ns lss"
    unfolding list_all2_conv_all_nth
  proof (intro conjI len allI impI)
    fix i assume i: "i < length ns"
    then have n: "node_holds (leaf_holds (we_crc32c env) c) (live w') (ns ! i) (lss ! i)"
      "1 < length ns \<longrightarrow> ?mx div 2 \<le> length (lss ! i)"
      using l len by (auto simp: list_all2_conv_all_nth)
    have "?mx div 3 \<le> ?mx div 2" by simp
    with n show "tree_node (we_crc32c env) (live w') c (1 < length ns) 0 (ns ! i) (lss ! i)"
      unfolding node_holds_def tree_node_def by (meson leaf_holds_ctree le_trans)
  qed
  have mx: "3 \<le> ?mx" using calc_max_entries_fits [OF c(2)] by simp
  have ne: "ns \<noteq> []" "1 < length ns \<longrightarrow> (\<forall>l \<in> set lss. l \<noteq> [])" using l len mx by auto
  have s: "sorted_wrt (<) (map fst (concat lss))" and i: "wb_inv w'" using kvs(1) 2(2,4) by simp_all
  obtain r w'' where b: "build_btree env ns w' = Some (r, w'')" "frame w' w''"
    "r = Err OutOfMetadataSpace \<and> full w'' \<or> (\<exists>root h'. r = Ok root \<and>
      (\<forall>ig. ctree (we_crc32c env) (live w'') c ig True h' root kvs) \<and>
      (if length ns = 1 then h' = 0 else 0 < h' \<and> 126 ^ (h' - 1) \<le> length ns))"
    using build_btree_cases [OF i tree ne s] unfolding 2(4) diff_zero by blast
  have e: "bb_complete env c rc (nb, w, q) = Some (r, (w'', q))" using b(1) 2(1) by (simp add: bb_complete_def)
  have f: "frame w w''" using frame_trans [OF 2(2) b(2)] .
  have height: "height_ok ?mx (length kvs) h'" if "if length ns = 1 then h' = 0 else 0 < h' \<and> 126 ^ (h' - 1) \<le> length ns" for h'
    using layer_height [OF 2(4), of ?mx h'] l that unfolding len by blast
  from b(3) height show thesis using e f full ok by metis
qed

lemma bb_build_cases:
  assumes inv: "wb_inv w" and c: "value_codec c valid" "unat (disk_size c) \<le> 1000"
    and kvs: "sorted_wrt (<) (map fst kvs)" "\<forall>v \<in> snd ` set kvs. valid v"
    and rc: "\<And>v q. \<exists>q'. rc_inc rc v q = (Ok (), q')"
  obtains (full) w' q' where "bb_build env c rc kvs w q = Some (Err OutOfMetadataSpace, (w', q'))" "full w'" "frame w w'"
    | (ok) root h w' q' where "bb_build env c rc kvs w q = Some (Ok root, (w', q'))" "frame w w'"
      "\<And>ig. ctree (we_crc32c env) (live w') c ig True h root kvs" "height_ok (calc_max_entries c) (length kvs) h"
proof -
  have i: "nb_inv (leaf_holds (we_crc32c env) c) (calc_max_entries c) (live w) (bb_new c) []"
    by (simp add: nb_inv_def bb_new_def nb_new_def)
  have p: "sorted_wrt (<) (map fst ([] @ kvs))" "\<forall>v \<in> snd ` set ([] @ kvs). valid v" using kvs by simp_all
  show thesis
  proof (cases rule: node_writer.push_all_cases [OF leaf_writer [OF c] inv i p rc, of q])
    case (1 nb' w' q')
    then show thesis by (intro full) (auto simp: bb_build_def bb_push_value_def [abs_def])
  next
    case (2 nb1 w1 q1)
    then have b: "wb_inv w1" "nb_inv (leaf_holds (we_crc32c env) c) (calc_max_entries c) (live w1) nb1 kvs" by simp_all
    have e: "bb_build env c rc kvs w q = bb_complete env c rc (nb1, w1, q1)"
      using 2(1) by (simp add: bb_build_def bb_push_value_def [abs_def])
    show thesis
    proof (cases rule: bb_complete_cases [OF b(1) c b(2) kvs, of rc q1])
      case (1 w')
      show thesis by (rule full) (use 1 e frame_trans [OF 2(2) 1(3)] in simp_all)
    next
      case (2 root h w')
      show thesis by (rule ok) (use 2 e frame_trans [OF \<open>frame w w1\<close> 2(2)] in simp_all)
    qed
  qed
qed

lemma live_engine: "wb_inv w \<Longrightarrow> live w \<subseteq>\<^sub>m engine_rd (wb_view w)"
  by (auto simp: map_le_def dom_def live_rd_def engine_rd_def batcher_inv_def wb_view_def engine_write_many_nr)

lemma frame_read:
  assumes "wb_inv w" "frame w w'" "b < nr" "0 < cnt w b"
  shows "wb_read b w' = wb_read b w"
proof -
  obtain d where d: "live w b = Some d" using assms(3,4) by (simp add: live_rd_def)
  then have "live w' b = Some d" using map_le_Some [of "live w" "live w'" b d] assms(2) by simp
  with assms(2) have "wb_read b w' = Ok (b, d)" by (intro read_live) simp_all
  with read_live [OF assms(1) d] show ?thesis by simp
qed

end

section \<open>Properties\<close>

text \<open>C1: Building a tree from pairs in ascending key order always returns. It fails only when every block of
  the device is in use. Otherwise, once the batcher is flushed, a lookup from the root it returns
  gives for every key exactly the value that was pushed with it, and nothing for any other key.\<close>

theorem build_then_lookup:
  assumes "batcher_inv (core_env crc32c fresh) (core_sm_inv nr) nr w" "value_codec c valid" "unat (disk_size c) \<le> 1000"
    "sorted_wrt (<) (map fst kvs)" "\<forall>v \<in> snd ` set kvs. valid v"
  shows "\<exists>r w'. bb_build (core_env crc32c fresh) c noop_rc kvs w () = Some (r, (w', ())) \<and>
    (r = Err OutOfMetadataSpace \<and> (\<forall>b < nr. 0 < core_sm_count (wb_sm w') b) \<or>
     (\<exists>root w''. r = Ok root \<and> wb_flush w' = (Ok (), w'') \<and>
        (\<forall>k. btree_lookup (wb_engine w'') c root k = Some (Ok (map_of kvs k)))))"
proof (cases rule: core_batch.bb_build_cases [OF assms(1-5), of "noop_rc :: (unit, _) ref_counting" "()"])
  case (3 root h w' q')
  have "btree (engine_rd (wb_view w')) c True h root kvs"
    using btree_mono [OF ctree_btree [OF 3(3)] core_batch.live_engine] 3(2) by blast
  then have "\<forall>k. btree_lookup (wb_view w') c root k = Some (Ok (map_of kvs k))"
    by (simp add: btree_lookup_def lookup_loop_btree)
  with 3 show ?thesis by (auto simp: wb_flush_view)
qed (auto simp: noop_rc_def)


text \<open>A batcher over a fresh device of eight blocks.\<close>

definition sample_env :: "(u32 core_sm, u64 set) wenv" where
  "sample_env = core_env (\<lambda>_. 0) (\<lambda>_. replicate BLOCK_SIZE 0)"

definition sample_batcher :: "(u32 core_sm, u64 set) batcher" where
  "sample_batcher = wb_new sample_env (engine_new (\<lambda>_. []) 8) (core_new 8) 4"

lemma sample_batcher_inv: "batcher_inv sample_env (core_sm_inv 8) 8 sample_batcher"
  using core_inv_new [where 'v = 32, of 8]
  by (simp add: batcher_inv_def sample_batcher_def sample_env_def wb_new_def wb_ok_def engine_new_def core_env_def
      core_sm_inv_def core_new_def)

theorem build_then_lookup_witness:
  "\<exists>r w'. bb_build sample_env u64_codec noop_rc [(1, 10), (5, 50)] sample_batcher () = Some (r, (w', ())) \<and>
    (r = Err OutOfMetadataSpace \<and> (\<forall>b < 8. 0 < core_sm_count (wb_sm w') b) \<or>
     (\<exists>root w''. r = Ok root \<and> wb_flush w' = (Ok (), w'') \<and>
        btree_lookup (wb_engine w'') u64_codec root 5 = Some (Ok (Some 50)) \<and>
        btree_lookup (wb_engine w'') u64_codec root 2 = Some (Ok None)))"
  using build_then_lookup [OF sample_batcher_inv [unfolded sample_env_def] u64c.value_codec_axioms, of "[(1, 10), (5, 50)]"]
  unfolding sample_env_def by (fastforce simp: u64_codec_def)

text \<open>C15: Whatever comes of building a tree, the blocks that were in use before are untouched: each keeps its
  reference count, and reads as before. So a failed or an interrupted build never damages the trees the device already holds.\<close>

theorem build_keeps_blocks_in_use:
  assumes "batcher_inv (core_env crc32c fresh) (core_sm_inv nr) nr w" "value_codec c valid" "unat (disk_size c) \<le> 1000"
    "sorted_wrt (<) (map fst kvs)" "\<forall>v \<in> snd ` set kvs. valid v" "b < nr" "0 < core_sm_count (wb_sm w) b"
  shows "\<exists>r w'. bb_build (core_env crc32c fresh) c noop_rc kvs w () = Some (r, (w', ())) \<and>
    core_sm_count (wb_sm w') b = core_sm_count (wb_sm w) b \<and> wb_read b w' = wb_read b w"
proof -
  have rc: "\<And>v q. \<exists>q'. rc_inc noop_rc v q = (Ok (), q')" by (simp add: noop_rc_def)
  obtain r w' where "bb_build (core_env crc32c fresh) c noop_rc kvs w () = Some (r, (w', ()))"
    "batcher_inv (core_env crc32c fresh) (core_sm_inv nr) nr w'"
    "live_rd core_sm_count nr w \<subseteq>\<^sub>m live_rd core_sm_count nr w'"
    "\<forall>b. 0 < core_sm_count (wb_sm w) b \<longrightarrow> core_sm_count (wb_sm w') b = core_sm_count (wb_sm w) b"
    using core_batch.bb_build_cases [OF assms(1-5) rc, of "()"] by (metis old.unit.exhaust)
  then show ?thesis using core_batch.frame_read [OF assms(1) _ assms(6,7), of w'] assms(7) by blast
qed

theorem build_keeps_blocks_in_use_witness:
  "\<exists>b w r w'. bb_build sample_env u64_codec noop_rc [(1, 10), (5, 50)] w () = Some (r, (w', ())) \<and>
    core_sm_count (wb_sm w) b = 1 \<and> core_sm_count (wb_sm w') b = 1 \<and> wb_read b w' = wb_read b w"
proof (cases rule: core_batch.wb_alloc_cases [OF sample_batcher_inv [unfolded sample_env_def]])
  case 1
  then have "0 < core_sm_count (wb_sm sample_batcher) 0" by (simp add: word_less_nat_alt)
  moreover have "core_sm_count (wb_sm sample_batcher) 0 = 0"
    by (simp add: sample_batcher_def wb_new_def core_sm_count_def core_new_def core_count_def)
  ultimately show ?thesis by simp
next
  case (2 loc w)
  then have "core_sm_count (wb_sm w) loc = 1" by simp
  with build_keeps_blocks_in_use [OF 2(4) u64c.value_codec_axioms, of "[(1, 10), (5, 50)]" loc] 2(2)
  show ?thesis unfolding sample_env_def by (fastforce simp: u64_codec_def)
qed

text \<open>C21: The tree is as flat as its fan-out allows. Whenever building succeeds, the entries fit into one leaf, or
  the tree of height \<open>h\<close> has at least half a leaf's worth of entries, times 126 (half of the 252 of an internal
  node) for every level between the leaves and the root.\<close>

theorem build_height:
  assumes "batcher_inv (core_env crc32c fresh) (core_sm_inv nr) nr w" "value_codec c valid" "unat (disk_size c) \<le> 1000"
    "sorted_wrt (<) (map fst kvs)" "\<forall>v \<in> snd ` set kvs. valid v"
  shows "\<exists>r w'. bb_build (core_env crc32c fresh) c noop_rc kvs w () = Some (r, (w', ())) \<and>
    (r = Err OutOfMetadataSpace \<or> (\<exists>root h. r = Ok root \<and> btree (engine_rd (wb_view w')) c True h root kvs \<and>
      (if h = 0 then length kvs \<le> calc_max_entries c else calc_max_entries c div 2 * 126 ^ (h - 1) \<le> length kvs)))"
proof (cases rule: core_batch.bb_build_cases [OF assms(1-5), of "noop_rc :: (unit, _) ref_counting" "()"])
  case (3 root h w' q')
  have "btree (engine_rd (wb_view w')) c True h root kvs"
    using btree_mono [OF ctree_btree [OF 3(3)] core_batch.live_engine] 3(2) by blast
  with 3(4) have "\<exists>h. btree (engine_rd (wb_view w')) c True h root kvs \<and>
    (if h = 0 then length kvs \<le> calc_max_entries c else calc_max_entries c div 2 * 126 ^ (h - 1) \<le> length kvs)"
    unfolding height_ok_def by blast
  with 3(1) show ?thesis by (intro exI [of _ "Ok root"] exI [of _ w']) simp
qed (auto simp: noop_rc_def)

theorem build_height_witness:
  "\<exists>r w'. bb_build sample_env u64_codec noop_rc [(1, 10), (5, 50)] sample_batcher () = Some (r, (w', ())) \<and>
    (r = Err OutOfMetadataSpace \<or> (\<exists>root. r = Ok root \<and>
      btree (engine_rd (wb_view w')) u64_codec True 0 root [(1, 10), (5, 50)]))"
proof -
  have "unat (disk_size u64_codec) \<le> 1000" "sorted_wrt (<) (map fst [(1 :: u64, 10 :: u64), (5, 50)])"
    by (simp_all add: u64_codec_def)
  from build_height [OF sample_batcher_inv [unfolded sample_env_def] u64c.value_codec_axioms this,
      folded sample_env_def, unfolded max_entries_u64]
  obtain r w' where w': "bb_build sample_env u64_codec noop_rc [(1, 10), (5, 50)] sample_batcher () = Some (r, (w', ()))"
    "r = Err OutOfMetadataSpace \<or> (\<exists>root h. r = Ok root \<and>
       btree (engine_rd (wb_view w')) u64_codec True h root [(1, 10), (5, 50)] \<and>
       (if h = 0 then length [(1 :: u64, 10 :: u64), (5, 50)] \<le> 252
        else 252 div 2 * 126 ^ (h - 1) \<le> length [(1 :: u64, 10 :: u64), (5, 50)]))"
    by blast
  have "h = 0" if "if h = 0 then length [(1 :: u64, 10 :: u64), (5, 50)] \<le> 252
      else 252 div 2 * 126 ^ (h - 1) \<le> length [(1 :: u64, 10 :: u64), (5, 50)]" for h :: nat
  proof (rule ccontr)
    assume "h \<noteq> 0"
    with that have "126 * 126 ^ (h - 1) \<le> (2 :: nat)" by simp
    moreover have "(1 :: nat) \<le> 126 ^ (h - 1)" by simp
    ultimately show False by linarith
  qed
  with w' show ?thesis by blast
qed

end
