(* ===== verification/Space_Map_Disk.thy ===== *)
theory Space_Map_Disk
  imports Btree_Builder
begin

text \<open>
  Writing a space map to the device: \<open>write_common\<close>, \<open>write_metadata_common\<close> and \<open>write_bitmap\<close> of
  \<open>src/pdata/space_map/common.rs\<close>, \<open>write_disk_sm\<close> of \<open>disk.rs\<close> and \<open>write_metadata_sm\<close> of \<open>metadata.rs\<close>. Counts up to
  two go into bitmaps of two bits per block, larger ones into a btree. The space map of the data device is
  a view of its own; that of the metadata is the one the batcher allocates from. The builders may in
  principle not return (\<open>Btree_Builder\<close>), so the results are options.
\<close>

section \<open>Bitmaps\<close>

definition write_bitmap :: "('s, 'r) wenv \<Rightarrow> bitmap_entry list \<Rightarrow> ('s, 'r) batcher \<Rightarrow> (('s, 'r) batcher, u64) wb_op" where
  "write_bitmap env entries w =
    binds (wb_alloc_zeroed env w) (\<lambda>(blocknr, buf) w.
    case bindr (bitmap_pack \<lparr>bm_blocknr = blocknr, bm_entries = entries\<rparr>) (cursor_write buf) of
      Err _ \<Rightarrow> (Err WbPack, w) | Panic \<Rightarrow> (Panic, w)
    | Ok data \<Rightarrow> binds (wb_write env (blocknr, data) BT_BITMAP w) (\<lambda>_ w. (Ok blocknr, w)))"

definition count_entry :: "u32 \<Rightarrow> bitmap_entry" where
  "count_entry rc = (if rc = 0 then Small 0 else if rc = 1 then Small 1 else if rc = 2 then Small 2 else Overflow)"

abbreviation entries64 :: u64 where
  "entries64 \<equiv> word_of_nat ENTRIES_PER_BITMAP"

abbreviation entries32 :: u32 where
  "entries32 \<equiv> word_of_nat ENTRIES_PER_BITMAP"

text \<open>The builder of the overflow tree, the batcher, and the state of a counter that does nothing.\<close>

type_synonym ('s, 'r) ovf_state = "('s, 'r, unit, u32) nb_state"

definition push_overflow :: "('s, 'r) wenv \<Rightarrow> u64 \<Rightarrow> u32 \<Rightarrow> ('s, 'r) ovf_state \<Rightarrow> (('s, 'r) ovf_state, unit) wb_op" where
  "push_overflow env b rc s = (if 2 < rc then bb_push_value env u32_codec noop_rc b rc s else (Ok (), s))"

section \<open>A space map that is not the batcher's\<close>

record bitmap_scan =
  bs_entries :: "bitmap_entry list"
  bs_first_free :: "u32 option"
  bs_nr_free :: u32

definition scan_count :: "('s, 'r) wenv \<Rightarrow> sm_view \<Rightarrow> u64 \<Rightarrow> u64 \<Rightarrow> bitmap_scan \<times> ('s, 'r) ovf_state \<Rightarrow>
    (bitmap_scan \<times> ('s, 'r) ovf_state, unit) wb_op" where
  "scan_count env sv start i = (\<lambda>(bs, s).
     let b = start + i in
     binds (sm_result (sv_get sv b), (bs, s)) (\<lambda>rc (bs, s).
     let bs = (if rc = 0
               then (if bs_first_free bs = None then bs\<lparr>bs_first_free := Some (ucast i)\<rparr> else bs)
               else bs\<lparr>bs_nr_free := bs_nr_free bs - 1\<rparr>) in
     binds (on_snd (push_overflow env b rc) (bs, s)) (\<lambda>_ (bs, s).
     (Ok (), (bs\<lparr>bs_entries := bs_entries bs @ [count_entry rc]\<rparr>, s)))))"

definition make_bitmap :: "('s, 'r) wenv \<Rightarrow> sm_view \<Rightarrow> u64 \<Rightarrow> nat \<Rightarrow> ('s, 'r) ovf_state \<Rightarrow>
    (('s, 'r) ovf_state, index_entry) wb_op" where
  "make_bitmap env sv nr_blocks bm s =
    (let start = word_of_nat bm * entries64; len = min (nr_blocks - start) entries64 in
     binds_local (for_each (scan_count env sv start) (range64 0 len)
       (\<lparr>bs_entries = [], bs_first_free = None, bs_nr_free = entries32\<rparr>, s)) (\<lambda>bs s.
     binds (on_batcher (write_bitmap env (bs_entries bs)) s) (\<lambda>blocknr s.
     (Ok \<lparr>ie_blocknr = blocknr, ie_nr_free = bs_nr_free bs,
          ie_none_free_before = (case bs_first_free bs of Some i \<Rightarrow> i | None \<Rightarrow> ucast len)\<rparr>, s))))"

definition write_bitmaps :: "('s, 'r) wenv \<Rightarrow> sm_view \<Rightarrow> u64 \<Rightarrow> nat list \<Rightarrow> index_entry list \<times> ('s, 'r) ovf_state \<Rightarrow>
    (index_entry list \<times> ('s, 'r) ovf_state, unit) wb_op" where
  "write_bitmaps env sv nr_blocks = for_each (\<lambda>bm (ies, s).
     binds (on_snd (make_bitmap env sv nr_blocks bm) (ies, s)) (\<lambda>ie (ies, s). (Ok (), (ies @ [ie], s))))"

text \<open>The end of both writers: the overflow tree is completed.\<close>

definition complete_overflow :: "('s, 'r) wenv \<Rightarrow> (wb_error, unit) result \<times> index_entry list \<times> ('s, 'r) ovf_state \<Rightarrow>
    (('s, 'r) batcher, index_entry list \<times> u64) wb_op option" where
  "complete_overflow env = (\<lambda>(r, ies, s). case r of
     Ok _ \<Rightarrow> map_option (\<lambda>(r, (w, _)). (mapr (\<lambda>root. (ies, root)) r, w)) (bb_complete env u32_codec noop_rc s)
   | Err e \<Rightarrow> Some (Err e, fst (snd s)) | Panic \<Rightarrow> Some (Panic, fst (snd s)))"

definition write_common :: "('s, 'r) wenv \<Rightarrow> sm_view \<Rightarrow> ('s, 'r) batcher \<Rightarrow>
    (('s, 'r) batcher, index_entry list \<times> u64) wb_op option" where
  "write_common env sv w =
    (case sm_result (sv_nr_blocks sv) of
       Err e \<Rightarrow> Some (Err e, w) | Panic \<Rightarrow> Some (Panic, w)
     | Ok nr_blocks \<Rightarrow>
         let nr_bitmaps = unat (div_up nr_blocks entries64) in
         complete_overflow env (write_bitmaps env sv nr_blocks [0..<nr_bitmaps] ([], (bb_new u32_codec, w, ()))))"

definition write_disk_sm :: "('s, 'r) wenv \<Rightarrow> sm_view \<Rightarrow> ('s, 'r) batcher \<Rightarrow> (('s, 'r) batcher, sm_root) wb_op option" where
  "write_disk_sm env sv w =
    (case write_common env sv w of None \<Rightarrow> None
     | Some (Err e, w) \<Rightarrow> Some (Err e, w) | Some (Panic, w) \<Rightarrow> Some (Panic, w)
     | Some (Ok (index_entries, ref_count_root), w) \<Rightarrow>
        map_option (\<lambda>(r, (w, _)).
          binds (r, w) (\<lambda>bitmap_root w.
          binds (wb_flush w) (\<lambda>_ w.
          (bindr (sm_result (sv_nr_blocks sv)) (\<lambda>nr_blocks.
           bindr (sm_result (sv_nr_allocated sv)) (\<lambda>nr_allocated.
           Ok \<lparr>sr_nr_blocks = nr_blocks, sr_nr_allocated = nr_allocated, sr_bitmap_root = bitmap_root,
               sr_ref_count_root = ref_count_root\<rparr>)), w))))
          (bb_build env index_entry_codec noop_rc
            (zip (map word_of_nat [0..<length index_entries]) index_entries) w ()))"

section \<open>The space map of the metadata\<close>

record metadata_scan =
  ms_bm :: u64
  ms_nr_free :: u32
  ms_none_free_before :: u32
  ms_entries :: "bitmap_entry list"
  ms_index :: "index_entry list"

definition fresh_entries :: "bitmap_entry list" where
  "fresh_entries = replicate ENTRIES_PER_BITMAP (Small 0)"

definition flush_bitmap :: "('s, 'r) wenv \<Rightarrow> metadata_scan \<times> ('s, 'r) ovf_state \<Rightarrow>
    (metadata_scan \<times> ('s, 'r) ovf_state, unit) wb_op" where
  "flush_bitmap env = (\<lambda>(ms, s).
     binds (on_snd (on_batcher (write_bitmap env (ms_entries ms))) (ms\<lparr>ms_entries := []\<rparr>, s)) (\<lambda>blocknr (ms, s).
     (Ok (), (ms\<lparr>ms_index := ms_index ms @ [\<lparr>ie_blocknr = blocknr, ie_nr_free = ms_nr_free ms,
        ie_none_free_before = ms_none_free_before ms\<rparr>]\<rparr>, s))))"

definition scan_allocated :: "('s, 'r) wenv \<Rightarrow> u64 \<Rightarrow> metadata_scan \<times> ('s, 'r) ovf_state \<Rightarrow>
    (metadata_scan \<times> ('s, 'r) ovf_state, unit) wb_op" where
  "scan_allocated env b = (\<lambda>(ms, s).
     binds (if b div entries64 \<noteq> ms_bm ms
            then binds (flush_bitmap env (ms, s)) (\<lambda>_ (ms, s).
              (Ok (), (ms\<lparr>ms_bm := b div entries64, ms_nr_free := entries32, ms_none_free_before := 0,
                 ms_entries := fresh_entries\<rparr>, s)))
            else (Ok (), (ms, s))) (\<lambda>_ (ms, s).
     binds (sm_result (sv_get (we_view env (wb_sm (fst (snd s)))) b), (ms, s)) (\<lambda>rc (ms, s).
     let i = ucast (b mod entries64);
         ms = (if rc = 0 then ms
               else let ms = ms\<lparr>ms_nr_free := ms_nr_free ms - 1\<rparr> in
                 if i = ms_none_free_before ms then ms\<lparr>ms_none_free_before := i + 1\<rparr> else ms) in
     binds (on_snd (push_overflow env b rc) (ms, s)) (\<lambda>_ (ms, s).
     if unat i < length (ms_entries ms)
     then (Ok (), (ms\<lparr>ms_entries := (ms_entries ms)[unat i := count_entry rc]\<rparr>, s)) else (Panic, (ms, s))))))"

definition write_empty_bitmap :: "('s, 'r) wenv \<Rightarrow> nat \<Rightarrow> index_entry list \<times> ('s, 'r) ovf_state \<Rightarrow>
    (index_entry list \<times> ('s, 'r) ovf_state, unit) wb_op" where
  "write_empty_bitmap env bm = (\<lambda>(ies, s).
     binds (on_snd (on_batcher (write_bitmap env fresh_entries)) (ies, s)) (\<lambda>blocknr (ies, s).
     (Ok (), (ies @ [\<lparr>ie_blocknr = blocknr, ie_nr_free = entries32, ie_none_free_before = 0\<rparr>], s))))"

definition write_metadata_common :: "('s, 'r) wenv \<Rightarrow> ('s, 'r) batcher \<Rightarrow>
    (('s, 'r) batcher, index_entry list \<times> u64) wb_op option" where
  "write_metadata_common env w =
    (let (allocations, w) = clear_allocations env w;
         ms = \<lparr>ms_bm = 0, ms_nr_free = entries32, ms_none_free_before = 0, ms_entries = fresh_entries, ms_index = []\<rparr>
     in complete_overflow env
       (case binds (for_each (\<lambda>(start, stop). for_each (scan_allocated env) (range64 start stop))
               (we_rs_ranges env allocations) (ms, (bb_new u32_codec, w, ()))) (\<lambda>_. flush_bitmap env) of (r, (ms, s)) \<Rightarrow>
        binds (r, (ms_index ms, s)) (\<lambda>_ (ies, s).
        binds (sm_result (sv_nr_blocks (we_view env (wb_sm (fst (snd s))))), (ies, s)) (\<lambda>nr_blocks (ies, s).
        for_each (write_empty_bitmap env) [length ies..<unat (div_up nr_blocks entries64)] (ies, s)))))"

text \<open>The counts of the blocks that the space map itself took went from zero to one.\<close>

definition adjust_counts :: "('s, 'r) wenv \<Rightarrow> index_entry \<Rightarrow> u64 \<Rightarrow> u64 \<Rightarrow> ('s, 'r) batcher \<Rightarrow>
    (('s, 'r) batcher, index_entry) wb_op" where
  "adjust_counts env ie start stop w =
    (let nr_free = ie_nr_free ie - ucast (stop - start) in
     binds (wb_read (ie_blocknr ie) w, w) (\<lambda>(loc, data) w.
     case bitmap_unpack data of None \<Rightarrow> (Err WbUnpack, w)
     | Some (_, bitmap) \<Rightarrow>
        binds_local (for_each (\<lambda>a ((first_free, entries), w).
            let first_free = (if first_free = ucast a then ucast a + 1 else first_free) in
            if unat a < length entries then (Ok (), ((first_free, entries[unat a := Small 1]), w))
            else (Panic, ((first_free, entries), w)))
          (range64 start stop) ((ie_none_free_before ie, bm_entries bitmap), w)) (\<lambda>(first_free, entries) w.
        case bindr (bitmap_pack (bitmap\<lparr>bm_entries := entries\<rparr>)) (cursor_write data) of
          Err _ \<Rightarrow> (Err WbPack, w) | Panic \<Rightarrow> (Panic, w)
        | Ok data \<Rightarrow> binds (wb_write env (loc, data) BT_BITMAP w) (\<lambda>_ w.
            (Ok \<lparr>ie_blocknr = ie_blocknr ie, ie_nr_free = nr_free, ie_none_free_before = first_free\<rparr>, w)))))"

definition adjust_range :: "('s, 'r) wenv \<Rightarrow> u64 \<times> u64 \<Rightarrow> index_entry list \<times> ('s, 'r) batcher \<Rightarrow>
    (index_entry list \<times> ('s, 'r) batcher, unit) wb_op" where
  "adjust_range env = (\<lambda>(start, stop) (indexes, w).
     let bi_begin = block_to_bitmap start; bi_end = block_to_bitmap stop + 1 in
     for_each (\<lambda>bm (indexes, w).
        let b = (if bm = bi_begin then start mod entries64 else 0);
            e = (if bm = bi_end - 1 then stop mod entries64 else entries64) in
        binds (on_snd (adjust_counts env (indexes ! bm) b e) (indexes, w)) (\<lambda>ie (indexes, w).
        (Ok (), (indexes[bm := ie], w))))
       [bi_begin..<min bi_end (length indexes)] (indexes, w))"

definition write_metadata_sm :: "('s, 'r) wenv \<Rightarrow> ('s, 'r) batcher \<Rightarrow> (('s, 'r) batcher, sm_root) wb_op option" where
  "write_metadata_sm env w =
    map_option (\<lambda>(r, w).
      binds (r, w) (\<lambda>(indexes, ref_count_root) w.
      binds (wb_alloc_zeroed env w) (\<lambda>(loc, buf) w.
      let (allocations, w) = clear_allocations env w in
      binds_local (for_each (adjust_range env) (we_rs_ranges env allocations) (indexes, w)) (\<lambda>indexes w.
      case bindr (metadata_index_pack \<lparr>mi_blocknr = loc, mi_indexes = indexes\<rparr>) (cursor_write buf) of
        Err _ \<Rightarrow> (Err WbPack, w) | Panic \<Rightarrow> (Panic, w)
      | Ok data \<Rightarrow>
         binds (wb_write env (loc, data) BT_INDEX w) (\<lambda>_ w.
         binds (wb_flush w) (\<lambda>_ w.
         let sv = we_view env (wb_sm w) in
         (bindr (sm_result (sv_nr_blocks sv)) (\<lambda>nr_blocks.
          bindr (sm_result (sv_nr_allocated sv)) (\<lambda>nr_allocated.
          Ok \<lparr>sr_nr_blocks = nr_blocks, sr_nr_allocated = nr_allocated, sr_bitmap_root = loc,
              sr_ref_count_root = ref_count_root\<rparr>)), w)))))))
    (write_metadata_common env w)"

section \<open>What ends up on the device\<close>

text \<open>The count that a reader of the written space map finds for a block: the index entry of its bitmap, the two bits
  of the bitmap, and the overflow tree for the counts that do not fit.\<close>

definition bitmap_entry_at :: "(u64 \<Rightarrow> bytes option) \<Rightarrow> index_entry \<Rightarrow> nat \<Rightarrow> bitmap_entry option" where
  "bitmap_entry_at rd ie i = (case rd (ie_blocknr ie) of None \<Rightarrow> None
     | Some d \<Rightarrow> (case bitmap_unpack d of None \<Rightarrow> None
         | Some (_, bm) \<Rightarrow> if i < length (bm_entries bm) then Some (bm_entries bm ! i) else None))"

definition disk_count :: "engine \<Rightarrow> sm_root \<Rightarrow> u64 \<Rightarrow> u32 option" where
  "disk_count e root b =
    (case btree_lookup e index_entry_codec (sr_bitmap_root root) (b div entries64) of
       Some (Ok (Some ie)) \<Rightarrow>
         (case bitmap_entry_at (engine_rd e) ie (unat (b mod entries64)) of
            Some (Small n) \<Rightarrow> Some (ucast n)
          | Some Overflow \<Rightarrow>
              (case btree_lookup e u32_codec (sr_ref_count_root root) b of Some (Ok rc) \<Rightarrow> rc | _ \<Rightarrow> None)
          | None \<Rightarrow> None)
     | _ \<Rightarrow> None)"

section \<open>Writing bitmaps\<close>

lemma wb_alloc_zeroed_eq:
  "wb_alloc_zeroed env w = (case wb_alloc env w of (r, w) \<Rightarrow> (mapr (\<lambda>(loc, _). block_zeroed loc) r, w))"
  by (cases "alloc_loc env w"; cases "fst (alloc_loc env w)") (auto simp: wb_alloc_zeroed_def wb_alloc_def)

lemma bitmap_entry_at_mono: "bitmap_entry_at rd ie i = Some e \<Longrightarrow> rd \<subseteq>\<^sub>m rd' \<Longrightarrow> bitmap_entry_at rd' ie i = Some e"
  by (auto simp: bitmap_entry_at_def dest: map_le_Some split: option.splits)

lemma count_entry_cases: "count_entry rc = Overflow \<or> count_entry rc \<in> {Small 0, Small 1, Small 2}"
  by (simp add: count_entry_def)

context space_map
begin

lemma write_bitmap_cases:
  assumes inv: "wb_inv w" and entries: "\<forall>e \<in> set es. e = Overflow \<or> e \<in> {Small 0, Small 1, Small 2}"
    "length es \<le> ENTRIES_PER_BITMAP"
  obtains (full) "write_bitmap env es w = (Err OutOfMetadataSpace, w)" "full w"
    | (ok) loc w' where "write_bitmap env es w = (Ok loc, w')" "frame w w'"
      "\<And>ie i. ie_blocknr ie = loc \<Longrightarrow> i < length es \<Longrightarrow> bitmap_entry_at (live w') ie i = Some (es ! i)"
proof (cases rule: wb_alloc_cases [OF inv])
  case 1
  then show thesis by (intro full) (simp_all add: write_bitmap_def wb_alloc_zeroed_eq)
next
  case (2 loc w1)
  let ?bm = "\<lparr>bm_blocknr = loc, bm_entries = es\<rparr>"
  obtain bs data where bm: "bitmap_pack ?bm = Ok bs" "cursor_write (replicate BLOCK_SIZE 0) bs = Ok data"
    "length data = 4096" "\<And>d. length d = 4096 \<Longrightarrow> drop 4 d = drop 4 data \<Longrightarrow> bitmap_unpack d =
      Some ([], ?bm\<lparr>bm_entries := es @ replicate (ENTRIES_PER_BITMAP - length es) (Small 0)\<rparr>)"
    using bitmap_written [of ?bm] entries by auto
  have c1: "0 < cnt w1 loc" "length data = BLOCK_SIZE" using 2 bm(3) by (simp_all add: BLOCK_SIZE_def)
  obtain w' d where w': "wb_write env (loc, data) BT_BITMAP w1 = (Ok (), w')" "wb_inv w'" "wb_sm w' = wb_sm w1"
    "live w' = (live w1)(loc \<mapsto> d)" "drop 4 d = drop 4 data" "length d = 4096"
    using wb_write_live [OF 2(4,2) c1, of BT_BITMAP] by blast
  have live': "live w' = (live w)(loc \<mapsto> d)" using 2 w'(4) by (auto simp: live_rd_def fun_eq_iff)
  show thesis
  proof (rule ok)
    show "write_bitmap env es w = (Ok loc, w')"
      using 2(1) bm(1,2) w'(1) by (simp add: write_bitmap_def wb_alloc_zeroed_eq block_zeroed_def)
    show "frame w w'" using frame_new [OF w'(2) 2(3) _ live'] w'(3) 2(5) by simp
    show "bitmap_entry_at (live w') ie i = Some (es ! i)" if "ie_blocknr ie = loc" "i < length es" for ie i
      using that bm(4) [OF w'(6,5)] by (simp add: bitmap_entry_at_def live' nth_append)
  qed
qed

text \<open>The builder of the overflow tree after the counts of the blocks \<open>bs\<close> went by.\<close>

abbreviation ovf_inv :: "('s, 'r) batcher \<Rightarrow> u32 node_builder \<Rightarrow> (u64 \<Rightarrow> u32) \<Rightarrow> u64 list \<Rightarrow> bool" where
  "ovf_inv w nb f bs \<equiv> nb_inv (leaf_holds (we_crc32c env) u32_codec) (calc_max_entries u32_codec) (live w) nb
     (map (\<lambda>b. (b, f b)) (filter (\<lambda>b. 2 < f b) bs))"

lemma u32_leaf:
  "node_writer env inv count nr (leaf_io env u32_codec) (leaf_holds (we_crc32c env) u32_codec) (calc_max_entries u32_codec) (\<lambda>_. True)"
  by (rule leaf_writer [OF u32c.value_codec_axioms]) (simp add: u32_codec_def)

lemma ovf_mono: "ovf_inv w nb f bs \<Longrightarrow> live w \<subseteq>\<^sub>m live w' \<Longrightarrow> ovf_inv w' nb f bs"
  by (rule node_writer.nb_inv_mono [OF u32_leaf])

lemma push_overflow_cases:
  assumes inv: "wb_inv w" and nb: "ovf_inv w nb f bs" and sorted: "sorted_wrt (<) (bs @ [b])"
  obtains (full) nb' where "push_overflow env b (f b) (nb, w, ()) = (Err OutOfMetadataSpace, (nb', w, ()))" "full w"
    | (ok) nb' w' where "push_overflow env b (f b) (nb, w, ()) = (Ok (), (nb', w', ()))" "frame w w'"
      "ovf_inv w' nb' f (bs @ [b])"
proof (cases "2 < f b")
  case False
  with inv nb show thesis by (intro ok [of nb w]) (simp_all add: push_overflow_def)
next
  case True
  let ?kvs = "map (\<lambda>b. (b, f b)) (filter (\<lambda>b. 2 < f b) bs)"
  have s: "sorted_wrt (<) (map fst (?kvs @ [(b, f b)]))"
    using sorted by (auto simp: sorted_wrt_append sorted_wrt_map comp_def intro: sorted_wrt_filter)
  have rc: "rc_inc noop_rc (f b) () = (Ok (), ())" by (simp add: noop_rc_def)
  show thesis
  proof (cases rule: node_writer.push_value_cases [OF u32_leaf inv nb s _ rc])
    case (2 nb')
    with True show thesis by (intro full) (simp_all add: push_overflow_def bb_push_value_def)
  next
    case (3 nb' w')
    with True show thesis by (intro ok [of nb' w']) (simp_all add: push_overflow_def bb_push_value_def)
  qed simp
qed

end
section \<open>One bitmap\<close>

text \<open>What a scan adds up.\<close>

definition scanned :: "(u64 \<Rightarrow> u32) \<Rightarrow> u64 list \<Rightarrow> u64 \<Rightarrow> bitmap_scan \<Rightarrow> bitmap_scan" where
  "scanned f is start bs = \<lparr>
     bs_entries = bs_entries bs @ map (\<lambda>i. count_entry (f (start + i))) is,
     bs_first_free = (case bs_first_free bs of Some x \<Rightarrow> Some x
       | None \<Rightarrow> map_option ucast (find (\<lambda>i. f (start + i) = 0) is)),
     bs_nr_free = bs_nr_free bs - word_of_nat (length (filter (\<lambda>i. f (start + i) \<noteq> 0) is))\<rparr>"

lemma scanned_Nil: "scanned f [] start bs = bs"
  by (simp add: scanned_def split: option.splits)

lemma scanned_Cons: "scanned f (i # is) start bs = scanned f is start (scanned f [i] start bs)"
  by (simp add: scanned_def split: option.splits)

lemma scan_count_step:
  assumes "sv_get sv (start + i) = Ok (f (start + i))" "push_overflow env (start + i) (f (start + i)) s = (r, s')"
  shows "(r = Ok () \<longrightarrow> scan_count env sv start i (bs, s) = (Ok (), (scanned f [i] start bs, s'))) \<and>
    (\<forall>e. r = Err e \<longrightarrow> (\<exists>bs'. scan_count env sv start i (bs, s) = (Err e, (bs', s'))))"
proof -
  have "on_snd (push_overflow env (start + i) (f (start + i))) (x, s) = (r, (x, s'))" for x :: bitmap_scan
    using assms(2) by simp
  then show ?thesis using assms(1)
    by (cases "bs_first_free bs") (auto simp: scan_count_def scanned_def Let_def)
qed

context space_map
begin

lemma scan_cases:
  assumes "wb_inv w" "ovf_inv w nb f blks" "sorted_wrt (<) (blks @ map ((+) start) is)"
    "\<forall>i \<in> set is. sv_get sv (start + i) = Ok (f (start + i))"
  obtains (full) bs' nb' w' where "for_each (scan_count env sv start) is (bs, (nb, w, ())) =
      (Err OutOfMetadataSpace, (bs', (nb', w', ())))" "full w'" "frame w w'"
    | (ok) nb' w' where "for_each (scan_count env sv start) is (bs, (nb, w, ())) =
        (Ok (), (scanned f is start bs, (nb', w', ())))" "frame w w'" "ovf_inv w' nb' f (blks @ map ((+) start) is)"
  using assms
proof (induction "is" arbitrary: bs nb w blks thesis)
  case Nil
  then show ?case by (simp add: scanned_Nil)
next
  case (Cons i "is")
  have s: "sorted_wrt (<) (blks @ [start + i])" using Cons.prems(5) by (auto simp: sorted_wrt_append)
  have g: "sv_get sv (start + i) = Ok (f (start + i))" using Cons.prems(6) by simp
  show ?case
  proof (cases rule: push_overflow_cases [OF Cons.prems(3,4) s])
    case (1 nb')
    obtain bs' where "scan_count env sv start i (bs, (nb, w, ())) = (Err OutOfMetadataSpace, (bs', (nb', w, ())))"
      using scan_count_step [where sv = sv and f = f, OF g 1(1)] by blast
    then show ?thesis using Cons.prems(1) [of bs' nb' w] 1(2) Cons.prems(3) by simp
  next
    case (2 nb1 w1)
    have st: "scan_count env sv start i (bs, (nb, w, ())) = (Ok (), (scanned f [i] start bs, (nb1, w1, ())))"
      using scan_count_step [where sv = sv and f = f, OF g 2(1)] by blast
    have p: "wb_inv w1" "sorted_wrt (<) ((blks @ [start + i]) @ map ((+) start) is)"
      "\<forall>i \<in> set is. sv_get sv (start + i) = Ok (f (start + i))" using 2(2) Cons.prems(5,6) by simp_all
    show ?thesis
    proof (rule Cons.IH [OF _ _ p(1) 2(3) p(2,3)])
      fix bs' nb' w'
      assume a: "for_each (scan_count env sv start) is (scanned f [i] start bs, (nb1, w1, ())) =
        (Err OutOfMetadataSpace, (bs', (nb', w', ())))" "full w'" "frame w1 w'"
      show ?thesis by (rule Cons.prems(1)) (use a st frame_trans [OF 2(2) a(3)] in simp_all)
    next
      fix nb' w'
      assume a: "for_each (scan_count env sv start) is (scanned f [i] start bs, (nb1, w1, ())) =
          (Ok (), (scanned f is start (scanned f [i] start bs), (nb', w', ())))" "frame w1 w'"
        "ovf_inv w' nb' f ((blks @ [start + i]) @ map ((+) start) is)"
      show ?thesis by (rule Cons.prems(2)) (use a st frame_trans [OF 2(2) a(2)] in \<open>simp_all add: scanned_Cons [of f i "is"]\<close>)
    qed
  qed
qed

end

text \<open>The blocks of a bitmap, of a map of \<open>n\<close> blocks.\<close>

definition bitmap_blocks :: "nat \<Rightarrow> nat \<Rightarrow> u64 list" where
  "bitmap_blocks n bm = map word_of_nat [bm * ENTRIES_PER_BITMAP..<min n (Suc bm * ENTRIES_PER_BITMAP)]"

lemma bitmap_blocks_range:
  assumes "bm * ENTRIES_PER_BITMAP < unat n" "unat n < 2 ^ 63"
  defines "start \<equiv> word_of_nat bm * entries64"
  shows "map ((+) start) (range64 0 (min (n - start) entries64)) = bitmap_blocks (unat n) bm"
    "unat (min (n - start) entries64) = min (unat n - bm * ENTRIES_PER_BITMAP) ENTRIES_PER_BITMAP"
proof -
  have e: "unat entries64 = ENTRIES_PER_BITMAP" by (simp add: bitmap_sizes)
  have st: "start = word_of_nat (bm * ENTRIES_PER_BITMAP)" by (simp only: start_def of_nat_mult)
  have us: "unat start = bm * ENTRIES_PER_BITMAP" unfolding st by (rule unat_of_nat64) (use assms(1,2) in simp)
  then have d: "unat (n - start) = unat n - bm * ENTRIES_PER_BITMAP"
    using assms(1) by (simp add: unat_sub word_le_nat_alt)
  show len: "unat (min (n - start) entries64) = min (unat n - bm * ENTRIES_PER_BITMAP) ENTRIES_PER_BITMAP"
    unfolding min_def word_le_nat_alt using d e by simp
  have "range64 0 (min (n - start) entries64) = map word_of_nat [0..<min (unat n - bm * ENTRIES_PER_BITMAP) ENTRIES_PER_BITMAP]"
    by (simp only: range64_def len unat_0)
  moreover have "[bm * ENTRIES_PER_BITMAP..<min (unat n) (Suc bm * ENTRIES_PER_BITMAP)] =
      map (\<lambda>i. i + bm * ENTRIES_PER_BITMAP) [0..<min (unat n - bm * ENTRIES_PER_BITMAP) ENTRIES_PER_BITMAP]"
    unfolding map_add_upt using assms(1) by (intro arg_cong2 [of _ _ _ _ upt]) (auto simp: min_def)
  ultimately show "map ((+) start) (range64 0 (min (n - start) entries64)) = bitmap_blocks (unat n) bm"
    by (simp add: bitmap_blocks_def st comp_def add.commute)
qed

lemma bitmap_blocks_upto:
  "concat (map (bitmap_blocks n) [0..<k]) = map word_of_nat [0..<min n (k * ENTRIES_PER_BITMAP)]"
proof (induction k)
  case (Suc k)
  have "[0..<min n (Suc k * ENTRIES_PER_BITMAP)] =
      [0..<min n (k * ENTRIES_PER_BITMAP)] @ [k * ENTRIES_PER_BITMAP..<min n (Suc k * ENTRIES_PER_BITMAP)]"
  proof (cases "n \<le> k * ENTRIES_PER_BITMAP")
    case True
    then show ?thesis by (simp add: min_def)
  next
    case False
    then have "k * ENTRIES_PER_BITMAP + (min n (Suc k * ENTRIES_PER_BITMAP) - k * ENTRIES_PER_BITMAP) =
        min n (Suc k * ENTRIES_PER_BITMAP)" "min n (k * ENTRIES_PER_BITMAP) = k * ENTRIES_PER_BITMAP" by simp_all
    then show ?thesis
      using upt_add_eq_append [of 0 "k * ENTRIES_PER_BITMAP" "min n (Suc k * ENTRIES_PER_BITMAP) - k * ENTRIES_PER_BITMAP"]
      by simp
  qed
  with Suc show ?case by (simp add: bitmap_blocks_def)
qed simp

lemma sorted_words: "n \<le> 2 ^ 63 \<Longrightarrow> sorted_wrt (<) (map (word_of_nat :: nat \<Rightarrow> u64) [0..<n])"
  by (auto simp: sorted_wrt_iff_nth_less word_less_nat_alt unat_of_nat_eq)

text \<open>What a bitmap block, its index entry and the blocks it covers have to do with each other.\<close>

definition bitmap_written_for :: "(u64 \<Rightarrow> bytes option) \<Rightarrow> (u64 \<Rightarrow> u32) \<Rightarrow> nat \<Rightarrow> nat \<Rightarrow> index_entry \<Rightarrow> bool" where
  "bitmap_written_for rd f n bm ie \<longleftrightarrow>
     (\<forall>i < length (bitmap_blocks n bm). bitmap_entry_at rd ie i = Some (count_entry (f (bitmap_blocks n bm ! i)))) \<and>
     ie_nr_free ie = entries32 - word_of_nat (length (filter (\<lambda>b. f b \<noteq> 0) (bitmap_blocks n bm)))"

lemma bitmap_written_for_mono:
  "bitmap_written_for rd f n bm ie \<Longrightarrow> rd \<subseteq>\<^sub>m rd' \<Longrightarrow> bitmap_written_for rd' f n bm ie"
  by (auto simp: bitmap_written_for_def intro: bitmap_entry_at_mono)

context space_map
begin

lemma make_bitmap_cases:
  assumes inv: "wb_inv w" and ovf: "ovf_inv w nb f blks"
    and n: "bm * ENTRIES_PER_BITMAP < unat n" "unat n < 2 ^ 63"
    and sorted: "sorted_wrt (<) (blks @ bitmap_blocks (unat n) bm)"
    and get: "\<forall>b \<in> set (bitmap_blocks (unat n) bm). sv_get sv b = Ok (f b)"
  obtains (full) nb' w' where "make_bitmap env sv n bm (nb, w, ()) = (Err OutOfMetadataSpace, (nb', w', ()))" "full w'"
      "frame w w'"
    | (ok) ie nb' w' where "make_bitmap env sv n bm (nb, w, ()) = (Ok ie, (nb', w', ()))" "frame w w'"
      "bitmap_written_for (live w') f (unat n) bm ie" "ovf_inv w' nb' f (blks @ bitmap_blocks (unat n) bm)"
proof -
  let ?start = "word_of_nat bm * entries64" and ?bs = "\<lparr>bs_entries = [], bs_first_free = None, bs_nr_free = entries32\<rparr>"
  let ?len = "min (n - ?start) entries64"
  let ?is = "range64 0 ?len" and ?blocks = "bitmap_blocks (unat n) bm"
  note r = bitmap_blocks_range [OF n]
  have s: "sorted_wrt (<) (blks @ map ((+) ?start) ?is)" using sorted by (simp only: r)
  have g: "\<forall>i \<in> set ?is. sv_get sv (?start + i) = Ok (f (?start + i))" using get unfolding r(1) [symmetric] by simp
  show thesis
  proof (cases rule: scan_cases [OF inv ovf s g, of ?bs])
    case (1 bs' nb' w')
    then show thesis by (intro full) (simp_all add: make_bitmap_def Let_def)
  next
    case (2 nb' w1)
    let ?scan = "scanned f ?is ?start ?bs"
    have en: "bs_entries ?scan = map (\<lambda>b. count_entry (f b)) ?blocks" by (simp add: scanned_def r(1) [symmetric] comp_def)
    have "length ?blocks \<le> ENTRIES_PER_BITMAP" by (simp add: bitmap_blocks_def)
    then have es: "\<forall>e \<in> set (bs_entries ?scan). e = Overflow \<or> e \<in> {Small 0, Small 1, Small 2}"
      "length (bs_entries ?scan) \<le> ENTRIES_PER_BITMAP" unfolding en using count_entry_cases by auto
    have w1: "wb_inv w1" using 2 by simp
    show thesis
    proof (cases rule: write_bitmap_cases [OF w1 es])
      case 1
      show thesis by (rule full [of nb' w1]) (use 2(1,2) 1 in \<open>simp_all add: make_bitmap_def Let_def on_batcher_def\<close>)
    next
      case (2 loc w')
      let ?ie = "\<lparr>ie_blocknr = loc, ie_nr_free = bs_nr_free ?scan,
        ie_none_free_before = (case bs_first_free ?scan of Some i \<Rightarrow> i | None \<Rightarrow> ucast ?len)\<rparr>"
      have "bs_nr_free ?scan = entries32 - word_of_nat (length (filter (\<lambda>b. f b \<noteq> 0) ?blocks))"
        by (simp add: scanned_def r(1) [symmetric] filter_map comp_def)
      then have "bitmap_written_for (live w') f (unat n) bm ?ie"
        using 2(3) [of ?ie] unfolding en bitmap_written_for_def by simp
      moreover have "make_bitmap env sv n bm (nb, w, ()) = (Ok ?ie, (nb', w', ()))"
        using \<open>for_each _ _ _ = _\<close> 2(1) by (simp add: make_bitmap_def Let_def on_batcher_def)
      moreover have "ovf_inv w' nb' f (blks @ ?blocks)"
        using ovf_mono [OF \<open>ovf_inv w1 nb' f _\<close>, of w'] 2(2) unfolding r(1) by blast
      ultimately show thesis using frame_trans [OF \<open>frame w w1\<close> 2(2)] by (intro ok) simp_all
    qed
  qed
qed

lemma write_bitmaps_cases:
  assumes inv: "wb_inv w" and nb: "nb_inv (leaf_holds (we_crc32c env) u32_codec) (calc_max_entries u32_codec) (live w) nb []"
    and n: "\<forall>bm < k. bm * ENTRIES_PER_BITMAP < unat n" "unat n < 2 ^ 63"
    and get: "\<forall>b < n. sv_get sv b = Ok (f b)"
  obtains (full) ies nb' w' where "write_bitmaps env sv n [0..<k] ([], (nb, w, ())) =
      (Err OutOfMetadataSpace, (ies, (nb', w', ())))" "full w'" "frame w w'"
    | (ok) ies nb' w' where "write_bitmaps env sv n [0..<k] ([], (nb, w, ())) = (Ok (), (ies, (nb', w', ())))"
      "frame w w'" "length ies = k" "\<forall>bm < k. bitmap_written_for (live w') f (unat n) bm (ies ! bm)"
      "ovf_inv w' nb' f (concat (map (bitmap_blocks (unat n)) [0..<k]))"
  using n(1)
proof (induction k arbitrary: thesis)
  case 0
  then show ?case using inv nb by (simp add: write_bitmaps_def)
next
  case (Suc k)
  let ?blks = "\<lambda>k. concat (map (bitmap_blocks (unat n)) [0..<k])"
  let ?body = "\<lambda>bm (ies, s). binds (on_snd (make_bitmap env sv n bm) (ies, s)) (\<lambda>ie (ies, s). (Ok (), (ies @ [ie], s)))"
  have snoc: "write_bitmaps env sv n [0..<Suc k] s = binds (write_bitmaps env sv n [0..<k] s) (\<lambda>_. ?body k)" for s
    unfolding write_bitmaps_def upt_Suc_append [OF le0] for_each_snoc ..
  have lt: "k * ENTRIES_PER_BITMAP < unat n" using Suc.prems(3) by simp
  have sorted: "sorted_wrt (<) (?blks k @ bitmap_blocks (unat n) k)"
  proof -
    have "?blks k @ bitmap_blocks (unat n) k = ?blks (Suc k)" by simp
    then show ?thesis unfolding bitmap_blocks_upto using n(2) by (auto intro: sorted_words)
  qed
  have g: "\<forall>b \<in> set (bitmap_blocks (unat n) k). sv_get sv b = Ok (f b)"
  proof
    fix b assume "b \<in> set (bitmap_blocks (unat n) k)"
    then obtain i where "b = word_of_nat i" "i < unat n" by (auto simp: bitmap_blocks_def)
    moreover from this n(2) have "b < n" by (simp add: word_less_nat_alt unat_of_nat_eq)
    ultimately show "sv_get sv b = Ok (f b)" using get by blast
  qed
  show ?case
  proof (rule Suc.IH)
    fix ies nb' w'
    assume "write_bitmaps env sv n [0..<k] ([], nb, w, ()) = (Err OutOfMetadataSpace, ies, nb', w', ())" "full w'" "frame w w'"
    then show ?case using Suc.prems(1) snoc by simp
  next
    fix ies nb1 w1
    assume a: "write_bitmaps env sv n [0..<k] ([], nb, w, ()) = (Ok (), ies, nb1, w1, ())" "frame w w1" "length ies = k"
      "\<forall>bm < k. bitmap_written_for (live w1) f (unat n) bm (ies ! bm)" "ovf_inv w1 nb1 f (?blks k)"
    then have i: "wb_inv w1" by simp
    show ?case
    proof (cases rule: make_bitmap_cases [OF i a(5) lt n(2) sorted g])
      case (1 nb' w')
      show ?thesis by (rule Suc.prems(1)) (use 1 a(1) frame_trans [OF a(2) 1(3)] snoc in simp_all)
    next
      case (2 ie nb' w')
      have "\<forall>bm < Suc k. bitmap_written_for (live w') f (unat n) bm ((ies @ [ie]) ! bm)"
        using a(3,4) 2(2,3) bitmap_written_for_mono by (auto simp: nth_append less_Suc_eq)
      then show ?thesis using Suc.prems(2) [of "ies @ [ie]" nb' w'] 2 a(1,3) frame_trans [OF a(2) 2(2)] snoc by simp
    qed
  qed (use Suc.prems(3) in simp)
qed

end

section \<open>The whole map\<close>

lemma div_up_entries:
  assumes "unat n < 2 ^ 63"
  defines "k \<equiv> unat (div_up n entries64)"
  shows "unat n \<le> k * ENTRIES_PER_BITMAP" "\<forall>bm < k. bm * ENTRIES_PER_BITMAP < unat n" "k \<le> unat n"
proof -
  have "unat (n + (entries64 - 1)) = unat n + 16319"
    using assms(1) by (intro trans [OF unat_plus_no_overflow]) (simp_all add: bitmap_sizes)
  then have k: "k = (unat n + 16319) div 16320" by (simp add: k_def div_up_def unat_div bitmap_sizes)
  show "unat n \<le> k * ENTRIES_PER_BITMAP" "k \<le> unat n" "\<forall>bm < k. bm * ENTRIES_PER_BITMAP < unat n"
    unfolding k bitmap_sizes by auto
qed

lemma no_bitmap_blocks: "n \<le> bm * ENTRIES_PER_BITMAP \<Longrightarrow> bitmap_blocks n bm = []"
  by (simp add: bitmap_blocks_def)

lemma map_of_graph: "map_of (map (\<lambda>b. (b, f b)) xs) b = (if b \<in> set xs then Some (f b) else None)"
  by (induction xs) auto

lemma block_in_bitmap:
  assumes "b < n" "unat n < 2 ^ 63"
  defines "bm \<equiv> unat (b div entries64)" and "i \<equiv> unat (b mod entries64)"
  shows "i < length (bitmap_blocks (unat n) bm)" "bitmap_blocks (unat n) bm ! i = b" "b div entries64 = word_of_nat bm"
proof -
  have e: "unat entries64 = ENTRIES_PER_BITMAP" by (simp add: bitmap_sizes)
  have b: "unat b < unat n" using assms(1) by (simp add: word_less_nat_alt)
  have bm: "bm = unat b div ENTRIES_PER_BITMAP" and i: "i = unat b mod ENTRIES_PER_BITMAP"
    by (simp_all only: bm_def i_def unat_div unat_mod e)
  have eq: "bm * ENTRIES_PER_BITMAP + i = unat b" unfolding bm i by simp
  have lt: "i < ENTRIES_PER_BITMAP" unfolding i by (simp add: bitmap_sizes)
  show "i < length (bitmap_blocks (unat n) bm)" using eq lt b by (simp add: bitmap_blocks_def)
  then have "bm * ENTRIES_PER_BITMAP + i < min (unat n) (Suc bm * ENTRIES_PER_BITMAP)"
    by (simp add: bitmap_blocks_def less_diff_conv add.commute del: min_less_iff_conj mult_Suc)
  then have "bitmap_blocks (unat n) bm ! i = word_of_nat (bm * ENTRIES_PER_BITMAP + i)"
    unfolding bitmap_blocks_def by (subst nth_map) (simp_all only: length_upt nth_upt)
  then show "bitmap_blocks (unat n) bm ! i = b" unfolding eq by simp
  show "b div entries64 = word_of_nat bm" by (simp add: bm_def)
qed

text \<open>After \<open>write_common\<close>: an index entry for every bitmap, and the tree of the large counts.\<close>

definition map_written :: "(u64 \<Rightarrow> bytes option) \<Rightarrow> (u64 \<Rightarrow> u32) \<Rightarrow> u64 \<Rightarrow> index_entry list \<Rightarrow> u64 \<Rightarrow> bool" where
  "map_written rd f n ies root \<longleftrightarrow> length ies = unat (div_up n entries64) \<and>
     (\<forall>bm < length ies. bitmap_written_for rd f (unat n) bm (ies ! bm)) \<and>
     (\<exists>h. btree rd u32_codec True h root (map (\<lambda>b. (b, f b)) (filter (\<lambda>b. 2 < f b) (map word_of_nat [0..<unat n]))))"

lemma map_written_mono: "map_written rd f n ies root \<Longrightarrow> rd \<subseteq>\<^sub>m rd' \<Longrightarrow> map_written rd' f n ies root"
  unfolding map_written_def by (blast intro: bitmap_written_for_mono btree_mono)

text \<open>A reader of a written map finds the counts.\<close>

lemma disk_count_written:
  assumes "map_written (engine_rd e) f n ies rc_root" "unat n < 2 ^ 63" "b < n"
    and index: "btree (engine_rd e) index_entry_codec True h root (zip (map word_of_nat [0..<length ies]) ies)"
  shows "disk_count e \<lparr>sr_nr_blocks = nb, sr_nr_allocated = na, sr_bitmap_root = root, sr_ref_count_root = rc_root\<rparr> b = Some (f b)"
proof -
  let ?bm = "unat (b div entries64)" and ?i = "unat (b mod entries64)"
  note blk = block_in_bitmap [OF assms(3,2)] and d = div_up_entries [OF assms(2)]
  have len: "length ies = unat (div_up n entries64)" using assms(1) by (simp add: map_written_def)
  have bm: "?bm < length ies"
  proof (rule ccontr)
    assume "\<not> ?bm < length ies"
    then have "length ies * ENTRIES_PER_BITMAP \<le> ?bm * ENTRIES_PER_BITMAP" by (intro mult_le_mono1) simp
    with d(1) len have "bitmap_blocks (unat n) ?bm = []" by (intro no_bitmap_blocks) (simp only: le_trans)
    with blk(1) show False by simp
  qed
  have "map_of (zip (map (word_of_nat :: nat \<Rightarrow> u64) [0..<length ies]) ies) (map word_of_nat [0..<length ies] ! ?bm) = Some (ies ! ?bm)"
  proof (rule map_of_zip_nth)
    show "distinct (map (word_of_nat :: nat \<Rightarrow> u64) [0..<length ies])"
      using sorted_words [of "length ies"] d(3) len assms(2) by (simp add: strict_sorted_iff)
  qed (use bm in simp_all)
  then have "btree_lookup e index_entry_codec root (b div entries64) = Some (Ok (Some (ies ! ?bm)))"
    using lookup_loop_btree [OF index] bm blk(3) by (simp add: btree_lookup_def)
  moreover have "bitmap_entry_at (engine_rd e) (ies ! ?bm) ?i = Some (count_entry (f b))"
    using assms(1) bm blk by (auto simp: map_written_def bitmap_written_for_def)
  moreover have "btree_lookup e u32_codec rc_root b = Some (Ok (Some (f b)))" if "2 < f b"
  proof -
    have "b = word_of_nat (unat b)" "unat b < unat n" using assms(3) by (simp_all add: word_less_nat_alt)
    then have "b \<in> set (map word_of_nat [0..<unat n])" by force
    with that assms(1) show ?thesis
      by (auto simp: map_written_def btree_lookup_def lookup_loop_btree map_of_graph)
  qed
  moreover have "f b = 0 \<or> f b = 1 \<or> f b = 2" if "\<not> 2 < f b"
    using that by unat_arith
  ultimately show ?thesis by (cases "2 < f b") (auto simp: disk_count_def count_entry_def)
qed

context space_map
begin

lemma write_common_cases:
  assumes inv: "wb_inv w" and n: "sv_nr_blocks sv = Ok n" "unat n < 2 ^ 63" and get: "\<forall>b < n. sv_get sv b = Ok (f b)"
  obtains (full) w' where "write_common env sv w = Some (Err OutOfMetadataSpace, w')" "full w'" "frame w w'"
    | (ok) ies root w' where "write_common env sv w = Some (Ok (ies, root), w')" "frame w w'" "map_written (live w') f n ies root"
proof -
  note d = div_up_entries [OF n(2)]
  let ?k = "unat (div_up n entries64)"
  have nb: "nb_inv (leaf_holds (we_crc32c env) u32_codec) (calc_max_entries u32_codec) (live w) (bb_new u32_codec) []"
    by (simp add: nb_inv_def bb_new_def nb_new_def)
  have e: "write_common env sv w = complete_overflow env (write_bitmaps env sv n [0..<?k] ([], (bb_new u32_codec, w, ())))"
    by (simp add: write_common_def n(1))
  show thesis
  proof (cases rule: write_bitmaps_cases [OF inv nb d(2) n(2) get])
    case (1 ies nb' w')
    then show thesis by (intro full) (simp_all add: e complete_overflow_def)
  next
    case (2 ies nb1 w1)
    note ies = 2(3,4)
    let ?kvs = "map (\<lambda>b. (b, f b)) (filter (\<lambda>b. 2 < f b) (map word_of_nat [0..<unat n]))"
    have ovf: "nb_inv (leaf_holds (we_crc32c env) u32_codec) (calc_max_entries u32_codec) (live w1) nb1 ?kvs"
      using 2(5) d(1) unfolding bitmap_blocks_upto by (simp add: min_absorb1)
    have s: "sorted_wrt (<) (map fst ?kvs)" "\<forall>v \<in> snd ` set ?kvs. True" and c: "unat (disk_size u32_codec) \<le> 1000"
      and i: "wb_inv w1"
      using sorted_words [of "unat n"] n(2) 2(2) by (auto simp: sorted_wrt_filter comp_def u32_codec_def)
    show thesis
    proof (cases rule: bb_complete_cases [OF i u32c.value_codec_axioms c ovf s, of noop_rc "()"])
      case (1 w')
      show thesis by (rule full [of w']) (use 1 2(1) frame_trans [OF 2(2) 1(3)] in \<open>simp_all add: e complete_overflow_def\<close>)
    next
      case (2 root h w')
      have "map_written (live w') f n ies root"
        unfolding map_written_def ies(1) using 2(2) ctree_btree [OF 2(3)] ies(2) bitmap_written_for_mono by blast
      then show thesis
        using frame_trans [OF \<open>frame w w1\<close> 2(2)] 2(1) \<open>write_bitmaps _ _ _ _ _ = _\<close>
        by (intro ok) (simp_all add: e complete_overflow_def)
    qed
  qed
qed

lemma write_disk_sm_cases:
  assumes inv: "wb_inv w" and n: "sv_nr_blocks sv = Ok n" "unat n < 2 ^ 63" and get: "\<forall>b < n. sv_get sv b = Ok (f b)"
    and na: "sv_nr_allocated sv = Ok na"
  obtains (full) w' where "write_disk_sm env sv w = Some (Err OutOfMetadataSpace, w')" "full w'" "frame w w'"
    | (ok) root w' where "write_disk_sm env sv w = Some (Ok root, w')" "frame w w'" "wb_queue w' = []"
      "sr_nr_blocks root = n" "sr_nr_allocated root = na" "\<forall>b < n. disk_count (wb_engine w') root b = Some (f b)"
proof (cases rule: write_common_cases [OF inv n get])
  case (1 w')
  then show thesis by (intro full) (simp_all add: write_disk_sm_def)
next
  case (2 ies rc_root w1)
  let ?kvs = "zip (map word_of_nat [0..<length ies]) ies :: (u64 \<times> index_entry) list"
  have len: "length ies \<le> 2 ^ 63" using 2(3) div_up_entries(3) [OF n(2)] n(2) by (simp add: map_written_def)
  have s: "sorted_wrt (<) (map fst ?kvs)" "\<forall>v \<in> snd ` set ?kvs. True" and c: "unat (disk_size index_entry_codec) \<le> 1000"
    and i: "wb_inv w1"
    using sorted_words [OF len] 2(2) by (simp_all add: index_entry_codec_def)
  have rc: "\<exists>q'. rc_inc noop_rc v q = (Ok (), q')" for v :: index_entry and q :: unit by (simp add: noop_rc_def)
  show thesis
  proof (cases rule: bb_build_cases [OF i index_entryc.value_codec_axioms c s rc, of "()"])
    case (1 w' q')
    show thesis by (rule full [of w']) (use 1 2(1) frame_trans [OF 2(2) 1(3)] in \<open>simp_all add: write_disk_sm_def\<close>)
  next
    case (2 root h w' q')
    let ?w = "w'\<lparr>wb_engine := wb_view w', wb_queue := []\<rparr>"
    let ?root = "\<lparr>sr_nr_blocks = n, sr_nr_allocated = na, sr_bitmap_root = root, sr_ref_count_root = rc_root\<rparr>"
    have le: "live w' \<subseteq>\<^sub>m engine_rd (wb_view w')" using 2(2) live_engine by blast
    have "map_written (live w1) f n ies rc_root" by fact
    then have "map_written (engine_rd (wb_view w')) f n ies rc_root"
      using map_written_mono 2(2) le by blast
    moreover have "btree (engine_rd (wb_view w')) index_entry_codec True h root ?kvs" using btree_mono [OF ctree_btree [OF 2(3)] le] .
    ultimately have "\<forall>b < n. disk_count (wb_view w') ?root b = Some (f b)"
      using n(2) by (blast intro: disk_count_written)
    moreover have "write_disk_sm env sv w = Some (Ok ?root, ?w)"
      using \<open>write_common env sv w = _\<close> 2(1) n(1) na by (simp add: write_disk_sm_def wb_flush_view)
    moreover have "frame w ?w"
    proof -
      have view: "wb_view ?w = wb_view w'" by (simp add: wb_view_def)
      then have "live ?w = live w'" by (simp add: live_rd_def fun_eq_iff)
      moreover have "wb_inv ?w" using 2(2) by (simp add: batcher_inv_def wb_ok_def wb_view_def engine_write_many_nr)
      ultimately show ?thesis using frame_trans [OF \<open>frame w w1\<close> 2(2)] by simp
    qed
    ultimately show thesis by (intro ok [of ?root ?w]) simp_all
  qed
qed

end

section \<open>Properties\<close>

text \<open>C2: Writing a space map of fewer than 2 to the 63 blocks to the device always returns. It fails only when every block of the
  metadata device is in use. Otherwise the device, flushed, gives back for every block exactly the count the map
  had for it, whether it fits into the two bits of the bitmap or is in the overflow tree; the root names the number of
  blocks and of allocated blocks.\<close>

theorem disk_sm_readback:
  assumes "batcher_inv (core_env crc32c fresh) (core_sm_inv nr) nr w" "sv_nr_blocks sv = Ok n" "unat n < 2 ^ 63"
    "\<forall>b < n. sv_get sv b = Ok (f b)" "sv_nr_allocated sv = Ok na"
  shows "\<exists>r w'. write_disk_sm (core_env crc32c fresh) sv w = Some (r, w') \<and>
    (r = Err OutOfMetadataSpace \<and> (\<forall>b < nr. 0 < core_sm_count (wb_sm w') b) \<or>
     (\<exists>root. r = Ok root \<and> sr_nr_blocks root = n \<and> sr_nr_allocated root = na \<and>
        (\<forall>b < n. disk_count (wb_engine w') root b = Some (f b))))"
  by (cases rule: core_batch.write_disk_sm_cases [OF assms]) auto

text \<open>A map of seven blocks with counts below and above what fits into a bitmap.\<close>

definition sample_view :: sm_view where
  "sample_view = core_view \<lparr>nr_allocated = 4, alloc_begin = 0, counts = [0, 1, 2, 3, 0, 900, 0]\<rparr>"

theorem disk_sm_readback_witness:
  "\<exists>r w'. write_disk_sm sample_env sample_view sample_batcher = Some (r, w') \<and>
    (r = Err OutOfMetadataSpace \<and> (\<forall>b < 8. 0 < core_sm_count (wb_sm w') b) \<or>
     (\<exists>root. r = Ok root \<and> sr_nr_blocks root = 7 \<and> sr_nr_allocated root = 4 \<and>
        disk_count (wb_engine w') root 1 = Some 1 \<and> disk_count (wb_engine w') root 5 = Some 900))"
proof -
  have "\<forall>b < 7. sv_get sample_view b = Ok ([0, 1, 2, 3, 0, 900, 0] ! unat b)"
    by (simp add: sample_view_def core_view_def core_get_def word_less_nat_alt)
  moreover have "sv_nr_blocks sample_view = Ok 7" "sv_nr_allocated sample_view = Ok 4"
    by (simp_all add: sample_view_def core_view_def core_get_nr_blocks_def)
  ultimately show ?thesis
    using disk_sm_readback [OF sample_batcher_inv [unfolded sample_env_def], of sample_view 7
        "\<lambda>b. [0, 1, 2, 3, 0, 900, 0] ! unat b" 4] unfolding sample_env_def by (fastforce simp: word_less_nat_alt)
qed

end
