(* ===== verification/Units.thy ===== *)
theory Units
  imports Prelude
begin

text \<open>
  \<open>src/units.rs\<close>: units of storage, sizes with a unit and their text form, and the choice of a unit for
  printing. Floating point appears only as a rounded division by 1024 of a number below 2 to the 53, which is exact
  in \<open>f64\<close> and written out on integers; \<open>to_units\<close>, whose result is an \<open>f64\<close>, is not modelled.
\<close>

datatype units = Byte | Sector | Kilobyte | Megabyte | Gigabyte | Terabyte | Petabyte | Exabyte
  | Kibibyte | Mebibyte | Gibibyte | Tebibyte | Pebibyte | Exbibyte

fun unit_bytes :: "units \<Rightarrow> u64" where
  "unit_bytes Byte = 1"
| "unit_bytes Sector = 512"
| "unit_bytes Kibibyte = 1024"
| "unit_bytes Mebibyte = 1048576"
| "unit_bytes Gibibyte = 1073741824"
| "unit_bytes Tebibyte = 1099511627776"
| "unit_bytes Pebibyte = 1125899906842624"
| "unit_bytes Exbibyte = 1152921504606846976"
| "unit_bytes Kilobyte = 1000"
| "unit_bytes Megabyte = 1000000"
| "unit_bytes Gigabyte = 1000000000"
| "unit_bytes Terabyte = 1000000000000"
| "unit_bytes Petabyte = 1000000000000000"
| "unit_bytes Exabyte = 1000000000000000000"

fun to_string_short :: "units \<Rightarrow> string" where
  "to_string_short Byte = ''b''"
| "to_string_short Sector = ''s''"
| "to_string_short Kibibyte = ''KiB''"
| "to_string_short Mebibyte = ''MiB''"
| "to_string_short Gibibyte = ''GiB''"
| "to_string_short Tebibyte = ''Tib''"
| "to_string_short Pebibyte = ''PiB''"
| "to_string_short Exbibyte = ''EiB''"
| "to_string_short Kilobyte = ''kB''"
| "to_string_short Megabyte = ''MB''"
| "to_string_short Gigabyte = ''GB''"
| "to_string_short Terabyte = ''TB''"
| "to_string_short Petabyte = ''PB''"
| "to_string_short Exabyte = ''EB''"

fun to_letter :: "units \<Rightarrow> string" where
  "to_letter Byte = ''b''"
| "to_letter Sector = ''s''"
| "to_letter Kibibyte = ''k''"
| "to_letter Mebibyte = ''m''"
| "to_letter Gibibyte = ''g''"
| "to_letter Tebibyte = ''t''"
| "to_letter Pebibyte = ''p''"
| "to_letter Exbibyte = ''e''"
| "to_letter Kilobyte = ''K''"
| "to_letter Megabyte = ''M''"
| "to_letter Gigabyte = ''G''"
| "to_letter Terabyte = ''T''"
| "to_letter Petabyte = ''P''"
| "to_letter Exabyte = ''E''"

fun unit_display :: "units \<Rightarrow> string" where
  "unit_display Byte = ''byte''"
| "unit_display Sector = ''sector''"
| "unit_display Kibibyte = ''kibibyte''"
| "unit_display Mebibyte = ''mebibyte''"
| "unit_display Gibibyte = ''gibibyte''"
| "unit_display Tebibyte = ''terabyte''"
| "unit_display Pebibyte = ''pebibyte''"
| "unit_display Exbibyte = ''exbibyte''"
| "unit_display Kilobyte = ''kilobyte''"
| "unit_display Megabyte = ''megabyte''"
| "unit_display Gigabyte = ''gigabyte''"
| "unit_display Terabyte = ''terabyte''"
| "unit_display Petabyte = ''petabyte''"
| "unit_display Exabyte = ''exabyte''"

datatype size_error = InvalidUnit | InvalidNumber | ValueOutOfBounds

definition unit_from_str :: "string \<Rightarrow> (size_error, units) result" where
  "unit_from_str s =
    (if s = ''byte'' \<or> s = ''b'' then Ok Byte
     else if s = ''sector'' \<or> s = ''s'' then Ok Sector
     else if s = ''kibibyte'' \<or> s = ''KiB'' \<or> s = ''k'' then Ok Kibibyte
     else if s = ''mebibyte'' \<or> s = ''MiB'' \<or> s = ''m'' then Ok Mebibyte
     else if s = ''gibibyte'' \<or> s = ''GiB'' \<or> s = ''g'' then Ok Gibibyte
     else if s = ''tebibyte'' \<or> s = ''TiB'' \<or> s = ''t'' then Ok Tebibyte
     else if s = ''pebibyte'' \<or> s = ''PiB'' \<or> s = ''p'' then Ok Pebibyte
     else if s = ''exbibyte'' \<or> s = ''EiB'' \<or> s = ''e'' then Ok Exbibyte
     else if s = ''kilobyte'' \<or> s = ''kB'' \<or> s = ''K'' then Ok Kilobyte
     else if s = ''megabyte'' \<or> s = ''MB'' \<or> s = ''M'' then Ok Megabyte
     else if s = ''gigabyte'' \<or> s = ''GB'' \<or> s = ''G'' then Ok Gigabyte
     else if s = ''terabyte'' \<or> s = ''TB'' \<or> s = ''T'' then Ok Terabyte
     else if s = ''petabyte'' \<or> s = ''PB'' \<or> s = ''P'' then Ok Petabyte
     else if s = ''exabyte'' \<or> s = ''EB'' \<or> s = ''E'' then Ok Exabyte
     else Err InvalidUnit)"

section \<open>Sizes\<close>

record storage_size =
  ss_multiple :: u64
  ss_unit :: units

definition ss_new :: "u64 \<Rightarrow> units \<Rightarrow> (size_error, storage_size) result" where
  "ss_new multiple u = (let limit = 0xffffffffffffffff div unit_bytes u in
     if limit < multiple then Err ValueOutOfBounds else Ok \<lparr>ss_multiple = multiple, ss_unit = u\<rparr>)"

definition ss_bytes :: "u64 \<Rightarrow> (size_error, storage_size) result" where "ss_bytes m = ss_new m Byte"
definition ss_sectors :: "u64 \<Rightarrow> (size_error, storage_size) result" where "ss_sectors m = ss_new m Sector"
definition ss_kib :: "u64 \<Rightarrow> (size_error, storage_size) result" where "ss_kib m = ss_new m Kibibyte"
definition ss_mib :: "u64 \<Rightarrow> (size_error, storage_size) result" where "ss_mib m = ss_new m Mebibyte"
definition ss_gib :: "u64 \<Rightarrow> (size_error, storage_size) result" where "ss_gib m = ss_new m Gibibyte"
definition ss_tib :: "u64 \<Rightarrow> (size_error, storage_size) result" where "ss_tib m = ss_new m Tebibyte"
definition ss_pib :: "u64 \<Rightarrow> (size_error, storage_size) result" where "ss_pib m = ss_new m Pebibyte"
definition ss_eib :: "u64 \<Rightarrow> (size_error, storage_size) result" where "ss_eib m = ss_new m Exbibyte"

definition ss_size_bytes :: "storage_size \<Rightarrow> u64" where
  "ss_size_bytes s = ss_multiple s * unit_bytes (ss_unit s)"

definition parse_u64 :: "string \<Rightarrow> (size_error, u64) result" where
  "parse_u64 s = (case parse_nat (2 ^ 64) s of Some n \<Rightarrow> Ok (word_of_nat n) | None \<Rightarrow> Err InvalidNumber)"

definition ss_from_str :: "string \<Rightarrow> (size_error, storage_size) result" where
  "ss_from_str s = bindr
     (if \<exists>c \<in> set s. \<not> is_digit c
      then bindr (parse_u64 (takeWhile is_digit s)) (\<lambda>multiple.
           bindr (unit_from_str (dropWhile is_digit s)) (\<lambda>u. Ok (multiple, u)))
      else bindr (parse_u64 s) (\<lambda>multiple. Ok (multiple, Sector)))
     (\<lambda>(multiple, u). ss_new multiple u)"

definition ss_display :: "storage_size \<Rightarrow> string" where
  "ss_display s = decimal (unat (ss_multiple s)) @ to_string_short (ss_unit s)"

text \<open>\<open>leading_zeros\<close> of a positive number, as the position of the highest bit.\<close>

fun highest_bit :: "nat \<Rightarrow> nat" where
  "highest_bit n = (if n < 2 then 0 else Suc (highest_bit (n div 2)))"

declare highest_bit.simps [simp del]

definition pretty_units :: "units list" where
  "pretty_units = [Byte, Kibibyte, Mebibyte, Gibibyte, Tebibyte, Pebibyte, Exbibyte]"

definition to_pretty_print_size :: "u64 \<Rightarrow> (size_error, u64 \<times> units) result" where
  "to_pretty_print_size b =
    (let i = (if 0 < b then highest_bit (unat b) div 10 - 1 else 0);
         multiple = drop_bit (10 * i) b;
         (multiple, i) = (if 8192 < multiple then ((multiple + 512) div 1024, i + 1) else (multiple, i))
     in if i < length pretty_units then Ok (multiple, pretty_units ! i) else Panic)"

section \<open>Lemmas\<close>

lemma unit_short_not_digit: "to_string_short u \<noteq> [] \<and> (\<forall>c \<in> set (to_string_short u). \<not> is_digit c)"
  by (cases u) (simp_all add: is_digit_def)

lemma ss_from_str_display:
  assumes "unat m < 2 ^ 64"
  shows "ss_from_str (decimal (unat m) @ to_string_short u) = bindr (unit_from_str (to_string_short u)) (ss_new m)"
proof -
  have d: "list_all is_digit (decimal (unat m))" using decimal_digits by blast
  have u: "to_string_short u \<noteq> []" "\<forall>c \<in> set (to_string_short u). \<not> is_digit c" using unit_short_not_digit by blast+
  have "takeWhile is_digit (to_string_short u) = []" "dropWhile is_digit (to_string_short u) = to_string_short u"
    using u by (cases "to_string_short u"; simp)+
  moreover have "takeWhile is_digit (decimal (unat m) @ to_string_short u) =
      decimal (unat m) @ takeWhile is_digit (to_string_short u)"
    "dropWhile is_digit (decimal (unat m) @ to_string_short u) = dropWhile is_digit (to_string_short u)"
    using d by (simp_all add: list_all_iff)
  moreover have "\<exists>c \<in> set (decimal (unat m) @ to_string_short u). \<not> is_digit c" using u by (cases "to_string_short u") auto
  moreover have "parse_u64 (decimal (unat m)) = Ok m" using assms by (simp add: parse_u64_def)
  ultimately show ?thesis
    by (cases "unit_from_str (to_string_short u)") (simp_all add: ss_from_str_def)
qed

lemma highest_bit_bounds: "0 < n \<Longrightarrow> 2 ^ highest_bit n \<le> n \<and> n < 2 ^ Suc (highest_bit n)"
proof (induction n rule: highest_bit.induct)
  case (1 n)
  show ?case
  proof (cases "n < 2")
    case True
    with 1 show ?thesis by (simp add: highest_bit.simps [of n])
  next
    case False
    with 1 have "2 ^ highest_bit (n div 2) \<le> n div 2 \<and> n div 2 < 2 ^ Suc (highest_bit (n div 2))" by simp
    with False show ?thesis by (simp add: highest_bit.simps [of n]) linarith
  qed
qed


section \<open>Properties\<close>

text \<open>C36: Every unit is read back from its letter. From its long name too, but for the tebibyte, whose name is that
  of the terabyte; and a size is read back from its text form exactly when its unit is not the tebibyte,
  whose short form is misspelt.\<close>

theorem unit_text_roundtrip:
  "unit_from_str (to_letter u) = Ok u \<and>
   unit_from_str (unit_display u) = Ok (if u = Tebibyte then Terabyte else u) \<and>
   (ss_from_str (ss_display \<lparr>ss_multiple = m, ss_unit = u\<rparr>) =
      (if u = Tebibyte then Err InvalidUnit else ss_new m u))"
proof -
  have "unit_from_str (to_string_short u) = (if u = Tebibyte then Err InvalidUnit else Ok u)"
    by (cases u) (simp_all add: unit_from_str_def)
  then have "ss_from_str (ss_display \<lparr>ss_multiple = m, ss_unit = u\<rparr>) =
      (if u = Tebibyte then Err InvalidUnit else ss_new m u)"
    using ss_from_str_display [of m u] unat_lt2p [of m] by (simp add: ss_display_def)
  moreover have "unit_from_str (to_letter u) = Ok u"
    "unit_from_str (unit_display u) = Ok (if u = Tebibyte then Terabyte else u)"
    by (cases u; simp add: unit_from_str_def)+
  ultimately show ?thesis by blast
qed

lemma pretty_index:
  assumes "0 < n" "n < 2 ^ 64"
  defines "i \<equiv> highest_bit n div 10 - 1"
  shows "i \<le> 5" "n div 1024 ^ i < 2 ^ 20"
proof -
  note b = highest_bit_bounds [OF assms(1)]
  have "(2 :: nat) ^ highest_bit n < 2 ^ 64" using b assms(2) by linarith
  then have "highest_bit n < 64" by (rule power_less_imp_less_exp [rotated]) simp
  then show "i \<le> 5" by (simp add: i_def)
  have "Suc (highest_bit n) \<le> 10 * i + 20" unfolding i_def by linarith
  then have "(2 :: nat) ^ Suc (highest_bit n) \<le> 2 ^ (10 * i + 20)" by (intro power_increasing) simp_all
  with b have "n < 2 ^ 20 * 1024 ^ i" by (simp add: power_add power_mult)
  then show "n div 1024 ^ i < 2 ^ 20" by (simp add: less_mult_imp_div_less)
qed

text \<open>The size chosen for printing always exists, its number is at most 8192, and it is less than one unit away from the size
  that was given, at most half a unit above it. It is not always the nearest: 8192.5 KiB is printed as
  8192 KiB.\<close>

theorem pretty_print_bounds:
  "(\<exists>m k. to_pretty_print_size b = Ok (m, pretty_units ! k) \<and> k < 7 \<and> unat m \<le> 8192 \<and>
     unat b < (unat m + 1) * 1024 ^ k \<and> 2 * (unat m * 1024 ^ k) \<le> 2 * unat b + 1024 ^ k) \<and>
   to_pretty_print_size (8192 * 1024 + 512) = Ok (8192, Kibibyte)"
proof
  define i where "i = (if 0 < b then highest_bit (unat b) div 10 - 1 else 0)"
  define M where "M = drop_bit (10 * i) b"
  have e: "to_pretty_print_size b = (case (if 8192 < M then ((M + 512) div 1024, i + 1) else (M, i)) of
      (multiple, i) \<Rightarrow> if i < length pretty_units then Ok (multiple, pretty_units ! i) else Panic)"
    by (simp only: to_pretty_print_size_def Let_def i_def M_def)
  have len: "length pretty_units = 7" by (simp add: pretty_units_def)
  have uM: "unat M = unat b div 1024 ^ i" by (simp add: M_def unat_drop_div power_mult)
  have i: "i \<le> 5" "unat b div 1024 ^ i < 2 ^ 20"
    using pretty_index [of "unat b"] unat_lt2p [of b] by (auto simp: i_def unat_gt_0 word_gt_0)
  have low: "unat M * 1024 ^ i \<le> unat b" "unat b < (unat M + 1) * 1024 ^ i"
    unfolding uM using dividend_less_div_times [of "1024 ^ i" "unat b"] by (simp_all add: algebra_simps)
  show "\<exists>m k. to_pretty_print_size b = Ok (m, pretty_units ! k) \<and> k < 7 \<and> unat m \<le> 8192 \<and>
     unat b < (unat m + 1) * 1024 ^ k \<and> 2 * (unat m * 1024 ^ k) \<le> 2 * unat b + 1024 ^ k"
  proof (cases "8192 < M")
    case False
    then have "to_pretty_print_size b = Ok (M, pretty_units ! i)" "unat M \<le> 8192"
      using i(1) by (simp_all add: e len word_less_nat_alt)
    moreover have "2 * (unat M * 1024 ^ i) \<le> 2 * unat b + 1024 ^ i" using low(1) by linarith
    ultimately show ?thesis using i(1) low(2) by (intro exI [of _ M] exI [of _ i]) simp
  next
    case True
    let ?m = "(M + 512) div 1024"
    have M: "unat M < 2 ^ 20" using i(2) uM by simp
    have um: "unat ?m = (unat M + 512) div 1024"
      using M by (subst unat_div, subst unat_plus_no_overflow) simp_all
    have near: "unat ?m * 1024 \<le> unat M + 512" "unat M + 1 \<le> unat ?m * 1024 + 512" unfolding um by linarith+
    have "unat ?m * 1024 * 1024 ^ i \<le> (unat M + 512) * 1024 ^ i" using near(1) by (rule mult_le_mono1)
    moreover have "(unat M + 1) * 1024 ^ i \<le> (unat ?m * 1024 + 512) * 1024 ^ i" using near(2) by (rule mult_le_mono1)
    ultimately have r: "2 * (unat ?m * 1024 ^ (i + 1)) \<le> 2 * unat b + 1024 ^ (i + 1)"
      "unat b < (unat ?m + 1) * 1024 ^ (i + 1)"
      using low by (simp_all add: algebra_simps)
    have "to_pretty_print_size b = Ok (?m, pretty_units ! (i + 1))"
      using True i(1) by (simp add: e len)
    moreover have "unat ?m \<le> 8192" unfolding um using M by simp
    ultimately show ?thesis using i(1) r by (intro exI [of _ ?m] exI [of _ "i + 1"]) simp
  qed
next
  show "to_pretty_print_size (8192 * 1024 + 512) = Ok (8192, Kibibyte)"
    by (simp add: to_pretty_print_size_def highest_bit.simps pretty_units_def word_less_nat_alt)
qed

end
