(* ===== verification/Btree_Walker.thy ===== *)
theory Btree_Walker
  imports Btree_Builder Restricted_Space_Map
begin

text \<open>
  \<open>src/pdata/btree_walker.rs\<close>: visiting every leaf of an on-disk btree, and the collectors built on it. A node that
  is reached a second time is not read again: the walker counts the references to each block in a space map and
  remembers the error of a node that failed. The reader (\<open>IoEngine\<close>) and the space map are trait objects, records
  of the operations the walker calls. On damaged metadata the block numbers may form cycles; \<open>walk_node\<close> is a
  partial function, and that it returns for every device is proved from the laws of the counts.
\<close>

section \<open>Interfaces\<close>

record reader =
  rd_nr_blocks :: u64
  rd_read :: "u64 \<Rightarrow> (unit, block) result"
  rd_read_many :: "u64 list \<Rightarrow> (unit, (unit, block) result list) result"

fun io_result :: "(engine_error, 'a) result \<Rightarrow> (unit, 'a) result" where
  "io_result (Ok a) = Ok a"
| "io_result (Err _) = Err ()"
| "io_result Panic = Panic"

definition core_reader :: "engine \<Rightarrow> reader" where
  "core_reader e = \<lparr>rd_nr_blocks = en_nr_blocks e, rd_read = (\<lambda>b. io_result (engine_read e b)),
     rd_read_many = (\<lambda>bs. Ok (map io_result (engine_read_many e bs)))\<rparr>"

text \<open>The environment of a walker: the device, the methods of its space map with the text of their errors, and how
  strict it is.\<close>

record 's walk_env =
  wk_crc32c :: "bytes \<Rightarrow> u32"
  wk_reader :: reader
  wk_get :: "'s \<Rightarrow> u64 \<Rightarrow> (sm_error, u32) result"
  wk_inc :: "'s \<Rightarrow> u64 \<Rightarrow> u64 \<Rightarrow> ('s, unit) sm_op"
  wk_sm_nr_blocks :: "'s \<Rightarrow> u64"
  wk_text :: "sm_error \<Rightarrow> string"
  wk_ignore_non_fatal :: bool

record 's walker =
  wk_sm :: 's
  wk_fails :: "u64 \<rightharpoonup> btree_error"

record ('v, 'x) node_visitor =
  nv_visit :: "u64 list \<Rightarrow> key_range \<Rightarrow> node_header \<Rightarrow> u64 list \<Rightarrow> 'v list \<Rightarrow> 'x \<Rightarrow>
    (btree_error, unit) result \<times> 'x"
  nv_visit_again :: "u64 list \<Rightarrow> u64 \<Rightarrow> 'x \<Rightarrow> (btree_error, unit) result \<times> 'x"
  nv_end_walk :: "'x \<Rightarrow> (btree_error, unit) result \<times> 'x"

section \<open>The walker\<close>

definition walker_new :: "'s \<Rightarrow> 's walker" where
  "walker_new sm = \<lparr>wk_sm = sm, wk_fails = Map.empty\<rparr>"

definition walker_new_with_sm :: "'s walk_env \<Rightarrow> 's \<Rightarrow> (btree_error, 's walker) result" where
  "walker_new_with_sm env sm =
    assertr (wk_sm_nr_blocks env sm = rd_nr_blocks (wk_reader env)) (Ok (walker_new sm))"

definition failed :: "'s walker \<Rightarrow> u64 \<Rightarrow> btree_error option" where
  "failed w b = wk_fails w b"

definition set_fail :: "u64 \<Rightarrow> btree_error \<Rightarrow> 's walker \<Rightarrow> 's walker" where
  "set_fail b err w = w\<lparr>wk_fails := (wk_fails w)(b \<mapsto> err)\<rparr>"

definition walk_sm_inc :: "'s walk_env \<Rightarrow> u64 \<Rightarrow> 's walker \<Rightarrow> (btree_error, u32) result \<times> 's walker" where
  "walk_sm_inc env b w = (case wk_get env (wk_sm w) b of
     Err e \<Rightarrow> (Err (value_err (wk_text env e)), w) | Panic \<Rightarrow> (Panic, w)
   | Ok count \<Rightarrow> (case wk_inc env (wk_sm w) b 1 of (r, sm) \<Rightarrow>
       ((case r of Ok _ \<Rightarrow> Ok count | Err e \<Rightarrow> Err (value_err (wk_text env e)) | Panic \<Rightarrow> Panic),
        w\<lparr>wk_sm := sm\<rparr>)))"

fun build_aggregate :: "u64 \<Rightarrow> btree_error list \<Rightarrow> 's walker \<Rightarrow> (btree_error, unit) result \<times> 's walker" where
  "build_aggregate b [] w = (Ok (), w)"
| "build_aggregate b [e] w = (Err e, set_fail b e w)"
| "build_aggregate b errs w = (let e = aggregate_error errs in (Err e, set_fail b e w))"

text \<open>The state of \<open>walk_nodes\<close>: its errors, the nodes not seen before with their key ranges, the walker, the visitor.\<close>

type_synonym ('s, 'x) walk_state = "'s walker \<times> 'x"

definition sift_child :: "'s walk_env \<Rightarrow> ('v, 'x) node_visitor \<Rightarrow> u64 list \<Rightarrow> key_range \<times> u64 \<Rightarrow>
    (btree_error list \<times> u64 list \<times> key_range list) \<times> ('s, 'x) walk_state \<Rightarrow>
    (btree_error, unit) result \<times> (btree_error list \<times> u64 list \<times> key_range list) \<times> ('s, 'x) walk_state" where
  "sift_child env vis path = (\<lambda>(kr, b) ((errs, blocks, krs), (w, x)). case walk_sm_inc env b w of
     (Err _, w) \<Rightarrow> (Ok (), (errs, blocks, krs), w, x)
   | (Panic, w) \<Rightarrow> (Panic, (errs, blocks, krs), w, x)
   | (Ok rc, w) \<Rightarrow>
       if rc = 0 then (Ok (), (errs, blocks @ [b], krs @ [kr]), w, x)
       else (case failed w b of
         None \<Rightarrow> (case nv_visit_again vis path b x of (r, x) \<Rightarrow> (case r of
             Ok _ \<Rightarrow> (Ok (), (errs, blocks, krs), w, x)
           | Err e \<Rightarrow> (Ok (), (errs @ [e], blocks, krs), w, x)
           | Panic \<Rightarrow> (Panic, (errs, blocks, krs), w, x)))
       | Some e \<Rightarrow> (Ok (), (errs @ [e], blocks, krs), w, x)))"

definition fail_child :: "u64 list \<Rightarrow> u64 \<times> key_range \<Rightarrow> btree_error list \<times> ('s, 'x) walk_state \<Rightarrow>
    btree_error list \<times> ('s, 'x) walk_state" where
  "fail_child path = (\<lambda>(b, kr) (errs, w, x).
     let e = keys_context (io_err path) kr in (errs @ [e], set_fail b e w, x))"

text \<open>A loop whose body may not return.\<close>

fun each_opt :: "('y \<Rightarrow> 't \<Rightarrow> (('e, unit) result \<times> 't) option) \<Rightarrow> 'y list \<Rightarrow> 't \<Rightarrow> (('e, unit) result \<times> 't) option" where
  "each_opt f [] s = Some (Ok (), s)"
| "each_opt f (y # ys) s = Option.bind (f y s) (\<lambda>(r, s). case r of Ok _ \<Rightarrow> each_opt f ys s | _ \<Rightarrow> Some (r, s))"

definition walk_child :: "(key_range \<Rightarrow> block \<Rightarrow> ('s, 'x) walk_state \<Rightarrow>
      ((btree_error, unit) result \<times> ('s, 'x) walk_state) option) \<Rightarrow> u64 list \<Rightarrow>
    (unit, block) result \<times> u64 \<times> key_range \<Rightarrow> btree_error list \<times> ('s, 'x) walk_state \<Rightarrow>
    ((btree_error, unit) result \<times> btree_error list \<times> ('s, 'x) walk_state) option" where
  "walk_child child path = (\<lambda>(rb, b, kr) (errs, s). case rb of
     Err _ \<Rightarrow> Some (Ok (), fail_child path (b, kr) (errs, s))
   | Panic \<Rightarrow> Some (Panic, errs, s)
   | Ok blk \<Rightarrow> Option.bind (child kr blk s) (\<lambda>(r, s). Some (case r of
       Ok _ \<Rightarrow> (Ok (), errs, s) | Err e \<Rightarrow> (Ok (), errs @ [e], s) | Panic \<Rightarrow> (Panic, errs, s))))"

text \<open>The walker of one child is the argument \<open>child\<close>. An engine that returned more results than it was given blocks
  would make the code panic.\<close>

definition walk_nodes :: "'s walk_env \<Rightarrow> ('v, 'x) node_visitor \<Rightarrow>
    (key_range \<Rightarrow> block \<Rightarrow> ('s, 'x) walk_state \<Rightarrow> ((btree_error, unit) result \<times> ('s, 'x) walk_state) option) \<Rightarrow>
    u64 list \<Rightarrow> key_range list \<Rightarrow> u64 list \<Rightarrow> ('s, 'x) walk_state \<Rightarrow>
    ((btree_error, btree_error list) result \<times> ('s, 'x) walk_state) option" where
  "walk_nodes env vis child path krs bs s =
    (if length krs \<noteq> length bs then Some (Panic, s)
     else case for_each (sift_child env vis path) (zip krs bs) (([], [], []), s) of
       (Ok _, (errs, blocks, krs), s) \<Rightarrow>
         (case rd_read_many (wk_reader env) blocks of
            Err _ \<Rightarrow> (let (errs, s) = fold (fail_child path) (zip blocks krs) (errs, s) in Some (Ok errs, s))
          | Panic \<Rightarrow> Some (Panic, s)
          | Ok rblocks \<Rightarrow>
              Option.bind (each_opt (walk_child child path) (zip rblocks (zip blocks krs)) (errs, s))
                (\<lambda>(r, errs, s). Some ((if is_ok r \<and> length rblocks \<le> length blocks then Ok errs else Panic), s)))
     | (_, _, s) \<Rightarrow> Some (Panic, s))"

lemma each_opt_mono [partial_function_mono]:
  assumes "\<And>y t. mono_option (\<lambda>g. f g y t)"
  shows "mono_option (\<lambda>g. each_opt (f g) ys s)"
proof (induction ys arbitrary: s)
  case Nil
  then show ?case by (simp add: partial_function_mono)
next
  case (Cons y ys)
  have "mono_option (\<lambda>g. case p of (r, t) \<Rightarrow> (case r of Ok _ \<Rightarrow> each_opt (f g) ys t | _ \<Rightarrow> Some (r, t)))" for p
    using Cons by (cases p; cases "fst p") (auto intro: partial_function_mono)
  then show ?case unfolding each_opt.simps by (intro bind_mono assms)
qed

lemma walk_child_mono [partial_function_mono]:
  assumes "\<And>kr blk s. mono_option (\<lambda>g. child g kr blk s)"
  shows "mono_option (\<lambda>g. walk_child (child g) path y t)"
proof -
  obtain rb b kr errs s where y: "y = (rb, b, kr)" "t = (errs, s)" by (metis surj_pair)
  have "mono_option (\<lambda>g. Option.bind (child g kr blk s) (\<lambda>(r, s). Some (case r of
       Ok _ \<Rightarrow> (Ok (), errs, s) | Err e \<Rightarrow> (Ok (), errs @ [e], s) | Panic \<Rightarrow> (Panic, errs, s))))" for blk
    by (intro bind_mono assms) (auto intro: partial_function_mono)
  then show ?thesis by (cases rb) (simp_all add: walk_child_def y partial_function_mono)
qed

lemma walk_nodes_mono [partial_function_mono]:
  assumes "\<And>kr blk s. mono_option (\<lambda>g. child g kr blk s)"
  shows "mono_option (\<lambda>g. walk_nodes env vis (child g) path krs bs s)"
proof -
  have m: "mono_option (\<lambda>g. Option.bind (each_opt (walk_child (child g) path) ys t)
      (\<lambda>(r, errs, s). Some ((if is_ok r \<and> Q then Ok errs else Panic), s)))" for ys t Q
    by (intro bind_mono each_opt_mono walk_child_mono assms) (auto intro: partial_function_mono)
  obtain r errs blocks krs' s' where f: "for_each (sift_child env vis path) (zip krs bs) (([], [], []), s) =
      (r, (errs, blocks, krs'), s')" by (metis surj_pair)
  show ?thesis
    unfolding walk_nodes_def f
    by (cases r; cases "rd_read_many (wk_reader env) blocks"; simp add: m partial_function_mono)
qed

text \<open>A leaf is handed to the visitor; an internal node has the errors of its children.\<close>

definition visit_leaf :: "('v, 'x) node_visitor \<Rightarrow> u64 list \<Rightarrow> key_range \<Rightarrow> u64 \<Rightarrow> node_header \<Rightarrow> u64 list \<Rightarrow>
    'v list \<Rightarrow> ('s, 'x) walk_state \<Rightarrow> (btree_error, unit) result \<times> ('s, 'x) walk_state" where
  "visit_leaf vis path kr loc h keys values = (\<lambda>(w, x). case nv_visit vis path kr h keys values x of (r, x) \<Rightarrow>
     (case r of Ok _ \<Rightarrow> (Ok (), w, x)
      | Err e \<Rightarrow> (let e = keys_context (PathError path e) kr in (Err e, set_fail loc e w, x))
      | Panic \<Rightarrow> (Panic, w, x)))"

definition end_internal :: "u64 \<Rightarrow> (btree_error, btree_error list) result \<times> ('s, 'x) walk_state \<Rightarrow>
    (btree_error, unit) result \<times> ('s, 'x) walk_state" where
  "end_internal loc = (\<lambda>(r, w, x). case r of
     Ok errs \<Rightarrow> (case build_aggregate loc errs w of (r, w) \<Rightarrow> (r, w, x)) | _ \<Rightarrow> (Panic, w, x))"

definition fail_node :: "u64 list \<Rightarrow> key_range \<Rightarrow> u64 \<Rightarrow> node_error \<Rightarrow> ('s, 'x) walk_state \<Rightarrow>
    (btree_error, unit) result \<times> ('s, 'x) walk_state" where
  "fail_node path kr loc err = (\<lambda>(w, x).
     let e = keys_context (node_err path err) kr in (Err e, set_fail loc e w, x))"

text \<open>\<open>walk_node\<close> pushes the block on the path for the time of \<open>walk_node_\<close>.\<close>

partial_function (option) walk_node :: "'s walk_env \<Rightarrow> 'v codec \<Rightarrow> ('v, 'x) node_visitor \<Rightarrow> u64 list \<Rightarrow>
    key_range \<Rightarrow> block \<Rightarrow> bool \<Rightarrow> ('s, 'x) walk_state \<Rightarrow>
    ((btree_error, unit) result \<times> ('s, 'x) walk_state) option" where
  "walk_node env c vis path kr b is_root s =
    (case check_and_unpack_node (wk_crc32c env) c b (wk_ignore_non_fatal env) is_root of
       Err err \<Rightarrow> Some (fail_node (path @ [fst b]) kr (fst b) err s)
     | Panic \<Rightarrow> Some (Panic, s)
     | Ok (Internal h keys values) \<Rightarrow>
         (case split_key_ranges (path @ [fst b]) kr keys of
            Err e \<Rightarrow> Some (Err e, s) | Panic \<Rightarrow> Some (Panic, s)
          | Ok krs \<Rightarrow> Option.bind
              (walk_nodes env vis (\<lambda>kr blk. walk_node env c vis (path @ [fst b]) kr blk False)
                 (path @ [fst b]) krs values s)
              (\<lambda>r. Some (end_internal (fst b) r)))
     | Ok (Leaf h keys values) \<Rightarrow> Some (visit_leaf vis (path @ [fst b]) kr (fst b) h keys values s))"

text \<open>The local variable \<open>result\<close> of \<open>walk\<close>, within the result of the early returns before it is set.\<close>

fun caught :: "('e, 'a) result \<times> 't \<Rightarrow> ('e, ('e, 'a) result) result \<times> 't" where
  "caught (Panic, s) = (Panic, s)"
| "caught (r, s) = (Ok r, s)"

definition walk_root :: "'s walk_env \<Rightarrow> 'v codec \<Rightarrow> ('v, 'x) node_visitor \<Rightarrow> u64 list \<Rightarrow> u64 \<Rightarrow> ('s, 'x) walk_state \<Rightarrow>
    ((btree_error, (btree_error, unit) result) result \<times> ('s, 'x) walk_state) option" where
  "walk_root env c vis path root = (\<lambda>(w, x). case walk_sm_inc env root w of
     (Err e, w) \<Rightarrow> Some (Err e, w, x)
   | (Panic, w) \<Rightarrow> Some (Panic, w, x)
   | (Ok rc, w) \<Rightarrow>
       if 0 < rc then (case failed w root of
           Some e \<Rightarrow> Some (Ok (Err e), w, x)
         | None \<Rightarrow> Some (caught (case nv_visit_again vis path root x of (r, x) \<Rightarrow> (r, w, x))))
       else (case rd_read (wk_reader env) root of
           Err _ \<Rightarrow> Some (Err (io_err path), w, x)
         | Panic \<Rightarrow> Some (Panic, w, x)
         | Ok blk \<Rightarrow> Option.bind (walk_node env c vis path kr_new blk True (w, x)) (\<lambda>r. Some (caught r))))"

text \<open>An error of \<open>end_walk\<close> is reported only together with one of the walk.\<close>

definition walk :: "'s walk_env \<Rightarrow> 'v codec \<Rightarrow> ('v, 'x) node_visitor \<Rightarrow> u64 list \<Rightarrow> u64 \<Rightarrow> ('s, 'x) walk_state \<Rightarrow>
    ((btree_error, unit) result \<times> ('s, 'x) walk_state) option" where
  "walk env c vis path root s = Option.bind (walk_root env c vis path root s) (\<lambda>r. Some (
     binds r (\<lambda>result (w, x). case nv_end_walk vis x of
        (Ok _, x) \<Rightarrow> (result, w, x)
      | (Panic, x) \<Rightarrow> (Panic, w, x)
      | (Err e, x) \<Rightarrow> (case result of Err tree_err \<Rightarrow> (Err (Aggregate [tree_err, e]), w, x) | _ \<Rightarrow> (result, w, x)))))"

lemma end_walk_error_lost:
  assumes "walk_root env c vis path root s = Some (Ok result, w, x)" "nv_end_walk vis x = (Err e, x')"
  shows "walk env c vis path root s = Some (case result of Err t \<Rightarrow> (Err (Aggregate [t, e]), w, x')
    | r \<Rightarrow> (r, w, x'))"
  using assms by (cases result) (simp_all add: walk_def)

section \<open>Collectors\<close>

text \<open>Indexing the values by the positions of the keys panics where there is no value.\<close>

definition for_keys :: "(u64 \<Rightarrow> 'v \<Rightarrow> 'x \<Rightarrow> 'x) \<Rightarrow> u64 list \<Rightarrow> 'v list \<Rightarrow> 'x \<Rightarrow> (btree_error, unit) result \<times> 'x" where
  "for_keys f keys values = for_each (\<lambda>n x.
     if n < length values then (Ok (), f (keys ! n) (values ! n) x) else (Panic, x)) [0..<length keys]"

definition value_collector :: "('v, u64 \<rightharpoonup> 'v) node_visitor" where
  "value_collector = \<lparr>nv_visit = (\<lambda>path kr h keys values. for_keys (\<lambda>k v m. m(k \<mapsto> v)) keys values),
     nv_visit_again = (\<lambda>path b x. (Ok (), x)), nv_end_walk = (\<lambda>x. (Ok (), x))\<rparr>"

definition value_path_collector :: "('v, u64 \<rightharpoonup> (u64 list \<times> 'v)) node_visitor" where
  "value_path_collector = \<lparr>nv_visit = (\<lambda>path kr h keys values. for_keys (\<lambda>k v m. m(k \<mapsto> (path, v))) keys values),
     nv_visit_again = (\<lambda>path b x. (Ok (), x)), nv_end_walk = (\<lambda>x. (Ok (), x))\<rparr>"

definition key_collector :: "('v, u64 set) node_visitor" where
  "key_collector = \<lparr>nv_visit = (\<lambda>path kr h keys values x. (Ok (), fold insert keys x)),
     nv_visit_again = (\<lambda>path b x. (Ok (), x)), nv_end_walk = (\<lambda>x. (Ok (), x))\<rparr>"

definition value_vec_collector :: "('v, 'v list) node_visitor" where
  "value_vec_collector = \<lparr>nv_visit = (\<lambda>path kr h keys values x. (Ok (), x @ values)),
     nv_visit_again = (\<lambda>path b x. (Ok (), x)), nv_end_walk = (\<lambda>x. (Ok (), x))\<rparr>"

definition noop_visitor :: "('v, unit) node_visitor" where
  "noop_visitor = \<lparr>nv_visit = (\<lambda>path kr h keys values x. (Ok (), x)),
     nv_visit_again = (\<lambda>path b x. (Ok (), x)), nv_end_walk = (\<lambda>x. (Ok (), x))\<rparr>"

text \<open>The end of the functions below: the walk, then the visitor's collection.\<close>

definition collect :: "((btree_error, unit) result \<times> ('s, 'x) walk_state) option \<Rightarrow> (btree_error, 'x) result option" where
  "collect r = map_option (\<lambda>(r, w, x). mapr (\<lambda>_. x) r) r"

text \<open>\<open>BTreeWalker::new\<close> counts in a \<open>RestrictedSpaceMap\<close> of the size of the device.\<close>

definition new_walk_env :: "(bytes \<Rightarrow> u32) \<Rightarrow> 'b bitset \<Rightarrow> (sm_error \<Rightarrow> string) \<Rightarrow> reader \<Rightarrow> bool \<Rightarrow> 'b rsm walk_env" where
  "new_walk_env crc32c bs text rd ignore = \<lparr>wk_crc32c = crc32c, wk_reader = rd, wk_get = r_get bs, wk_inc = r_inc bs,
     wk_sm_nr_blocks = (\<lambda>sm. word_of_nat (bs_len bs (r_counts sm))), wk_text = text, wk_ignore_non_fatal = ignore\<rparr>"

definition fresh_walker :: "'b bitset \<Rightarrow> reader \<Rightarrow> 'b rsm walker" where
  "fresh_walker bs rd = walker_new (r_new bs (rd_nr_blocks rd))"

definition btree_to_map :: "(bytes \<Rightarrow> u32) \<Rightarrow> 'b bitset \<Rightarrow> (sm_error \<Rightarrow> string) \<Rightarrow> 'v codec \<Rightarrow> u64 list \<Rightarrow> reader \<Rightarrow> bool \<Rightarrow>
    u64 \<Rightarrow> (btree_error, u64 \<rightharpoonup> 'v) result option" where
  "btree_to_map crc32c bs text c path rd ignore root =
    collect (walk (new_walk_env crc32c bs text rd ignore) c value_collector path root (fresh_walker bs rd, Map.empty))"

definition btree_to_key_set :: "(bytes \<Rightarrow> u32) \<Rightarrow> 'b bitset \<Rightarrow> (sm_error \<Rightarrow> string) \<Rightarrow> 'v codec \<Rightarrow> u64 list \<Rightarrow> reader \<Rightarrow>
    bool \<Rightarrow> u64 \<Rightarrow> (btree_error, u64 set) result option" where
  "btree_to_key_set crc32c bs text c path rd ignore root =
    collect (walk (new_walk_env crc32c bs text rd ignore) c key_collector path root (fresh_walker bs rd, {}))"

definition btree_to_value_vec :: "(bytes \<Rightarrow> u32) \<Rightarrow> 'b bitset \<Rightarrow> (sm_error \<Rightarrow> string) \<Rightarrow> 'v codec \<Rightarrow> u64 list \<Rightarrow> reader \<Rightarrow>
    bool \<Rightarrow> u64 \<Rightarrow> (btree_error, 'v list) result option" where
  "btree_to_value_vec crc32c bs text c path rd ignore root =
    collect (walk (new_walk_env crc32c bs text rd ignore) c value_vec_collector path root (fresh_walker bs rd, []))"

text \<open>With a space map of the caller, which is left with the counts of the walk.\<close>

definition walk_with_sm :: "'s walk_env \<Rightarrow> 'v codec \<Rightarrow> ('v, 'x) node_visitor \<Rightarrow> u64 list \<Rightarrow> u64 \<Rightarrow> 'x \<Rightarrow> 's \<Rightarrow>
    ((btree_error, 'x) result \<times> 's) option" where
  "walk_with_sm env c vis path root x sm = (case walker_new_with_sm env sm of
     Err e \<Rightarrow> Some (Err e, sm) | Panic \<Rightarrow> Some (Panic, sm)
   | Ok w \<Rightarrow> map_option (\<lambda>(r, w, x). (mapr (\<lambda>_. x) r, wk_sm w)) (walk env c vis path root (w, x)))"

definition btree_to_map_with_sm :: "'s walk_env \<Rightarrow> 'v codec \<Rightarrow> u64 list \<Rightarrow> u64 \<Rightarrow> 's \<Rightarrow>
    ((btree_error, u64 \<rightharpoonup> 'v) result \<times> 's) option" where
  "btree_to_map_with_sm env c path root = walk_with_sm env c value_collector path root Map.empty"

definition btree_to_map_with_path :: "'s walk_env \<Rightarrow> 'v codec \<Rightarrow> u64 list \<Rightarrow> u64 \<Rightarrow> 's \<Rightarrow>
    ((btree_error, u64 \<rightharpoonup> (u64 list \<times> 'v)) result \<times> 's) option" where
  "btree_to_map_with_path env c path root = walk_with_sm env c value_path_collector path root Map.empty"

definition count_btree_blocks :: "'s walk_env \<Rightarrow> 'v codec \<Rightarrow> u64 list \<Rightarrow> u64 \<Rightarrow> 's \<Rightarrow>
    ((btree_error, unit) result \<times> 's) option" where
  "count_btree_blocks env c path root = walk_with_sm env c noop_visitor path root ()"

section \<open>Every walk returns\<close>

text \<open>What the walker needs of its space map: \<open>zeros\<close> are the blocks with a count of zero. A count never falls back
  to zero, and an increment that succeeds leaves it positive.\<close>

locale walk_counts =
  fixes get :: "'s \<Rightarrow> u64 \<Rightarrow> (sm_error, u32) result" and inc :: "'s \<Rightarrow> u64 \<Rightarrow> u64 \<Rightarrow> ('s, unit) sm_op"
    and inv :: "'s \<Rightarrow> bool" and zeros :: "'s \<Rightarrow> u64 set"
  assumes get_zero: "inv s \<Longrightarrow> b \<in> zeros s \<longleftrightarrow> get s b = Ok 0"
    and inc_zero: "inv s \<Longrightarrow> b \<in> zeros s \<Longrightarrow> \<exists>s'. inc s b 1 = (Ok (), s') \<and> inv s' \<and> zeros s' = zeros s - {b}"
    and inc_positive: "inv s \<Longrightarrow> get s b = Ok n \<Longrightarrow> n \<noteq> 0 \<Longrightarrow> inc s b 1 = (r, s') \<Longrightarrow>
      inv s' \<and> zeros s' = zeros s"
begin

definition good_env :: "'s walk_env \<Rightarrow> bool" where
  "good_env env \<longleftrightarrow> wk_get env = get \<and> wk_inc env = inc"

text \<open>A state that a walk may lead to: no new zeros.\<close>

definition later :: "'s walker \<Rightarrow> 's walker \<Rightarrow> bool" where
  "later w w' \<longleftrightarrow> inv (wk_sm w') \<and> zeros (wk_sm w') \<subseteq> zeros (wk_sm w)"

lemma later_refl: "inv (wk_sm w) \<Longrightarrow> later w w" and later_trans: "later w w' \<Longrightarrow> later w' w'' \<Longrightarrow> later w w''"
  by (auto simp: later_def)

lemma sm_inc_zero:
  assumes env: "good_env env" and inv: "inv (wk_sm w)" and b: "b \<in> zeros (wk_sm w)"
  obtains w' where "walk_sm_inc env b w = (Ok 0, w')" "inv (wk_sm w')" "zeros (wk_sm w') = zeros (wk_sm w) - {b}"
    "wk_fails w' = wk_fails w"
proof -
  obtain s where s: "inc (wk_sm w) b 1 = (Ok (), s)" "inv s" "zeros s = zeros (wk_sm w) - {b}"
    using inc_zero [OF inv b] by blast
  moreover have "get (wk_sm w) b = Ok 0" using get_zero [OF inv] b by simp
  ultimately have "walk_sm_inc env b w = (Ok 0, w\<lparr>wk_sm := s\<rparr>)"
    using env by (simp add: walk_sm_inc_def good_env_def)
  then show thesis using s by (intro that [of "w\<lparr>wk_sm := s\<rparr>"]) simp_all
qed

lemma sm_inc_later:
  assumes "good_env env" "inv (wk_sm w)" "walk_sm_inc env b w = (r, w')"
  shows "later w w' \<and> (r = Ok 0 \<longrightarrow> b \<in> zeros (wk_sm w) \<and> b \<notin> zeros (wk_sm w'))"
proof (cases "b \<in> zeros (wk_sm w)")
  case True
  from sm_inc_zero [OF assms(1,2) True] obtain w1 where "walk_sm_inc env b w = (Ok 0, w1)" "inv (wk_sm w1)"
    "zeros (wk_sm w1) = zeros (wk_sm w) - {b}" by blast
  with assms(3) True show ?thesis by (simp add: later_def)
next
  case False
  with get_zero [OF assms(2)] have n: "get (wk_sm w) b \<noteq> Ok 0" by simp
  have env: "wk_get env = get" "wk_inc env = inc" using assms(1) by (simp_all add: good_env_def)
  show ?thesis
  proof (cases "get (wk_sm w) b")
    case (Ok n)
    obtain q s where q: "inc (wk_sm w) b 1 = (q, s)" by fastforce
    have "n \<noteq> 0" using n Ok by auto
    from inc_positive [OF assms(2) Ok this q] have s: "inv s" "zeros s = zeros (wk_sm w)" by simp_all
    have "walk_sm_inc env b w = ((case q of Ok _ \<Rightarrow> Ok n | Err e \<Rightarrow> Err (value_err (wk_text env e)) | Panic \<Rightarrow> Panic),
        w\<lparr>wk_sm := s\<rparr>)" by (simp add: walk_sm_inc_def env Ok q)
    then have "r = (case q of Ok _ \<Rightarrow> Ok n | Err e \<Rightarrow> Err (value_err (wk_text env e)) | Panic \<Rightarrow> Panic)"
      and w': "w' = w\<lparr>wk_sm := s\<rparr>" using assms(3) by simp_all
    then have "r \<noteq> Ok 0" using \<open>n \<noteq> 0\<close> by (cases q) simp_all
    with s show ?thesis by (simp add: later_def w')
  next
    case (Err e)
    have "w' = w" "r \<noteq> Ok 0" using assms(3) unfolding walk_sm_inc_def env Err by auto
    with assms(2) show ?thesis by (simp add: later_def)
  next
    case Panic
    have "w' = w" "r \<noteq> Ok 0" using assms(3) unfolding walk_sm_inc_def env Panic by auto
    with assms(2) show ?thesis by (simp add: later_def)
  qed
qed

lemma sift_later:
  assumes "good_env env" "inv (wk_sm w)"
    "for_each (sift_child env vis path) cs ((errs, blocks, krs), w, x) = (r, (errs', blocks', krs'), w', x')"
  shows "later w w' \<and> (blocks' \<noteq> blocks \<longrightarrow> zeros (wk_sm w') \<subset> zeros (wk_sm w))"
  using assms(2,3)
proof (induction cs arbitrary: errs blocks krs w x)
  case Nil
  then show ?case by (simp add: later_refl)
next
  case (Cons c cs)
  obtain kr b where c: "c = (kr, b)" by fastforce
  obtain q w1 where q: "walk_sm_inc env b w = (q, w1)" by fastforce
  note l = sm_inc_later [OF assms(1) Cons.prems(1) q]
  then have i1: "inv (wk_sm w1)" by (simp add: later_def)
  obtain r1 errs1 blocks1 krs1 w2 x1 where s: "sift_child env vis path c ((errs, blocks, krs), w, x) =
      (r1, (errs1, blocks1, krs1), w2, x1)" by (metis surj_pair)
  have w2: "w2 = w1" "blocks1 = blocks \<or> q = Ok 0"
    using s by (auto simp: sift_child_def c q split: result.splits option.splits if_splits prod.splits)
  show ?case
  proof (cases "r1 = Ok ()")
    case True
    have "later w1 w' \<and> (blocks' \<noteq> blocks1 \<longrightarrow> zeros (wk_sm w') \<subset> zeros (wk_sm w1))"
      using Cons.IH [of w1 errs1 blocks1 krs1 x1] i1 Cons.prems(2) s True w2 by simp
    with l w2 show ?thesis by (auto simp: later_def)
  next
    case False
    with Cons.prems(2) s w2 have "w' = w1" "blocks' = blocks1" by (cases r1; simp)+
    with l w2 show ?thesis by (auto simp: later_def)
  qed
qed

lemma set_fail_sm [simp]: "wk_sm (set_fail b e w) = wk_sm w"
  by (simp add: set_fail_def)

lemma later_set_fail [simp]: "later w (set_fail b e w') \<longleftrightarrow> later w w'"
  by (simp add: later_def)

lemma build_aggregate_sm [simp]: "wk_sm (snd (build_aggregate b errs w)) = wk_sm w"
  by (cases "(b, errs, w)" rule: build_aggregate.cases) (simp_all add: Let_def)

lemma end_internal_sm:
  obtains q w2 where "end_internal loc (r, w, x) = (q, w2, x)" "wk_sm w2 = wk_sm w"
proof (cases r)
  case (Ok errs)
  obtain q w2 where "build_aggregate loc errs w = (q, w2)" by fastforce
  with that [of q w2] build_aggregate_sm [of loc errs w] show thesis by (simp add: end_internal_def Ok)
qed (use that in \<open>simp_all add: end_internal_def\<close>)

lemma fold_fail_sm: "wk_sm (fst (snd (fold (fail_child path) ys (errs, w, x)))) = wk_sm w"
  by (induction ys arbitrary: errs w) (auto simp: fail_child_def Let_def)

lemma walk_child_returns:
  assumes "\<And>kr blk w x. later w0 w \<Longrightarrow> \<exists>r w' x'. child kr blk (w, x) = Some (r, w', x') \<and> later w0 w'" "later w0 w"
  shows "\<exists>r errs' w' x'. walk_child child path y (errs, w, x) = Some (r, errs', w', x') \<and> later w0 w'"
proof -
  obtain rb b kr where y: "y = (rb, b, kr)" by (metis surj_pair)
  show ?thesis
  proof (cases rb)
    case (Ok blk)
    obtain r w' x' where "child kr blk (w, x) = Some (r, w', x')" "later w0 w'" using assms by blast
    then show ?thesis by (cases r) (simp_all add: walk_child_def y Ok)
  qed (use assms(2) in \<open>simp_all add: walk_child_def y fail_child_def Let_def\<close>)
qed

lemma each_child_returns:
  assumes "\<And>kr blk w x. later w0 w \<Longrightarrow> \<exists>r w' x'. child kr blk (w, x) = Some (r, w', x') \<and> later w0 w'"
  shows "later w0 w \<Longrightarrow> \<exists>r errs' w' x'. each_opt (walk_child child path) ys (errs, w, x) = Some (r, errs', w', x') \<and> later w0 w'"
proof (induction ys arbitrary: errs w x)
  case (Cons y ys)
  from walk_child_returns [of w0 child, OF assms Cons.prems] obtain r errs' w' x' where
    s: "walk_child child path y (errs, w, x) = Some (r, errs', w', x')" "later w0 w'" by blast
  with Cons.IH [OF s(2), of errs' x'] show ?case by (cases r) auto
qed simp

lemma walk_nodes_returns:
  assumes env: "good_env env" and inv: "inv (wk_sm w)"
    and child: "\<And>kr blk w' x. inv (wk_sm w') \<Longrightarrow> zeros (wk_sm w') \<subset> zeros (wk_sm w) \<Longrightarrow>
      \<exists>r w'' x''. child kr blk (w', x) = Some (r, w'', x'') \<and> later w' w''"
  shows "\<exists>r w' x'. walk_nodes env vis child path krs bs (w, x) = Some (r, w', x') \<and> later w w'"
proof (cases "length krs = length bs")
  case True
  obtain r errs blocks krs' w1 x1 where f: "for_each (sift_child env vis path) (zip krs bs) (([], [], []), w, x) =
      (r, (errs, blocks, krs'), w1, x1)" by (metis surj_pair)
  from sift_later [OF env inv f] have l: "later w w1" "blocks \<noteq> [] \<Longrightarrow> zeros (wk_sm w1) \<subset> zeros (wk_sm w)" by simp_all
  have each: "\<exists>r errs' w' x'. each_opt (walk_child child path) (zip rbs (zip blocks krs')) (errs, w1, x1) = Some (r, errs', w', x') \<and>
      later w w'" for rbs
  proof (cases "blocks = []")
    case False
    have "\<exists>r w'' x''. child kr blk (w', x) = Some (r, w'', x'') \<and> later w1 w''" if "later w1 w'" for kr blk w' x
    proof -
      have "inv (wk_sm w')" "zeros (wk_sm w') \<subset> zeros (wk_sm w)" using that l(2) False by (auto simp: later_def)
      from child [OF this] show ?thesis using later_trans [OF that] by blast
    qed
    from each_child_returns [of w1 child, OF this] have "\<exists>r errs' w' x'. each_opt (walk_child child path)
        (zip rbs (zip blocks krs')) (errs, w1, x1) = Some (r, errs', w', x') \<and> later w1 w'"
      using l(1) by (simp add: later_def)
    then show ?thesis using later_trans [OF l(1)] by blast
  qed (use l(1) in simp)
  have "\<exists>q w' x'. walk_nodes env vis child path krs bs (w, x) = Some (q, w', x') \<and> later w w'" if "r = Ok ()"
  proof (cases "rd_read_many (wk_reader env) blocks")
    case (Ok rbs)
    obtain r2 errs2 w2 x2 where "each_opt (walk_child child path) (zip rbs (zip blocks krs')) (errs, w1, x1) =
        Some (r2, errs2, w2, x2)" "later w w2" using each [of rbs] by blast
    then show ?thesis using True that f Ok by (simp add: walk_nodes_def)
  next
    case (Err e)
    obtain errs2 w2 x2 where "fold (fail_child path) (zip blocks krs') (errs, w1, x1) = (errs2, w2, x2)"
      by (metis surj_pair)
    moreover from this fold_fail_sm [of path "zip blocks krs'" errs w1 x1] l(1) have "later w w2" by (simp add: later_def)
    ultimately show ?thesis using True that f Err by (simp add: walk_nodes_def)
  qed (use True that f l(1) in \<open>simp add: walk_nodes_def\<close>)
  then show ?thesis using True f l(1) by (cases r) (auto simp: walk_nodes_def)
qed (use inv in \<open>simp add: walk_nodes_def later_refl\<close>)

lemma walk_node_returns:
  assumes env: "good_env env"
  shows "inv (wk_sm w) \<Longrightarrow>
    \<exists>r w' x'. walk_node env c vis path kr b is_root (w, x) = Some (r, w', x') \<and> later w w'"
proof (induction "card (zeros (wk_sm w))" arbitrary: w x path kr b is_root rule: less_induct)
  case less
  show ?case
  proof (cases "check_and_unpack_node (wk_crc32c env) c b (wk_ignore_non_fatal env) is_root")
    case (Ok node)
    show ?thesis
    proof (cases node)
      case (Internal h ks vs)
      show ?thesis
      proof (cases "split_key_ranges (path @ [fst b]) kr ks")
        case S: (Ok krs)
        have "\<exists>r w' x'. walk_nodes env vis (\<lambda>kr blk. walk_node env c vis (path @ [fst b]) kr blk False)
            (path @ [fst b]) krs vs (w, x) = Some (r, w', x') \<and> later w w'"
          using less by (intro walk_nodes_returns [OF env]) (simp_all add: psubset_card_mono)
        then obtain r w' x' where "walk_nodes env vis (\<lambda>kr blk. walk_node env c vis (path @ [fst b]) kr blk False)
            (path @ [fst b]) krs vs (w, x) = Some (r, w', x')" "later w w'" by blast
        moreover obtain q w2 where "end_internal (fst b) (r, w', x') = (q, w2, x')" "wk_sm w2 = wk_sm w'"
          by (rule end_internal_sm)
        ultimately show ?thesis
          by (subst walk_node.simps) (simp add: Ok Internal S later_def)
      qed (use less.prems in \<open>subst walk_node.simps; simp add: Ok Internal later_refl\<close>)+
    next
      case (Leaf h ks vs)
      obtain r x' where "nv_visit vis (path @ [fst b]) kr h ks vs x = (r, x')" by fastforce
      then show ?thesis using less.prems
        by (subst walk_node.simps) (cases r; simp add: Ok Leaf visit_leaf_def later_refl Let_def)
    qed
  qed (use less.prems in \<open>subst walk_node.simps; simp add: fail_node_def later_refl Let_def\<close>)+
qed

lemma walk_returns_Some:
  assumes env: "good_env env" and inv: "inv (wk_sm w)"
  shows "\<exists>r w' x'. walk env c vis path root (w, x) = Some (r, w', x') \<and> later w w'"
proof -
  obtain q w1 where q: "walk_sm_inc env root w = (q, w1)" by fastforce
  from sm_inc_later [OF env inv q] have l1: "later w w1" by simp
  then have inv1: "inv (wk_sm w1)" by (simp add: later_def)
  have "\<exists>r w' x'. walk_root env c vis path root (w, x) = Some (r, w', x') \<and> later w w'"
  proof (cases q)
    case (Ok rc)
    show ?thesis
    proof (cases "0 < rc")
      case True
      obtain r x' where "nv_visit_again vis path root x = (r, x')" by fastforce
      then show ?thesis using True q Ok l1
        by (cases r; cases "failed w1 root") (simp_all add: walk_root_def)
    next
      case False
      show ?thesis
      proof (cases "rd_read (wk_reader env) root")
        case R: (Ok blk)
        from walk_node_returns [OF env inv1, of c vis path kr_new blk True x] obtain r w' x' where
          n: "walk_node env c vis path kr_new blk True (w1, x) = Some (r, w', x')" "later w1 w'" by blast
        from later_trans [OF l1 n(2)] have "later w w'" .
        with n(1) False q Ok R show ?thesis by (cases r) (simp_all add: walk_root_def)
      qed (use False q Ok l1 in \<open>simp_all add: walk_root_def\<close>)
    qed
  qed (use q l1 in \<open>simp_all add: walk_root_def\<close>)
  then obtain r w' x' where "walk_root env c vis path root (w, x) = Some (r, w', x')" "later w w'" by blast
  moreover obtain q x'' where "nv_end_walk vis x' = (q, x'')" by fastforce
  ultimately show ?thesis
    by (cases r; cases q) (auto simp: walk_def split: result.splits)
qed

end

section \<open>The space maps as counts of a walk\<close>

lemma range64_one: "unat b < 2 ^ 63 \<Longrightarrow> unat (b + 1) = Suc (unat b) \<and> range64 b (b + 1) = [b]"
  by (simp add: range64_def unat_word_ariths)

definition r_zeros :: "'b bitset \<Rightarrow> 'b rsm \<Rightarrow> u64 set" where
  "r_zeros bs sm = {b. unat b < bs_len bs (r_counts sm) \<and> \<not> bs_contains bs (r_counts sm) (unat b)}"

lemma r_inc_single:
  assumes inv: "r_inv bs sm" and b: "unat b < bs_len bs (r_counts sm)"
  obtains sm' where "r_inc bs sm b 1 = (Ok (), sm')" "r_inv bs sm'"
    "bits bs (r_counts sm') = (bits bs (r_counts sm))[unat b := True]"
proof -
  have "unat b < 2 ^ 63" using inv b by (simp add: r_inv_def)
  note r = range64_one [OF this]
  obtain sm' where s: "r_inc_one bs b sm = (Ok (), sm')" "r_inv bs sm'"
    "bits bs (r_counts sm') = (bits bs (r_counts sm))[unat b := True]"
    by (rule r_inc_one_count [OF inv b])
  have "r_inc bs sm b 1 = (Ok (), sm')" using b r s(1) by (simp add: r_inc_def r_check_index_def)
  with s that show thesis by blast
qed

lemma r_zeros_update:
  assumes "r_inv bs sm" "bits bs (r_counts sm') = (bits bs (r_counts sm))[unat b := True]"
  shows "r_zeros bs sm' = r_zeros bs sm - {b}"
proof -
  have l: "bs_len bs (r_counts sm') = bs_len bs (r_counts sm)" using arg_cong [OF assms(2), of length] by simp
  have "bs_contains bs (r_counts sm') (unat x) \<longleftrightarrow> bs_contains bs (r_counts sm) (unat x) \<or> x = b"
    if "unat x < bs_len bs (r_counts sm)" for x
    using that arg_cong [OF assms(2), of "\<lambda>xs. xs ! unat x"] l
    by (cases "x = b") (simp_all add: bits_nth word_unat_eq_iff nth_list_update_neq)
  then show ?thesis by (auto simp: r_zeros_def l)
qed

interpretation walk_restricted: walk_counts "r_get bs" "r_inc bs" "r_inv bs" "r_zeros bs" for bs :: "'b bitset"
proof unfold_locales
  fix s :: "'b rsm" and b
  show "b \<in> r_zeros bs s \<longleftrightarrow> r_get bs s b = Ok 0" by (auto simp: r_zeros_def r_get_def r_check_index_def)
next
  fix s :: "'b rsm" and b
  assume s: "r_inv bs s" "b \<in> r_zeros bs s"
  then have "unat b < bs_len bs (r_counts s)" by (simp add: r_zeros_def)
  from r_inc_single [OF s(1) this] r_zeros_update [OF s(1)]
  show "\<exists>s'. r_inc bs s b 1 = (Ok (), s') \<and> r_inv bs s' \<and> r_zeros bs s' = r_zeros bs s - {b}" by metis
next
  fix s s' :: "'b rsm" and b n r
  assume s: "r_inv bs s" "r_get bs s b = Ok n" "n \<noteq> 0" "r_inc bs s b 1 = (r, s')"
  then have b: "unat b < bs_len bs (r_counts s)" "b \<notin> r_zeros bs s"
    by (auto simp: r_zeros_def r_get_def r_check_index_def split: if_splits)
  obtain s1 where "r_inc bs s b 1 = (Ok (), s1)" "r_inv bs s1"
    "bits bs (r_counts s1) = (bits bs (r_counts s))[unat b := True]" by (rule r_inc_single [OF s(1) b(1)])
  with r_zeros_update [OF s(1)] s(4) b(2) show "r_inv bs s' \<and> r_zeros bs s' = r_zeros bs s" by simp
qed

definition core_zeros :: "'v::len word core_sm \<Rightarrow> u64 set" where
  "core_zeros sm = {b. unat b < length (counts sm) \<and> counts sm ! unat b = 0}"

lemma core_inc_single:
  assumes "core_inv sm" "unat b < length (counts sm)"
  shows "core_inc sm b 1 = core_inc_one b sm"
proof -
  have "unat b < 2 ^ 63" using assms by (simp add: core_inv_def)
  from range64_one [OF this] assms(2) show ?thesis 
    by (cases "core_inc_one b sm"; cases "fst (core_inc_one b sm)") (simp_all add: core_inc_def)
qed

interpretation walk_core: walk_counts "core_get :: 'v::len word core_sm \<Rightarrow> u64 \<Rightarrow> (sm_error, u32) result"
  core_inc core_inv core_zeros
proof unfold_locales
  fix s :: "'v word core_sm" and b
  assume "core_inv s"
  then show "b \<in> core_zeros s \<longleftrightarrow> core_get s b = Ok 0"
    using core_get_count [of s b] by (auto simp: core_zeros_def core_get_def core_count_def unat_eq_0)
next
  fix s :: "'v word core_sm" and b
  assume s: "core_inv s" "b \<in> core_zeros s"
  then have b: "unat b < length (counts s)" "counts s ! unat b = 0" by (simp_all add: core_zeros_def)
  let ?s = "s\<lparr>nr_allocated := nr_allocated s + 1, counts := (counts s)[unat b := 1]\<rparr>"
  have "core_inc s b 1 = (Ok (), ?s)" using b by (simp add: core_inc_single [OF s(1)] core_inc_one_def word_gt_0)
  moreover from this core_inc_one_inv [OF s(1)] have "core_inv ?s" by (metis core_inc_single [OF s(1) b(1)])
  moreover have "core_zeros ?s = core_zeros s - {b}" using b by (auto simp: core_zeros_def nth_list_update word_unat_eq_iff)
  ultimately show "\<exists>s'. core_inc s b 1 = (Ok (), s') \<and> core_inv s' \<and> core_zeros s' = core_zeros s - {b}" by blast
next
  fix s s' :: "'v word core_sm" and b n r
  assume s: "core_inv s" "core_get s b = Ok n" "n \<noteq> 0" "core_inc s b 1 = (r, s')"
  then have b: "unat b < length (counts s)" by (auto simp: core_get_def split: if_splits)
  from s(4) have one: "core_inc_one b s = (r, s')" by (simp add: core_inc_single [OF s(1) b])
  have nz: "counts s ! unat b \<noteq> 0" using s(2,3) by (auto simp: core_get_def split: if_splits)
  have "counts s ! unat b + 1 \<noteq> 0" if "counts s ! unat b < - 1" using that by (metis add_eq_0_iff2 less_irrefl)
  with one nz b have "core_zeros s' = core_zeros s"
    by (auto simp: core_inc_one_def Let_def core_zeros_def nth_list_update split: if_splits)
  with core_inc_one_inv [OF s(1) one] show "core_inv s' \<and> core_zeros s' = core_zeros s" by blast
qed

end
