(* ===== verification/Btree_Collect.thy ===== *)
theory Btree_Collect
  imports Btree_Walker
begin

text \<open>
  What a walk collects. The walker reads every node of a checked tree and hands each leaf to the visitor once, in
  the order of the keys, and the collected map is the one that \<open>btree_lookup\<close> computes key by key.
\<close>

section \<open>The walk of a checked tree\<close>

text \<open>A visitor that only folds the leaves into its state.\<close>

definition quiet :: "('v, 'x) node_visitor \<Rightarrow> (u64 list \<Rightarrow> 'v list \<Rightarrow> 'x \<Rightarrow> 'x) \<Rightarrow> bool" where
  "quiet vis f \<longleftrightarrow> (\<forall>path kr h ks vs x. length vs = length ks \<longrightarrow> nv_visit vis path kr h ks vs x = (Ok (), f ks vs x)) \<and>
     (\<forall>x. nv_end_walk vis x = (Ok (), x))"

definition fold_leaves :: "(u64 list \<Rightarrow> 'v list \<Rightarrow> 'x \<Rightarrow> 'x) \<Rightarrow> (u64 list \<times> 'v list) list \<Rightarrow> 'x \<Rightarrow> 'x" where
  "fold_leaves f lvs = fold (\<lambda>(ks, vs). f ks vs) lvs"

lemma fold_leaves_simps [simp]:
  "fold_leaves f [] x = x" "fold_leaves f (l # lvs) x = fold_leaves f lvs (f (fst l) (snd l) x)"
  "fold_leaves f (a @ b) x = fold_leaves f b (fold_leaves f a x)"
  by (simp_all add: fold_leaves_def case_prod_beta)

definition keys_below :: "u64 option \<Rightarrow> (u64 \<times> 'v) list \<Rightarrow> bool" where
  "keys_below e kvs \<longleftrightarrow> (case e of None \<Rightarrow> True | Some e \<Rightarrow> \<forall>k \<in> fst ` set kvs. k < e)"

lemma roots_and_tails:
  assumes "\<forall>bs \<in> set bss. bs \<noteq> []"
  shows "set (concat bss) = set (map hd bss) \<union> set (concat (map tl bss))"
    "distinct (concat bss) \<Longrightarrow> distinct (map hd bss @ concat (map tl bss))"
proof -
  have "set (concat bss) = set (map hd bss) \<union> set (concat (map tl bss)) \<and>
      (distinct (concat bss) \<longrightarrow> distinct (map hd bss @ concat (map tl bss)))"
    using assms
  proof (induction bss)
    case (Cons bs bss)
    then obtain b t where "bs = b # t" by (cases bs) auto
    with Cons show ?case by auto
  qed simp
  then show "set (concat bss) = set (map hd bss) \<union> set (concat (map tl bss))"
    "distinct (concat bss) \<Longrightarrow> distinct (map hd bss @ concat (map tl bss))" by blast+
qed

context walk_counts
begin

text \<open>What a walk of a tree does: it marks the blocks \<open>bs\<close>, and nothing fails.\<close>

definition walked :: "u64 list \<Rightarrow> 's walker \<Rightarrow> 's walker \<Rightarrow> bool" where
  "walked bs w w' \<longleftrightarrow> inv (wk_sm w') \<and> zeros (wk_sm w') = zeros (wk_sm w) - set bs \<and> wk_fails w' = wk_fails w"

lemma walked_trans: "walked a w w' \<Longrightarrow> walked b w' w'' \<Longrightarrow> walked (a @ b) w w''"
  by (auto simp: walked_def)

lemma sift_fresh:
  assumes env: "good_env env"
  shows "inv (wk_sm w) \<Longrightarrow> length krs = length bs \<Longrightarrow> distinct bs \<Longrightarrow> set bs \<subseteq> zeros (wk_sm w) \<Longrightarrow>
    \<exists>w'. for_each (sift_child env vis path) (zip krs bs) ((errs, blocks, krs0), w, x) =
      (Ok (), (errs, blocks @ bs, krs0 @ krs), w', x) \<and> walked bs w w'"
proof (induction krs bs arbitrary: blocks krs0 w rule: list_induct2')
  case (4 kr krs b bs)
  then obtain w1 where w1: "walk_sm_inc env b w = (Ok 0, w1)" "inv (wk_sm w1)" "zeros (wk_sm w1) = zeros (wk_sm w) - {b}"
    "wk_fails w1 = wk_fails w" using sm_inc_zero [OF env] by (metis insert_subset list.set(2))
  obtain w' where w': "for_each (sift_child env vis path) (zip krs bs) ((errs, blocks @ [b], krs0 @ [kr]), w1, x) =
      (Ok (), (errs, (blocks @ [b]) @ bs, (krs0 @ [kr]) @ krs), w', x)" "walked bs w1 w'"
    using "4.IH" [OF w1(2), of "blocks @ [b]" "krs0 @ [kr]"] "4.prems" w1(3) by auto
  have "walked [b] w w1" using w1 by (simp add: walked_def)
  from walked_trans [OF this w'(2)] w'(1) w1(1) show ?case by (simp add: sift_child_def)
qed (auto simp: walked_def)

text \<open>The walker of one child, applied to the root block of a subtree with the blocks \<open>bs\<close> and the leaves \<open>lvs\<close>.\<close>

definition walks_child :: "(key_range \<Rightarrow> block \<Rightarrow> ('s, 'x) walk_state \<Rightarrow> ((btree_error, unit) result \<times> ('s, 'x) walk_state) option) \<Rightarrow>
    (u64 list \<Rightarrow> 'v list \<Rightarrow> 'x \<Rightarrow> 'x) \<Rightarrow> key_range \<Rightarrow> block \<Rightarrow> u64 list \<Rightarrow> (u64 list \<times> 'v list) list \<Rightarrow> bool" where
  "walks_child child f kr blk bs lvs \<longleftrightarrow> (\<forall>w x. inv (wk_sm w) \<longrightarrow> set bs \<subseteq> zeros (wk_sm w) \<longrightarrow>
     (\<exists>w'. child kr blk (w, x) = Some (Ok (), w', fold_leaves f lvs x) \<and> walked bs w w'))"

lemma each_child_walked:
  assumes "\<And>i. i < length blks \<Longrightarrow> walks_child child f (krs ! i) (blks ! i) (tl (bss ! i)) (lss ! i)"
    "length krs = length blks" "length bss = length blks" "length lss = length blks"
    "distinct (concat (map tl bss))" "set (concat (map tl bss)) \<subseteq> zeros (wk_sm w)" "inv (wk_sm w)"
  shows "\<exists>w'. each_opt (walk_child child path) (zip (map Ok blks) (zip (map fst blks) krs)) (errs, w, x) =
      Some (Ok (), errs, w', fold_leaves f (concat lss) x) \<and> walked (concat (map tl bss)) w w'"
  using assms
proof (induction blks arbitrary: krs bss lss w x)
  case Nil
  then show ?case by (simp add: walked_def)
next
  case (Cons blk blks)
  obtain kr krs' bs bss' lv lss' where e: "krs = kr # krs'" "bss = bs # bss'" "lss = lv # lss'"
    using Cons.prems(2-4) by (cases krs; cases bss; cases lss) simp_all
  have "walks_child child f kr blk (tl bs) lv" using Cons.prems(1) [of 0] e by simp
  then obtain w1 where w1: "child kr blk (w, x) = Some (Ok (), w1, fold_leaves f lv x)" "walked (tl bs) w w1"
    using Cons.prems(6,7) e unfolding walks_child_def by (auto dest!: spec [of _ w] spec [of _ x])
  have "\<exists>w'. each_opt (walk_child child path) (zip (map Ok blks) (zip (map fst blks) krs')) (errs, w1, fold_leaves f lv x) =
      Some (Ok (), errs, w', fold_leaves f (concat lss') (fold_leaves f lv x)) \<and> walked (concat (map tl bss')) w1 w'"
  proof (rule Cons.IH)
    show "walks_child child f (krs' ! i) (blks ! i) (tl (bss' ! i)) (lss' ! i)" if "i < length blks" for i
      using Cons.prems(1) [of "Suc i"] that e by simp
    show "set (concat (map tl bss')) \<subseteq> zeros (wk_sm w1)" "inv (wk_sm w1)"
      using Cons.prems(5,6) e w1(2) by (auto simp: walked_def)
  qed (use Cons.prems(2-5) e in simp_all)
  then obtain w' where w': "each_opt (walk_child child path) (zip (map Ok blks) (zip (map fst blks) krs')) (errs, w1, fold_leaves f lv x) =
      Some (Ok (), errs, w', fold_leaves f (concat lss') (fold_leaves f lv x))" "walked (concat (map tl bss')) w1 w'" by blast
  from walked_trans [OF w1(2) w'(2)] w'(1) w1(1) show ?case by (simp add: e walk_child_def)
qed

lemma engine_reads:
  assumes "length ds = length bs" "\<And>i. i < length bs \<Longrightarrow> engine_rd e (bs ! i) = Some (ds ! i)"
  shows "map io_result (engine_read_many e bs) = map Ok (zip bs ds)"
  using assms
proof (induction bs arbitrary: ds)
  case (Cons b bs)
  obtain d ds' where ds: "ds = d # ds'" using Cons.prems(1) by (cases ds) simp_all
  have "engine_read e b = Ok (b, d)" using Cons.prems(2) [of 0] by (simp add: ds engine_read_rd [symmetric])
  moreover have "map io_result (engine_read_many e bs) = map Ok (zip bs ds')"
    using Cons.prems(1) Cons.prems(2) [of "Suc _"] by (intro Cons.IH) (simp_all add: ds)
  ultimately show ?case by (simp add: ds)
qed simp

lemma walk_nodes_fresh:
  assumes env: "good_env env" and rd: "wk_reader env = core_reader e" and inv: "inv (wk_sm w)"
    and len: "length krs = length vs" "length bss = length vs" "length lss = length vs" "length ds = length vs"
    and dist: "distinct (concat bss)" and zero: "set (concat bss) \<subseteq> zeros (wk_sm w)"
    and roots: "\<And>i. i < length vs \<Longrightarrow> bss ! i = vs ! i # tl (bss ! i) \<and> engine_rd e (vs ! i) = Some (ds ! i)"
    and child: "\<And>i. i < length vs \<Longrightarrow> walks_child child f (krs ! i) (vs ! i, ds ! i) (tl (bss ! i)) (lss ! i)"
  shows "\<exists>w'. walk_nodes env vis child path krs vs (w, x) = Some (Ok [], w', fold_leaves f (concat lss) x) \<and>
    walked (concat bss) w w'"
proof -
  have vs: "map hd bss = vs" using roots len(2) by (intro nth_equalityI) (auto, metis list.sel(1))
  have ne: "\<forall>bs \<in> set bss. bs \<noteq> []" using roots len(2) by (metis in_set_conv_nth list.distinct(1))
  note parts = roots_and_tails [OF ne, unfolded vs]
  have d: "distinct vs" "distinct (concat (map tl bss))" "set vs \<inter> set (concat (map tl bss)) = {}"
    using parts(2) dist by simp_all
  obtain w1 where w1: "for_each (sift_child env vis path) (zip krs vs) (([], [], []), w, x) = (Ok (), ([], vs, krs), w1, x)"
    "walked vs w w1" using sift_fresh [OF env inv len(1) d(1), of vis path "[]" "[]" "[]" x] zero parts(1) by auto
  have reads: "rd_read_many (wk_reader env) vs = Ok (map Ok (zip vs ds))"
    using engine_reads [of ds vs e] len(4) roots by (simp add: rd core_reader_def)
  have z: "set (concat (map tl bss)) \<subseteq> zeros (wk_sm w1)" "inv (wk_sm w1)"
    using zero parts(1) d(3) w1(2) by (auto simp: walked_def)
  have "\<exists>w'. each_opt (walk_child child path) (zip (map Ok (zip vs ds)) (zip (map fst (zip vs ds)) krs)) ([], w1, x) =
      Some (Ok (), [], w', fold_leaves f (concat lss) x) \<and> walked (concat (map tl bss)) w1 w'"
    by (rule each_child_walked) (use child len d(2) z in simp_all)
  then obtain w' where w': "each_opt (walk_child child path) (zip (map Ok (zip vs ds)) (zip vs krs)) ([], w1, x) =
      Some (Ok (), [], w', fold_leaves f (concat lss) x)" "walked (concat (map tl bss)) w1 w'"
    using len(4) by auto
  have "walked (concat bss) w w'" using walked_trans [OF w1(2) w'(2)] parts(1) by (simp add: walked_def)
  with w1(1) w'(1) reads len show ?thesis by (simp add: walk_nodes_def)
qed

lemma walk_node_wtree:
  assumes env: "good_env env" and rd: "wk_reader env = core_reader e" and vis: "quiet vis f"
  shows "wtree (wk_crc32c env) (engine_rd e) c (wk_ignore_non_fatal env) root n loc bs lvs \<Longrightarrow>
    engine_rd e loc = Some d \<Longrightarrow> keys_below (kr_end kr) (leaf_pairs lvs) \<Longrightarrow> inv (wk_sm w) \<Longrightarrow>
    set (tl bs) \<subseteq> zeros (wk_sm w) \<Longrightarrow>
    \<exists>w'. walk_node env c vis path kr (loc, d) root (w, x) = Some (Ok (), w', fold_leaves f lvs x) \<and> walked (tl bs) w w'"
proof (induction root n loc bs lvs arbitrary: d kr path w x rule: wtree.induct)
  case (leaf loc d root h ks vs)
  have "length vs = length ks"
    using unpack_node_raw_ok [OF check_unpack [OF leaf(2)]] by (simp add: node_ok_def Let_def)
  with vis have "nv_visit vis p kr h ks vs x = (Ok (), f ks vs x)" for p kr x by (simp add: quiet_def)
  then show ?case using leaf
    by (subst walk_node.simps) (simp add: visit_leaf_def walked_def)
next
  case (internal loc d root h ks vs bss lss n)
  note t = wtree.internal [where rd = "engine_rd e" and loc = loc, OF internal.hyps(1-5) internal.hyps(6) internal.hyps(7-9)]
  have n: "sorted_wrt (<) ks" "length vs = length ks"
    using unpack_node_raw_ok [OF check_unpack [OF internal.hyps(2)]] by (simp_all add: node_ok_def Let_def)
  have below: "keys_below (kr_end kr) (leaf_pairs (lss ! i))" if "i < length ks" for i
    using that internal.prems(2) internal.hyps(5) nth_mem [of i lss]
    by (cases "kr_end kr") (auto simp: keys_below_def leaf_pairs_concat)
  have last_key: "last ks < q" if "kr_end kr = Some q" for q
  proof -
    let ?i = "length ks - 1"
    have i: "?i < length ks" using internal.hyps(3) by (cases ks) simp_all
    obtain k v es where "leaf_pairs (lss ! ?i) = (k, v) # es" using internal.hyps(7) [OF i] by (cases "leaf_pairs (lss ! ?i)") auto
    then have "k \<in> fst ` set (leaf_pairs (lss ! ?i))" by simp
    from internal.hyps(8) [OF i this] below [OF i] this that have "ks ! ?i \<le> k" "k < q" by (auto simp: keys_below_def)
    then show ?thesis using internal.hyps(3) by (simp add: last_conv_nth)
  qed
  define krs where "krs = map (\<lambda>i. \<lparr>kr_start = Some (ks ! i), kr_end = (if Suc i < length ks then Some (ks ! Suc i)
      else kr_end kr)\<rparr>) [0..<length ks]"
  have krs: "split_key_ranges p kr ks = Ok krs" for p
    using internal.hyps(3) n(1) last_key by (auto simp: split_key_ranges_eq krs_def split: option.splits)
  have child_data: "\<exists>d. engine_rd e (vs ! i) = Some d" if "i < length ks" for i
    using internal.hyps(6) [OF that] by (cases rule: wtree.cases) auto
  define ds where "ds = map (\<lambda>v. the (engine_rd e v)) vs"
  have ds: "engine_rd e (vs ! i) = Some (ds ! i)" if "i < length ks" for i
    using child_data [OF that] that n(2) by (auto simp: ds_def)
  have "\<exists>w'. walk_nodes env vis (\<lambda>kr blk. walk_node env c vis (path @ [loc]) kr blk False) (path @ [loc]) krs vs (w, x) =
      Some (Ok [], w', fold_leaves f (concat lss) x) \<and> walked (concat bss) w w'"
  proof (rule walk_nodes_fresh [OF env rd internal.prems(3)])
    show "distinct (concat bss)" using wtree_distinct [OF t] by simp
    show "bss ! i = vs ! i # tl (bss ! i) \<and> engine_rd e (vs ! i) = Some (ds ! i)" if "i < length vs" for i
      using wtree_root [OF internal.hyps(6)] ds that n(2) by simp
    show "walks_child (\<lambda>kr blk. walk_node env c vis (path @ [loc]) kr blk False) f (krs ! i) (vs ! i, ds ! i)
        (tl (bss ! i)) (lss ! i)" if "i < length vs" for i
      unfolding walks_child_def
    proof (intro allI impI)
      fix w :: "'s walker" and x assume "inv (wk_sm w)" "set (tl (bss ! i)) \<subseteq> zeros (wk_sm w)"
      moreover have "keys_below (kr_end (krs ! i)) (leaf_pairs (lss ! i))"
        using that n(2) below internal.hyps(9) [of i] by (simp add: krs_def keys_below_def split: option.splits)
      ultimately show "\<exists>w'. walk_node env c vis (path @ [loc]) (krs ! i) (vs ! i, ds ! i) False (w, x) =
          Some (Ok (), w', fold_leaves f (lss ! i) x) \<and> walked (tl (bss ! i)) w w'"
        using internal.IH [of i] ds that n(2) by simp
    qed
  qed (use internal.hyps(4,5) internal.prems(4) n(2) in \<open>simp_all add: krs_def ds_def\<close>)
  then obtain w' where "walk_nodes env vis (\<lambda>kr blk. walk_node env c vis (path @ [loc]) kr blk False) (path @ [loc]) krs vs (w, x) =
      Some (Ok [], w', fold_leaves f (concat lss) x)" "walked (concat bss) w w'" by blast
  with internal.hyps(1,2) internal.prems(1) krs show ?case
    by (subst walk_node.simps) (simp add: end_internal_def)
qed

lemma walk_wtree:
  assumes env: "good_env env" and rd: "wk_reader env = core_reader e" and vis: "quiet vis f"
    and tree: "wtree (wk_crc32c env) (engine_rd e) c (wk_ignore_non_fatal env) True n root bs lvs"
    and inv: "inv (wk_sm w)" and zero: "set bs \<subseteq> zeros (wk_sm w)"
  shows "\<exists>w'. walk env c vis path root (w, x) = Some (Ok (), w', fold_leaves f lvs x) \<and> walked bs w w'"
proof -
  have bs: "bs = root # tl bs" by (rule wtree_root [OF tree])
  then have "root \<in> zeros (wk_sm w)" using zero by (metis list.set_intros(1) subsetD)
  then obtain w1 where w1: "walk_sm_inc env root w = (Ok 0, w1)" "inv (wk_sm w1)"
    "zeros (wk_sm w1) = zeros (wk_sm w) - {root}" "wk_fails w1 = wk_fails w" using sm_inc_zero [OF env inv] by blast
  have "distinct (root # tl bs)" using wtree_distinct [OF tree] bs by simp
  then have z: "set (tl bs) \<subseteq> zeros (wk_sm w1)" using zero w1(3) by (subst (asm) bs) auto
  obtain d where d: "engine_rd e root = Some d" using tree by (cases rule: wtree.cases) auto
  then have r: "rd_read (wk_reader env) root = Ok (root, d)" by (simp add: rd core_reader_def engine_read_rd)
  have k: "keys_below (kr_end kr_new) (leaf_pairs lvs)" by (simp add: keys_below_def kr_new_def)
  obtain w' where w': "walk_node env c vis path kr_new (root, d) True (w1, x) = Some (Ok (), w', fold_leaves f lvs x)"
    "walked (tl bs) w1 w'" using walk_node_wtree [OF env rd vis tree d k w1(2) z] by blast
  have "walked [root] w w1" using w1 by (simp add: walked_def)
  from walked_trans [OF this w'(2)] bs have "walked bs w w'" by (metis append_Cons append_Nil)
  with vis w1(1) r w'(1) show ?thesis by (simp add: walk_def walk_root_def quiet_def)
qed

end

section \<open>The collectors\<close>

lemma for_keys_fold:
  assumes "length vs = length ks"
  shows "for_keys f ks vs x = (Ok (), fold (\<lambda>(k, v). f k v) (zip ks vs) x)"
proof -
  have "for_each (\<lambda>n x. if n < length vs then (Ok (), f (ks ! n) (vs ! n) x) else (Panic, x)) [0..<m] x =
      (Ok (), fold (\<lambda>(k, v). f k v) (take m (zip ks vs)) x)" if "m \<le> length ks" for m
    using that
  proof (induction m)
    case (Suc m)
    then show ?case using assms by (simp add: for_each_snoc take_Suc_conv_app_nth)
  qed simp
  from this [of "length ks"] assms show ?thesis by (simp add: for_keys_def)
qed

lemma quiet_collectors:
  "quiet value_collector (\<lambda>ks vs. fold (\<lambda>(k, v) m. m(k \<mapsto> v)) (zip ks vs))"
  "quiet key_collector (\<lambda>ks vs. fold insert ks)"
  "quiet value_vec_collector (\<lambda>ks vs x. x @ vs)"
  "quiet noop_visitor (\<lambda>ks vs x. x)"
  by (simp_all add: quiet_def value_collector_def key_collector_def value_vec_collector_def noop_visitor_def for_keys_fold)

lemma fold_leaves_pairs:
  "fold_leaves (\<lambda>ks vs. fold f (zip ks vs)) lvs x = fold f (leaf_pairs lvs) x"
  by (induction lvs arbitrary: x) (simp_all add: case_prod_beta)

lemma fold_upd_map_of: "distinct (map fst kvs) \<Longrightarrow> fold (\<lambda>(k, v) m. m(k \<mapsto> v)) kvs m = m ++ map_of kvs"
proof (induction kvs arbitrary: m)
  case (Cons kv kvs)
  then show ?case by (cases kv) (simp add: map_add_upd_left dom_map_of_conv_image_fst del: fun_upd_apply)
qed simp

lemma fold_leaves_keys:
  "\<forall>l \<in> set lvs. length (fst l) = length (snd l) \<Longrightarrow>
    fold_leaves (\<lambda>ks vs. fold insert ks) lvs X = X \<union> fst ` set (leaf_pairs lvs)"
  by (induction lvs arbitrary: X) (auto simp: set_zip_leftD union_set_fold [symmetric] image_Un simp flip: set_map)

lemma fold_leaves_values:
  "\<forall>l \<in> set lvs. length (fst l) = length (snd l) \<Longrightarrow>
    fold_leaves (\<lambda>ks vs x. x @ vs) lvs xs = xs @ map snd (leaf_pairs lvs)"
  by (induction lvs arbitrary: xs) simp_all

lemma fresh_zeros:
  assumes "bitset_laws bs" "unat (rd_nr_blocks rd) < 2 ^ 63"
  shows "r_inv bs (wk_sm (fresh_walker bs rd))" "r_zeros bs (wk_sm (fresh_walker bs rd)) = {b. b < rd_nr_blocks rd}"
proof -
  let ?n = "unat (rd_nr_blocks rd)"
  show "r_inv bs (wk_sm (fresh_walker bs rd))"
    using r_inv_new [OF assms] by (simp add: fresh_walker_def walker_new_def)
  have b: "bits bs (bs_with_capacity bs ?n) = replicate ?n False" using assms(1) by (simp add: bitset_laws_def)
  then have l: "bs_len bs (bs_with_capacity bs ?n) = ?n" by (metis length_bits length_replicate)
  have "\<not> bs_contains bs (bs_with_capacity bs ?n) i" if "i < ?n" for i
    using arg_cong [OF b, of "\<lambda>xs. xs ! i"] that l by (simp add: bits_nth)
  then show "r_zeros bs (wk_sm (fresh_walker bs rd)) = {b. b < rd_nr_blocks rd}"
    by (auto simp: r_zeros_def fresh_walker_def walker_new_def r_new_def l word_less_nat_alt)
qed

text \<open>A collector over a checked tree, with a new walker.\<close>

lemma collect_wtree:
  assumes laws: "bitset_laws bs" and size: "unat (en_nr_blocks e) < 2 ^ 63"
    and tree: "wtree crc32c (engine_rd e) c ig True n root blks lvs" and vis: "quiet vis f"
  shows "collect (walk (new_walk_env crc32c bs text (core_reader e) ig) c vis path root
    (fresh_walker bs (core_reader e), x)) = Some (Ok (fold_leaves f lvs x))"
proof -
  let ?env = "new_walk_env crc32c bs text (core_reader e) ig" and ?w = "fresh_walker bs (core_reader e)"
  have nr: "rd_nr_blocks (core_reader e) = en_nr_blocks e" by (simp add: core_reader_def)
  note fresh = fresh_zeros [OF laws, of "core_reader e", unfolded nr, OF size]
  have "b < en_nr_blocks e" if "b \<in> set blks" for b
    using wtree_in_range [OF tree that] by (auto simp: engine_rd_def split: if_splits)
  then have "set blks \<subseteq> r_zeros bs (wk_sm ?w)" by (auto simp: fresh)
  moreover have "walk_restricted.good_env bs ?env" "wk_reader ?env = core_reader e" "wk_crc32c ?env = crc32c"
    "wk_ignore_non_fatal ?env = ig"
    by (simp_all add: walk_restricted.good_env_def new_walk_env_def)
  ultimately obtain w' where "walk ?env c vis path root (?w, x) = Some (Ok (), w', fold_leaves f lvs x)"
    using walk_restricted.walk_wtree [of bs ?env e vis f c n root blks lvs ?w path x] vis tree fresh(1) by auto
  then show ?thesis by (simp add: collect_def)
qed

section \<open>Properties\<close>

text \<open>C7: A walk ends on every device, whatever its blocks hold (cycles and shared nodes included), whichever reads
  fail and whatever the visitor does: with a new walker, and with a core space map of the caller.\<close>

theorem walk_always_returns:
  "(bitset_laws bs \<and> unat (rd_nr_blocks rd) < 2 ^ 63 \<longrightarrow>
     walk (new_walk_env crc32c bs text rd ig) c vis path root (fresh_walker bs rd, x) \<noteq> None) \<and>
   (core_inv (sm :: 'v::len word core_sm) \<and> wk_get env = core_get \<and> wk_inc env = core_inc \<longrightarrow>
     walk_with_sm env c vis path root x sm \<noteq> None)"
proof (intro conjI impI)
  assume "bitset_laws bs \<and> unat (rd_nr_blocks rd) < 2 ^ 63"
  then have "r_inv bs (wk_sm (fresh_walker bs rd))" by (intro fresh_zeros) simp_all
  moreover have "walk_restricted.good_env bs (new_walk_env crc32c bs text rd ig)"
    by (simp add: walk_restricted.good_env_def new_walk_env_def)
  ultimately show "walk (new_walk_env crc32c bs text rd ig) c vis path root (fresh_walker bs rd, x) \<noteq> None"
    using walk_restricted.walk_returns_Some by fastforce
next
  assume a: "core_inv sm \<and> wk_get env = core_get \<and> wk_inc env = core_inc"
  then have "walk_core.good_env env" "core_inv (wk_sm (walker_new sm))"
    by (simp_all add: walk_core.good_env_def walker_new_def)
  from walk_core.walk_returns_Some [OF this, of c vis path root x]
  show "walk_with_sm env c vis path root x sm \<noteq> None"
    by (cases "wk_sm_nr_blocks env sm = rd_nr_blocks (wk_reader env)")
      (auto simp: walk_with_sm_def walker_new_with_sm_def)
qed

text \<open>A device on which the root is its own child.\<close>

definition loop_engine :: engine where
  "loop_engine = engine_new (\<lambda>b. sample_block (Internal \<lparr>nh_block = 1, nh_is_leaf = False, nh_nr_entries = 2,
     nh_max_entries = 252, nh_value_size = 8\<rparr> [10, 20] [1, 1])) 2"

theorem walk_always_returns_witness:
  "walk (new_walk_env sample_crc list_bitset (\<lambda>_. []) (core_reader loop_engine) False) u64_codec value_collector [] 1
     (fresh_walker list_bitset (core_reader loop_engine), Map.empty) \<noteq> None"
  using walk_always_returns [of list_bitset "core_reader loop_engine" sample_crc "\<lambda>_. []" False u64_codec value_collector
      "[]" 1 Map.empty "core_new 0 :: u8 core_sm"] bitset_laws_list
  by (simp add: core_reader_def loop_engine_def engine_new_def)

text \<open>C3: On a tree whose nodes pass the checks of the walker, the collectors succeed and agree with looking up: the
  map has, at every key, what \<open>btree_lookup\<close> finds; the key set is its domain; the values come in the
  order of their keys.\<close>

theorem collected_map_is_lookup:
  assumes "bitset_laws bs" "unat (en_nr_blocks e) < 2 ^ 63"
    and "wtree crc32c (engine_rd e) c ig True n root blks lvs"
  shows "\<exists>m. btree_to_map crc32c bs text c path (core_reader e) ig root = Some (Ok m) \<and>
    (\<forall>key. btree_lookup e c root key = Some (Ok (m key))) \<and>
    btree_to_key_set crc32c bs text c path (core_reader e) ig root = Some (Ok (dom m)) \<and>
    btree_to_value_vec crc32c bs text c path (core_reader e) ig root =
      Some (Ok (map (\<lambda>k. the (m k)) (sorted_list_of_set (dom m))))"
proof -
  note tree = wtree_btree [OF assms(3)] and len = leaves_lengths [OF assms(3)]
  have sorted: "sorted_wrt (<) (map fst (leaf_pairs lvs))" by (rule btree_sorted [OF tree])
  then have dist: "distinct (map fst (leaf_pairs lvs))" by (simp add: strict_sorted_iff)
  have dom: "dom (map_of (leaf_pairs lvs)) = fst ` set (leaf_pairs lvs)" by (rule dom_map_of_conv_image_fst)
  have "sorted_list_of_set (fst ` set (leaf_pairs lvs)) = map fst (leaf_pairs lvs)"
    using sorted by (simp flip: set_map add: sorted_list_of_set.idem_if_sorted_distinct strict_sorted_iff)
  then have "map (\<lambda>k. the (map_of (leaf_pairs lvs) k)) (sorted_list_of_set (dom (map_of (leaf_pairs lvs)))) = map snd (leaf_pairs lvs)"
    using map_of_is_SomeI [OF dist] by (simp add: dom) (metis option.sel prod.collapse)
  with collect_wtree [OF assms quiet_collectors(1)] collect_wtree [OF assms quiet_collectors(2)]
    collect_wtree [OF assms quiet_collectors(3)] lookup_loop_btree [OF tree]
  show ?thesis
    by (intro exI [of _ "map_of (leaf_pairs lvs)"])
      (simp add: btree_to_map_def btree_to_key_set_def btree_to_value_vec_def btree_lookup_def dom
        fold_leaves_pairs fold_upd_map_of [OF dist] fold_leaves_keys [OF len] fold_leaves_values [OF len])
qed

lemma sample_checked:
  assumes "node_fits u64_codec (\<lambda>_. True) nd"
  shows "check_and_unpack_node sample_crc u64_codec (nh_block (get_header nd), sample_block nd) True r = Ok nd"
proof -
  obtain rest where rest: "pack_node u64_codec nd = node_header_pack (get_header nd) @ rest" by (cases nd) simp_all
  have "metadata_block_type sample_crc (sample_block nd) = BT_NODE"
    using sample_unpack(2) [OF assms]
    by (simp add: metadata_block_type_def checksum_def sample_crc_def sample_block_def rest Let_def
        node_header_pack_def csum_xor_defs)
  then show ?thesis using sample_unpack(1) [OF assms, of r] by (simp add: check_and_unpack_node_def verify_checksum_def)
qed

lemma sample_wtree: "wtree sample_crc (engine_rd sample_engine) u64_codec True True 1 1 [1, 2, 3]
    [([10], [110]), ([20], [120])]"
proof -
  have leaf: "wtree sample_crc (engine_rd sample_engine) u64_codec True False 0 b [b] [([k], [k + 100])]"
    if "b = 2 \<and> k = 10 \<or> b = 3 \<and> k = 20" for b k
    using that sample_checked [OF sample_fits(2), of b k False]
    by (intro wtree.leaf [where d = "sample_block (sample_leaf b k)"])
       (auto simp: engine_rd_def sample_engine_def engine_new_def word_less_nat_alt sample_leaf_def)
  have four: "\<not> (4 :: u64) \<le> 1" by (simp add: word_le_nat_alt)
  have "wtree sample_crc (engine_rd sample_engine) u64_codec True True (Suc 0) 1 (1 # concat [[2], [3]])
      (concat [[([10], [110])], [([20], [120])]])"
    using sample_checked [OF sample_fits(1), of True] leaf [of 2 10] leaf [of 3 20]
    by (intro wtree.internal [where d = "sample_block sample_root" and ks = "[10, 20]" and vs = "[2, 3]"])
       (auto simp: engine_rd_def sample_engine_def engine_new_def word_less_nat_alt sample_root_def less_Suc_eq four)
  then show ?thesis by simp
qed

theorem collected_map_is_lookup_witness:
  "\<exists>m. btree_to_map sample_crc list_bitset (\<lambda>_. []) u64_codec [] (core_reader sample_engine) True 1 = Some (Ok m) \<and>
    (\<forall>key. btree_lookup sample_engine u64_codec 1 key = Some (Ok (m key)))"
  using collected_map_is_lookup [OF bitset_laws_list _ sample_wtree, of "\<lambda>_. []" "[]"]
  by (auto simp: sample_engine_def engine_new_def)

text \<open>C6: What was built is found by a walk with the strict checks: building a tree from ascending pairs returns; unless
  every block is in use, the tree on the flushed device is walked without an error, and the map collected is
  that of the pairs, the values in the order of the keys.\<close>

theorem build_then_walk:
  assumes "batcher_inv (core_env crc32c fresh) (core_sm_inv nr) nr w" "value_codec c valid" "unat (disk_size c) \<le> 1000"
    "sorted_wrt (<) (map fst kvs)" "\<forall>v \<in> snd ` set kvs. valid v" "bitset_laws bs"
  shows "\<exists>r w'. bb_build (core_env crc32c fresh) c noop_rc kvs w () = Some (r, (w', ())) \<and>
    (r = Err OutOfMetadataSpace \<and> (\<forall>b < nr. 0 < core_sm_count (wb_sm w') b) \<or>
     (\<exists>root w''. r = Ok root \<and> wb_flush w' = (Ok (), w'') \<and>
        btree_to_map crc32c bs text c path (core_reader (wb_engine w'')) False root = Some (Ok (map_of kvs)) \<and>
        btree_to_value_vec crc32c bs text c path (core_reader (wb_engine w'')) False root = Some (Ok (map snd kvs))))"
proof (cases rule: core_batch.bb_build_cases [OF assms(1-5), of "noop_rc :: (unit, _) ref_counting" "()"])
  case (3 root h w' q')
  have "ctree crc32c (engine_rd (wb_view w')) c False True h root kvs"
    using ctree_mono [OF 3(3) [of False] core_batch.live_engine] 3(2) by (auto simp: core_env_def)
  then obtain blks lvs where t: "wtree crc32c (engine_rd (wb_view w')) c False True h root blks lvs" "leaf_pairs lvs = kvs"
    by (auto simp: ctree_def)
  have "core_sm_inv nr (wb_sm w')" "en_nr_blocks (wb_view w') = nr"
    using 3(2) by (auto simp: batcher_inv_def wb_view_def engine_write_many_nr)
  then have size: "unat (en_nr_blocks (wb_view w')) < 2 ^ 63" by (simp add: core_sm_inv_def core_inv_def)
  have dist: "distinct (map fst kvs)" using assms(4) by (simp add: strict_sorted_iff)
  from collect_wtree [OF assms(6) size t(1) quiet_collectors(1)] collect_wtree [OF assms(6) size t(1) quiet_collectors(3)]
  have "btree_to_map crc32c bs text c path (core_reader (wb_view w')) False root = Some (Ok (map_of kvs))"
    "btree_to_value_vec crc32c bs text c path (core_reader (wb_view w')) False root = Some (Ok (map snd kvs))"
    by (simp_all add: btree_to_map_def btree_to_value_vec_def t(2) fold_leaves_pairs fold_upd_map_of [OF dist]
        fold_leaves_values [OF leaves_lengths [OF t(1)]])
  with 3 show ?thesis by (auto simp: wb_flush_view)
qed (auto simp: noop_rc_def)

theorem build_then_walk_witness:
  "\<exists>r w'. bb_build sample_env u64_codec noop_rc [(1, 10), (5, 50)] sample_batcher () = Some (r, (w', ())) \<and>
    (r = Err OutOfMetadataSpace \<and> (\<forall>b < 8. 0 < core_sm_count (wb_sm w') b) \<or>
     (\<exists>root w''. r = Ok root \<and> wb_flush w' = (Ok (), w'') \<and>
        btree_to_map (\<lambda>_. 0) list_bitset (\<lambda>_. []) u64_codec [] (core_reader (wb_engine w'')) False root =
          Some (Ok [1 \<mapsto> 10, 5 \<mapsto> 50])))"
  using build_then_walk [OF sample_batcher_inv [unfolded sample_env_def] u64c.value_codec_axioms _ _ _ bitset_laws_list,
      of "[(1, 10), (5, 50)]" "\<lambda>_. []" "[]"]
  by (simp add: sample_env_def u64_codec_def fun_upd_twist) blast

end
