(* ===== verification/Xml.thy ===== *)
theory Xml
  imports Prelude
begin

text \<open>
  \<open>src/xml.rs\<close> and what the tools use of the \<open>quick_xml\<close> crate's writer: elements with attributes, and start, end and
  empty tags that go to a writer one after the other. What the writer does with an event is a parameter, a
  record with the one method the code calls.
\<close>

record elem =
  el_name :: string
  el_attrs :: "(string \<times> string) list"

datatype xml_event = StartTag elem | EndTag string | EmptyTag elem

record 'w xml_writer =
  xw_write_event :: "xml_event \<Rightarrow> 'w \<Rightarrow> (unit, unit) result \<times> 'w"

text \<open>\<open>mk_attr\<close> with a number or a string: the \<open>Display\<close> form of the value.\<close>

definition mk_attr64 :: "string \<Rightarrow> u64 \<Rightarrow> string \<times> string" where
  "mk_attr64 key v = (key, decimal (unat v))"

definition mk_attr32 :: "string \<Rightarrow> u32 \<Rightarrow> string \<times> string" where
  "mk_attr32 key v = (key, decimal (unat v))"

definition mk_attr_str :: "string \<Rightarrow> string \<Rightarrow> string \<times> string" where
  "mk_attr_str key v = (key, v)"

text \<open>A writer that keeps the events.\<close>

definition event_list_writer :: "xml_event list xml_writer" where
  "event_list_writer = \<lparr>xw_write_event = (\<lambda>e w. (Ok (), w @ [e]))\<rparr>"

end
