(* ===== verification/Thin_Delta.thy ===== *)
theory Thin_Delta
  imports Btree_Collect Xml
begin

text \<open>
  \<open>src/thin/delta.rs\<close>, \<open>src/thin/delta_visitor.rs\<close> and the superblock of \<open>src/thin/ir.rs\<close>: the comparison of two thin
  devices. The mappings of each are collected as runs from a walk of its tree; the two lists of runs are compared
  piece by piece, and the pieces go to a visitor, which writes them as XML. The visitor is a trait object and a
  record here. \<open>delta\<close>, which opens the device, reads the superblock and picks the visitor, is not modelled.
\<close>

section \<open>Intermediate representation\<close>

record ir_superblock =
  ir_uuid :: string
  ir_time :: u32
  ir_transaction :: u64
  ir_flags :: "u32 option"
  ir_version :: "u32 option"
  ir_data_block_size :: u32
  ir_nr_data_blocks :: u64
  ir_metadata_snap :: "u64 option"

datatype visit = Continue | Stop

record data_mapping =
  dm_thin_begin :: u64
  dm_data_begin :: u64
  dm_len :: u64

record diff_mapping =
  df_thin_begin :: u64
  df_left_data_begin :: u64
  df_right_data_begin :: u64
  df_len :: u64

datatype thin_delta = LeftOnly data_mapping | RightOnly data_mapping | Differ diff_mapping | Same data_mapping

datatype snap = DeviceId u64 | RootBlock u64

datatype delta_error = DeltaTooLong | EndOfStream | DeltaTree btree_error | NoMappingTree nat u64 | BadSmRoot | DeltaXml

record 'x delta_visitor =
  dv_superblock_b :: "ir_superblock \<Rightarrow> 'x \<Rightarrow> (delta_error, visit) result \<times> 'x"
  dv_superblock_e :: "'x \<Rightarrow> (delta_error, visit) result \<times> 'x"
  dv_diff_b :: "snap \<Rightarrow> snap \<Rightarrow> 'x \<Rightarrow> (delta_error, visit) result \<times> 'x"
  dv_diff_e :: "'x \<Rightarrow> (delta_error, visit) result \<times> 'x"
  dv_delta :: "thin_delta \<Rightarrow> 'x \<Rightarrow> (delta_error, visit) result \<times> 'x"

section \<open>Runs of mappings\<close>

text \<open>\<open>RunBuilder\<close>: a method returns the run that is finished and leaves the one that is open.\<close>

type_synonym run_builder = "data_mapping option"

definition run_next :: "u64 \<Rightarrow> u64 \<Rightarrow> run_builder \<Rightarrow> data_mapping option \<times> run_builder" where
  "run_next thin_block data_block b =
    (let new = Some \<lparr>dm_thin_begin = thin_block, dm_data_begin = data_block, dm_len = 1\<rparr> in
     case b of None \<Rightarrow> (None, new)
     | Some r \<Rightarrow>
         if dm_thin_begin r + dm_len r = thin_block \<and> dm_data_begin r + dm_len r = data_block
         then (None, Some (r\<lparr>dm_len := dm_len r + 1\<rparr>))
         else (Some r, new))"

definition run_complete :: "run_builder \<Rightarrow> data_mapping option \<times> run_builder" where
  "run_complete b = (b, None)"

record mapping_recorder =
  mr_mappings :: "data_mapping list"
  mr_builder :: run_builder

definition recorder_new :: mapping_recorder where
  "recorder_new = \<lparr>mr_mappings = [], mr_builder = None\<rparr>"

definition recorder_push :: "data_mapping option \<times> run_builder \<Rightarrow> mapping_recorder \<Rightarrow> mapping_recorder" where
  "recorder_push = (\<lambda>(m, b) r. \<lparr>mr_mappings = (case m of Some m \<Rightarrow> mr_mappings r @ [m] | None \<Rightarrow> mr_mappings r), mr_builder = b\<rparr>)"

definition recorder_next :: "u64 \<times> block_time \<Rightarrow> mapping_recorder \<Rightarrow> mapping_recorder" where
  "recorder_next = (\<lambda>(k, v) r. recorder_push (run_next k (bt_block v) (mr_builder r)) r)"

definition recorder_complete :: "mapping_recorder \<Rightarrow> data_mapping list" where
  "recorder_complete r = mr_mappings (recorder_push (run_complete (mr_builder r)) r)"

definition recorder_visitor :: "(block_time, mapping_recorder) node_visitor" where
  "recorder_visitor = \<lparr>nv_visit = (\<lambda>path kr h keys values r. (Ok (), fold recorder_next (zip keys values) r)),
     nv_visit_again = (\<lambda>path b r. (Ok (), r)), nv_end_walk = (\<lambda>r. (Ok (), r))\<rparr>"

definition get_mappings :: "(bytes \<Rightarrow> u32) \<Rightarrow> 'b bitset \<Rightarrow> (sm_error \<Rightarrow> string) \<Rightarrow> reader \<Rightarrow> u64 \<Rightarrow>
    (delta_error, data_mapping list) result option" where
  "get_mappings crc32c bs text rd root =
    map_option (\<lambda>r. case r of Ok mr \<Rightarrow> Ok (recorder_complete mr) | Err e \<Rightarrow> Err (DeltaTree e) | Panic \<Rightarrow> Panic)
      (collect (walk (new_walk_env crc32c bs text rd False) block_time_codec recorder_visitor [] root
         (fresh_walker bs rd, recorder_new)))"

section \<open>Comparing two lists of runs\<close>

record mapping_stream =
  ms_iter :: "data_mapping list"
  ms_current :: "data_mapping option"

definition advance :: "data_mapping list \<Rightarrow> mapping_stream" where
  "advance it = (case it of [] \<Rightarrow> \<lparr>ms_iter = [], ms_current = None\<rparr> | m # it \<Rightarrow> \<lparr>ms_iter = it, ms_current = Some m\<rparr>)"

definition stream_new :: "data_mapping list \<Rightarrow> mapping_stream" where
  "stream_new it = advance it"

definition more_mappings :: "mapping_stream \<Rightarrow> bool" where
  "more_mappings s = (ms_current s \<noteq> None)"

definition get_mapping :: "mapping_stream \<Rightarrow> data_mapping option" where
  "get_mapping s = ms_current s"

definition consume :: "u64 \<Rightarrow> mapping_stream \<Rightarrow> (delta_error, unit) result \<times> mapping_stream" where
  "consume len s = (case ms_current s of
     None \<Rightarrow> (Err EndOfStream, s)
   | Some c \<Rightarrow>
       if dm_len c < len then (Err DeltaTooLong, s)
       else if len = dm_len c then (Ok (), advance (ms_iter s))
       else (Ok (), s\<lparr>ms_current := Some \<lparr>dm_thin_begin = dm_thin_begin c + len,
              dm_data_begin = dm_data_begin c + len, dm_len = dm_len c - len\<rparr>\<rparr>))"

type_synonym 'x delta_state = "mapping_stream \<times> mapping_stream \<times> 'x"

definition tell :: "'x delta_visitor \<Rightarrow> thin_delta \<Rightarrow> 'x delta_state \<Rightarrow> (delta_error, visit) result \<times> 'x delta_state" where
  "tell vis d = (\<lambda>(ls, rs, x). case dv_delta vis d x of (r, x) \<Rightarrow> (r, ls, rs, x))"

definition consume_left :: "u64 \<Rightarrow> 'x delta_state \<Rightarrow> (delta_error, unit) result \<times> 'x delta_state" where
  "consume_left len = (\<lambda>(ls, rs, x). case consume len ls of (r, ls) \<Rightarrow> (r, ls, rs, x))"

definition consume_right :: "u64 \<Rightarrow> 'x delta_state \<Rightarrow> (delta_error, unit) result \<times> 'x delta_state" where
  "consume_right len = (\<lambda>(ls, rs, x). case consume len rs of (r, rs) \<Rightarrow> (r, ls, rs, x))"

text \<open>The body of the first loop; \<open>unwrap\<close> of a stream at its end panics.\<close>

definition compare_step :: "'x delta_visitor \<Rightarrow> 'x delta_state \<Rightarrow> (delta_error, unit) result \<times> 'x delta_state" where
  "compare_step vis s = (case (get_mapping (fst s), get_mapping (fst (snd s))) of
     (Some lm, Some rm) \<Rightarrow>
       if dm_thin_begin lm < dm_thin_begin rm then
         let len = min (dm_len lm) (dm_thin_begin rm - dm_thin_begin lm) in
         binds (tell vis (LeftOnly \<lparr>dm_thin_begin = dm_thin_begin lm, dm_data_begin = dm_data_begin lm, dm_len = len\<rparr>) s)
           (\<lambda>_. consume_left len)
       else if dm_thin_begin rm < dm_thin_begin lm then
         let len = min (dm_len rm) (dm_thin_begin lm - dm_thin_begin rm) in
         binds (tell vis (RightOnly \<lparr>dm_thin_begin = dm_thin_begin rm, dm_data_begin = dm_data_begin rm, dm_len = len\<rparr>) s)
           (\<lambda>_. consume_right len)
       else
         let len = min (dm_len lm) (dm_len rm);
             d = (if dm_data_begin lm = dm_data_begin rm
                  then Same \<lparr>dm_thin_begin = dm_thin_begin lm, dm_data_begin = dm_data_begin lm, dm_len = len\<rparr>
                  else Differ \<lparr>df_thin_begin = dm_thin_begin lm, df_left_data_begin = dm_data_begin lm,
                         df_right_data_begin = dm_data_begin rm, df_len = len\<rparr>)
         in binds (tell vis d s) (\<lambda>_ s. binds (consume_left len s) (\<lambda>_. consume_right len))
   | _ \<Rightarrow> (Panic, s))"

definition left_step :: "'x delta_visitor \<Rightarrow> 'x delta_state \<Rightarrow> (delta_error, unit) result \<times> 'x delta_state" where
  "left_step vis s = (case get_mapping (fst s) of None \<Rightarrow> (Panic, s)
     | Some lm \<Rightarrow> binds (tell vis (LeftOnly lm) s) (\<lambda>_. consume_left (dm_len lm)))"

definition right_step :: "'x delta_visitor \<Rightarrow> 'x delta_state \<Rightarrow> (delta_error, unit) result \<times> 'x delta_state" where
  "right_step vis s = (case get_mapping (fst (snd s)) of None \<Rightarrow> (Panic, s)
     | Some rm \<Rightarrow> binds (tell vis (RightOnly rm) s) (\<lambda>_. consume_right (dm_len rm)))"

subsection \<open>The loops end\<close>

text \<open>Every round uses up blocks of a run, or a run.\<close>

definition stream_size :: "mapping_stream \<Rightarrow> nat" where
  "stream_size s = (case ms_current s of None \<Rightarrow> 0 | Some m \<Rightarrow> Suc (unat (dm_len m))) +
     (\<Sum>m \<leftarrow> ms_iter s. Suc (unat (dm_len m)))"

definition delta_size :: "'x delta_state \<Rightarrow> nat" where
  "delta_size = (\<lambda>(ls, rs, x). stream_size ls + stream_size rs)"

lemma advance_size [simp]: "stream_size (advance it) = (\<Sum>m \<leftarrow> it. Suc (unat (dm_len m)))"
  by (cases it) (simp_all add: advance_def stream_size_def)

lemma consume_size:
  assumes "ms_current s = Some m" "consume len s = (Ok (), s')"
  shows "len = dm_len m \<or> 0 < len \<Longrightarrow> stream_size s' < stream_size s" "stream_size s' \<le> stream_size s"
proof -
  have u: "unat (dm_len m - len) = unat (dm_len m) - unat len" "unat len < unat (dm_len m)" if "len < dm_len m"
    using that by (simp_all add: unat_sub word_less_nat_alt less_imp_le)
  have z: "0 < unat len" if "0 < len" using that by (simp add: word_less_nat_alt)
  consider (all) "len = dm_len m" "s' = advance (ms_iter s)"
    | (part) "len < dm_len m" "s' = s\<lparr>ms_current := Some \<lparr>dm_thin_begin = dm_thin_begin m + len,
        dm_data_begin = dm_data_begin m + len, dm_len = dm_len m - len\<rparr>\<rparr>"
    using assms by (auto simp: consume_def not_less split: if_splits)
  then have "(len = dm_len m \<or> 0 < len \<longrightarrow> stream_size s' < stream_size s) \<and> stream_size s' \<le> stream_size s"
  proof cases
    case all
    have "stream_size s = Suc (unat (dm_len m)) + (\<Sum>m \<leftarrow> ms_iter s. Suc (unat (dm_len m)))"
      using assms(1) by (simp add: stream_size_def)
    then show ?thesis by (simp add: all(2))
  next
    case part
    then show ?thesis using assms(1) u z by (auto simp: stream_size_def)
  qed
  then show "len = dm_len m \<or> 0 < len \<Longrightarrow> stream_size s' < stream_size s" "stream_size s' \<le> stream_size s" by simp_all
qed

lemma tell_streams: "tell vis d s = (r, s') \<Longrightarrow> fst s' = fst s \<and> fst (snd s') = fst (snd s)"
  by (auto simp: tell_def split: prod.splits)

lemma consume_left_size:
  assumes "ms_current (fst s) = Some m" "consume_left len s = (Ok (), s')"
  shows "len = dm_len m \<or> 0 < len \<Longrightarrow> delta_size s' < delta_size s" "delta_size s' \<le> delta_size s"
    "fst (snd s') = fst (snd s)"
  using assms consume_size [of "fst s" m len "fst s'"]
  by (auto simp: consume_left_def delta_size_def split: prod.splits)

lemma consume_right_size:
  assumes "ms_current (fst (snd s)) = Some m" "consume_right len s = (Ok (), s')"
  shows "len = dm_len m \<or> 0 < len \<Longrightarrow> delta_size s' < delta_size s" "delta_size s' \<le> delta_size s"
  using assms consume_size [of "fst (snd s)" m len "fst (snd s')"]
  by (auto simp: consume_right_def delta_size_def split: prod.splits)

lemma delta_size_streams: "fst s' = fst s \<Longrightarrow> fst (snd s') = fst (snd s) \<Longrightarrow> delta_size s' = delta_size s"
  by (simp add: delta_size_def case_prod_beta)

lemma gap_positive: "a < (b :: u64) \<Longrightarrow> 0 < b - a"
  by (metis diff_eq_diff_eq diff_self eq_iff_diff_eq_0 less_irrefl word_gt_0)

lemma left_step_size:
  assumes "left_step vis s = (Ok (), s')"
  shows "delta_size s' < delta_size s"
proof -
  obtain lm where lm: "ms_current (fst s) = Some lm"
    using assms by (cases "ms_current (fst s)") (auto simp: left_step_def get_mapping_def)
  then obtain v s1 where s1: "tell vis (LeftOnly lm) s = (Ok v, s1)" "consume_left (dm_len lm) s1 = (Ok (), s')"
    using assms by (auto simp: left_step_def get_mapping_def binds_Ok)
  note t = tell_streams [OF s1(1)]
  with lm consume_left_size(1) [OF _ s1(2), of lm] delta_size_streams [of s1 s] show ?thesis by simp
qed

lemma right_step_size:
  assumes "right_step vis s = (Ok (), s')"
  shows "delta_size s' < delta_size s"
proof -
  obtain rm where rm: "ms_current (fst (snd s)) = Some rm"
    using assms by (cases "ms_current (fst (snd s))") (auto simp: right_step_def get_mapping_def)
  then obtain v s1 where s1: "tell vis (RightOnly rm) s = (Ok v, s1)" "consume_right (dm_len rm) s1 = (Ok (), s')"
    using assms by (auto simp: right_step_def get_mapping_def binds_Ok)
  note t = tell_streams [OF s1(1)]
  with rm consume_right_size(1) [OF _ s1(2), of rm] delta_size_streams [of s1 s] show ?thesis by simp
qed

lemma compare_step_size:
  assumes "compare_step vis s = (Ok (), s')"
  shows "delta_size s' < delta_size s"
proof -
  obtain lm rm where m: "ms_current (fst s) = Some lm" "ms_current (fst (snd s)) = Some rm"
    using assms by (auto simp: compare_step_def get_mapping_def split: option.splits)
  have left: "delta_size s'' < delta_size s" "fst (snd s'') = fst (snd s)"
    if "tell vis d s = (Ok v, s1)" "consume_left len s1 = (Ok (), s'')" "len = dm_len lm \<or> 0 < len" for d v s1 len s''
    using tell_streams [OF that(1)] m consume_left_size(1,3) [OF _ that(2), of lm] that(3) delta_size_streams [of s1 s] by simp_all
  have right: "delta_size s'' < delta_size s"
    if "tell vis d s = (Ok v, s1)" "consume_right len s1 = (Ok (), s'')" "len = dm_len rm \<or> 0 < len" for d v s1 len s''
    using tell_streams [OF that(1)] m consume_right_size(1) [OF _ that(2), of rm] that(3) delta_size_streams [of s1 s] by simp
  have both: "delta_size s3 < delta_size s"
    if t: "tell vis d s = (Ok v, s1)" and l: "consume_left (min (dm_len lm) (dm_len rm)) s1 = (Ok (), s2)"
      and r: "consume_right (min (dm_len lm) (dm_len rm)) s2 = (Ok (), s3)" for d v s1 s2 s3
  proof -
    have s1: "fst s1 = fst s" "fst (snd s1) = fst (snd s)" "delta_size s1 = delta_size s"
      using tell_streams [OF t] delta_size_streams [of s1 s] by simp_all
    note lsz = consume_left_size [OF _ l, of lm, unfolded s1, OF m(1)]
    have "ms_current (fst (snd s2)) = Some rm" using lsz(3) m by simp
    note rsz = consume_right_size [OF this r]
    show ?thesis
    proof (cases "dm_len lm \<le> dm_len rm")
      case True
      then have "delta_size s2 < delta_size s" using lsz(1) by (simp add: min_def)
      with rsz(2) show ?thesis by simp
    next
      case False
      then have "delta_size s3 < delta_size s2" using rsz(1) by (simp add: min_def)
      with lsz(2) show ?thesis by simp
    qed
  qed
  show ?thesis
  proof (cases "dm_thin_begin lm < dm_thin_begin rm")
    case True
    let ?len = "min (dm_len lm) (dm_thin_begin rm - dm_thin_begin lm)"
    have "?len = dm_len lm \<or> 0 < ?len" using gap_positive [OF True] by (auto simp: min_def)
    moreover obtain v s1 d where "tell vis d s = (Ok v, s1)" "consume_left ?len s1 = (Ok (), s')"
      using assms True by (auto simp: compare_step_def get_mapping_def m binds_Ok Let_def)
    ultimately show ?thesis using left(1) by blast
  next
    case F: False
    show ?thesis
    proof (cases "dm_thin_begin rm < dm_thin_begin lm")
      case True
      let ?len = "min (dm_len rm) (dm_thin_begin lm - dm_thin_begin rm)"
      have "?len = dm_len rm \<or> 0 < ?len" using gap_positive [OF True] by (auto simp: min_def)
      moreover obtain v s1 d where "tell vis d s = (Ok v, s1)" "consume_right ?len s1 = (Ok (), s')"
        using assms F True by (auto simp: compare_step_def get_mapping_def m binds_Ok Let_def)
      ultimately show ?thesis using right by blast
    next
      case False
      then obtain v s1 s2 d where "tell vis d s = (Ok v, s1)" "consume_left (min (dm_len lm) (dm_len rm)) s1 = (Ok (), s2)"
        "consume_right (min (dm_len lm) (dm_len rm)) s2 = (Ok (), s')"
        using assms F by (auto simp: compare_step_def get_mapping_def m binds_Ok Let_def)
      then show ?thesis by (rule both)
    qed
  qed
qed

function both_loop :: "'x delta_visitor \<Rightarrow> 'x delta_state \<Rightarrow> (delta_error, unit) result \<times> 'x delta_state" where
  "both_loop vis s = (if more_mappings (fst s) \<and> more_mappings (fst (snd s))
     then binds (compare_step vis s) (\<lambda>_ s. both_loop vis s) else (Ok (), s))"
  by pat_completeness auto
termination
  by (relation "measure (\<lambda>(vis, s). delta_size s)") (auto dest: compare_step_size)

function left_loop :: "'x delta_visitor \<Rightarrow> 'x delta_state \<Rightarrow> (delta_error, unit) result \<times> 'x delta_state" where
  "left_loop vis s = (if more_mappings (fst s) then binds (left_step vis s) (\<lambda>_ s. left_loop vis s) else (Ok (), s))"
  by pat_completeness auto
termination
  by (relation "measure (\<lambda>(vis, s). delta_size s)") (auto dest: left_step_size)

function right_loop :: "'x delta_visitor \<Rightarrow> 'x delta_state \<Rightarrow> (delta_error, unit) result \<times> 'x delta_state" where
  "right_loop vis s =
    (if more_mappings (fst (snd s)) then binds (right_step vis s) (\<lambda>_ s. right_loop vis s) else (Ok (), s))"
  by pat_completeness auto
termination
  by (relation "measure (\<lambda>(vis, s). delta_size s)") (auto dest: right_step_size)

declare both_loop.simps [simp del] left_loop.simps [simp del] right_loop.simps [simp del]

definition dump_delta_mappings :: "data_mapping list \<Rightarrow> data_mapping list \<Rightarrow> 'x delta_visitor \<Rightarrow> 'x \<Rightarrow>
    (delta_error, unit) result \<times> 'x" where
  "dump_delta_mappings left right vis x =
    (case binds (both_loop vis (stream_new left, stream_new right, x)) (\<lambda>_ s.
           binds (left_loop vis s) (\<lambda>_. right_loop vis)) of (r, ls, rs, x) \<Rightarrow> (r, x))"

section \<open>The comparison of two devices\<close>

text \<open>\<open>dump_diff\<close>: both trees are found and read before the visitor is told anything.\<close>

definition snap_root :: "nat \<Rightarrow> snap \<Rightarrow> (u64 \<rightharpoonup> u64) \<Rightarrow> (delta_error, u64) result" where
  "snap_root i s roots = (case s of
     DeviceId dev_id \<Rightarrow> of_opt (NoMappingTree i dev_id) (roots dev_id)
   | RootBlock b \<Rightarrow> Ok b)"

definition delta_superblock :: "thin_superblock \<Rightarrow> sm_root \<Rightarrow> ir_superblock" where
  "delta_superblock sb data_root = \<lparr>ir_uuid = [], ir_time = ts_time sb, ir_transaction = ts_transaction_id sb,
     ir_flags = (if ts_needs_check sb then Some 1 else None), ir_version = Some 2,
     ir_data_block_size = ts_data_block_size sb, ir_nr_data_blocks = sr_nr_blocks data_root, ir_metadata_snap = None\<rparr>"

fun bind_res :: "('e, 'a) result option \<Rightarrow> ('a \<Rightarrow> ('e, 'b) result option) \<Rightarrow> ('e, 'b) result option" where
  "bind_res None f = None"
| "bind_res (Some (Ok a)) f = f a"
| "bind_res (Some (Err e)) f = Some (Err e)"
| "bind_res (Some Panic) f = Some Panic"

definition tree_result :: "(btree_error, 'a) result \<Rightarrow> (delta_error, 'a) result" where
  "tree_result r = (case r of Ok a \<Rightarrow> Ok a | Err e \<Rightarrow> Err (DeltaTree e) | Panic \<Rightarrow> Panic)"

definition read_diff :: "(bytes \<Rightarrow> u32) \<Rightarrow> 'b bitset \<Rightarrow> (sm_error \<Rightarrow> string) \<Rightarrow> reader \<Rightarrow> thin_superblock \<Rightarrow> snap \<Rightarrow> snap \<Rightarrow>
    (delta_error, data_mapping list \<times> data_mapping list \<times> ir_superblock) result option" where
  "read_diff crc32c bs text rd sb snap1 snap2 =
    bind_res (map_option tree_result (btree_to_map crc32c bs text u64_codec [] rd False (ts_mapping_root sb))) (\<lambda>roots.
    bind_res (Some (snap_root 1 snap1 roots)) (\<lambda>root1.
    bind_res (get_mappings crc32c bs text rd root1) (\<lambda>mappings1.
    bind_res (Some (snap_root 2 snap2 roots)) (\<lambda>root2.
    bind_res (get_mappings crc32c bs text rd root2) (\<lambda>mappings2.
    bind_res (Some (case unpack_bytes sm_root_codec (ts_data_sm_root sb) of Ok r \<Rightarrow> Ok r | _ \<Rightarrow> Err BadSmRoot)) (\<lambda>data_root.
    Some (Ok (mappings1, mappings2, delta_superblock sb data_root))))))))"

definition dump_diff :: "(bytes \<Rightarrow> u32) \<Rightarrow> 'b bitset \<Rightarrow> (sm_error \<Rightarrow> string) \<Rightarrow> reader \<Rightarrow> 'x delta_visitor \<Rightarrow>
    thin_superblock \<Rightarrow> snap \<Rightarrow> snap \<Rightarrow> 'x \<Rightarrow> ((delta_error, unit) result \<times> 'x) option" where
  "dump_diff crc32c bs text rd vis sb snap1 snap2 x =
    map_option (\<lambda>r. case r of
      Ok (mappings1, mappings2, out_sb) \<Rightarrow>
        binds (dv_superblock_b vis out_sb x) (\<lambda>_ x.
        binds (dv_diff_b vis snap1 snap2 x) (\<lambda>_ x.
        binds (dump_delta_mappings mappings1 mappings2 vis x) (\<lambda>_ x.
        binds (dv_diff_e vis x) (\<lambda>_ x.
        binds (dv_superblock_e vis x) (\<lambda>_ x. (Ok (), x))))))
    | Err e \<Rightarrow> (Err e, x) | Panic \<Rightarrow> (Panic, x))
    (read_diff crc32c bs text rd sb snap1 snap2)"

section \<open>Block by block\<close>

definition covers :: "data_mapping \<Rightarrow> u64 \<Rightarrow> bool" where
  "covers m t \<longleftrightarrow> dm_thin_begin m \<le> t \<and> t - dm_thin_begin m < dm_len m"

definition mapped :: "data_mapping list \<Rightarrow> u64 \<Rightarrow> u64 option" where
  "mapped ms t = (case find (\<lambda>m. covers m t) ms of None \<Rightarrow> None
     | Some m \<Rightarrow> Some (dm_data_begin m + (t - dm_thin_begin m)))"

text \<open>What may hold of a thin block in two devices: its data block in each.\<close>

datatype block_delta = BLeft u64 | BRight u64 | BDiffer u64 u64 | BSame u64

fun compare_blocks :: "u64 option \<Rightarrow> u64 option \<Rightarrow> block_delta option" where
  "compare_blocks None None = None"
| "compare_blocks (Some l) None = Some (BLeft l)"
| "compare_blocks None (Some r) = Some (BRight r)"
| "compare_blocks (Some l) (Some r) = Some (if l = r then BSame l else BDiffer l r)"

fun delta_range :: "thin_delta \<Rightarrow> u64 \<times> u64" where
  "delta_range (LeftOnly m) = (dm_thin_begin m, dm_len m)"
| "delta_range (RightOnly m) = (dm_thin_begin m, dm_len m)"
| "delta_range (Same m) = (dm_thin_begin m, dm_len m)"
| "delta_range (Differ m) = (df_thin_begin m, df_len m)"

fun delta_block :: "thin_delta \<Rightarrow> u64 \<Rightarrow> block_delta" where
  "delta_block (LeftOnly m) t = BLeft (dm_data_begin m + (t - dm_thin_begin m))"
| "delta_block (RightOnly m) t = BRight (dm_data_begin m + (t - dm_thin_begin m))"
| "delta_block (Same m) t = BSame (dm_data_begin m + (t - dm_thin_begin m))"
| "delta_block (Differ m) t = BDiffer (df_left_data_begin m + (t - df_thin_begin m)) (df_right_data_begin m + (t - df_thin_begin m))"

definition delta_covers :: "thin_delta \<Rightarrow> u64 \<Rightarrow> bool" where
  "delta_covers d t \<longleftrightarrow> (let (b, n) = delta_range d in b \<le> t \<and> t - b < n)"

definition delta_at :: "thin_delta list \<Rightarrow> u64 \<Rightarrow> block_delta option" where
  "delta_at ds t = map_option (\<lambda>d. delta_block d t) (find (\<lambda>d. delta_covers d t) ds)"

text \<open>Runs in ascending order from \<open>b\<close> on that do not overlap and stay within 64 bits; the same for deltas, up to \<open>e\<close>.\<close>

fun runs_from :: "nat \<Rightarrow> data_mapping list \<Rightarrow> bool" where
  "runs_from b [] \<longleftrightarrow> True"
| "runs_from b (m # ms) \<longleftrightarrow> b \<le> unat (dm_thin_begin m) \<and> unat (dm_thin_begin m) + unat (dm_len m) \<le> 2 ^ 64 \<and>
     runs_from (unat (dm_thin_begin m) + unat (dm_len m)) ms"

fun deltas_between :: "nat \<Rightarrow> thin_delta list \<Rightarrow> nat \<Rightarrow> bool" where
  "deltas_between b [] e \<longleftrightarrow> b \<le> e"
| "deltas_between b (d # ds) e \<longleftrightarrow> (let (t, n) = delta_range d in b \<le> unat t \<and> unat t + unat n \<le> 2 ^ 64 \<and>
     deltas_between (unat t + unat n) ds e)"

lemma runs_from_le: "runs_from b ms \<Longrightarrow> b' \<le> b \<Longrightarrow> runs_from b' ms"
  by (cases ms) auto

lemma range_nat:
  assumes "unat b + unat n \<le> 2 ^ 64"
  shows "b \<le> t \<and> t - b < n \<longleftrightarrow> unat b \<le> unat t \<and> unat t < unat b + unat (n :: u64)"
  by (auto simp: word_le_nat_alt word_less_nat_alt unat_sub)

lemma mapped_Nil [simp]: "mapped [] t = None"
  by (simp add: mapped_def)

lemma mapped_Cons:
  "mapped (m # ms) t = (if covers m t then Some (dm_data_begin m + (t - dm_thin_begin m)) else mapped ms t)"
  by (simp add: mapped_def)

lemma mapped_below: "runs_from b ms \<Longrightarrow> unat t < b \<Longrightarrow> mapped ms t = None"
proof (induction ms arbitrary: b)
  case (Cons m ms)
  then have "mapped ms t = None" by (intro Cons.IH [of "unat (dm_thin_begin m) + unat (dm_len m)"]) simp_all
  with Cons.prems show ?case by (auto simp: mapped_Cons covers_def word_le_nat_alt)
qed simp

lemma delta_at_Nil [simp]: "delta_at [] t = None"
  by (simp add: delta_at_def)

lemma delta_at_Cons: "delta_at (d # ds) t = (if delta_covers d t then Some (delta_block d t) else delta_at ds t)"
  by (simp add: delta_at_def)

lemma delta_at_append: "delta_at (a @ b) t = (case delta_at a t of None \<Rightarrow> delta_at b t | Some d \<Rightarrow> Some d)"
  by (induction a) (simp_all add: delta_at_Cons)

text \<open>A run without its first \<open>k\<close> blocks, before the runs \<open>ms\<close>.\<close>

definition drop_run :: "u64 \<Rightarrow> data_mapping \<Rightarrow> data_mapping list \<Rightarrow> data_mapping list" where
  "drop_run k m ms = (if k = dm_len m then ms else \<lparr>dm_thin_begin = dm_thin_begin m + k,
     dm_data_begin = dm_data_begin m + k, dm_len = dm_len m - k\<rparr> # ms)"

lemma drop_run:
  assumes "runs_from b (m # ms)" "k \<le> dm_len m"
  shows "runs_from (unat (dm_thin_begin m) + unat k) (drop_run k m ms)"
    "mapped (m # ms) t = (if dm_thin_begin m \<le> t \<and> t - dm_thin_begin m < k
      then Some (dm_data_begin m + (t - dm_thin_begin m)) else mapped (drop_run k m ms) t)"
proof -
  let ?b = "dm_thin_begin m" and ?n = "dm_len m"
  have le: "unat k \<le> unat ?n" "unat ?b + unat ?n \<le> 2 ^ 64" using assms by (simp_all add: word_le_nat_alt)
  have nb: "unat ?b + unat k \<le> 2 ^ 64" using le by linarith
  have part: "unat (?b + k) = unat ?b + unat k" "unat (?n - k) = unat ?n - unat k" if "k \<noteq> ?n"
  proof -
    have "unat k \<noteq> unat ?n" using that by (simp add: word_unat_eq_iff)
    then show "unat (?b + k) = unat ?b + unat k" using le by (intro unat_plus_no_overflow) simp
    show "unat (?n - k) = unat ?n - unat k" using assms(2) by (rule unat_sub)
  qed
  show "runs_from (unat ?b + unat k) (drop_run k m ms)"
    using assms(1) le part by (cases "k = ?n") (simp_all add: drop_run_def)
  show "mapped (m # ms) t = (if ?b \<le> t \<and> t - ?b < k then Some (dm_data_begin m + (t - ?b)) else mapped (drop_run k m ms) t)"
  proof (cases "k = ?n")
    case True
    then show ?thesis by (simp add: drop_run_def mapped_Cons covers_def)
  next
    case False
    have l: "unat (?b + k) + unat (?n - k) \<le> 2 ^ 64" using part [OF False] le by linarith
    have e: "dm_data_begin m + k + (t - (?b + k)) = dm_data_begin m + (t - ?b)" by simp
    show ?thesis
      unfolding mapped_Cons drop_run_def covers_def if_not_P [OF False] data_mapping.simps e
        range_nat [OF le(2)] range_nat [OF nb] range_nat [OF l]
      using part [OF False] le by auto
  qed
qed

subsection \<open>The loops on lists of runs\<close>

definition stream_list :: "mapping_stream \<Rightarrow> data_mapping list" where
  "stream_list s = (case ms_current s of None \<Rightarrow> [] | Some m \<Rightarrow> m # ms_iter s)"

lemma stream_list_advance [simp]: "stream_list (advance it) = it"
  by (cases it) (simp_all add: advance_def stream_list_def)

lemma stream_list_Cons: "stream_list s = m # ms \<longleftrightarrow> ms_current s = Some m \<and> ms_iter s = ms"
  by (auto simp: stream_list_def split: option.splits)

lemma more_mappings_list: "more_mappings s \<longleftrightarrow> stream_list s \<noteq> []"
  by (simp add: more_mappings_def stream_list_def split: option.splits)

lemma consume_list:
  assumes "stream_list s = m # ms" "k \<le> dm_len m"
  obtains s' where "consume k s = (Ok (), s')" "stream_list s' = drop_run k m ms"
proof -
  have "consume k s = (Ok (), if k = dm_len m then advance (ms_iter s) else s\<lparr>ms_current := Some
      \<lparr>dm_thin_begin = dm_thin_begin m + k, dm_data_begin = dm_data_begin m + k, dm_len = dm_len m - k\<rparr>\<rparr>)"
    using assms by (simp add: stream_list_Cons consume_def not_less [symmetric])
  moreover have "stream_list (if k = dm_len m then advance (ms_iter s) else s\<lparr>ms_current := Some
      \<lparr>dm_thin_begin = dm_thin_begin m + k, dm_data_begin = dm_data_begin m + k, dm_len = dm_len m - k\<rparr>\<rparr>) = drop_run k m ms"
    using assms by (simp add: stream_list_Cons drop_run_def)
  ultimately show thesis by (rule that)
qed

text \<open>Telling a visitor a list of deltas; it may stop with an error.\<close>

definition tell_all :: "'x delta_visitor \<Rightarrow> thin_delta list \<Rightarrow> 'x \<Rightarrow> (delta_error, unit) result \<times> 'x" where
  "tell_all vis = for_each (\<lambda>d x. case dv_delta vis d x of (r, x) \<Rightarrow> (mapr (\<lambda>_. ()) r, x))"

text \<open>A loop that tells the deltas \<open>ds\<close> and then leaves the streams \<open>ls\<close> and \<open>rs\<close>.\<close>

definition tells :: "('x delta_visitor \<Rightarrow> 'x delta_state \<Rightarrow> (delta_error, unit) result \<times> 'x delta_state) \<Rightarrow>
    mapping_stream \<times> mapping_stream \<Rightarrow> thin_delta list \<Rightarrow> mapping_stream \<times> mapping_stream \<Rightarrow> bool" where
  "tells f = (\<lambda>(ls, rs) ds (ls', rs'). \<forall>vis x. case tell_all vis ds x of
     (Ok _, x') \<Rightarrow> f vis (ls, rs, x) = (Ok (), ls', rs', x')
   | (r, x') \<Rightarrow> (\<exists>ls1 rs1. f vis (ls, rs, x) = (r, ls1, rs1, x')))"

lemma tells_binds:
  assumes f: "tells f s ds s'" and g: "tells g s' ds' s''"
    and h: "\<And>vis x. h vis (fst s, snd s, x) = binds (f vis (fst s, snd s, x)) (\<lambda>_. g vis)"
  shows "tells h s (ds @ ds') s''"
proof -
  obtain ls rs ls' rs' ls'' rs'' where s: "s = (ls, rs)" "s' = (ls', rs')" "s'' = (ls'', rs'')" by (metis surj_pair)
  have "case tell_all vis (ds @ ds') x of (Ok _, x') \<Rightarrow> h vis (ls, rs, x) = (Ok (), ls'', rs'', x')
      | (r, x') \<Rightarrow> (\<exists>ls1 rs1. h vis (ls, rs, x) = (r, ls1, rs1, x'))" for vis x
  proof -
    have t: "tell_all vis (ds @ ds') x = binds (tell_all vis ds x) (\<lambda>_. tell_all vis ds')"
      by (simp add: tell_all_def for_each_append)
    obtain r x1 where r: "tell_all vis ds x = (r, x1)" by fastforce
    have "case tell_all vis ds x of (Ok _, x') \<Rightarrow> f vis (ls, rs, x) = (Ok (), ls', rs', x')
      | (r, x') \<Rightarrow> (\<exists>ls1 rs1. f vis (ls, rs, x) = (r, ls1, rs1, x'))"
      by (rule f [unfolded tells_def s prod.case, THEN spec, THEN spec])
    note f1 = this [unfolded r prod.case]
    have g1: "case tell_all vis ds' x1 of (Ok _, x') \<Rightarrow> g vis (ls', rs', x1) = (Ok (), ls'', rs'', x')
      | (r, x') \<Rightarrow> (\<exists>ls1 rs1. g vis (ls', rs', x1) = (r, ls1, rs1, x'))"
      by (rule g [unfolded tells_def s prod.case, THEN spec, THEN spec])
    have hb: "h vis (ls, rs, x) = binds (f vis (ls, rs, x)) (\<lambda>_. g vis)" using h [of vis x] by (simp add: s)
    show ?thesis
    proof (cases r)
      case (Ok u)
      with f1 hb have a: "h vis (ls, rs, x) = g vis (ls', rs', x1)" by simp
      have b: "tell_all vis (ds @ ds') x = tell_all vis ds' x1" by (simp add: t r Ok)
      show ?thesis unfolding a b by (rule g1)
    next
      case (Err e)
      then obtain ls1 rs1 where "f vis (ls, rs, x) = (Err e, ls1, rs1, x1)" using f1 by auto
      then show ?thesis by (simp add: hb t r Err)
    next
      case Panic
      then obtain ls1 rs1 where "f vis (ls, rs, x) = (Panic, ls1, rs1, x1)" using f1 by auto
      then show ?thesis by (simp add: hb t r Panic)
    qed
  qed
  then show ?thesis unfolding tells_def s prod.case by (intro allI)
qed

lemma tells_nothing: "(\<And>vis x. f vis (fst s, snd s, x) = (Ok (), fst s, snd s, x)) \<Longrightarrow> tells f s [] s"
  by (cases s) (simp add: tells_def tell_all_def)

lemma tells_one:
  assumes "\<And>vis x. f vis (fst s, snd s, x) = binds (tell vis d (fst s, snd s, x)) (\<lambda>_. g)"
    "\<And>x. g (fst s, snd s, x) = (Ok (), fst s', snd s', x)"
  shows "tells f s [d] s'"
proof -
  obtain ls rs ls' rs' where s: "s = (ls, rs)" "s' = (ls', rs')" by (metis surj_pair)
  have "case tell_all vis [d] x of (Ok _, x') \<Rightarrow> f vis (ls, rs, x) = (Ok (), ls', rs', x')
      | (r, x') \<Rightarrow> (\<exists>ls1 rs1. f vis (ls, rs, x) = (r, ls1, rs1, x'))" for vis x
  proof -
    obtain r x1 where "dv_delta vis d x = (r, x1)" by fastforce
    then show ?thesis using assms by (cases r) (simp_all add: s tell_all_def tell_def)
  qed
  then show ?thesis unfolding tells_def s prod.case by (intro allI)
qed

text \<open>One round of the first loop: one delta, which says of the blocks it covers how they compare.\<close>

lemma compare_round:
  assumes l: "stream_list ls = lm # L" and r: "stream_list rs = rm # R"
    and wl: "runs_from b (lm # L)" and wr: "runs_from b (rm # R)"
  obtains d ls' rs' e where "tells (compare_step :: 'x delta_visitor \<Rightarrow> _) (ls, rs) [d] (ls', rs')"
    "deltas_between b [d] e" "runs_from e (stream_list ls')" "runs_from e (stream_list rs')"
    "\<And>t. compare_blocks (mapped (lm # L) t) (mapped (rm # R) t) =
      (if delta_covers d t then Some (delta_block d t)
       else compare_blocks (mapped (stream_list ls') t) (mapped (stream_list rs') t))"
proof -
  let ?lb = "dm_thin_begin lm" and ?rb = "dm_thin_begin rm"
  have cur: "ms_current ls = Some lm" "ms_current rs = Some rm" using l r by (simp_all add: stream_list_Cons)
  have sizes: "unat ?lb + unat (dm_len lm) \<le> 2 ^ 64" "unat ?rb + unat (dm_len rm) \<le> 2 ^ 64"
    "b \<le> unat ?lb" "b \<le> unat ?rb" using wl wr by simp_all
  show thesis
  proof (cases "?lb < ?rb")
    case True
    let ?k = "min (dm_len lm) (?rb - ?lb)"
    let ?d = "LeftOnly \<lparr>dm_thin_begin = ?lb, dm_data_begin = dm_data_begin lm, dm_len = ?k\<rparr>"
    have k: "?k \<le> dm_len lm" "unat ?k \<le> unat ?rb - unat ?lb" "unat ?k \<le> unat (dm_len lm)" "unat ?lb < unat ?rb"
      using True by (auto simp: unat_sub min_def word_le_nat_alt word_less_nat_alt)
    note drop = drop_run [OF wl k(1)]
    obtain ls' where ls': "consume ?k ls = (Ok (), ls')" "stream_list ls' = drop_run ?k lm L" by (rule consume_list [OF l k(1)])
    have fits: "unat ?lb + unat ?k \<le> 2 ^ 64" "unat ?lb + unat ?k \<le> unat ?rb" using k sizes by linarith+
    have "mapped (rm # R) t = None" if "?lb \<le> t \<and> t - ?lb < ?k" for t
      using that fits wr unfolding range_nat [OF fits(1)] by (intro mapped_below [of "unat ?rb"]) simp_all
    then have "compare_blocks (mapped (lm # L) t) (mapped (rm # R) t) = (if delta_covers ?d t then Some (delta_block ?d t)
       else compare_blocks (mapped (stream_list ls') t) (mapped (stream_list rs) t))" for t
      using drop(2) [of t] ls'(2) r by (simp add: delta_covers_def)
    moreover have "tells (compare_step :: 'x delta_visitor \<Rightarrow> _) (ls, rs) [?d] (ls', rs)"
      using True ls'(1) by (intro tells_one [where g = "consume_left ?k"])
        (simp_all add: compare_step_def get_mapping_def cur Let_def consume_left_def)
    moreover have "runs_from (unat ?lb + unat ?k) (stream_list rs)" using wr fits(2) by (simp add: r)
    ultimately show thesis using drop(1) ls'(2) fits sizes by (intro that [of ?d ls' rs "unat ?lb + unat ?k"]) simp_all
  next
    case nl: False
    show thesis
    proof (cases "?rb < ?lb")
      case True
      let ?k = "min (dm_len rm) (?lb - ?rb)"
      let ?d = "RightOnly \<lparr>dm_thin_begin = ?rb, dm_data_begin = dm_data_begin rm, dm_len = ?k\<rparr>"
      have k: "?k \<le> dm_len rm" "unat ?k \<le> unat ?lb - unat ?rb" "unat ?k \<le> unat (dm_len rm)" "unat ?rb < unat ?lb"
        using True by (auto simp: unat_sub min_def word_le_nat_alt word_less_nat_alt)
      note drop = drop_run [OF wr k(1)]
      obtain rs' where rs': "consume ?k rs = (Ok (), rs')" "stream_list rs' = drop_run ?k rm R" by (rule consume_list [OF r k(1)])
      have fits: "unat ?rb + unat ?k \<le> 2 ^ 64" "unat ?rb + unat ?k \<le> unat ?lb" using k sizes by linarith+
      have "mapped (lm # L) t = None" if "?rb \<le> t \<and> t - ?rb < ?k" for t
        using that fits wl unfolding range_nat [OF fits(1)] by (intro mapped_below [of "unat ?lb"]) simp_all
      then have "compare_blocks (mapped (lm # L) t) (mapped (rm # R) t) = (if delta_covers ?d t then Some (delta_block ?d t)
         else compare_blocks (mapped (stream_list ls) t) (mapped (stream_list rs') t))" for t
        using drop(2) [of t] rs'(2) l by (simp add: delta_covers_def)
      moreover have "tells (compare_step :: 'x delta_visitor \<Rightarrow> _) (ls, rs) [?d] (ls, rs')"
        using True nl rs'(1) by (intro tells_one [where g = "consume_right ?k"])
          (simp_all add: compare_step_def get_mapping_def cur Let_def consume_right_def)
      moreover have "runs_from (unat ?rb + unat ?k) (stream_list ls)" using wl fits(2) by (simp add: l)
      ultimately show thesis using drop(1) rs'(2) fits sizes by (intro that [of ?d ls rs' "unat ?rb + unat ?k"]) simp_all
    next
      case False
      then have eq: "?rb = ?lb" using nl by simp
      let ?k = "min (dm_len lm) (dm_len rm)"
      let ?d = "if dm_data_begin lm = dm_data_begin rm
        then Same \<lparr>dm_thin_begin = ?lb, dm_data_begin = dm_data_begin lm, dm_len = ?k\<rparr>
        else Differ \<lparr>df_thin_begin = ?lb, df_left_data_begin = dm_data_begin lm, df_right_data_begin = dm_data_begin rm, df_len = ?k\<rparr>"
      have k: "?k \<le> dm_len lm" "?k \<le> dm_len rm" by simp_all
      note dl = drop_run [OF wl k(1)] and dr = drop_run [OF wr k(2), unfolded eq]
      obtain ls' where ls': "consume ?k ls = (Ok (), ls')" "stream_list ls' = drop_run ?k lm L" by (rule consume_list [OF l k(1)])
      obtain rs' where rs': "consume ?k rs = (Ok (), rs')" "stream_list rs' = drop_run ?k rm R" by (rule consume_list [OF r k(2)])
      have fits: "unat ?lb + unat ?k \<le> 2 ^ 64" using k(1) sizes(1) unfolding word_le_nat_alt by linarith
      have "compare_blocks (mapped (lm # L) t) (mapped (rm # R) t) = (if delta_covers ?d t then Some (delta_block ?d t)
         else compare_blocks (mapped (stream_list ls') t) (mapped (stream_list rs') t))" for t
        using dl(2) [of t] dr(2) [of t] ls'(2) rs'(2) by (auto simp: delta_covers_def eq)
      moreover have "tells (compare_step :: 'x delta_visitor \<Rightarrow> _) (ls, rs) [?d] (ls', rs')"
        using nl False ls'(1) rs'(1)
        by (intro tells_one [where g = "\<lambda>s. binds (consume_left ?k s) (\<lambda>_. consume_right ?k)"])
          (simp_all add: compare_step_def get_mapping_def cur Let_def consume_left_def consume_right_def)
      moreover have "deltas_between b [?d] (unat ?lb + unat ?k)" using fits sizes by simp
      ultimately show thesis using dl(1) dr(1) ls'(2) rs'(2) by (intro that [of ?d ls' rs' "unat ?lb + unat ?k"]) simp_all
    qed
  qed
qed

lemma deltas_between_append: "deltas_between b a m \<Longrightarrow> deltas_between m c e \<Longrightarrow> deltas_between b (a @ c) e"
proof (induction a arbitrary: b)
  case Nil
  then show ?case by (cases c) (auto simp: Let_def split: prod.splits)
next
  case (Cons d a)
  then show ?case by (auto simp: Let_def split: prod.splits)
qed

text \<open>A loop that compares what is left of the two streams.\<close>

definition compares :: "('x delta_visitor \<Rightarrow> 'x delta_state \<Rightarrow> (delta_error, unit) result \<times> 'x delta_state) \<Rightarrow>
    mapping_stream \<times> mapping_stream \<Rightarrow> nat \<Rightarrow> thin_delta list \<Rightarrow> mapping_stream \<times> mapping_stream \<Rightarrow> nat \<Rightarrow> bool" where
  "compares f s b ds s' e \<longleftrightarrow> tells f s ds s' \<and> deltas_between b ds e \<and>
     runs_from e (stream_list (fst s')) \<and> runs_from e (stream_list (snd s')) \<and>
     (\<forall>t. compare_blocks (mapped (stream_list (fst s)) t) (mapped (stream_list (snd s)) t) =
       (case delta_at ds t of Some d \<Rightarrow> Some d
        | None \<Rightarrow> compare_blocks (mapped (stream_list (fst s')) t) (mapped (stream_list (snd s')) t)))"

lemma compares_nothing:
  assumes "\<And>vis x. f vis (fst s, snd s, x) = (Ok (), fst s, snd s, x)"
    "runs_from b (stream_list (fst s))" "runs_from b (stream_list (snd s))"
  shows "compares f s b [] s b"
  using assms tells_nothing [of f s] by (simp add: compares_def)

lemma compares_binds:
  assumes f: "compares f s b ds s' m" and g: "compares g s' m ds' s'' e"
    and h: "\<And>vis x. h vis (fst s, snd s, x) = binds (f vis (fst s, snd s, x)) (\<lambda>_. g vis)"
  shows "compares h s b (ds @ ds') s'' e"
  unfolding compares_def
proof (intro conjI allI)
  have "tells f s ds s'" "tells g s' ds' s''" using f g by (simp_all add: compares_def)
  then show "tells h s (ds @ ds') s''" by (rule tells_binds) (rule h)
  show "deltas_between b (ds @ ds') e" using f g by (auto simp: compares_def intro: deltas_between_append)
  fix t
  show "compare_blocks (mapped (stream_list (fst s)) t) (mapped (stream_list (snd s)) t) =
      (case delta_at (ds @ ds') t of Some d \<Rightarrow> Some d
       | None \<Rightarrow> compare_blocks (mapped (stream_list (fst s'')) t) (mapped (stream_list (snd s'')) t))"
    using f g by (simp add: compares_def delta_at_append split: option.splits)
qed (use g in \<open>simp_all add: compares_def\<close>)

lemma both_loop_compares:
  "runs_from b (stream_list ls) \<Longrightarrow> runs_from b (stream_list rs) \<Longrightarrow>
    \<exists>ds ls' rs' e. compares (both_loop :: 'x delta_visitor \<Rightarrow> _) (ls, rs) b ds (ls', rs') e \<and> (stream_list ls' = [] \<or> stream_list rs' = [])"
proof (induction "stream_size ls + stream_size rs" arbitrary: ls rs b rule: less_induct)
  case less
  show ?case
  proof (cases "stream_list ls = [] \<or> stream_list rs = []")
    case True
    then have "compares (both_loop :: 'x delta_visitor \<Rightarrow> _) (ls, rs) b [] (ls, rs) b"
      using less.prems by (intro compares_nothing) (auto simp: both_loop.simps more_mappings_list)
    with True show ?thesis by blast
  next
    case False
    then obtain lm L rm R where lr: "stream_list ls = lm # L" "stream_list rs = rm # R"
      by (meson neq_Nil_conv)
    obtain d ls1 rs1 m where d: "tells (compare_step :: 'x delta_visitor \<Rightarrow> _) (ls, rs) [d] (ls1, rs1)" "deltas_between b [d] m"
      "runs_from m (stream_list ls1)" "runs_from m (stream_list rs1)"
      "\<And>t. compare_blocks (mapped (lm # L) t) (mapped (rm # R) t) = (if delta_covers d t then Some (delta_block d t)
         else compare_blocks (mapped (stream_list ls1) t) (mapped (stream_list rs1) t))"
      using compare_round [OF lr less.prems [unfolded lr]] by blast
    have step: "compares (compare_step :: 'x delta_visitor \<Rightarrow> _) (ls, rs) b [d] (ls1, rs1) m"
      unfolding compares_def using d lr by (auto simp: delta_at_Cons)
    let ?vis = "\<lparr>dv_superblock_b = undefined, dv_superblock_e = undefined, dv_diff_b = undefined, dv_diff_e = undefined,
        dv_delta = (\<lambda>_ x. (Ok Continue, x))\<rparr> :: 'x delta_visitor"
    have "compare_step ?vis (ls, rs, undefined) = (Ok (), ls1, rs1, undefined)"
      using d(1) [unfolded tells_def prod.case, THEN spec, THEN spec, of ?vis undefined] by (simp add: tell_all_def)
    from compare_step_size [OF this] have "stream_size ls1 + stream_size rs1 < stream_size ls + stream_size rs"
      by (simp add: delta_size_def)
    from less.hyps [OF this d(3,4)] obtain ds ls' rs' e where
      rest: "compares (both_loop :: 'x delta_visitor \<Rightarrow> _) (ls1, rs1) m ds (ls', rs') e" "stream_list ls' = [] \<or> stream_list rs' = []" by blast
    have "compares (both_loop :: 'x delta_visitor \<Rightarrow> _) (ls, rs) b ([d] @ ds) (ls', rs') e"
      by (rule compares_binds [OF step rest(1)]) (use lr in \<open>simp add: both_loop.simps [of _ "(ls, rs, _)"] more_mappings_list\<close>)
    with rest(2) show ?thesis by blast
  qed
qed

lemma left_loop_compares:
  "runs_from b (stream_list ls) \<Longrightarrow> stream_list rs = [] \<Longrightarrow>
    \<exists>ds ls' e. compares (left_loop :: 'x delta_visitor \<Rightarrow> _) (ls, rs) b ds (ls', rs) e \<and> stream_list ls' = []"
proof (induction "stream_list ls" arbitrary: ls b)
  case Nil
  then have "compares (left_loop :: 'x delta_visitor \<Rightarrow> _) (ls, rs) b [] (ls, rs) b"
    by (intro compares_nothing) (auto simp: left_loop.simps more_mappings_list)
  with Nil show ?case by metis
next
  case (Cons m ms)
  have l: "stream_list ls = m # ms" using Cons.hyps(2) by simp
  have cur: "ms_current ls = Some m" using l by (simp add: stream_list_Cons)
  obtain ls1 where ls1: "consume (dm_len m) ls = (Ok (), ls1)" "stream_list ls1 = ms"
    using consume_list [OF l order_refl] by (auto simp: drop_run_def)
  let ?e = "unat (dm_thin_begin m) + unat (dm_len m)"
  have w: "runs_from b (m # ms)" using Cons.prems(1) l by simp
  have "tells (left_step :: 'x delta_visitor \<Rightarrow> _) (ls, rs) [LeftOnly m] (ls1, rs)"
    using ls1(1) by (intro tells_one [where g = "consume_left (dm_len m)"])
      (simp_all add: left_step_def get_mapping_def cur consume_left_def)
  moreover have "compare_blocks (mapped (m # ms) t) None = (if delta_covers (LeftOnly m) t then Some (delta_block (LeftOnly m) t)
      else compare_blocks (mapped ms t) None)" for t
    by (simp add: mapped_Cons covers_def delta_covers_def)
  ultimately have step: "compares (left_step :: 'x delta_visitor \<Rightarrow> _) (ls, rs) b [LeftOnly m] (ls1, rs) ?e"
    using w ls1(2) l Cons.prems(2) by (auto simp: compares_def delta_at_Cons)
  have "runs_from ?e (stream_list ls1)" using w ls1(2) by simp
  from Cons.hyps(1) [OF ls1(2) [symmetric] this Cons.prems(2)] obtain ds ls' e where
    rest: "compares (left_loop :: 'x delta_visitor \<Rightarrow> _) (ls1, rs) ?e ds (ls', rs) e" "stream_list ls' = []" by blast
  have "compares (left_loop :: 'x delta_visitor \<Rightarrow> _) (ls, rs) b ([LeftOnly m] @ ds) (ls', rs) e"
    by (rule compares_binds [OF step rest(1)]) (simp add: left_loop.simps [of _ "(ls, rs, _)"] more_mappings_list l)
  with rest(2) show ?case by blast
qed

lemma right_loop_compares:
  "runs_from b (stream_list rs) \<Longrightarrow> stream_list ls = [] \<Longrightarrow>
    \<exists>ds rs' e. compares (right_loop :: 'x delta_visitor \<Rightarrow> _) (ls, rs) b ds (ls, rs') e \<and> stream_list rs' = []"
proof (induction "stream_list rs" arbitrary: rs b)
  case Nil
  then have "compares (right_loop :: 'x delta_visitor \<Rightarrow> _) (ls, rs) b [] (ls, rs) b"
    by (intro compares_nothing) (auto simp: right_loop.simps more_mappings_list)
  with Nil show ?case by metis
next
  case (Cons m ms)
  have r: "stream_list rs = m # ms" using Cons.hyps(2) by simp
  have cur: "ms_current rs = Some m" using r by (simp add: stream_list_Cons)
  obtain rs1 where rs1: "consume (dm_len m) rs = (Ok (), rs1)" "stream_list rs1 = ms"
    using consume_list [OF r order_refl] by (auto simp: drop_run_def)
  let ?e = "unat (dm_thin_begin m) + unat (dm_len m)"
  have w: "runs_from b (m # ms)" using Cons.prems(1) r by simp
  have "tells (right_step :: 'x delta_visitor \<Rightarrow> _) (ls, rs) [RightOnly m] (ls, rs1)"
    using rs1(1) by (intro tells_one [where g = "consume_right (dm_len m)"])
      (simp_all add: right_step_def get_mapping_def cur consume_right_def)
  moreover have "compare_blocks None (mapped (m # ms) t) = (if delta_covers (RightOnly m) t then Some (delta_block (RightOnly m) t)
      else compare_blocks None (mapped ms t))" for t
    by (simp add: mapped_Cons covers_def delta_covers_def)
  ultimately have step: "compares (right_step :: 'x delta_visitor \<Rightarrow> _) (ls, rs) b [RightOnly m] (ls, rs1) ?e"
    using w rs1(2) r Cons.prems(2) by (auto simp: compares_def delta_at_Cons)
  have "runs_from ?e (stream_list rs1)" using w rs1(2) by simp
  from Cons.hyps(1) [OF rs1(2) [symmetric] this Cons.prems(2)] obtain ds rs' e where
    rest: "compares (right_loop :: 'x delta_visitor \<Rightarrow> _) (ls, rs1) ?e ds (ls, rs') e" "stream_list rs' = []" by blast
  have "compares (right_loop :: 'x delta_visitor \<Rightarrow> _) (ls, rs) b ([RightOnly m] @ ds) (ls, rs') e"
    by (rule compares_binds [OF step rest(1)]) (simp add: right_loop.simps [of _ "(ls, rs, _)"] more_mappings_list r)
  with rest(2) show ?case by blast
qed

text \<open>The whole comparison.\<close>

lemma dump_delta_compares:
  assumes "runs_from 0 left" "runs_from 0 right"
  shows "\<exists>ds e. (\<forall>vis x. dump_delta_mappings left right vis x = tell_all (vis :: 'x delta_visitor) ds x) \<and> deltas_between 0 ds e \<and>
    (\<forall>t. delta_at ds t = compare_blocks (mapped left t) (mapped right t))"
proof -
  let ?s = "(stream_new left, stream_new right)"
  obtain ds1 ls1 rs1 e1 where b: "compares (both_loop :: 'x delta_visitor \<Rightarrow> _) ?s 0 ds1 (ls1, rs1) e1"
    "stream_list ls1 = [] \<or> stream_list rs1 = []"
    using both_loop_compares [of 0 "stream_new left" "stream_new right"] assms by (auto simp: stream_new_def)
  then have w: "runs_from e1 (stream_list ls1)" "runs_from e1 (stream_list rs1)" by (simp_all add: compares_def)
  have "\<exists>ds ls2 e2. compares (left_loop :: 'x delta_visitor \<Rightarrow> _) (ls1, rs1) e1 ds (ls2, rs1) e2 \<and> stream_list ls2 = []"
  proof (cases "stream_list rs1 = []")
    case True
    with left_loop_compares w show ?thesis by blast
  next
    case False
    with b(2) have "stream_list ls1 = []" by simp
    moreover from this have "compares (left_loop :: 'x delta_visitor \<Rightarrow> _) (ls1, rs1) e1 [] (ls1, rs1) e1"
      using w by (intro compares_nothing) (auto simp: left_loop.simps more_mappings_list)
    ultimately show ?thesis by blast
  qed
  then obtain ds2 ls2 e2 where l: "compares (left_loop :: 'x delta_visitor \<Rightarrow> _) (ls1, rs1) e1 ds2 (ls2, rs1) e2"
    "stream_list ls2 = []" by blast
  then have "runs_from e2 (stream_list rs1)" by (simp add: compares_def)
  from right_loop_compares [OF this l(2)] obtain ds3 rs3 e3 where
    r: "compares (right_loop :: 'x delta_visitor \<Rightarrow> _) (ls2, rs1) e2 ds3 (ls2, rs3) e3" "stream_list rs3 = []" by blast
  let ?lr = "\<lambda>(vis :: 'x delta_visitor) s. binds (left_loop vis s) (\<lambda>_. right_loop vis)"
  have lr: "compares ?lr (ls1, rs1) e1 (ds2 @ ds3) (ls2, rs3) e3" by (rule compares_binds [OF l(1) r(1)]) simp
  let ?all = "\<lambda>(vis :: 'x delta_visitor) s. binds (both_loop vis s) (\<lambda>_ s. ?lr vis s)"
  have all: "compares ?all ?s 0 (ds1 @ ds2 @ ds3) (ls2, rs3) e3" by (rule compares_binds [OF b(1) lr]) simp
  have "dump_delta_mappings left right vis x = tell_all vis (ds1 @ ds2 @ ds3) x" for vis :: "'x delta_visitor" and x
  proof -
    have "case tell_all vis (ds1 @ ds2 @ ds3) x of
        (Ok _, x') \<Rightarrow> ?all vis (stream_new left, stream_new right, x) = (Ok (), ls2, rs3, x')
      | (r, x') \<Rightarrow> (\<exists>ls1 rs1. ?all vis (stream_new left, stream_new right, x) = (r, ls1, rs1, x'))"
      by (rule all [unfolded compares_def tells_def prod.case, THEN conjunct1, THEN spec, THEN spec])
    then show ?thesis unfolding dump_delta_mappings_def by (cases "tell_all vis (ds1 @ ds2 @ ds3) x") (auto split: result.splits)
  qed
  moreover have "\<forall>t. delta_at (ds1 @ ds2 @ ds3) t = compare_blocks (mapped left t) (mapped right t)"
    using all l(2) r(2) by (auto simp: compares_def stream_new_def split: option.splits)
  ultimately show ?thesis using all unfolding compares_def by blast
qed

section \<open>The runs of a device\<close>

text \<open>Runs between \<open>b\<close> and \<open>e\<close>.\<close>

fun runs_between :: "nat \<Rightarrow> data_mapping list \<Rightarrow> nat \<Rightarrow> bool" where
  "runs_between b [] e \<longleftrightarrow> b \<le> e"
| "runs_between b (m # ms) e \<longleftrightarrow> b \<le> unat (dm_thin_begin m) \<and> unat (dm_thin_begin m) + unat (dm_len m) \<le> e \<and>
     runs_between (unat (dm_thin_begin m) + unat (dm_len m)) ms e"

lemma runs_between_le: "runs_between b ms e \<Longrightarrow> b \<le> e"
  by (cases ms) auto

lemma runs_between_from: "runs_between b ms e \<Longrightarrow> e \<le> 2 ^ 64 \<Longrightarrow> runs_from b ms"
  by (induction ms arbitrary: b) auto

lemma runs_between_append: "runs_between b (xs @ ys) e \<longleftrightarrow> (\<exists>m. runs_between b xs m \<and> m \<le> e \<and> runs_between m ys e)"
proof (induction xs arbitrary: b)
  case Nil
  show ?case using runs_between_le [of b ys e] by (cases ys) (auto intro: order_trans)
next
  case (Cons x xs)
  show ?case unfolding append_Cons runs_between.simps Cons.IH
    by (meson order_trans runs_between_le)
qed

lemma runs_between_mono: "runs_between b ms e \<Longrightarrow> e \<le> e' \<Longrightarrow> runs_between b ms e'"
  by (induction ms arbitrary: b) auto

lemma mapped_append: "mapped (xs @ ys) t = (case mapped xs t of None \<Rightarrow> mapped ys t | Some d \<Rightarrow> Some d)"
  by (induction xs) (simp_all add: mapped_Cons)

lemma mapped_above: "runs_between b ms e \<Longrightarrow> e \<le> unat t \<Longrightarrow> mapped ms t = None"
proof (induction ms arbitrary: b)
  case (Cons m ms)
  then have "mapped ms t = None" "unat (dm_thin_begin m) + unat (dm_len m) \<le> unat t" by auto
  moreover from this have "\<not> covers m t"
    unfolding covers_def by (subst range_nat) (use unat_lt2p [of t] in simp_all)
  ultimately show ?case by (simp add: mapped_Cons)
qed simp

lemma mapped_upd: "mapped ms k = None \<Longrightarrow> (case mapped ms t of None \<Rightarrow> if t = k then Some d else None | Some d \<Rightarrow> Some d) =
    (if t = k then Some d else mapped ms t)"
  by (auto split: option.splits)

lemma covers_single: "covers \<lparr>dm_thin_begin = k, dm_data_begin = d, dm_len = 1\<rparr> t \<longleftrightarrow> t = k"
  unfolding covers_def using range_nat [of k 1 t] unat_lt2p [of k] by (auto simp: word_unat_eq_iff)

lemma recorder_fold:
  assumes "sorted_wrt (<) (map fst es)" "length es < 2 ^ 64"
  defines "r \<equiv> fold recorder_next es recorder_new"
  shows "runs_between 0 (recorder_complete r) (case es of [] \<Rightarrow> 0 | _ \<Rightarrow> Suc (unat (fst (last es)))) \<and>
    (\<forall>m. mr_builder r = Some m \<longrightarrow> unat (dm_len m) \<le> length es) \<and>
    (\<forall>t. mapped (recorder_complete r) t = map_option bt_block (map_of es t))"
  using assms(1,2) unfolding r_def
proof (induction es rule: rev_induct)
  case Nil
  then show ?case by (simp add: recorder_new_def recorder_complete_def recorder_push_def run_complete_def)
next
  case (snoc kv es)
  obtain k v where kv: "kv = (k, v)" by fastforce
  define r where "r = fold recorder_next es recorder_new"
  define new where "new = \<lparr>dm_thin_begin = k, dm_data_begin = bt_block v, dm_len = 1\<rparr>"
  have below: "\<forall>k' \<in> fst ` set es. k' < k" and sorted: "sorted_wrt (<) (map fst es)"
    using snoc.prems(1) by (auto simp: kv sorted_wrt_append)
  note ih = snoc.IH [OF sorted, folded r_def]
  have ih1: "runs_between 0 (recorder_complete r) (unat k)"
  proof (cases es)
    case (Cons e es')
    then have "fst (last es) < k" using below last_in_set [of es] by blast
    then show ?thesis using ih snoc.prems(2) by (auto simp: Cons word_less_nat_alt elim: runs_between_mono)
  qed (use ih in \<open>simp add: runs_between_mono [of 0 _ 0]\<close>)
  have ih2: "unat (dm_len m) \<le> length es" if "mr_builder r = Some m" for m using ih that snoc.prems(2) by simp
  have ih3: "mapped (recorder_complete r) t = map_option bt_block (map_of es t)" for t using ih snoc.prems(2) by simp
  have fresh: "map_of es k = None" using below by (metis map_of_eq_None_iff order_less_irrefl)
  have none: "mapped (recorder_complete r) k = None" using mapped_above [OF ih1 order_refl] .
  have goal: ?case
    if c: "runs_between 0 (recorder_complete (recorder_next (k, v) r)) (Suc (unat k))"
      "\<And>m. mr_builder (recorder_next (k, v) r) = Some m \<Longrightarrow> unat (dm_len m) \<le> Suc (length es)"
      "\<And>t. mapped (recorder_complete (recorder_next (k, v) r)) t =
        (if t = k then Some (bt_block v) else mapped (recorder_complete r) t)"
  proof -
    have "map_of (es @ [(k, v)]) t = (if t = k then Some v else map_of es t)" for t
      using fresh by (auto simp: map_add_def split: option.splits)
    with c(3) ih3 have "mapped (recorder_complete (recorder_next (k, v) r)) t = map_option bt_block (map_of (es @ [(k, v)]) t)" for t
      by simp
    moreover have "(case es @ [(k, v)] of [] \<Rightarrow> 0 | _ \<Rightarrow> Suc (unat (fst (last (es @ [(k, v)]))))) = Suc (unat k)"
      by (cases es) simp_all
    ultimately show ?thesis using c(1,2) unfolding kv fold_append comp_def r_def [symmetric] by simp
  qed
  consider (more) m where "mr_builder r = Some m" "dm_thin_begin m + dm_len m = k" "dm_data_begin m + dm_len m = bt_block v"
    | (other) "recorder_complete (recorder_next (k, v) r) = recorder_complete r @ [new]" "mr_builder (recorder_next (k, v) r) = Some new"
  proof (cases "\<exists>m. mr_builder r = Some m \<and> dm_thin_begin m + dm_len m = k \<and> dm_data_begin m + dm_len m = bt_block v")
    case False
    then have "run_next k (bt_block v) (mr_builder r) = (mr_builder r, Some new)"
      by (cases "mr_builder r") (simp_all add: run_next_def new_def)
    then have "recorder_complete (recorder_next (k, v) r) = recorder_complete r @ [new]" "mr_builder (recorder_next (k, v) r) = Some new"
      by (simp_all add: recorder_next_def recorder_push_def recorder_complete_def run_complete_def)
    then show thesis by (rule other)
  qed (use more in blast)
  then show ?case
  proof cases
    case more
    let ?m' = "m\<lparr>dm_len := dm_len m + 1\<rparr>"
    have l: "unat (dm_len m + 1) = Suc (unat (dm_len m))"
      using ih2 [OF more(1)] snoc.prems(2) by (intro trans [OF unat_plus_no_overflow]) simp_all
    have c: "recorder_complete r = mr_mappings r @ [m]" "recorder_complete (recorder_next (k, v) r) = mr_mappings r @ [?m']"
      "mr_builder (recorder_next (k, v) r) = Some ?m'"
      using more by (simp_all add: recorder_next_def recorder_push_def recorder_complete_def run_complete_def run_next_def Let_def)
    from ih1 obtain b where b: "runs_between 0 (mr_mappings r) b" "b \<le> unat (dm_thin_begin m)"
      "unat (dm_thin_begin m) + unat (dm_len m) \<le> unat k" by (auto simp: c(1) runs_between_append)
    have k: "unat k = unat (dm_thin_begin m) + unat (dm_len m)"
      using b(3) unat_lt2p [of k] unfolding more(2) [symmetric] by (intro unat_plus_no_overflow) (simp add: more(2))
    have nat: "unat (dm_thin_begin m) + unat (dm_len m) \<le> 2 ^ 64" "unat (dm_thin_begin m) + unat (dm_len m + 1) \<le> 2 ^ 64"
      using k l unat_lt2p [of k] by simp_all
    have cov: "covers ?m' t \<longleftrightarrow> covers m t \<or> t = k" for t
      using range_nat [OF nat(1), of t] range_nat [OF nat(2), of t] k l by (auto simp: covers_def word_unat_eq_iff)
    have at: "dm_data_begin m + (k - dm_thin_begin m) = bt_block v" using more(2,3) by (simp add: add_diff_eq flip: more(2))
    show ?thesis
    proof (rule goal)
      show "runs_between 0 (recorder_complete (recorder_next (k, v) r)) (Suc (unat k))"
        using b k l by (auto simp: c runs_between_append)
      show "unat (dm_len x) \<le> Suc (length es)" if "mr_builder (recorder_next (k, v) r) = Some x" for x
        using that ih2 [OF more(1)] l by (auto simp: c)
      show "mapped (recorder_complete (recorder_next (k, v) r)) t = (if t = k then Some (bt_block v) else mapped (recorder_complete r) t)" for t
        using none at by (auto simp: c mapped_append mapped_Cons cov split: option.splits if_splits)
    qed
  next
    case other
    show ?thesis
    proof (rule goal)
      show "runs_between 0 (recorder_complete (recorder_next (k, v) r)) (Suc (unat k))"
        using ih1 by (auto simp: other runs_between_append new_def)
      show "unat (dm_len x) \<le> Suc (length es)" if "mr_builder (recorder_next (k, v) r) = Some x" for x
        using that by (auto simp: other new_def)
      show "mapped (recorder_complete (recorder_next (k, v) r)) t = (if t = k then Some (bt_block v) else mapped (recorder_complete r) t)" for t
        using none by (auto simp: other mapped_append mapped_Cons covers_single new_def split: option.splits)
    qed
  qed
qed

lemma quiet_recorder: "quiet recorder_visitor (\<lambda>ks vs. fold recorder_next (zip ks vs))"
  by (simp add: quiet_def recorder_visitor_def)

lemma get_mappings_wtree:
  assumes "bitset_laws bs" "unat (en_nr_blocks e) < 2 ^ 63"
    and tree: "wtree crc32c (engine_rd e) block_time_codec False True n root blks lvs" and len: "length (leaf_pairs lvs) < 2 ^ 64"
  obtains ms where "get_mappings crc32c bs text (core_reader e) root = Some (Ok ms)" "runs_from 0 ms"
    "\<And>t. \<exists>v. btree_lookup e block_time_codec root t = Some (Ok v) \<and> mapped ms t = map_option bt_block v"
proof -
  let ?r = "fold recorder_next (leaf_pairs lvs) recorder_new"
  note btree = wtree_btree [OF tree]
  note spec = recorder_fold [OF btree_sorted [OF btree] len]
  have "get_mappings crc32c bs text (core_reader e) root = Some (Ok (recorder_complete ?r))"
    unfolding get_mappings_def collect_wtree [OF assms(1-3) quiet_recorder] by (simp add: fold_leaves_pairs)
  moreover have "Suc (unat k) \<le> 2 ^ 64" for k :: u64 using unat_lt2p [of k] by simp
  then have "runs_from 0 (recorder_complete ?r)"
    using spec by (intro runs_between_from [of _ _ "case leaf_pairs lvs of [] \<Rightarrow> 0 | _ \<Rightarrow> Suc (unat (fst (last (leaf_pairs lvs))))"])
      (auto split: list.split)
  ultimately show thesis using spec lookup_loop_btree [OF btree] by (intro that) (auto simp: btree_lookup_def)
qed

section \<open>Property\<close>

definition report_diff :: "'x delta_visitor \<Rightarrow> ir_superblock \<Rightarrow> snap \<Rightarrow> snap \<Rightarrow> thin_delta list \<Rightarrow> 'x \<Rightarrow>
    (delta_error, unit) result \<times> 'x" where
  "report_diff vis sb snap1 snap2 ds x =
    binds (dv_superblock_b vis sb x) (\<lambda>_ x. binds (dv_diff_b vis snap1 snap2 x) (\<lambda>_ x. binds (tell_all vis ds x) (\<lambda>_ x.
    binds (dv_diff_e vis x) (\<lambda>_ x. binds (dv_superblock_e vis x) (\<lambda>_ x. (Ok (), x))))))"

text \<open>C13: The comparison of two devices whose trees pass the checks of the walker, with the block mappings of both known
  by lookup, is complete and exact: the visitor is told a list of deltas that do not overlap, in ascending order, in
  which every thin block has the delta that its two lookups say, and a block with none is mapped in neither. It
  holds for every visitor, one that fails included.\<close>

theorem dump_diff_compares_lookups:
  assumes "bitset_laws bs" "unat (en_nr_blocks e) < 2 ^ 63"
    and "btree_to_map crc32c bs text u64_codec [] (core_reader e) False (ts_mapping_root sb) = Some (Ok roots)"
    and "snap_root 1 snap1 roots = Ok root1" "snap_root 2 snap2 roots = Ok root2"
    and "unpack_bytes sm_root_codec (ts_data_sm_root sb) = Ok data_root"
    and "wtree crc32c (engine_rd e) block_time_codec False True n1 root1 blks1 lvs1" "length (leaf_pairs lvs1) < 2 ^ 64"
    and "wtree crc32c (engine_rd e) block_time_codec False True n2 root2 blks2 lvs2" "length (leaf_pairs lvs2) < 2 ^ 64"
  shows "\<exists>ds lim. (\<forall>vis x. dump_diff crc32c bs text (core_reader e) (vis :: 'x delta_visitor) sb snap1 snap2 x =
       Some (report_diff vis (delta_superblock sb data_root) snap1 snap2 ds x)) \<and> deltas_between 0 ds lim \<and>
     (\<forall>t. \<exists>l r. btree_lookup e block_time_codec root1 t = Some (Ok l) \<and> btree_lookup e block_time_codec root2 t = Some (Ok r) \<and>
       delta_at ds t = compare_blocks (map_option bt_block l) (map_option bt_block r))"
proof -
  obtain ms1 where m1: "get_mappings crc32c bs text (core_reader e) root1 = Some (Ok ms1)" "runs_from 0 ms1"
    "\<And>t. \<exists>v. btree_lookup e block_time_codec root1 t = Some (Ok v) \<and> mapped ms1 t = map_option bt_block v"
    using get_mappings_wtree [OF assms(1,2,7,8)] by blast
  obtain ms2 where m2: "get_mappings crc32c bs text (core_reader e) root2 = Some (Ok ms2)" "runs_from 0 ms2"
    "\<And>t. \<exists>v. btree_lookup e block_time_codec root2 t = Some (Ok v) \<and> mapped ms2 t = map_option bt_block v"
    using get_mappings_wtree [OF assms(1,2,9,10)] by blast
  obtain ds lim where ds: "\<And>(vis :: 'x delta_visitor) x. dump_delta_mappings ms1 ms2 vis x = tell_all vis ds x"
    "deltas_between 0 ds lim" "\<And>t. delta_at ds t = compare_blocks (mapped ms1 t) (mapped ms2 t)"
    using dump_delta_compares [OF m1(2) m2(2)] by blast
  have "read_diff crc32c bs text (core_reader e) sb snap1 snap2 = Some (Ok (ms1, ms2, delta_superblock sb data_root))"
    using assms(3-6) by (simp add: read_diff_def m1(1) m2(1) tree_result_def)
  then have "dump_diff crc32c bs text (core_reader e) vis sb snap1 snap2 x =
      Some (report_diff vis (delta_superblock sb data_root) snap1 snap2 ds x)" for vis :: "'x delta_visitor" and x
    by (simp add: dump_diff_def report_diff_def ds(1))
  with ds(2,3) m1(3) m2(3) show ?thesis by (intro exI [of _ ds] exI [of _ lim]) (simp, metis)
qed

text \<open>A device with two thin devices, the trees of which are one leaf each.\<close>

lemma checked_block:
  assumes "value_codec c valid" "node_fits c valid nd" "ig \<or> node_strict nd r"
  defines "d \<equiv> pack_node c nd @ replicate (BLOCK_SIZE - length (pack_node c nd)) 0"
  shows "check_and_unpack_node sample_crc c (nh_block (get_header nd), d) ig r = Ok nd"
proof -
  have l: "length (pack_node c nd) \<le> 4096" using node_bytes [OF assms(1,2)] by blast
  have unpack: "unpack_node_raw c d ig r = Ok nd"
    using l by (intro unpack_pack_node [OF assms(1-3), where r = "replicate (BLOCK_SIZE - length (pack_node c nd)) 0"])
      (simp_all add: d_def BLOCK_SIZE_def)
  obtain rest where rest: "pack_node c nd = node_header_pack (get_header nd) @ rest" by (cases nd) simp_all
  have "length d = BLOCK_SIZE" using l by (simp add: d_def BLOCK_SIZE_def)
  then have "metadata_block_type sample_crc d = BT_NODE"
    by (simp add: metadata_block_type_def checksum_def sample_crc_def d_def rest Let_def node_header_pack_def csum_xor_defs)
  with unpack show ?thesis by (simp add: check_and_unpack_node_def verify_checksum_def)
qed

definition sample_root_leaf :: "u64 \<Rightarrow> u64 list \<Rightarrow> 'v list \<Rightarrow> 'v node" where
  "sample_root_leaf b ks vs = Leaf \<lparr>nh_block = b, nh_is_leaf = True, nh_nr_entries = word_of_nat (length ks),
     nh_max_entries = 252, nh_value_size = 8\<rparr> ks vs"

definition sample_leaf_block :: "'v codec \<Rightarrow> u64 \<Rightarrow> u64 list \<Rightarrow> 'v list \<Rightarrow> bytes" where
  "sample_leaf_block c b ks vs = (let d = pack_node c (sample_root_leaf b ks vs) in d @ replicate (BLOCK_SIZE - length d) 0)"

definition sample_bt :: "u64 \<Rightarrow> block_time" where
  "sample_bt b = \<lparr>bt_block = b, bt_time = 0\<rparr>"

definition sample_delta_engine :: engine where
  "sample_delta_engine = engine_new (\<lambda>b. if b = 1 then sample_leaf_block u64_codec 1 [1, 2] [2, 3]
     else if b = 2 then sample_leaf_block block_time_codec 2 [0, 1, 2] (map sample_bt [10, 11, 20])
     else sample_leaf_block block_time_codec 3 [1, 2, 5] (map sample_bt [11, 30, 50])) 4"

definition sample_delta_sb :: thin_superblock where
  "sample_delta_sb = \<lparr>ts_needs_check = False, ts_block = 0, ts_version = 2, ts_time = 3,
     ts_transaction_id = 4, ts_metadata_snap = 0, ts_data_sm_root = sm_root_pack \<lparr>sr_nr_blocks = 100, sr_nr_allocated = 5,
       sr_bitmap_root = 0, sr_ref_count_root = 0\<rparr> @ replicate 96 0, ts_metadata_sm_root = replicate 128 0,
     ts_mapping_root = 1, ts_details_root = 0, ts_data_block_size = 128, ts_nr_metadata_blocks = 4\<rparr>"

lemma sample_leaf_wtree:
  assumes "value_codec c valid" "disk_size c = 8" "length ks \<le> 252" "ks \<noteq> []" "length vs = length ks" "sorted_wrt (<) ks"
    "\<forall>v \<in> set vs. valid v" "rd b = Some (sample_leaf_block c b ks vs)"
  shows "wtree sample_crc rd c False True 0 b [b] [(ks, vs)]"
proof -
  let ?n = "sample_root_leaf b ks vs"
  have n: "unat (word_of_nat (length ks) :: u32) = length ks" using assms(3) by (intro unat_of_nat_eq) simp
  have le: "(word_of_nat (length ks) :: u32) \<le> 252" using assms(3) by (simp add: word_le_nat_alt n)
  have "node_fits c valid ?n" "node_strict ?n True"
    using assms n le by (simp_all add: node_fits_def node_ok_def sample_root_leaf_def node_strict_def divisible_by_3_def Let_def)
  from checked_block [OF assms(1) this(1)] this(2) show ?thesis
    by (intro wtree.leaf [where rd = rd and loc = b, OF assms(8)]) (simp_all add: sample_leaf_block_def sample_root_leaf_def Let_def)
qed

theorem dump_diff_compares_lookups_witness:
  "\<exists>ds lim. (\<forall>(vis :: nat delta_visitor) x. dump_diff sample_crc list_bitset (\<lambda>_. []) (core_reader sample_delta_engine) vis
       sample_delta_sb (DeviceId 1) (RootBlock 3) x =
       Some (report_diff vis (delta_superblock sample_delta_sb \<lparr>sr_nr_blocks = 100, sr_nr_allocated = 5,
       sr_bitmap_root = 0, sr_ref_count_root = 0\<rparr>) (DeviceId 1) (RootBlock 3) ds x)) \<and> deltas_between 0 ds lim"
proof -
  have rd: "engine_rd sample_delta_engine 1 = Some (sample_leaf_block u64_codec 1 [1, 2] [2, 3])"
    "engine_rd sample_delta_engine 2 = Some (sample_leaf_block block_time_codec 2 [0, 1, 2] (map sample_bt [10, 11, 20]))"
    "engine_rd sample_delta_engine 3 = Some (sample_leaf_block block_time_codec 3 [1, 2, 5] (map sample_bt [11, 30, 50]))"
    by (simp_all add: engine_rd_def sample_delta_engine_def engine_new_def)
  have size: "unat (en_nr_blocks sample_delta_engine) < 2 ^ 63" by (simp add: sample_delta_engine_def engine_new_def)
  have map_tree: "wtree sample_crc (engine_rd sample_delta_engine) u64_codec False True 0 1 [1] [([1, 2], [2, 3])]"
    by (rule sample_leaf_wtree [OF u64c.value_codec_axioms]) (simp_all add: rd u64_codec_def)
  have trees: "wtree sample_crc (engine_rd sample_delta_engine) block_time_codec False True 0 2 [2] [([0, 1, 2], map sample_bt [10, 11, 20])]"
    "wtree sample_crc (engine_rd sample_delta_engine) block_time_codec False True 0 3 [3] [([1, 2, 5], map sample_bt [11, 30, 50])]"
    by (rule sample_leaf_wtree [OF block_timec.value_codec_axioms];
        simp add: rd block_time_codec_def block_time_valid_def sample_bt_def)+
  have roots: "btree_to_map sample_crc list_bitset (\<lambda>_. []) u64_codec [] (core_reader sample_delta_engine) False
      (ts_mapping_root sample_delta_sb) = Some (Ok [1 \<mapsto> 2, 2 \<mapsto> 3])"
    using collect_wtree [OF bitset_laws_list size map_tree quiet_collectors(1)]
    by (simp add: btree_to_map_def sample_delta_sb_def)
  have root: "unpack_bytes sm_root_codec (ts_data_sm_root sample_delta_sb) = Ok \<lparr>sr_nr_blocks = 100, sr_nr_allocated = 5,
       sr_bitmap_root = 0, sr_ref_count_root = 0\<rparr>"
    using sm_rootc.unpack_pack by (simp add: sample_delta_sb_def unpack_bytes_def sm_root_codec_def)
  from dump_diff_compares_lookups [where 'x = nat, OF bitset_laws_list size roots _ _ root trees(1) _ trees(2),
      of "DeviceId 1" "RootBlock 3"]
  show ?thesis by (simp add: snap_root_def) blast
qed

end
