(* ===== verification/Delta_Xml.thy ===== *)
theory Delta_Xml
  imports Thin_Delta
begin

text \<open>
  The two visitors of \<open>src/thin/delta_visitor.rs\<close>, which write the deltas as XML. Both first merge deltas of one kind
  that touch; the simple one writes a tag for each run, the verbose one a range within a tag for the kind.
\<close>

section \<open>Merging deltas\<close>

type_synonym delta_run = "thin_delta option"

definition next_begin :: "data_mapping \<Rightarrow> u64" where
  "next_begin cur = dm_thin_begin cur + dm_len cur"

definition delta_next :: "thin_delta \<Rightarrow> delta_run \<Rightarrow> thin_delta option \<times> delta_run" where
  "delta_next d run =
    (case d of
       LeftOnly r \<Rightarrow> (case run of
           Some (LeftOnly cur) \<Rightarrow> if dm_thin_begin r = next_begin cur
             then (None, Some (LeftOnly (cur\<lparr>dm_len := dm_len cur + dm_len r\<rparr>))) else (run, Some d)
         | _ \<Rightarrow> (run, Some d))
     | RightOnly r \<Rightarrow> (case run of
           Some (RightOnly cur) \<Rightarrow> if dm_thin_begin r = next_begin cur
             then (None, Some (RightOnly (cur\<lparr>dm_len := dm_len cur + dm_len r\<rparr>))) else (run, Some d)
         | _ \<Rightarrow> (run, Some d))
     | Differ r \<Rightarrow> (case run of
           Some (Differ cur) \<Rightarrow> if df_thin_begin r = df_thin_begin cur + df_len cur
             then (None, Some (Differ (cur\<lparr>df_len := df_len cur + df_len r\<rparr>))) else (run, Some d)
         | _ \<Rightarrow> (run, Some d))
     | Same r \<Rightarrow> (case run of
           Some (Same cur) \<Rightarrow> if dm_thin_begin r = next_begin cur
             then (None, Some (Same (cur\<lparr>dm_len := dm_len cur + dm_len r\<rparr>))) else (run, Some d)
         | _ \<Rightarrow> (run, Some d)))"

definition delta_complete :: "delta_run \<Rightarrow> thin_delta option \<times> delta_run" where
  "delta_complete run = (run, None)"

section \<open>Events common to both\<close>

definition write_event :: "'w xml_writer \<Rightarrow> xml_event \<Rightarrow> 'w \<Rightarrow> (delta_error, unit) result \<times> 'w" where
  "write_event xw ev w = (case xw_write_event xw ev w of (r, w) \<Rightarrow>
     ((case r of Ok _ \<Rightarrow> Ok () | Err _ \<Rightarrow> Err DeltaXml | Panic \<Rightarrow> Panic), w))"

definition opt_attr :: "('a \<Rightarrow> string \<times> string) \<Rightarrow> 'a option \<Rightarrow> (string \<times> string) list" where
  "opt_attr f x = (case x of None \<Rightarrow> [] | Some a \<Rightarrow> [f a])"

definition delta_superblock_elem :: "ir_superblock \<Rightarrow> elem" where
  "delta_superblock_elem sb = \<lparr>el_name = ''superblock'', el_attrs =
     [mk_attr_str ''uuid'' (ir_uuid sb), mk_attr32 ''time'' (ir_time sb), mk_attr64 ''transaction'' (ir_transaction sb)] @
     opt_attr (mk_attr32 ''flags'') (ir_flags sb) @
     [mk_attr32 ''data_block_size'' (ir_data_block_size sb), mk_attr64 ''nr_data_blocks'' (ir_nr_data_blocks sb)] @
     opt_attr (mk_attr64 ''metadata_snap'') (ir_metadata_snap sb)\<rparr>"

definition write_superblock_b :: "'w xml_writer \<Rightarrow> ir_superblock \<Rightarrow> 'w \<Rightarrow> (delta_error, unit) result \<times> 'w" where
  "write_superblock_b xw sb = write_event xw (StartTag (delta_superblock_elem sb))"

definition write_superblock_e :: "'w xml_writer \<Rightarrow> 'w \<Rightarrow> (delta_error, unit) result \<times> 'w" where
  "write_superblock_e xw = write_event xw (EndTag ''superblock'')"

definition diff_elem :: "snap \<Rightarrow> snap \<Rightarrow> elem" where
  "diff_elem snap1 snap2 = \<lparr>el_name = ''diff'', el_attrs =
     [case snap1 of DeviceId dev_id \<Rightarrow> mk_attr64 ''left'' dev_id | RootBlock blocknr \<Rightarrow> mk_attr64 ''left_root'' blocknr,
      case snap2 of DeviceId dev_id \<Rightarrow> mk_attr64 ''right'' dev_id | RootBlock blocknr \<Rightarrow> mk_attr64 ''right_root'' blocknr]\<rparr>"

definition write_diff_b :: "'w xml_writer \<Rightarrow> snap \<Rightarrow> snap \<Rightarrow> 'w \<Rightarrow> (delta_error, unit) result \<times> 'w" where
  "write_diff_b xw snap1 snap2 = write_event xw (StartTag (diff_elem snap1 snap2))"

definition write_diff_e :: "'w xml_writer \<Rightarrow> 'w \<Rightarrow> (delta_error, unit) result \<times> 'w" where
  "write_diff_e xw = write_event xw (EndTag ''diff'')"

text \<open>\<open>?\<close> and then \<open>Ok(Visit::Continue)\<close>.\<close>

definition continue_after :: "('e, unit) result \<times> 's \<Rightarrow> ('e, visit) result \<times> 's" where
  "continue_after rs = binds rs (\<lambda>_ s. (Ok Continue, s))"

section \<open>\<open>SimpleXmlWriter\<close>\<close>

record 'w simple_xml =
  sx_w :: 'w
  sx_builder :: delta_run

definition simple_new :: "'w \<Rightarrow> 'w simple_xml" where
  "simple_new w = \<lparr>sx_w = w, sx_builder = None\<rparr>"

definition on_sx :: "('w \<Rightarrow> ('e, 'a) result \<times> 'w) \<Rightarrow> 'w simple_xml \<Rightarrow> ('e, 'a) result \<times> 'w simple_xml" where
  "on_sx f s = (case f (sx_w s) of (r, w) \<Rightarrow> (r, s\<lparr>sx_w := w\<rparr>))"

definition run_elem :: "string \<Rightarrow> u64 \<Rightarrow> u64 \<Rightarrow> elem" where
  "run_elem name begin_block len = \<lparr>el_name = name, el_attrs = [mk_attr64 ''begin'' begin_block, mk_attr64 ''length'' len]\<rparr>"

fun simple_elem :: "thin_delta \<Rightarrow> elem" where
  "simple_elem (LeftOnly r) = run_elem ''left_only'' (dm_thin_begin r) (dm_len r)"
| "simple_elem (RightOnly r) = run_elem ''right_only'' (dm_thin_begin r) (dm_len r)"
| "simple_elem (Differ r) = run_elem ''different'' (df_thin_begin r) (df_len r)"
| "simple_elem (Same r) = run_elem ''same'' (dm_thin_begin r) (dm_len r)"

definition simple_write_delta :: "'w xml_writer \<Rightarrow> thin_delta \<Rightarrow> 'w simple_xml \<Rightarrow> (delta_error, unit) result \<times> 'w simple_xml" where
  "simple_write_delta xw d = on_sx (write_event xw (EmptyTag (simple_elem d)))"

definition simple_write_run :: "'w xml_writer \<Rightarrow> thin_delta option \<times> delta_run \<Rightarrow> 'w simple_xml \<Rightarrow>
    (delta_error, unit) result \<times> 'w simple_xml" where
  "simple_write_run xw = (\<lambda>(run, b) s. case run of None \<Rightarrow> (Ok (), s\<lparr>sx_builder := b\<rparr>)
     | Some r \<Rightarrow> simple_write_delta xw r (s\<lparr>sx_builder := b\<rparr>))"

definition simple_visitor :: "'w xml_writer \<Rightarrow> 'w simple_xml delta_visitor" where
  "simple_visitor xw = \<lparr>
     dv_superblock_b = (\<lambda>sb s. continue_after (on_sx (write_superblock_b xw sb) s)),
     dv_superblock_e = (\<lambda>s. continue_after (on_sx (write_superblock_e xw) s)),
     dv_diff_b = (\<lambda>snap1 snap2 s. continue_after (on_sx (write_diff_b xw snap1 snap2) s)),
     dv_diff_e = (\<lambda>s. continue_after (binds (simple_write_run xw (delta_complete (sx_builder s)) s)
       (\<lambda>_. on_sx (write_diff_e xw)))),
     dv_delta = (\<lambda>d s. continue_after (simple_write_run xw (delta_next d (sx_builder s)) s))\<rparr>"

section \<open>\<open>VerboseXmlWriter\<close>\<close>

datatype delta_type = TLeftOnly | TRightOnly | TDiffer | TSame

record 'w verbose_xml =
  vx_w :: 'w
  vx_builder :: delta_run
  vx_current_type :: "delta_type option"

definition verbose_new :: "'w \<Rightarrow> 'w verbose_xml" where
  "verbose_new w = \<lparr>vx_w = w, vx_builder = None, vx_current_type = None\<rparr>"

definition on_vx :: "('w \<Rightarrow> ('e, 'a) result \<times> 'w) \<Rightarrow> 'w verbose_xml \<Rightarrow> ('e, 'a) result \<times> 'w verbose_xml" where
  "on_vx f s = (case f (vx_w s) of (r, w) \<Rightarrow> (r, s\<lparr>vx_w := w\<rparr>))"

definition type_tag :: "delta_type \<Rightarrow> string" where
  "type_tag typ = (case typ of TLeftOnly \<Rightarrow> ''left_only'' | TRightOnly \<Rightarrow> ''right_only'' | TDiffer \<Rightarrow> ''different''
     | TSame \<Rightarrow> ''same'')"

definition open_type_tag :: "'w xml_writer \<Rightarrow> delta_type \<Rightarrow> 'w verbose_xml \<Rightarrow> (delta_error, unit) result \<times> 'w verbose_xml" where
  "open_type_tag xw typ = on_vx (write_event xw (StartTag \<lparr>el_name = type_tag typ, el_attrs = []\<rparr>))"

definition close_type_tag :: "'w xml_writer \<Rightarrow> delta_type \<Rightarrow> 'w verbose_xml \<Rightarrow> (delta_error, unit) result \<times> 'w verbose_xml" where
  "close_type_tag xw typ = on_vx (write_event xw (EndTag (type_tag typ)))"

definition update_type_tag :: "'w xml_writer \<Rightarrow> delta_type \<Rightarrow> 'w verbose_xml \<Rightarrow> (delta_error, unit) result \<times> 'w verbose_xml" where
  "update_type_tag xw new_type s = (case vx_current_type s of
     Some current_type \<Rightarrow>
       if new_type \<noteq> current_type
       then binds (close_type_tag xw current_type s) (\<lambda>_ s. open_type_tag xw new_type (s\<lparr>vx_current_type := Some new_type\<rparr>))
       else (Ok (), s)
   | None \<Rightarrow> open_type_tag xw new_type (s\<lparr>vx_current_type := Some new_type\<rparr>))"

definition delta_range_elem :: "data_mapping \<Rightarrow> elem" where
  "delta_range_elem m = \<lparr>el_name = ''range'', el_attrs = [mk_attr64 ''begin'' (dm_thin_begin m),
     mk_attr64 ''data_begin'' (dm_data_begin m), mk_attr64 ''length'' (dm_len m)]\<rparr>"

definition diff_range_elem :: "diff_mapping \<Rightarrow> elem" where
  "diff_range_elem m = \<lparr>el_name = ''range'', el_attrs = [mk_attr64 ''begin'' (df_thin_begin m),
     mk_attr64 ''left_data_begin'' (df_left_data_begin m), mk_attr64 ''right_data_begin'' (df_right_data_begin m),
     mk_attr64 ''length'' (df_len m)]\<rparr>"

definition write_range :: "'w xml_writer \<Rightarrow> delta_type \<Rightarrow> elem \<Rightarrow> 'w verbose_xml \<Rightarrow> (delta_error, unit) result \<times> 'w verbose_xml" where
  "write_range xw typ e s = binds (update_type_tag xw typ s) (\<lambda>_. on_vx (write_event xw (EmptyTag e)))"

fun verbose_write_delta :: "'w xml_writer \<Rightarrow> thin_delta \<Rightarrow> 'w verbose_xml \<Rightarrow> (delta_error, unit) result \<times> 'w verbose_xml" where
  "verbose_write_delta xw (LeftOnly m) s = write_range xw TLeftOnly (delta_range_elem m) s"
| "verbose_write_delta xw (RightOnly m) s = write_range xw TRightOnly (delta_range_elem m) s"
| "verbose_write_delta xw (Differ m) s = write_range xw TDiffer (diff_range_elem m) s"
| "verbose_write_delta xw (Same m) s = write_range xw TSame (delta_range_elem m) s"

definition verbose_write_run :: "'w xml_writer \<Rightarrow> thin_delta option \<times> delta_run \<Rightarrow> 'w verbose_xml \<Rightarrow>
    (delta_error, unit) result \<times> 'w verbose_xml" where
  "verbose_write_run xw = (\<lambda>(run, b) s. case run of None \<Rightarrow> (Ok (), s\<lparr>vx_builder := b\<rparr>)
     | Some r \<Rightarrow> verbose_write_delta xw r (s\<lparr>vx_builder := b\<rparr>))"

definition close_last_tag :: "'w xml_writer \<Rightarrow> 'w verbose_xml \<Rightarrow> (delta_error, unit) result \<times> 'w verbose_xml" where
  "close_last_tag xw s = (case vx_current_type s of None \<Rightarrow> (Ok (), s)
     | Some typ \<Rightarrow> close_type_tag xw typ (s\<lparr>vx_current_type := None\<rparr>))"

definition verbose_visitor :: "'w xml_writer \<Rightarrow> 'w verbose_xml delta_visitor" where
  "verbose_visitor xw = \<lparr>
     dv_superblock_b = (\<lambda>sb s. continue_after (on_vx (write_superblock_b xw sb) s)),
     dv_superblock_e = (\<lambda>s. continue_after (on_vx (write_superblock_e xw) s)),
     dv_diff_b = (\<lambda>snap1 snap2 s. continue_after (on_vx (write_diff_b xw snap1 snap2) s)),
     dv_diff_e = (\<lambda>s. continue_after (binds (verbose_write_run xw (delta_complete (vx_builder s)) s) (\<lambda>_ s.
       binds (close_last_tag xw s) (\<lambda>_. on_vx (write_diff_e xw))))),
     dv_delta = (\<lambda>d s. continue_after (verbose_write_run xw (delta_next d (vx_builder s)) s))\<rparr>"

section \<open>What is written\<close>

text \<open>The runs of a list of deltas, with an open run before them.\<close>

definition opt_list :: "'a option \<Rightarrow> 'a list" where
  "opt_list x = (case x of None \<Rightarrow> [] | Some a \<Rightarrow> [a])"

lemma opt_list_simps [simp]: "opt_list None = []" "opt_list (Some a) = [a]"
  by (simp_all add: opt_list_def)

fun merged_runs :: "delta_run \<Rightarrow> thin_delta list \<Rightarrow> thin_delta list" where
  "merged_runs b [] = opt_list b"
| "merged_runs b (d # ds) = (case delta_next d b of (r, b) \<Rightarrow> opt_list r @ merged_runs b ds)"

fun kind_of :: "thin_delta \<Rightarrow> delta_type" where
  "kind_of (LeftOnly _) = TLeftOnly"
| "kind_of (RightOnly _) = TRightOnly"
| "kind_of (Differ _) = TDiffer"
| "kind_of (Same _) = TSame"

fun block_kind :: "block_delta \<Rightarrow> delta_type" where
  "block_kind (BLeft _) = TLeftOnly"
| "block_kind (BRight _) = TRightOnly"
| "block_kind (BDiffer _ _) = TDiffer"
| "block_kind (BSame _) = TSame"

definition kind_at :: "thin_delta list \<Rightarrow> u64 \<Rightarrow> delta_type option" where
  "kind_at ds t = map_option block_kind (delta_at ds t)"

text \<open>\<open>d\<close> goes on where \<open>r\<close> ends.\<close>

definition touches :: "thin_delta \<Rightarrow> thin_delta \<Rightarrow> bool" where
  "touches r d \<longleftrightarrow> kind_of r = kind_of d \<and> fst (delta_range d) = fst (delta_range r) + snd (delta_range r)"

lemma kind_at_simps [simp]:
  "kind_at [] t = None" "kind_at (d # ds) t = (if delta_covers d t then Some (kind_of d) else kind_at ds t)"
  by (cases d; simp add: kind_at_def delta_at_Cons)+

lemma delta_next_cases:
  obtains (merge) r r' where "b = Some r" "touches r d" "delta_next d b = (None, Some r')" "kind_of r' = kind_of r"
      "delta_range r' = (fst (delta_range r), snd (delta_range r) + snd (delta_range d))"
  | (new) "delta_next d b = (b, Some d)" "\<And>r. b = Some r \<Longrightarrow> \<not> touches r d"
proof (cases "\<exists>r. b = Some r \<and> touches r d")
  case True
  then obtain r where r: "b = Some r" "touches r d" by blast
  then have "\<exists>r'. delta_next d b = (None, Some r') \<and> kind_of r' = kind_of r \<and>
      delta_range r' = (fst (delta_range r), snd (delta_range r) + snd (delta_range d))"
    by (cases r; cases d) (simp_all add: touches_def delta_next_def next_begin_def)
  with r merge show thesis by blast
next
  case False
  then have "delta_next d b = (b, Some d)"
    by (cases d; cases b; simp add: delta_next_def; rename_tac r; case_tac r) (auto simp: touches_def next_begin_def)
  with False new show thesis by blast
qed

lemma merged_runs_head:
  "\<exists>r rs. merged_runs (Some d) ds = r # rs \<and> kind_of r = kind_of d \<and> fst (delta_range r) = fst (delta_range d)"
proof (induction ds arbitrary: d)
  case (Cons d' ds)
  show ?case
  proof (cases rule: delta_next_cases [of "Some d" d'])
    case (merge r r')
    with Cons [of r'] show ?thesis by auto
  qed auto
qed simp

lemma merged_runs_apart: "successively (\<lambda>r d. \<not> touches r d) (merged_runs b ds)"
proof (induction ds arbitrary: b)
  case Nil
  show ?case by (cases b) simp_all
next
  case (Cons d ds)
  show ?case
  proof (cases rule: delta_next_cases [of b d])
    case new
    obtain r rs where "merged_runs (Some d) ds = r # rs" "kind_of r = kind_of d" "fst (delta_range r) = fst (delta_range d)"
      using merged_runs_head by blast
    with new Cons [of "Some d"] show ?thesis by (cases b) (auto simp: touches_def)
  qed (simp add: Cons)
qed

lemma deltas_between_le: "deltas_between s ds e \<Longrightarrow> s \<le> e"
proof (induction ds arbitrary: s)
  case (Cons d ds)
  show ?case using Cons.prems Cons.IH [of "unat (fst (delta_range d)) + unat (snd (delta_range d))"]
    by (cases "delta_range d") simp
qed simp

lemma merged_runs_kinds:
  "deltas_between s (opt_list b @ ds) e \<Longrightarrow> e < 2 ^ 64 \<Longrightarrow>
    deltas_between s (merged_runs b ds) e \<and> (\<forall>t. kind_at (merged_runs b ds) t = kind_at (opt_list b @ ds) t)"
proof (induction ds arbitrary: b s)
  case (Cons d ds)
  show ?case
  proof (cases rule: delta_next_cases [of b d])
    case (merge r r')
    obtain t n m where r: "delta_range r = (t, n)" "delta_range d = (t + n, m)" "kind_of d = kind_of r"
      using merge(2) by (cases "delta_range r"; cases "delta_range d") (auto simp: touches_def)
    then have r': "delta_range r' = (t, n + m)" using merge(5) by simp
    have le: "unat t + unat n \<le> unat (t + n)" "s \<le> unat t" "deltas_between (unat (t + n) + unat m) ds e"
      using Cons.prems(1) by (simp_all add: merge(1) r)
    have tn: "unat (t + n) = unat t + unat n"
      using le(1) unat_lt2p [of "t + n"] by (intro unat_plus_no_overflow) simp
    have end_le: "unat (t + n) + unat m \<le> e" using deltas_between_le [OF le(3)] .
    then have nm: "unat (n + m) = unat n + unat m" using Cons.prems(2) tn by (intro unat_plus_no_overflow) simp
    have "deltas_between s (opt_list (Some r') @ ds) e"
      using le(2,3) end_le Cons.prems(2) by (simp add: r' tn nm add.assoc)
    from Cons.IH [OF this Cons.prems(2)] have ih: "deltas_between s (merged_runs (Some r') ds) e"
      "\<And>t. kind_at (merged_runs (Some r') ds) t = kind_at (r' # ds) t" by simp_all
    have cov: "delta_covers r' u \<longleftrightarrow> delta_covers r u \<or> delta_covers d u" for u
      using range_nat [of t n u] range_nat [of t "n + m" u] range_nat [of "t + n" m u] end_le Cons.prems(2) tn nm
      by (auto simp: delta_covers_def r r')
    show ?thesis using ih merge(1,3,4) r(3) by (simp add: cov)
  next
    case new
    show ?thesis
    proof (cases b)
      case None
      with new(1) Cons.IH [of s "Some d"] Cons.prems show ?thesis by simp
    next
      case (Some r)
      then have "deltas_between (unat (fst (delta_range r)) + unat (snd (delta_range r))) (opt_list (Some d) @ ds) e"
        using Cons.prems(1) by (simp add: Let_def split: prod.splits)
      from Cons.IH [OF this Cons.prems(2)] new(1) Some Cons.prems(1) show ?thesis by (simp add: Let_def split: prod.splits)
    qed
  qed
qed simp

text \<open>The simple writer, over a writer that keeps the events.\<close>

lemma event_writer [simp]: "write_event event_list_writer ev w = (Ok (), w @ [ev])"
  by (simp add: write_event_def event_list_writer_def)

lemma simple_tell:
  "\<exists>s'. tell_all (simple_visitor event_list_writer) ds s = (Ok (), s') \<and>
    sx_w s' @ map (\<lambda>d. EmptyTag (simple_elem d)) (opt_list (sx_builder s')) =
      sx_w s @ map (\<lambda>d. EmptyTag (simple_elem d)) (merged_runs (sx_builder s) ds)"
proof (induction ds arbitrary: s)
  case Nil
  show ?case by (simp add: tell_all_def)
next
  case (Cons d ds)
  obtain r b where n: "delta_next d (sx_builder s) = (r, b)" by fastforce
  define s1 where "s1 = s\<lparr>sx_w := sx_w s @ map (\<lambda>d. EmptyTag (simple_elem d)) (opt_list r), sx_builder := b\<rparr>"
  have "simple_write_run event_list_writer (r, b) s = (Ok (), s1)"
    by (cases r; cases s) (simp_all add: simple_write_run_def simple_write_delta_def on_sx_def s1_def)
  then have "dv_delta (simple_visitor event_list_writer) d s = (Ok Continue, s1)"
    by (simp add: simple_visitor_def n continue_after_def)
  then have step: "tell_all (simple_visitor event_list_writer) (d # ds) s = tell_all (simple_visitor event_list_writer) ds s1"
    by (simp add: tell_all_def)
  from Cons [of s1] show ?case by (simp add: step n s1_def)
qed

section \<open>Properties\<close>

text \<open>C37: The simple XML of a comparison: between the tags of the superblock and of the diff, an element for each of a list
  of runs that do not overlap, are in order and as long as they can be, and give every thin block the kind (left
  only, right only, different, same or none) its delta has.\<close>

theorem simple_xml_kinds:
  assumes "deltas_between 0 ds lim" "lim < 2 ^ 64"
  shows "\<exists>runs. report_diff (simple_visitor event_list_writer) sb snap1 snap2 ds (simple_new []) = (Ok (),
      \<lparr>sx_w = [StartTag (delta_superblock_elem sb), StartTag (diff_elem snap1 snap2)] @
         map (\<lambda>d. EmptyTag (simple_elem d)) runs @ [EndTag ''diff'', EndTag ''superblock''], sx_builder = None\<rparr>) \<and>
    deltas_between 0 runs lim \<and> successively (\<lambda>r d. \<not> touches r d) runs \<and> (\<forall>t. kind_at runs t = kind_at ds t)"
proof -
  define s0 where "s0 = \<lparr>sx_w = [StartTag (delta_superblock_elem sb), StartTag (diff_elem snap1 snap2)], sx_builder = None\<rparr>"
  obtain s where s: "tell_all (simple_visitor event_list_writer) ds s0 = (Ok (), s)"
    and w: "sx_w s @ map (\<lambda>d. EmptyTag (simple_elem d)) (opt_list (sx_builder s)) =
      [StartTag (delta_superblock_elem sb), StartTag (diff_elem snap1 snap2)] @ map (\<lambda>d. EmptyTag (simple_elem d)) (merged_runs None ds)"
    using simple_tell [of ds s0] by (auto simp: s0_def)
  have diff_e: "dv_diff_e (simple_visitor event_list_writer) s = (Ok Continue, s\<lparr>sx_w := sx_w s @ map (\<lambda>d. EmptyTag (simple_elem d))
      (opt_list (sx_builder s)) @ [EndTag ''diff''], sx_builder := None\<rparr>)"
    by (cases "sx_builder s") (simp_all add: simple_visitor_def continue_after_def simple_write_run_def delta_complete_def
        simple_write_delta_def on_sx_def write_diff_e_def)
  have b: "dv_superblock_b (simple_visitor event_list_writer) sb (simple_new []) =
      (Ok Continue, \<lparr>sx_w = [StartTag (delta_superblock_elem sb)], sx_builder = None\<rparr>)"
    "dv_diff_b (simple_visitor event_list_writer) snap1 snap2 \<lparr>sx_w = [StartTag (delta_superblock_elem sb)], sx_builder = None\<rparr> =
      (Ok Continue, s0)"
    "dv_superblock_e (simple_visitor event_list_writer) s1 = (Ok Continue, s1\<lparr>sx_w := sx_w s1 @ [EndTag ''superblock'']\<rparr>)" for s1
    by (simp_all add: simple_visitor_def continue_after_def on_sx_def write_superblock_b_def write_diff_b_def
        write_superblock_e_def simple_new_def s0_def)
  have "report_diff (simple_visitor event_list_writer) sb snap1 snap2 ds (simple_new []) = (Ok (),
      \<lparr>sx_w = [StartTag (delta_superblock_elem sb), StartTag (diff_elem snap1 snap2)] @
         map (\<lambda>d. EmptyTag (simple_elem d)) (merged_runs None ds) @ [EndTag ''diff'', EndTag ''superblock''], sx_builder = None\<rparr>)"
    by (simp add: report_diff_def b s diff_e w [simplified] flip: append_assoc)
  with merged_runs_kinds [of 0 None ds lim] assms merged_runs_apart [of None ds] show ?thesis by auto
qed

theorem simple_xml_kinds_witness:
  "\<exists>runs. report_diff (simple_visitor event_list_writer) (delta_superblock sample_delta_sb
       \<lparr>sr_nr_blocks = 100, sr_nr_allocated = 5, sr_bitmap_root = 0, sr_ref_count_root = 0\<rparr>) (DeviceId 1) (RootBlock 3)
       [LeftOnly \<lparr>dm_thin_begin = 0, dm_data_begin = 10, dm_len = 1\<rparr>, LeftOnly \<lparr>dm_thin_begin = 1, dm_data_begin = 50, dm_len = 1\<rparr>]
       (simple_new []) = (Ok (), runs)"
  using simple_xml_kinds [of "[LeftOnly \<lparr>dm_thin_begin = 0, dm_data_begin = 10, dm_len = 1\<rparr>,
      LeftOnly \<lparr>dm_thin_begin = 1, dm_data_begin = 50, dm_len = 1\<rparr>]" 2 "delta_superblock sample_delta_sb
      \<lparr>sr_nr_blocks = 100, sr_nr_allocated = 5, sr_bitmap_root = 0, sr_ref_count_root = 0\<rparr>" "DeviceId 1" "RootBlock 3"]
  by auto

text \<open>The verbose writer merges the same runs, but prints the data blocks too. Two blocks mapped to 10 and 50 are printed as
  one range of data blocks from 10 on.\<close>

lemma verbose_merges_data:
  "tell_all (verbose_visitor event_list_writer) [LeftOnly \<lparr>dm_thin_begin = 0, dm_data_begin = 10, dm_len = 1\<rparr>,
       LeftOnly \<lparr>dm_thin_begin = 1, dm_data_begin = 50, dm_len = 1\<rparr>] (verbose_new []) = (Ok (), s) \<Longrightarrow>
    vx_w (snd (dv_diff_e (verbose_visitor event_list_writer) s)) =
      [StartTag \<lparr>el_name = ''left_only'', el_attrs = []\<rparr>,
       EmptyTag \<lparr>el_name = ''range'', el_attrs = [mk_attr64 ''begin'' 0, mk_attr64 ''data_begin'' 10, mk_attr64 ''length'' 2]\<rparr>,
       EndTag ''left_only'', EndTag ''diff'']"
  by (auto simp: tell_all_def verbose_visitor_def continue_after_def verbose_write_run_def delta_next_def next_begin_def
      verbose_new_def delta_complete_def write_range_def update_type_tag_def open_type_tag_def close_type_tag_def on_vx_def
      type_tag_def close_last_tag_def write_diff_e_def delta_range_elem_def)

end
