(* ===== verification/Io_Runs.thy ===== *)
theory Io_Runs
  imports Prelude
begin

text \<open>
  \<open>src/io_engine/gaps.rs\<close>: the blocks a caller asks for become runs of adjacent blocks; small gaps between runs are
  read too, and what is adjacent is cut into batches of at most \<open>max\<close> blocks, each one vectored io.
\<close>

section \<open>Runs and gaps\<close>

datatype run_op = Run u64 u64 | Gap u64 u64

type_synonym run_batches = "run_op list list"

text \<open>The body of the loop of \<open>find_runs\<close>, on the finished runs and the one that is open.\<close>

definition find_runs_step :: "u64 \<Rightarrow> u64 \<Rightarrow> run_op list \<times> (u64 \<times> u64) option \<Rightarrow> run_op list \<times> (u64 \<times> u64) option" where
  "find_runs_step gap_threshold b = (\<lambda>(runs, last). case last of
     None \<Rightarrow> (runs, Some (b, b + 1))
   | Some (begin, end) \<Rightarrow>
       if end < b then
         if gap_threshold < b - end then (runs @ [Run begin end], Some (b, b + 1))
         else (runs @ [Run begin end, Gap end b], Some (b, b + 1))
       else if b = end then (runs, Some (begin, b + 1))
       else (runs @ [Run begin end], Some (b, b + 1)))"

definition find_runs :: "u64 list \<Rightarrow> u64 \<Rightarrow> run_op list" where
  "find_runs blocks gap_threshold = (case fold (find_runs_step gap_threshold) blocks ([], None) of
     (runs, None) \<Rightarrow> runs | (runs, Some (begin, end)) \<Rightarrow> runs @ [Run begin end])"

definition batch_step :: "run_op \<Rightarrow> run_batches \<times> run_op list \<times> u64 option \<Rightarrow> run_batches \<times> run_op list \<times> u64 option" where
  "batch_step r = (\<lambda>(result, batch, last). case (last, r) of
     (None, Run b e) \<Rightarrow> (result, batch @ [Run b e], Some e)
   | (None, Gap b e) \<Rightarrow> (result, batch @ [Gap b e], Some e)
   | (Some l, Run b e) \<Rightarrow> if b = l then (result, batch @ [Run b e], Some e) else (result @ [batch], [Run b e], Some e)
   | (Some l, Gap b e) \<Rightarrow> if b = l then (result, batch @ [Gap b e], Some e) else (result @ [batch], [Gap b e], Some e))"

definition batch_adjacent :: "run_op list \<Rightarrow> run_batches" where
  "batch_adjacent runs = (case fold batch_step runs ([], [], None) of
     (result, batch, _) \<Rightarrow> if batch \<noteq> [] then result @ [batch] else result)"

fun split_op :: "run_op \<Rightarrow> u64 \<Rightarrow> run_op \<times> run_op option \<times> u64" where
  "split_op (Run b e) remaining =
    (if e - b \<le> remaining then (Run b e, None, remaining - (e - b))
     else (Run b (b + remaining), Some (Run (b + remaining) e), 0))"
| "split_op (Gap b e) remaining =
    (if e - b < remaining then (Gap b e, None, remaining - (e - b))
     else (Gap b (b + remaining), Some (Gap (b + remaining) e), 0))"

text \<open>The loop of \<open>split_contiguous\<close>: the operation in hand, the ones to come, what the open batch may still take, the
  batch and the result. With \<open>max = 0\<close> it does not end.\<close>

partial_function (option) split_loop :: "u64 \<Rightarrow> run_op \<Rightarrow> run_op list \<Rightarrow> u64 \<Rightarrow> run_op list \<Rightarrow> run_batches \<Rightarrow> run_batches option" where
  "split_loop mx op ops remaining batch result =
    (case split_op op remaining of (first, rest, rem) \<Rightarrow>
      let batch = batch @ [first];
          (result, batch, remaining) = (if rem = 0 then (result @ [batch], [], mx) else (result, batch, rem)) in
      case rest of
        Some op \<Rightarrow> split_loop mx op ops remaining batch result
      | None \<Rightarrow>
          (case ops of
             op # ops \<Rightarrow> split_loop mx op ops remaining batch result
           | [] \<Rightarrow> Some (if batch \<noteq> [] then result @ [batch] else result)))"

definition split_contiguous :: "run_op list \<Rightarrow> u64 \<Rightarrow> run_batches \<Rightarrow> run_batches option" where
  "split_contiguous runs mx result = (case runs of [] \<Rightarrow> Some result | op # ops \<Rightarrow> split_loop mx op ops mx [] result)"

fun split_all :: "u64 \<Rightarrow> run_batches \<Rightarrow> run_batches \<Rightarrow> run_batches option" where
  "split_all mx [] result = Some result"
| "split_all mx (b # batches) result = Option.bind (split_contiguous b mx result) (split_all mx batches)"

definition split_batches :: "run_batches \<Rightarrow> u64 \<Rightarrow> run_batches option" where
  "split_batches batches mx = split_all mx batches []"

definition generate_runs :: "u64 list \<Rightarrow> u64 \<Rightarrow> u64 \<Rightarrow> run_batches option" where
  "generate_runs blocks gap_threshold mx = split_batches (batch_adjacent (find_runs blocks gap_threshold)) mx"

definition count_gaps :: "run_batches \<Rightarrow> u64" where
  "count_gaps batches = fold (\<lambda>batch. fold (\<lambda>op count. case op of Gap b e \<Rightarrow> count + (e - b) | Run _ _ \<Rightarrow> count) batch) batches 0"

section \<open>What an operation covers\<close>

fun is_gap :: "run_op \<Rightarrow> bool" where
  "is_gap (Run _ _) = False"
| "is_gap (Gap _ _) = True"

fun op_begin :: "run_op \<Rightarrow> u64" where
  "op_begin (Run b _) = b"
| "op_begin (Gap b _) = b"

fun op_end :: "run_op \<Rightarrow> u64" where
  "op_end (Run _ e) = e"
| "op_end (Gap _ e) = e"

text \<open>The blocks of an operation, each with whether it is wanted.\<close>

definition op_blocks :: "run_op \<Rightarrow> (bool \<times> u64) list" where
  "op_blocks op = map (Pair (\<not> is_gap op)) (range64 (op_begin op) (op_end op))"

definition ops_blocks :: "run_op list \<Rightarrow> (bool \<times> u64) list" where
  "ops_blocks ops = concat (map op_blocks ops)"

definition wanted :: "(bool \<times> u64) list \<Rightarrow> u64 list" where
  "wanted xs = map snd (filter fst xs)"

text \<open>Operations that follow each other from \<open>b\<close> to \<open>e\<close>.\<close>

fun chain :: "u64 \<Rightarrow> run_op list \<Rightarrow> u64 \<Rightarrow> bool" where
  "chain b [] e \<longleftrightarrow> b = e"
| "chain b (op # ops) e \<longleftrightarrow> op_begin op = b \<and> b \<le> op_end op \<and> chain (op_end op) ops e"

lemma ops_blocks_simps [simp]: "ops_blocks [] = []" "ops_blocks (op # ops) = op_blocks op @ ops_blocks ops"
  "ops_blocks (a @ b) = ops_blocks a @ ops_blocks b"
  by (simp_all add: ops_blocks_def)

lemma wanted_simps [simp]: "wanted [] = []" "wanted (a @ b) = wanted a @ wanted b" "wanted (x # b) = (if fst x then [snd x] else []) @ wanted b"
  by (simp_all add: wanted_def)

lemma wanted_op: "wanted (op_blocks op) = (if is_gap op then [] else range64 (op_begin op) (op_end op))"
  by (simp add: op_blocks_def wanted_def filter_map comp_def)

lemma chain_append: "chain b (xs @ ys) e \<longleftrightarrow> (\<exists>m. chain b xs m \<and> chain m ys e)"
  by (induction xs arbitrary: b) auto

lemma chain_le: "chain b ops e \<Longrightarrow> b \<le> e"
  by (induction ops arbitrary: b) (auto intro: order_trans)

lemma chain_ordered: "chain b ops e \<Longrightarrow> \<forall>op \<in> set ops. op_begin op \<le> op_end op"
  by (induction ops arbitrary: b) auto

lemma chain_blocks: "chain b ops e \<Longrightarrow> map snd (ops_blocks ops) = range64 b e"
proof (induction ops arbitrary: b)
  case (Cons op ops)
  then have "range64 b e = range64 b (op_end op) @ range64 (op_end op) e"
    using chain_le by (intro range64_append) auto
  with Cons show ?case by (simp add: op_blocks_def comp_def)
qed simp

section \<open>What the three passes do\<close>

subsection \<open>\<open>find_runs\<close>\<close>

text \<open>An operation may follow another: a gap joins the runs before and after it.\<close>

definition may_follow :: "run_op \<Rightarrow> run_op \<Rightarrow> bool" where
  "may_follow a b \<longleftrightarrow> (is_gap a \<or> is_gap b \<longrightarrow> op_begin b = op_end a \<and> is_gap a \<noteq> is_gap b)"

definition wf_ops :: "run_op list \<Rightarrow> bool" where
  "wf_ops ops \<longleftrightarrow> (\<forall>op \<in> set ops. op_begin op < op_end op) \<and> successively may_follow ops \<and>
     (ops \<noteq> [] \<longrightarrow> \<not> is_gap (last ops))"

lemma successively_snoc: "successively P (xs @ [x]) \<longleftrightarrow> successively P xs \<and> (xs = [] \<or> P (last xs) x)"
  by (auto simp: successively_append_iff)

lemma not_max: "b \<noteq> (-1 :: u64) \<Longrightarrow> unat (b + 1) = Suc (unat b)"
proof -
  assume "b \<noteq> -1"
  then have "b + 1 \<noteq> 0" by (metis add.inverse_inverse diff_0 diff_add_cancel add_diff_cancel_right')
  then show ?thesis by (simp add: unatSuc add.commute)
qed

lemma range64_snoc: "b \<le> e \<Longrightarrow> e \<noteq> -1 \<Longrightarrow> range64 b (e + 1) = range64 b e @ [e]"
  by (simp add: range64_def not_max word_le_nat_alt)

lemma find_runs_step_simps:
  "find_runs_step g x (runs, None) = (runs, Some (x, x + 1))"
  "find_runs_step g x (runs, Some (b, e)) = (if e < x then (runs @ (if g < x - e then [Run b e] else [Run b e, Gap e x]), Some (x, x + 1))
     else if x = e then (runs, Some (b, x + 1)) else (runs @ [Run b e], Some (x, x + 1)))"
  by (simp_all add: find_runs_step_def)

lemma find_runs_fold:
  assumes "\<forall>b \<in> set blocks. b \<noteq> -1"
  shows "case fold (find_runs_step g) blocks ([], None) of
      (runs, None) \<Rightarrow> runs = [] \<and> blocks = []
    | (runs, Some (b, e)) \<Rightarrow> b < e \<and> wf_ops (runs @ [Run b e]) \<and> wanted (ops_blocks (runs @ [Run b e])) = blocks"
  using assms
proof (induction blocks rule: rev_induct)
  case (snoc x blocks)
  obtain runs lst where f: "fold (find_runs_step g) blocks ([], None) = (runs, lst)" by fastforce
  have x: "x < x + 1" "range64 x (x + 1) = [x]" using snoc.prems not_max [of x] range64_snoc [of x x] by (simp_all add: word_less_nat_alt)
  show ?case
  proof (cases lst)
    case None
    have "runs = []" "blocks = []" using snoc f None by simp_all
    then show ?thesis using x f None by (simp add: find_runs_step_simps wf_ops_def wanted_op)
  next
    case (Some be)
    obtain b e where be: "be = (b, e)" by fastforce
    have ih: "b < e" "wf_ops (runs @ [Run b e])" "wanted (ops_blocks (runs @ [Run b e])) = blocks"
      using snoc f Some be by simp_all
    consider (gap) "e < x" "\<not> g < x - e" | (adjacent) "x = e" | (apart) "e < x \<and> g < x - e \<or> x < e" by fastforce
    then show ?thesis
    proof cases
      case gap
      then show ?thesis using ih x f Some be
        by (simp add: find_runs_step_simps wf_ops_def successively_append_iff may_follow_def wanted_op)
    next
      case adjacent
      have "b < e + 1" using adjacent x(1) ih(1) by simp
      moreover have "range64 b (e + 1) = range64 b e @ [e]" using adjacent snoc.prems ih(1) by (intro range64_snoc) simp_all
      ultimately show ?thesis using ih adjacent f Some be
        by (auto simp: find_runs_step_simps wf_ops_def successively_append_iff may_follow_def wanted_op)
    next
      case apart
      then have "find_runs_step g x (runs, Some (b, e)) = (runs @ [Run b e], Some (x, x + 1))"
        by (auto simp: find_runs_step_simps)
      then show ?thesis using ih x f Some be
        by (simp add: wf_ops_def successively_append_iff may_follow_def wanted_op)
    qed
  qed
qed simp

lemma find_runs_wf:
  assumes "\<forall>b \<in> set blocks. b \<noteq> -1"
  shows "wf_ops (find_runs blocks g)" "wanted (ops_blocks (find_runs blocks g)) = blocks"
  using find_runs_fold [OF assms, of g] by (auto simp: find_runs_def wf_ops_def split: prod.splits option.splits)

subsection \<open>\<open>batch_adjacent\<close>\<close>

text \<open>A batch: a chain that ends with a run.\<close>

definition good_batch :: "run_op list \<Rightarrow> bool" where
  "good_batch bt \<longleftrightarrow> bt \<noteq> [] \<and> \<not> is_gap (last bt) \<and> op_begin (last bt) < op_end (last bt) \<and> chain (op_begin (hd bt)) bt (op_end (last bt))"

definition boundary :: "run_op list \<Rightarrow> u64 option" where
  "boundary batch = (if batch = [] then None else Some (op_end (last batch)))"

lemma batch_step_eq:
  "batch_step r (result, batch, lst) = (if lst = None \<or> lst = Some (op_begin r) then (result, batch @ [r], Some (op_end r))
     else (result @ [batch], [r], Some (op_end r)))"
  by (cases r; cases lst) (auto simp: batch_step_def)

lemma batch_fold:
  "\<forall>op \<in> set ops. op_begin op < op_end op \<Longrightarrow> successively may_follow ops \<Longrightarrow>
    case fold batch_step ops ([], [], None) of (result, batch, lst) \<Rightarrow>
      concat result @ batch = ops \<and> (batch = [] \<longleftrightarrow> ops = []) \<and> lst = boundary ops \<and> Ball (set result) good_batch \<and>
      (batch \<noteq> [] \<longrightarrow> chain (op_begin (hd batch)) batch (op_end (last batch)))"
proof (induction ops rule: rev_induct)
  case (snoc r ops)
  obtain result batch lst where f: "fold batch_step ops ([], [], None) = (result, batch, lst)" by (metis prod_cases3)
  have pre: "\<forall>op \<in> set ops. op_begin op < op_end op" "successively may_follow ops" "op_begin r < op_end r"
    using snoc.prems by (auto simp: successively_append_iff)
  from snoc.IH [OF pre(1,2)] have ih: "concat result @ batch = ops" "batch = [] \<longleftrightarrow> ops = []" "lst = boundary ops"
    "Ball (set result) good_batch" "batch \<noteq> [] \<longrightarrow> chain (op_begin (hd batch)) batch (op_end (last batch))" by (simp_all add: f)
  have l: "last ops = last batch" if "ops \<noteq> []" using ih(1,2) that by (metis last_appendR)
  show ?case
  proof (cases "lst = None \<or> lst = Some (op_begin r)")
    case True
    have "chain (op_begin (hd (batch @ [r]))) (batch @ [r]) (op_end r)"
      using True ih(2,3,5) l pre(3) by (cases "batch = []") (auto simp: chain_append boundary_def split: if_splits)
    with True ih f show ?thesis by (simp add: batch_step_eq boundary_def)
  next
    case False
    then have ne: "ops \<noteq> []" "op_end (last ops) \<noteq> op_begin r" using ih(3) by (auto simp: boundary_def split: if_splits)
    then have "\<not> is_gap (last batch)" "op_begin (last batch) < op_end (last batch)"
      using snoc.prems l pre(1) last_in_set [OF ne(1)] by (auto simp: successively_append_iff may_follow_def)
    with ih ne l have "good_batch batch" by (simp add: good_batch_def)
    with False ih ne f pre(3) show ?thesis by (auto simp: batch_step_eq boundary_def)
  qed
qed (simp add: boundary_def)

lemma batch_adjacent_good:
  assumes "wf_ops ops"
  shows "Ball (set (batch_adjacent ops)) good_batch" "concat (batch_adjacent ops) = ops"
proof -
  obtain result batch lst where f: "fold batch_step ops ([], [], None) = (result, batch, lst)" by (metis prod_cases3)
  note b = batch_fold [of ops, unfolded f prod.case]
  have "last ops = last batch" "op_begin (last ops) < op_end (last ops)" "\<not> is_gap (last ops)" if "ops \<noteq> []"
    using b assms that last_in_set [OF that] by (auto simp: wf_ops_def)
  with b assms show "Ball (set (batch_adjacent ops)) good_batch" "concat (batch_adjacent ops) = ops"
    by (cases "batch = []"; auto simp: batch_adjacent_def f wf_ops_def good_batch_def)+
qed

subsection \<open>\<open>split_contiguous\<close>\<close>

text \<open>A batch to be read at once: neither empty nor longer than \<open>max\<close>.\<close>

definition io_batch :: "u64 \<Rightarrow> run_op list \<Rightarrow> bool" where
  "io_batch mx bt \<longleftrightarrow> (\<exists>b e. chain b bt e \<and> b < e \<and> unat e - unat b \<le> unat mx)"

lemma split_op_spec:
  assumes "split_op op remaining = (first, rest, rem)" "op_begin op \<le> op_end op"
  shows "op_begin first = op_begin op" "op_begin first \<le> op_end first"
    "unat rem = unat remaining - (unat (op_end first) - unat (op_begin op))" "unat (op_end first) - unat (op_begin op) \<le> unat remaining"
    "rest = None \<Longrightarrow> first = op"
    "rest = Some r \<Longrightarrow> rem = 0 \<and> op_begin r = op_end first \<and> op_end r = op_end op \<and> op_end first \<le> op_end op \<and> is_gap r = is_gap op \<and>
      unat (op_end first) - unat (op_begin op) = unat remaining \<and> op_blocks op = op_blocks first @ op_blocks r"
    "rest = Some r \<Longrightarrow> \<not> is_gap op \<Longrightarrow> op_begin r < op_end r"
proof -
  define b e where "b = op_begin op" and "e = op_end op"
  have be: "b \<le> e" using assms(2) by (simp add: b_def e_def)
  have len: "unat (e - b) = unat e - unat b" using be by (rule unat_sub)
  have mid: "unat (b + remaining) = unat b + unat remaining" if "remaining \<le> e - b"
  proof -
    have "unat b + unat remaining \<le> unat e" using that be len by (simp add: word_le_nat_alt)
    then show ?thesis using unat_lt2p [of e] by (intro unat_plus_no_overflow) simp
  qed
  consider (whole) "first = op" "rest = None" "rem = remaining - (e - b)" "e - b \<le> remaining"
    | (part) r' where "op_begin first = b" "op_end first = b + remaining" "rest = Some r'" "op_begin r' = b + remaining" "op_end r' = e"
        "is_gap r' = is_gap op" "is_gap first = is_gap op" "rem = 0" "remaining \<le> e - b" "\<not> is_gap op \<longrightarrow> remaining < e - b"
    using assms(1) by (cases op) (auto simp: b_def e_def not_le not_less split: if_splits)
  then have "op_begin first = op_begin op \<and> op_begin first \<le> op_end first \<and>
    unat rem = unat remaining - (unat (op_end first) - unat (op_begin op)) \<and> unat (op_end first) - unat (op_begin op) \<le> unat remaining \<and>
    (rest = None \<longrightarrow> first = op) \<and>
    (rest = Some r \<longrightarrow> rem = 0 \<and> op_begin r = op_end first \<and> op_end r = op_end op \<and> op_end first \<le> op_end op \<and> is_gap r = is_gap op \<and>
      unat (op_end first) - unat (op_begin op) = unat remaining \<and> op_blocks op = op_blocks first @ op_blocks r) \<and>
    (rest = Some r \<longrightarrow> \<not> is_gap op \<longrightarrow> op_begin r < op_end r)"
  proof cases
    case whole
    then show ?thesis using be len by (simp add: b_def e_def word_le_nat_alt unat_sub)
  next
    case part
    have m: "unat (b + remaining) = unat b + unat remaining" "unat b + unat remaining \<le> unat e"
      using mid [OF part(9)] part(9) len be by (simp_all add: word_le_nat_alt)
    then have le: "b \<le> b + remaining" "b + remaining \<le> e" by (simp_all add: word_le_nat_alt)
    have "range64 b e = range64 b (b + remaining) @ range64 (b + remaining) e" using le by (rule range64_append)
    moreover have "\<not> is_gap op \<longrightarrow> b + remaining < e" using part(10) m len be by (auto simp: word_less_nat_alt word_le_nat_alt)
    ultimately show ?thesis using part m le by (auto simp: op_blocks_def b_def [symmetric] e_def [symmetric])
  qed
  then show "op_begin first = op_begin op" "op_begin first \<le> op_end first"
    "unat rem = unat remaining - (unat (op_end first) - unat (op_begin op))" "unat (op_end first) - unat (op_begin op) \<le> unat remaining"
    "rest = None \<Longrightarrow> first = op"
    "rest = Some r \<Longrightarrow> rem = 0 \<and> op_begin r = op_end first \<and> op_end r = op_end op \<and> op_end first \<le> op_end op \<and> is_gap r = is_gap op \<and>
      unat (op_end first) - unat (op_begin op) = unat remaining \<and> op_blocks op = op_blocks first @ op_blocks r"
    "rest = Some r \<Longrightarrow> \<not> is_gap op \<Longrightarrow> op_begin r < op_end r"
    by blast+
qed

lemma split_loop_spec:
  assumes "0 < mx"
  shows "chain (op_begin op) (op # ops) e \<Longrightarrow> \<not> is_gap (last (op # ops)) \<Longrightarrow> op_begin (last (op # ops)) < op_end (last (op # ops)) \<Longrightarrow>
    chain b batch (op_begin op) \<Longrightarrow> 0 < remaining \<Longrightarrow> unat (op_begin op) - unat b + unat remaining = unat mx \<Longrightarrow>
    \<exists>bts. split_loop mx op ops remaining batch result = Some (result @ bts) \<and> Ball (set bts) (io_batch mx) \<and>
      ops_blocks (concat bts) = ops_blocks batch @ ops_blocks (op # ops)"
proof (induction "unat e - unat (op_begin op) + length ops" arbitrary: op ops remaining b batch result rule: less_induct)
  case less
  obtain first rest rem where sp: "split_op op remaining = (first, rest, rem)" by (metis prod_cases3)
  have op: "op_begin op \<le> op_end op" "chain (op_end op) ops e" "op_end op \<le> e" using less.prems(1) chain_le by auto
  note f = split_op_spec [OF sp op(1)]
  define batch' where "batch' = batch @ [first]"
  have c: "chain b batch' (op_end first)" using less.prems(4) f(1,2) by (auto simp: batch'_def chain_append)
  have le: "unat b \<le> unat (op_begin op)" "unat (op_begin op) \<le> unat (op_end first)"
    using chain_le [OF less.prems(4)] f(1,2) by (simp_all add: word_le_nat_alt)
  have used: "unat (op_end first) - unat b + unat rem = unat mx" using le f(3,4) less.prems(6) by linarith
  have z: "rem = 0 \<longleftrightarrow> unat rem = 0" by (simp add: unat_eq_0)
  have pos: "0 < unat mx" "0 < unat remaining" using assms less.prems(5) by (simp_all add: word_less_nat_alt)
  define bt where "bt = (if rem = 0 then [batch'] else [])"
  define batch1 where "batch1 = (if rem = 0 then [] else batch')"
  define remaining1 where "remaining1 = (if rem = 0 then mx else rem)"
  define b1 where "b1 = (if rem = 0 then op_end first else b)"
  have unfolded: "split_loop mx op ops remaining batch result = (case rest of
      Some op \<Rightarrow> split_loop mx op ops remaining1 batch1 (result @ bt)
    | None \<Rightarrow> (case ops of op # ops \<Rightarrow> split_loop mx op ops remaining1 batch1 (result @ bt)
       | [] \<Rightarrow> Some (if batch1 \<noteq> [] then (result @ bt) @ [batch1] else result @ bt)))"
    by (subst split_loop.simps) (simp add: sp batch'_def bt_def batch1_def remaining1_def split: option.split list.split)
  have "io_batch mx batch'" if "rem = 0"
    using that c used pos(1) unfolding io_batch_def by (intro exI [of _ b] exI [of _ "op_end first"]) (simp add: word_less_nat_alt)
  then have bt: "Ball (set bt) (io_batch mx)" "ops_blocks (concat bt) @ ops_blocks batch1 = ops_blocks batch @ op_blocks first"
    by (auto simp: bt_def batch1_def batch'_def)
  have st: "chain b1 batch1 (op_end first)" "0 < remaining1" "unat (op_end first) - unat b1 + unat remaining1 = unat mx"
    using c used pos(1) assms by (auto simp: b1_def batch1_def remaining1_def z word_less_nat_alt)
  have go: "\<exists>bts. split_loop mx op ops remaining batch result = Some (result @ bts) \<and> Ball (set bts) (io_batch mx) \<and>
      ops_blocks (concat bts) = ops_blocks batch @ ops_blocks (op # ops)"
    if r: "split_loop mx op' ops' remaining1 batch1 (result @ bt) = split_loop mx op ops remaining batch result"
      and m: "unat e - unat (op_begin op') + length ops' < unat e - unat (op_begin op) + length ops"
      and p: "op_begin op' = op_end first" "chain (op_begin op') (op' # ops') e" "\<not> is_gap (last (op' # ops'))"
        "op_begin (last (op' # ops')) < op_end (last (op' # ops'))"
      and e: "op_blocks first @ ops_blocks (op' # ops') = ops_blocks (op # ops)" for op' ops'
  proof -
    from less.hyps [OF m p(2-4), of b1 batch1 remaining1 "result @ bt"] st p(1) obtain bts where
      bts: "split_loop mx op' ops' remaining1 batch1 (result @ bt) = Some ((result @ bt) @ bts)" "Ball (set bts) (io_batch mx)"
      "ops_blocks (concat bts) = ops_blocks batch1 @ ops_blocks (op' # ops')" by auto
    have "ops_blocks (concat (bt @ bts)) = ops_blocks batch @ ops_blocks (op # ops)"
      using bt(2) bts(3) e by simp (metis append.assoc)
    then show ?thesis using bts(1,2) bt(1) r by (intro exI [of _ "bt @ bts"]) auto
  qed
  show ?case
  proof (cases rest)
    case (Some r)
    note fr = f(6) [OF Some] f(7) [OF Some]
    have "unat (op_begin op) < unat (op_begin r)" "unat (op_begin r) \<le> unat e"
      using fr(1) pos(2) le(2) op(3) by (auto simp: word_le_nat_alt)
    then show ?thesis using unfolded Some less.prems(2,3) fr op(2)
      by (intro go [of r ops]) (auto split: if_splits)
  next
    case None
    then have first: "first = op" by (rule f(5))
    show ?thesis
    proof (cases ops)
      case (Cons op' ops')
      have "op_begin op' = op_end op" using op(2) Cons by simp
      moreover from this have "unat (op_begin op) \<le> unat (op_begin op')" using op(1) by (simp add: word_le_nat_alt)
      ultimately show ?thesis using unfolded None less.prems(2,3) op(2) first Cons by (intro go [of op' ops']) auto
    next
      case Nil
      have "io_batch mx batch1" if "batch1 \<noteq> []"
      proof -
        have "rem \<noteq> 0" "batch1 = batch'" using that by (auto simp: batch1_def split: if_splits)
        moreover have "op_begin op < op_end op" using less.prems(3) Nil by simp
        ultimately show ?thesis using c used le first unfolding io_batch_def
          by (intro exI [of _ b] exI [of _ "op_end first"]) (simp add: word_less_nat_alt)
      qed
      with bt first show ?thesis
        by (intro exI [of _ "if batch1 \<noteq> [] then bt @ [batch1] else bt"]) (auto simp: unfolded [unfolded None Nil] Nil)
    qed
  qed
qed

lemma split_all_spec:
  assumes "0 < mx"
  shows "Ball (set batches) good_batch \<Longrightarrow> \<exists>bts. split_all mx batches result = Some (result @ bts) \<and> Ball (set bts) (io_batch mx) \<and>
    ops_blocks (concat bts) = ops_blocks (concat batches)"
proof (induction batches arbitrary: result)
  case (Cons b batches)
  then obtain op ops where b: "b = op # ops" "chain (op_begin op) (op # ops) (op_end (last b))" "\<not> is_gap (last b)" "op_begin (last b) < op_end (last b)"
    by (cases b) (auto simp: good_batch_def)
  obtain bts where bts: "split_contiguous b mx result = Some (result @ bts)" "Ball (set bts) (io_batch mx)" "ops_blocks (concat bts) = ops_blocks b"
    using split_loop_spec [OF assms, of op ops "op_end (last b)" "op_begin op" "[]" mx result] b assms
    by (auto simp: split_contiguous_def)
  obtain bts' where "split_all mx batches (result @ bts) = Some ((result @ bts) @ bts')" "Ball (set bts') (io_batch mx)"
    "ops_blocks (concat bts') = ops_blocks (concat batches)" using Cons by fastforce
  with bts show ?case by (intro exI [of _ "bts @ bts'"]) auto
qed simp

lemma set_op_blocks: "snd ` set (ops_blocks ops) = (\<Union>op \<in> set ops. {x. op_begin op \<le> x \<and> x < op_end op})"
  by (induction ops) (auto simp: op_blocks_def set_range64 image_Un image_image)

lemma set_wanted: "x \<in> set (wanted (ops_blocks ops)) \<longleftrightarrow> (\<exists>op \<in> set ops. \<not> is_gap op \<and> op_begin op \<le> x \<and> x < op_end op)"
  by (induction ops) (auto simp: wanted_op set_range64)

text \<open>Nothing behind the last block that is wanted is read.\<close>

lemma good_batch_below:
  assumes "good_batch bt" "x \<in> snd ` set (ops_blocks bt)"
  shows "\<exists>y \<in> set (wanted (ops_blocks bt)). x \<le> y"
proof -
  let ?e = "op_end (last bt)"
  have bt: "bt \<noteq> []" "\<not> is_gap (last bt)" "op_begin (last bt) < ?e" "chain (op_begin (hd bt)) bt ?e"
    using assms(1) by (simp_all add: good_batch_def)
  have "x \<in> set (range64 (op_begin (hd bt)) ?e)" using assms(2) unfolding chain_blocks [OF bt(4), symmetric] by simp
  then have x: "x < ?e" by (simp add: set_range64)
  have u: "unat (?e - 1) = unat ?e - 1" using bt(3) by (intro unat_dec) (simp add: word_less_nat_alt)
  have "?e - 1 \<in> set (wanted (ops_blocks bt))"
    unfolding set_wanted using bt u by (intro bexI [of _ "last bt"]) (auto simp: word_le_nat_alt word_less_nat_alt)
  moreover have "x \<le> ?e - 1" using x u by (simp add: word_le_nat_alt word_less_nat_alt)
  ultimately show ?thesis by blast
qed

text \<open>The batches of a list of blocks.\<close>

lemma generate_runs_batches:
  assumes "\<forall>b \<in> set blocks. b \<noteq> -1" "0 < mx"
  obtains bts where "generate_runs blocks g mx = Some bts" "Ball (set bts) (io_batch mx)" "wanted (ops_blocks (concat bts)) = blocks"
    "\<forall>x \<in> snd ` set (ops_blocks (concat bts)). \<exists>y \<in> set blocks. x \<le> y"
proof -
  note w = find_runs_wf [OF assms(1), of g]
  note b = batch_adjacent_good [OF w(1)]
  obtain bts where bts: "split_batches (batch_adjacent (find_runs blocks g)) mx = Some bts" "Ball (set bts) (io_batch mx)"
    "ops_blocks (concat bts) = ops_blocks (find_runs blocks g)"
    using split_all_spec [OF assms(2) b(1), of "[]"] b(2) by (auto simp: split_batches_def)
  have all: "wanted (ops_blocks (concat bts)) = blocks" using bts(3) w(2) by simp
  have "\<exists>y \<in> set blocks. x \<le> y" if x: "x \<in> snd ` set (ops_blocks (concat bts))" for x
  proof -
    have "x \<in> snd ` set (ops_blocks (concat (batch_adjacent (find_runs blocks g))))" using x bts(3) b(2) by simp
    then obtain bt where bt: "bt \<in> set (batch_adjacent (find_runs blocks g))" "x \<in> snd ` set (ops_blocks bt)"
      unfolding set_op_blocks by auto
    then obtain y where "y \<in> set (wanted (ops_blocks bt))" "x \<le> y" using good_batch_below b(1) by blast
    moreover from this(1) have "y \<in> set (wanted (ops_blocks (concat (batch_adjacent (find_runs blocks g)))))"
      using bt(1) unfolding set_wanted by auto
    ultimately show ?thesis using b(2) w(2) by auto
  qed
  with bts(1,2) all show thesis by (intro that [of bts]) (simp_all add: generate_runs_def)
qed

section \<open>Property\<close>

text \<open>C38: The batches of a list of blocks: each is a chain of adjacent runs and gaps, not empty and at most \<open>max\<close> blocks long, and
  the runs of all of them are the blocks asked for, in the order asked. The last block of \<open>u64\<close> cannot be asked for, as the
  end of a run is exclusive.\<close>

theorem generate_runs_spec:
  assumes "\<forall>b \<in> set blocks. b \<noteq> -1" "0 < mx"
  shows "\<exists>bts. generate_runs blocks gap_threshold mx = Some bts \<and> wanted (ops_blocks (concat bts)) = blocks \<and>
    (\<forall>bt \<in> set bts. \<exists>b e. chain b bt e \<and> b < e \<and> unat e - unat b \<le> unat mx)"
  using generate_runs_batches [OF assms, of gap_threshold] by (metis io_batch_def)

theorem generate_runs_spec_witness:
  "\<exists>bts. generate_runs [5, 6, 7, 1, 2, 3, 10, 11] 4 3 = Some bts \<and> wanted (ops_blocks (concat bts)) = [5, 6, 7, 1, 2, 3, 10, 11]"
  using generate_runs_spec [of "[5, 6, 7, 1, 2, 3, 10, 11]" 3 4] by auto

end
