(* ===== verification/Vectored_Io.thy ===== *)
theory Vectored_Io
  imports Io_Runs Io_Engine
begin

text \<open>
  \<open>src/io_engine/utils.rs\<close>, the vectored block io, over the \<open>VectoredIo\<close> trait of \<open>src/io_engine/base.rs\<close>, and the
  device in memory of \<open>src/io_engine/ramdisk.rs\<close>, on which io to a broken page fails. A trait object is a record; what
  a read puts into the buffers is a sequence of bytes, which fills them one after the other.
\<close>

section \<open>Vectored devices\<close>

text \<open>A read is given the lengths of the buffers and returns, with the count, the bytes it put into them.\<close>

record 'd vectored_io =
  vio_read :: "nat list \<Rightarrow> u64 \<Rightarrow> 'd \<Rightarrow> (unit, nat) result \<times> bytes \<times> 'd"
  vio_write :: "bytes list \<Rightarrow> u64 \<Rightarrow> 'd \<Rightarrow> (unit, nat) result \<times> 'd"

fun scatter :: "bytes \<Rightarrow> bytes list \<Rightarrow> bytes list" where
  "scatter data [] = []"
| "scatter data (b # bs) = (take (length b) data @ drop (length data) b) # scatter (drop (length b) data) bs"

datatype block_io_error = EndOfFile | IncompleteRead | BlockFailed

type_synonym block_results = "(block_io_error, unit) result list"

section \<open>\<open>VectoredBlockIo\<close>\<close>

text \<open>The state of the loop of \<open>read_blocks\<close>: \<open>vr_done\<close> and \<open>vr_bufs\<close> are the buffers before and in the slice
  \<open>os_bufs\<close>, \<open>vr_partial\<close> the buffers that were filled in part only.\<close>

record 'd read_state =
  vr_remaining :: nat
  vr_pos :: u64
  vr_done :: "bytes list"
  vr_bufs :: "bytes list"
  vr_results :: block_results
  vr_partial :: "(nat \<times> nat) list"
  vr_index :: nat
  vr_dev :: 'd

text \<open>\<open>os_bufs = &mut os_bufs[k..]\<close>, which panics when there are not as many.\<close>

definition skip_bufs :: "nat \<Rightarrow> nat \<Rightarrow> 'd read_state \<Rightarrow> (block_io_error, unit) result \<times> 'd read_state" where
  "skip_bufs k block_size s = (if length (vr_bufs s) < k then (Panic, s) else
     (Ok (), s\<lparr>vr_remaining := vr_remaining s - k * block_size, vr_pos := vr_pos s + word_of_nat k * word_of_nat block_size,
       vr_done := vr_done s @ take k (vr_bufs s), vr_bufs := drop k (vr_bufs s)\<rparr>))"

definition read_round :: "'d vectored_io \<Rightarrow> bool \<Rightarrow> nat \<Rightarrow> 'd read_state \<Rightarrow> (block_io_error, unit) result \<times> 'd read_state" where
  "read_round vio partial_io block_size s =
    (case vio_read vio (map length (vr_bufs s)) (vr_pos s) (vr_dev s) of (r, data, d) \<Rightarrow>
      let s = s\<lparr>vr_bufs := scatter data (vr_bufs s), vr_dev := d\<rparr> in
      case r of
        Ok n \<Rightarrow>
          if n = 0 then
            (Ok (), s\<lparr>vr_results := vr_results s @ replicate (length (vr_bufs s)) (Err EndOfFile), vr_remaining := 0\<rparr>)
          else if block_size = 0 then (Panic, s)
          else
            let blocks_completed = n div block_size; partial_bytes = n mod block_size;
                blocks_to_skip = (n + block_size - 1) div block_size in
            binds (skip_bufs blocks_to_skip block_size s) (\<lambda>_ s. (Ok (), s\<lparr>
              vr_results := vr_results s @ replicate blocks_completed (Ok ()) @
                (if partial_bytes > 0 then [if partial_io then Ok () else Err IncompleteRead] else []),
              vr_partial := vr_partial s @ (if partial_bytes > 0 then [(vr_index s + blocks_completed, partial_bytes)] else []),
              vr_index := vr_index s + blocks_to_skip\<rparr>))
      | Err _ \<Rightarrow> binds (skip_bufs 1 block_size s) (\<lambda>_ s.
          (Ok (), s\<lparr>vr_results := vr_results s @ [Err BlockFailed], vr_index := vr_index s + 1\<rparr>))
      | Panic \<Rightarrow> (Panic, s))"

definition read_left :: "'d read_state \<Rightarrow> nat" where
  "read_left s = (if vr_remaining s = 0 then 0 else Suc (length (vr_bufs s)))"

lemma scatter_length [simp]: "length (scatter data bs) = length bs" "map length (scatter data bs) = map length bs"
  by (induction bs arbitrary: data) auto

lemma read_round_left:
  assumes "read_round vio partial_io block_size s = (Ok (), s')" "0 < vr_remaining s"
  shows "read_left s' < read_left s"
proof -
  obtain r data d where rd: "vio_read vio (map length (vr_bufs s)) (vr_pos s) (vr_dev s) = (r, data, d)" by (metis prod_cases3)
  show ?thesis
  proof (cases r)
    case (Ok n)
    show ?thesis
    proof (cases "n = 0")
      case False
      then have "0 < (n + block_size - 1) div block_size" if "block_size \<noteq> 0"
        using that by (simp add: div_greater_zero_iff)
      with False show ?thesis using assms rd Ok
        by (auto simp: read_round_def Let_def binds_Ok skip_bufs_def read_left_def split: if_splits)
    qed (use assms rd Ok in \<open>auto simp: read_round_def read_left_def\<close>)
  qed (use assms rd in \<open>auto simp: read_round_def Let_def binds_Ok skip_bufs_def read_left_def split: if_splits\<close>)
qed

function read_loop :: "'d vectored_io \<Rightarrow> bool \<Rightarrow> nat \<Rightarrow> 'd read_state \<Rightarrow> (block_io_error, unit) result \<times> 'd read_state" where
  "read_loop vio partial_io block_size s = (if vr_remaining s > 0
     then binds (read_round vio partial_io block_size s) (\<lambda>_ s. read_loop vio partial_io block_size s) else (Ok (), s))"
  by pat_completeness auto
termination
  by (relation "measure (\<lambda>(vio, partial_io, block_size, s). read_left s)") (auto dest: read_round_left)

declare read_loop.simps [simp del]

text \<open>\<open>buffers[buf_idx][offset..].fill(0)\<close>\<close>

definition zero_tail :: "nat \<times> nat \<Rightarrow> bytes list \<Rightarrow> bytes list" where
  "zero_tail = (\<lambda>(i, offset) bs. bs[i := take offset (bs ! i) @ replicate (length (bs ! i) - offset) 0])"

definition read_blocks :: "'d vectored_io \<Rightarrow> bool \<Rightarrow> bytes list \<Rightarrow> u64 \<Rightarrow> 'd \<Rightarrow>
    (block_io_error, block_results) result \<times> bytes list \<times> 'd" where
  "read_blocks vio partial_io buffers pos d =
    (case buffers of [] \<Rightarrow> (Panic, buffers, d)
     | b # _ \<Rightarrow>
       if \<not> list_all (\<lambda>x. length x = length b) buffers then (Panic, buffers, d) else
       (case read_loop vio partial_io (length b) \<lparr>vr_remaining = sum_list (map length buffers), vr_pos = pos, vr_done = [],
            vr_bufs = buffers, vr_results = [], vr_partial = [], vr_index = 0, vr_dev = d\<rparr> of
          (r, s) \<Rightarrow>
            (mapr (\<lambda>_. vr_results s) r,
             (if r = Ok () then fold zero_tail (vr_partial s) (vr_done s @ vr_bufs s) else vr_done s @ vr_bufs s),
             vr_dev s)))"

text \<open>Writing: a device that writes nothing and reports no error keeps the loop going, so that it may not end. Data that was
  written in part of a block only is a failed assertion.\<close>

record 'd write_state =
  vw_remaining :: nat
  vw_pos :: u64
  vw_bufs :: "bytes list"
  vw_results :: block_results
  vw_dev :: 'd

definition write_round :: "'d vectored_io \<Rightarrow> nat \<Rightarrow> 'd write_state \<Rightarrow> (block_io_error, unit) result \<times> 'd write_state" where
  "write_round vio block_size s = (case vio_write vio (vw_bufs s) (vw_pos s) (vw_dev s) of (r, d) \<Rightarrow>
     let s = s\<lparr>vw_dev := d\<rparr> in
     case r of
       Ok n \<Rightarrow>
         if block_size = 0 \<or> n mod block_size \<noteq> 0 \<or> length (vw_bufs s) < n div block_size then (Panic, s)
         else (Ok (), s\<lparr>vw_remaining := vw_remaining s - n, vw_pos := vw_pos s + word_of_nat n,
                vw_bufs := drop (n div block_size) (vw_bufs s), vw_results := vw_results s @ replicate (n div block_size) (Ok ())\<rparr>)
     | Err _ \<Rightarrow>
         if vw_bufs s = [] then (Panic, s)
         else (Ok (), s\<lparr>vw_remaining := vw_remaining s - block_size, vw_pos := vw_pos s + word_of_nat block_size,
                vw_bufs := tl (vw_bufs s), vw_results := vw_results s @ [Err BlockFailed]\<rparr>)
     | Panic \<Rightarrow> (Panic, s))"

partial_function (option) write_loop :: "'d vectored_io \<Rightarrow> nat \<Rightarrow> 'd write_state \<Rightarrow>
    ((block_io_error, unit) result \<times> 'd write_state) option" where
  "write_loop vio block_size s = (if vw_remaining s > 0
     then (case write_round vio block_size s of (Ok _, s) \<Rightarrow> write_loop vio block_size s | (r, s) \<Rightarrow> Some (r, s)) else Some (Ok (), s))"

definition write_blocks :: "'d vectored_io \<Rightarrow> bytes list \<Rightarrow> u64 \<Rightarrow> 'd \<Rightarrow> ((block_io_error, block_results) result \<times> 'd) option" where
  "write_blocks vio buffers pos d =
    (case buffers of [] \<Rightarrow> Some (Panic, d)
     | b # _ \<Rightarrow>
       if \<not> list_all (\<lambda>x. length x = length b) buffers then Some (Panic, d) else
       map_option (\<lambda>(r, s). (mapr (\<lambda>_. vw_results s) r, vw_dev s))
         (write_loop vio (length b) \<lparr>vw_remaining = sum_list (map length buffers), vw_pos = pos, vw_bufs = buffers,
            vw_results = [], vw_dev = d\<rparr>))"

section \<open>\<open>SimpleBlockIo\<close>\<close>

text \<open>\<open>FileExt\<close>: a read or a write of one whole buffer.\<close>

record 'd file_ext =
  fx_read_exact :: "nat \<Rightarrow> u64 \<Rightarrow> 'd \<Rightarrow> bool \<times> bytes \<times> 'd"
  fx_write_all :: "bytes \<Rightarrow> u64 \<Rightarrow> 'd \<Rightarrow> bool \<times> 'd"

definition block_result :: "bool \<Rightarrow> (block_io_error, unit) result" where
  "block_result b = (if b then Ok () else Err BlockFailed)"

fun simple_read_blocks :: "'d file_ext \<Rightarrow> bytes list \<Rightarrow> u64 \<Rightarrow> 'd \<Rightarrow> block_results \<times> bytes list \<times> 'd" where
  "simple_read_blocks fx [] pos d = ([], [], d)"
| "simple_read_blocks fx (b # bs) pos d = (case fx_read_exact fx (length b) pos d of (r, data, d) \<Rightarrow>
     (case simple_read_blocks fx bs (pos + word_of_nat (length b)) d of (rs, bs, d) \<Rightarrow>
       (block_result r # rs, hd (scatter data [b]) # bs, d)))"

fun simple_write_blocks :: "'d file_ext \<Rightarrow> bytes list \<Rightarrow> u64 \<Rightarrow> 'd \<Rightarrow> block_results \<times> 'd" where
  "simple_write_blocks fx [] pos d = ([], d)"
| "simple_write_blocks fx (b # bs) pos d = (case fx_write_all fx b pos d of (r, d) \<Rightarrow>
     (case simple_write_blocks fx bs (pos + word_of_nat (length b)) d of (rs, d) \<Rightarrow> (block_result r # rs, d)))"

section \<open>What the block io relies on\<close>

text \<open>A device of \<open>size\<close> bytes with a content, some bytes of which are broken. Within the device a read or a write transfers
  a number of whole pages, not none, when the buffers are whole pages; it fails only when something in its range is broken.
  After a failed write nothing is known of the content of its range.\<close>

definition bytes_at :: "(nat \<Rightarrow> u8) \<Rightarrow> nat \<Rightarrow> nat \<Rightarrow> bytes" where
  "bytes_at content pos n = map content [pos ..< pos + n]"

definition whole_pages :: "nat list \<Rightarrow> bool" where
  "whole_pages ls \<longleftrightarrow> ls \<noteq> [] \<and> (\<forall>l \<in> set ls. 0 < l \<and> l mod 4096 = 0)"

locale vectored_device =
  fixes vio :: "'d vectored_io" and dev_size :: "'d \<Rightarrow> nat" and content :: "'d \<Rightarrow> nat \<Rightarrow> u8" and broken :: "'d \<Rightarrow> nat \<Rightarrow> bool"
  assumes size64: "dev_size d < 2 ^ 64"
    and read_law: "vio_read vio ls pos d = (r, data, d') \<Longrightarrow> whole_pages ls \<Longrightarrow> unat pos + sum_list ls \<le> dev_size d \<Longrightarrow>
      r \<noteq> Panic \<and> dev_size d' = dev_size d \<and> content d' = content d \<and> broken d' = broken d \<and>
      (\<forall>n. r = Ok n \<longrightarrow> 0 < n \<and> n mod 4096 = 0 \<and> n \<le> sum_list ls \<and> take n data = bytes_at (content d) (unat pos) n) \<and>
      (is_ok r \<or> (\<exists>i. unat pos \<le> i \<and> i < unat pos + sum_list ls \<and> broken d i))"
    and write_law: "vio_write vio bs pos d = (r, d') \<Longrightarrow> whole_pages (map length bs) \<Longrightarrow> unat pos + length (concat bs) \<le> dev_size d \<Longrightarrow>
      r \<noteq> Panic \<and> dev_size d' = dev_size d \<and> broken d' = broken d \<and>
      (\<forall>n. r = Ok n \<longrightarrow> 0 < n \<and> n mod 4096 = 0 \<and> n \<le> length (concat bs) \<and> bytes_at (content d') (unat pos) n = take n (concat bs)) \<and>
      (\<forall>i. i < unat pos \<or> unat pos + length (concat bs) \<le> i \<longrightarrow> content d' i = content d i) \<and>
      (is_ok r \<or> (\<exists>i. unat pos \<le> i \<and> i < unat pos + length (concat bs) \<and> broken d i))"

lemma bytes_at_simps [simp]: "length (bytes_at c p n) = n" "bytes_at c p 0 = []"
  by (simp_all add: bytes_at_def)

lemma bytes_at_add: "bytes_at c p (m + n) = bytes_at c p m @ bytes_at c (p + m) n"
  using upt_add_eq_append [of p "p + m" n] by (simp add: bytes_at_def add.assoc)

lemma take_bytes_at: "take k (bytes_at c p n) = bytes_at c p (min k n)"
  by (simp add: bytes_at_def take_map min_def)

lemma drop_bytes_at: "drop k (bytes_at c p n) = bytes_at c (p + k) (n - k)"
  by (cases "k \<le> n") (simp_all add: bytes_at_def drop_map)

text \<open>The buffers, all of one size, that a transfer fills completely.\<close>

lemma scatter_full:
  "take n data = bytes_at c p n \<Longrightarrow> \<forall>b \<in> set bs. length b = bsz \<Longrightarrow> i < length bs \<Longrightarrow> (i + 1) * bsz \<le> n \<Longrightarrow>
    scatter data bs ! i = bytes_at c (p + i * bsz) bsz"
proof (induction bs arbitrary: data p n i)
  case (Cons b bs)
  have len: "length b = bsz" "bsz \<le> n" using Cons.prems(2,4) by auto
  show ?case
  proof (cases i)
    case 0
    have "take bsz data = bytes_at c p bsz"
      using arg_cong [OF Cons.prems(1), of "take bsz"] len(2) by (simp add: take_bytes_at min_absorb1)
    moreover from arg_cong [OF this, of length] have "bsz \<le> length data" by simp
    ultimately show ?thesis by (simp add: 0 len)
  next
    case (Suc j)
    have "take (n - bsz) (drop bsz data) = bytes_at c (p + bsz) (n - bsz)"
      using arg_cong [OF Cons.prems(1), of "drop bsz"] by (simp add: drop_take drop_bytes_at)
    from Cons.IH [OF this, of j] Cons.prems(2-4) Suc len show ?thesis by (simp add: add.assoc)
  qed
qed simp

lemma concat_block: "\<forall>b \<in> set bs. length b = bsz \<Longrightarrow> i < length bs \<Longrightarrow> take bsz (drop (i * bsz) (concat bs)) = bs ! i"
proof (induction bs arbitrary: i)
  case (Cons b bs)
  then show ?case by (cases i) simp_all
qed simp

lemma sum_list_const: "\<forall>x \<in> set xs. f x = (k :: nat) \<Longrightarrow> sum_list (map f xs) = k * length xs"
  by (induction xs) simp_all

context vectored_device begin

text \<open>The loop of \<open>read_blocks\<close> on \<open>N\<close> buffers of \<open>bsz\<close> bytes, from \<open>p0\<close> on: a result is \<open>Ok\<close> when the buffer holds
  the block, and an error only when something from the block on is broken.\<close>

definition read_inv :: "'d \<Rightarrow> nat \<Rightarrow> nat \<Rightarrow> nat \<Rightarrow> 'd read_state \<Rightarrow> bool" where
  "read_inv d0 p0 N bsz s \<longleftrightarrow> (let k = length (vr_done s) in
     length (vr_results s) = k \<and> vr_index s = k \<and> k + length (vr_bufs s) = N \<and> (\<forall>b \<in> set (vr_done s @ vr_bufs s). length b = bsz) \<and>
     vr_remaining s = bsz * length (vr_bufs s) \<and> (k < N \<longrightarrow> unat (vr_pos s) = p0 + bsz * k) \<and>
     dev_size (vr_dev s) = dev_size d0 \<and> content (vr_dev s) = content d0 \<and> broken (vr_dev s) = broken d0 \<and>
     (\<forall>i < k. (vr_results s ! i = Ok () \<longrightarrow> vr_done s ! i = bytes_at (content d0) (p0 + bsz * i) bsz) \<and>
       (vr_results s ! i \<noteq> Ok () \<longrightarrow> (\<exists>j. p0 + bsz * i \<le> j \<and> j < p0 + bsz * N \<and> broken d0 j))) \<and>
     vr_partial s = [])"

text \<open>Buffers of one page each, or of several pages on a device that never transfers a part of what it is asked for.\<close>

definition all_or_nothing :: bool where
  "all_or_nothing \<longleftrightarrow> (\<forall>ls pos d n data d'. vio_read vio ls pos d = (Ok n, data, d') \<longrightarrow> whole_pages ls \<longrightarrow>
     unat pos + sum_list ls \<le> dev_size d \<longrightarrow> n = sum_list ls)"

definition block_buffers :: "nat \<Rightarrow> bool" where
  "block_buffers bsz \<longleftrightarrow> bsz = 4096 \<or> 0 < bsz \<and> bsz mod 4096 = 0 \<and> all_or_nothing"

lemma block_buffers_pages: "block_buffers bsz \<Longrightarrow> 0 < bsz \<and> bsz mod 4096 = 0"
  by (auto simp: block_buffers_def)

lemma pos_add:
  assumes "unat (pos :: u64) = p" "p + m < 2 ^ 64"
  shows "unat (pos + word_of_nat m) = p + m"
  using assms unat_of_nat64 [of m] by (intro trans [OF unat_plus_no_overflow]) simp_all

lemma read_round_inv:
  assumes inv: "read_inv d0 p0 N bsz s" and rem: "0 < vr_remaining s" and page: "block_buffers bsz"
    and room: "p0 + bsz * N \<le> dev_size d0"
  shows "\<exists>s'. read_round vio partial_io bsz s = (Ok (), s') \<and> read_inv d0 p0 N bsz s'"
proof -
  define k where "k = length (vr_done s)"
  note i = inv [unfolded read_inv_def Let_def, folded k_def]
  have ne: "vr_bufs s \<noteq> []" using rem i by auto
  then have k: "k < N" "N - k = length (vr_bufs s)" using i by auto
  have lens: "map length (vr_bufs s) = replicate (N - k) bsz" using i k by (intro nth_equalityI) auto
  have pages: "whole_pages (map length (vr_bufs s))" "sum_list (map length (vr_bufs s)) = bsz * (N - k)"
    using block_buffers_pages [OF page] k(1) unfolding lens by (simp_all add: whole_pages_def sum_list_replicate)
  have pos: "unat (vr_pos s) = p0 + bsz * k" using i k by simp
  have total: "p0 + bsz * k + bsz * (N - k) = p0 + bsz * N" using k(1) by (simp add: add_mult_distrib2 [symmetric])
  obtain r data d where rd: "vio_read vio (map length (vr_bufs s)) (vr_pos s) (vr_dev s) = (r, data, d)" by (metis prod_cases3)
  have inside: "unat (vr_pos s) + sum_list (map length (vr_bufs s)) \<le> dev_size (vr_dev s)" using room i total by (simp add: pos pages(2))
  note law = read_law [OF rd pages(1) inside]
  have dev: "dev_size d = dev_size d0" "content d = content d0" "broken d = broken d0" using law i by auto
  define bufs where "bufs = scatter data (vr_bufs s)"
  have bufs: "length bufs = N - k" "\<forall>b \<in> set bufs. length b = bsz"
    using k lens by (simp_all add: bufs_def) (metis in_set_replicate length_map list.set_map imageI scatter_length(2) lens)
  have len0: "\<forall>b \<in> set (vr_bufs s). length b = bsz" using i by auto
  define s1 where "s1 m = s\<lparr>vr_dev := d, vr_remaining := bsz * (N - k - m), vr_pos := vr_pos s + word_of_nat m * word_of_nat bsz,
       vr_done := vr_done s @ take m bufs, vr_bufs := drop m bufs\<rparr>" for m
  have skip: "skip_bufs m bsz (s\<lparr>vr_bufs := bufs, vr_dev := d\<rparr>) = (Ok (), s1 m)" if "m \<le> N - k" for m
  proof -
    have "bsz * (N - k) - m * bsz = bsz * (N - k - m)" by (simp only: diff_mult_distrib2 mult.commute)
    then show ?thesis using that bufs(1) i k by (simp add: skip_bufs_def s1_def)
  qed
  have size: "p0 + bsz * N < 2 ^ 64" using room size64 [of d0] by linarith
  have pos1: "unat (vr_pos (s1 m)) = p0 + bsz * (k + m)" if "k + m < N" for m
  proof -
    have "p0 + bsz * (k + m) \<le> p0 + bsz * N" using that by simp
    then have "p0 + bsz * k + m * bsz < 2 ^ 64" using size by (simp add: add_mult_distrib2 mult.commute [of m])
    from pos_add [OF pos this] have "unat (vr_pos s + word_of_nat (m * bsz)) = p0 + bsz * k + m * bsz" .
    then show ?thesis by (simp add: s1_def add_mult_distrib2)
  qed
  have s1_facts: "k + m + length (vr_bufs (s1 m)) = N" "length (vr_done (s1 m)) = k + m"
    "vr_remaining (s1 m) = bsz * length (vr_bufs (s1 m))" "\<forall>b \<in> set (vr_done (s1 m) @ vr_bufs (s1 m)). length b = bsz" if "m \<le> N - k" for m
    using that bufs i k(1) by (auto simp: s1_def k_def dest: in_set_takeD in_set_dropD)
  show ?thesis
  proof (cases r)
    case Panic
    with law show ?thesis by simp
  next
    case (Err e)
    have "\<exists>j. p0 + bsz * k \<le> j \<and> j < p0 + bsz * N \<and> broken d0 j" using law Err i total by (auto simp: pos pages(2))
    moreover have "1 \<le> N - k" using k(1) by simp
    ultimately have "read_inv d0 p0 N bsz (s1 1\<lparr>vr_results := vr_results (s1 1) @ [Err BlockFailed], vr_index := vr_index (s1 1) + 1\<rparr>)"
      using s1_facts [of 1] pos1 [of 1] i dev
      unfolding read_inv_def Let_def by (auto simp: s1_def less_Suc_eq nth_append k_def [symmetric])
    then show ?thesis using rd Err skip [of 1] k(1) by (simp add: read_round_def Let_def bufs_def)
  next
    case (Ok n)
    define m where "m = n div bsz"
    have "n mod bsz = 0"
    proof (cases "bsz = 4096")
      case False
      then have "n = bsz * (N - k)"
        using page rd pages inside Ok unfolding block_buffers_def all_or_nothing_def by metis
      then show ?thesis by simp
    qed (use law Ok in simp)
    then have n: "0 < n" "n = m * bsz" "n \<le> bsz * (N - k)" "take n data = bytes_at (content d0) (p0 + bsz * k) n"
      using law Ok i by (auto simp: m_def pages(2) pos)
    have bsz: "0 < bsz" using block_buffers_pages [OF page] by simp
    have "(n + bsz - 1) div bsz = (bsz - 1 + m * bsz) div bsz" using bsz n(2) by (simp add: add.commute)
    also have "\<dots> = m" using bsz by (subst div_mult_self1) simp_all
    finally have m: "m \<le> N - k" "0 < m" "(n + bsz - 1) div bsz = m" using n(1-3) bsz by auto
    have data: "bufs ! j = bytes_at (content d0) (p0 + bsz * (k + j)) bsz" if "j < m" for j
    proof -
      have "(j + 1) * bsz \<le> n" unfolding n(2) using that by (intro mult_le_mono1) simp
      from scatter_full [OF n(4) len0 _ this] that m(1) k show ?thesis
        by (simp add: bufs_def add_mult_distrib2 add.assoc mult.commute [of j])
    qed
    have "vr_done (s1 m) ! j = bytes_at (content d0) (p0 + bsz * j) bsz" if "k \<le> j" "j < k + m" for j
      using data [of "j - k"] that bufs(1) m(1) by (simp add: s1_def nth_append k_def)
    moreover have "vr_done (s1 m) ! j = vr_done s ! j" if "j < k" for j using that by (simp add: s1_def nth_append k_def)
    ultimately have "read_inv d0 p0 N bsz (s1 m\<lparr>vr_results := vr_results (s1 m) @ replicate m (Ok ()), vr_partial := vr_partial (s1 m) @ [],
        vr_index := vr_index (s1 m) + m\<rparr>)"
      using s1_facts [OF m(1)] pos1 [of m] i dev unfolding read_inv_def Let_def
      by (auto simp: s1_def nth_append k_def [symmetric])
    moreover have "read_round vio partial_io bsz s = (Ok (), s1 m\<lparr>vr_results := vr_results (s1 m) @ replicate m (Ok ()),
        vr_partial := vr_partial (s1 m) @ [], vr_index := vr_index (s1 m) + m\<rparr>)"
      using rd Ok skip [OF m(1)] m n(1,2) bsz by (simp add: read_round_def Let_def bufs_def)
    ultimately show ?thesis by blast
  qed
qed

lemma read_loop_inv:
  assumes "block_buffers bsz" "p0 + bsz * N \<le> dev_size d0"
  shows "read_inv d0 p0 N bsz s \<Longrightarrow>
    \<exists>s'. read_loop vio partial_io bsz s = (Ok (), s') \<and> read_inv d0 p0 N bsz s' \<and> vr_remaining s' = 0"
proof (induction "read_left s" arbitrary: s rule: less_induct)
  case less
  show ?case
  proof (cases "0 < vr_remaining s")
    case True
    from read_round_inv [OF less.prems True assms] obtain s1 where s1: "read_round vio partial_io bsz s = (Ok (), s1)" "read_inv d0 p0 N bsz s1"
      by blast
    from less.hyps [OF read_round_left [OF s1(1) True] s1(2)] s1(1) True show ?thesis by (subst read_loop.simps) simp
  qed (use less.prems in \<open>simp add: read_loop.simps [of _ _ _ s]\<close>)
qed

text \<open>What \<open>read_blocks\<close> returns: a result for each buffer; a buffer with an \<open>Ok\<close> holds its block, and an error means that
  something from its block to the end of the range is broken.\<close>

lemma read_blocks_spec:
  assumes ne: "buffers \<noteq> []" and len: "\<forall>b \<in> set buffers. length b = bsz" and room: "unat pos + bsz * length buffers \<le> dev_size d"
    and page: "block_buffers bsz"
  obtains rs bs d' where "read_blocks vio partial_io buffers pos d = (Ok rs, bs, d')" "length rs = length buffers"
    "length bs = length buffers" "\<forall>b \<in> set bs. length b = bsz"
    "dev_size d' = dev_size d" "content d' = content d" "broken d' = broken d"
    "\<And>i. i < length buffers \<Longrightarrow> rs ! i = Ok () \<Longrightarrow> bs ! i = bytes_at (content d) (unat pos + bsz * i) bsz"
    "\<And>i. i < length buffers \<Longrightarrow> rs ! i \<noteq> Ok () \<Longrightarrow>
      \<exists>j. unat pos + bsz * i \<le> j \<and> j < unat pos + bsz * length buffers \<and> broken d j"
proof -
  obtain b rest where b: "buffers = b # rest" using ne by (cases buffers) simp_all
  let ?s = "\<lparr>vr_remaining = sum_list (map length buffers), vr_pos = pos, vr_done = [],
            vr_bufs = buffers, vr_results = [], vr_partial = [], vr_index = 0, vr_dev = d\<rparr>"
  have "read_inv d (unat pos) (length buffers) bsz ?s"
    using len by (simp add: read_inv_def sum_list_const [OF len])
  from read_loop_inv [OF page room this, of partial_io] obtain s where s: "read_loop vio partial_io bsz ?s = (Ok (), s)"
    "read_inv d (unat pos) (length buffers) bsz s" "vr_remaining s = 0" by blast
  then have i: "vr_bufs s = []" "length (vr_done s) = length buffers" "vr_partial s = []"
    using block_buffers_pages [OF page] by (auto simp: read_inv_def Let_def)
  have "list_all (\<lambda>x. length x = bsz) buffers" using len by (simp add: list_all_iff)
  then have "read_blocks vio partial_io buffers pos d = (Ok (vr_results s), vr_done s, vr_dev s)"
    using s(1) i len by (simp add: read_blocks_def b)
  with s(2) i show thesis by (intro that [of "vr_results s" "vr_done s" "vr_dev s"]) (auto simp: read_inv_def Let_def)
qed

text \<open>The loop of \<open>write_blocks\<close>.\<close>

definition write_inv :: "'d \<Rightarrow> nat \<Rightarrow> bytes list \<Rightarrow> nat \<Rightarrow> 'd write_state \<Rightarrow> bool" where
  "write_inv d0 p0 bufs bsz s \<longleftrightarrow> (let k = length (vw_results s); N = length bufs in
     k \<le> N \<and> vw_bufs s = drop k bufs \<and> vw_remaining s = bsz * (N - k) \<and> (k < N \<longrightarrow> unat (vw_pos s) = p0 + bsz * k) \<and>
     dev_size (vw_dev s) = dev_size d0 \<and> broken (vw_dev s) = broken d0 \<and>
     (\<forall>j. j < p0 \<or> p0 + bsz * N \<le> j \<longrightarrow> content (vw_dev s) j = content d0 j) \<and>
     (\<forall>i < k. (vw_results s ! i = Ok () \<longrightarrow> bytes_at (content (vw_dev s)) (p0 + bsz * i) bsz = bufs ! i) \<and>
       (vw_results s ! i \<noteq> Ok () \<longrightarrow> (\<exists>j. p0 + bsz * i \<le> j \<and> j < p0 + bsz * N \<and> broken d0 j))))"

lemma write_round_inv:
  assumes inv: "write_inv d0 p0 bufs bsz s" and rem: "0 < vw_remaining s" and page: "bsz = 4096" "\<forall>b \<in> set bufs. length b = bsz"
    and room: "p0 + bsz * length bufs \<le> dev_size d0"
  shows "\<exists>s'. write_round vio bsz s = (Ok (), s') \<and> write_inv d0 p0 bufs bsz s' \<and> vw_remaining s' < vw_remaining s"
proof -
  define k N where "k = length (vw_results s)" and "N = length bufs"
  note i = inv [unfolded write_inv_def Let_def, folded k_def N_def]
  have k: "k < N" using rem i by auto
  have cur: "vw_bufs s = drop k bufs" "length (drop k bufs) = N - k" "\<forall>b \<in> set (drop k bufs). length b = bsz" "drop k bufs \<noteq> []"
    using i k page(2) by (auto simp: N_def dest: in_set_dropD)
  have total: "p0 + bsz * k + bsz * (N - k) = p0 + bsz * N" using k by (simp add: add_mult_distrib2 [symmetric])
  have cat: "length (concat (drop k bufs)) = bsz * (N - k)" using sum_list_const [OF cur(3)] cur(2) by (simp add: length_concat)
  have pos: "unat (vw_pos s) = p0 + bsz * k" using i k by simp
  have pages: "whole_pages (map length (vw_bufs s))" using cur page(1) by (auto simp: whole_pages_def)
  obtain r d where wr: "vio_write vio (vw_bufs s) (vw_pos s) (vw_dev s) = (r, d)" by fastforce
  have "unat (vw_pos s) + length (concat (vw_bufs s)) \<le> dev_size (vw_dev s)" using room i total by (simp add: pos cur(1) cat N_def)
  note law = write_law [OF wr pages this, unfolded cur(1) pos cat total]
  have size: "p0 + bsz * N < 2 ^ 64" using room size64 [of d0] by (simp add: N_def)
  have dev: "dev_size d = dev_size d0" "broken d = broken d0" using law i by auto
  have outside: "content d j = content d0 j" if "j < p0 \<or> p0 + bsz * N \<le> j" for j using law i that by auto
  have before: "bytes_at (content d) (p0 + bsz * j) bsz = bytes_at (content (vw_dev s)) (p0 + bsz * j) bsz" if "j < k" for j
  proof -
    have "bsz * j + bsz \<le> bsz * k" using that by (metis Suc_leI mult_Suc_right mult_le_mono2 add.commute)
    then show ?thesis using law by (simp add: bytes_at_def)
  qed
  have pos1: "unat (vw_pos s + word_of_nat (m * bsz)) = p0 + bsz * (k + m)" if "k + m < N" for m
  proof -
    have "p0 + bsz * (k + m) \<le> p0 + bsz * N" using that by simp
    then have "p0 + bsz * k + m * bsz < 2 ^ 64" using size by (simp add: add_mult_distrib2 mult.commute [of m])
    from pos_add [OF pos this] show ?thesis by (simp add: add_mult_distrib2)
  qed
  show ?thesis
  proof (cases r)
    case Panic
    with law show ?thesis by simp
  next
    case (Err e)
    have "\<exists>j. p0 + bsz * k \<le> j \<and> j < p0 + bsz * N \<and> broken d0 j" using law Err i by auto
    then have "write_inv d0 p0 bufs bsz (s\<lparr>vw_dev := d, vw_remaining := bsz * (N - Suc k), vw_pos := vw_pos s + word_of_nat bsz,
        vw_bufs := drop (Suc k) bufs, vw_results := vw_results s @ [Err BlockFailed]\<rparr>)"
      using k i dev outside before pos1 [of 1] unfolding write_inv_def Let_def
      by (auto simp: k_def [symmetric] N_def [symmetric] less_Suc_eq nth_append)
    moreover have "bsz * (N - k) - bsz = bsz * (N - Suc k)" using k by (simp add: diff_mult_distrib2)
    moreover have "bsz * (N - Suc k) < bsz * (N - k)" using k page(1) by simp
    ultimately show ?thesis using wr Err i cur by (simp add: write_round_def Let_def tl_drop drop_Suc)
  next
    case (Ok n)
    define m where "m = n div bsz"
    have n: "0 < n" "n = m * bsz" "n \<le> bsz * (N - k)" "bytes_at (content d) (p0 + bsz * k) n = take n (concat (drop k bufs))"
      using law Ok by (auto simp: m_def page)
    have m: "m \<le> N - k" "0 < m" using n(1-3) page by auto
    have data: "bytes_at (content d) (p0 + bsz * (k + j)) bsz = bufs ! (k + j)" if "j < m" for j
    proof -
      have jn: "j * bsz + bsz \<le> n" using that n(2) by (simp add: page)
      have "take bsz (drop (j * bsz) (bytes_at (content d) (p0 + bsz * k) n)) = bytes_at (content d) (p0 + bsz * (k + j)) bsz"
        using jn by (subst drop_bytes_at, subst take_bytes_at) (simp add: min_absorb1 add_mult_distrib2 mult.commute [of j] add.assoc)
      moreover have "take bsz (drop (j * bsz) (take n (concat (drop k bufs)))) = drop k bufs ! j"
        using concat_block [OF cur(3), of j] that m(1) cur(2) jn by (simp add: drop_take min_absorb1 le_diff_conv2 [of "j * bsz"])
      ultimately show ?thesis using n(4) that m(1) k by (simp add: N_def)
    qed
    let ?rs = "vw_results s @ replicate m (Ok ())"
    have res: "(?rs ! j = Ok () \<longrightarrow> bytes_at (content d) (p0 + bsz * j) bsz = bufs ! j) \<and>
        (?rs ! j \<noteq> Ok () \<longrightarrow> (\<exists>l. p0 + bsz * j \<le> l \<and> l < p0 + bsz * N \<and> broken d0 l))" if "j < k + m" for j
    proof (cases "j < k")
      case True
      then have "?rs ! j = vw_results s ! j" by (simp add: nth_append k_def)
      with True i before show ?thesis by simp
    next
      case False
      then have "?rs ! j = Ok ()" using that by (simp add: nth_append k_def)
      with data [of "j - k"] False that show ?thesis by simp
    qed
    define s' where "s' = s\<lparr>vw_dev := d, vw_remaining := bsz * (N - (k + m)), vw_pos := vw_pos s + word_of_nat (m * bsz),
        vw_bufs := drop (k + m) bufs, vw_results := ?rs\<rparr>"
    have sel: "vw_dev s' = d" "vw_remaining s' = bsz * (N - (k + m))" "vw_pos s' = vw_pos s + word_of_nat (m * bsz)"
      "vw_bufs s' = drop (k + m) bufs" "vw_results s' = ?rs" "length (vw_results s') = k + m" by (simp_all add: s'_def k_def)
    have "write_inv d0 p0 bufs bsz s'"
      unfolding write_inv_def Let_def sel(1-5) N_def [symmetric] sel(6) [unfolded sel(5)] using m(1) k dev outside pos1 [of m] res by simp
    moreover have "write_round vio bsz s = (Ok (), s')"
    proof -
      have nm: "n div bsz = m" "n mod bsz = 0" "bsz \<noteq> 0" using n(2) page(1) by simp_all
      have "vw_remaining s - n = bsz * (N - (k + m))" using i n(2) by (simp add: diff_mult_distrib2 add_mult_distrib2 mult.commute [of m])
      moreover have "drop m (vw_bufs s) = drop (k + m) bufs" by (simp add: cur(1) add.commute)
      moreover have "\<not> length (vw_bufs s) < m" using m(1) cur(1,2) by simp
      ultimately show ?thesis unfolding write_round_def wr Ok prod.case Let_def result.case s'_def nm n(2) [symmetric] by (simp add: nm)
    qed
    moreover have "vw_remaining s' < vw_remaining s" using i k m page(1) by (simp add: sel(2))
    ultimately show ?thesis by blast
  qed
qed

lemma write_loop_inv:
  assumes "bsz = 4096" "\<forall>b \<in> set bufs. length b = bsz" "p0 + bsz * length bufs \<le> dev_size d0"
  shows "write_inv d0 p0 bufs bsz s \<Longrightarrow>
    \<exists>s'. write_loop vio bsz s = Some (Ok (), s') \<and> write_inv d0 p0 bufs bsz s' \<and> vw_remaining s' = 0"
proof (induction "vw_remaining s" arbitrary: s rule: less_induct)
  case less
  show ?case
  proof (cases "0 < vw_remaining s")
    case True
    from write_round_inv [OF less.prems True assms] obtain s1 where s1: "write_round vio bsz s = (Ok (), s1)" "write_inv d0 p0 bufs bsz s1"
      "vw_remaining s1 < vw_remaining s" by blast
    from less.hyps [OF s1(3,2)] s1(1) True show ?thesis by (subst write_loop.simps) simp
  qed (use less.prems in \<open>simp add: write_loop.simps [of _ _ s]\<close>)
qed

text \<open>What \<open>write_blocks\<close> does: it returns, with a result for each buffer; a block with an \<open>Ok\<close> holds its buffer, and an error
  means that something from the block to the end of the range is broken; nothing outside the range changes.\<close>

lemma write_blocks_spec:
  assumes ne: "buffers \<noteq> []" and len: "\<forall>b \<in> set buffers. length b = 4096" and room: "unat pos + 4096 * length buffers \<le> dev_size d"
  obtains rs d' where "write_blocks vio buffers pos d = Some (Ok rs, d')" "length rs = length buffers"
    "dev_size d' = dev_size d" "broken d' = broken d"
    "\<And>j. j < unat pos \<or> unat pos + 4096 * length buffers \<le> j \<Longrightarrow> content d' j = content d j"
    "\<And>i. i < length buffers \<Longrightarrow> rs ! i = Ok () \<Longrightarrow> bytes_at (content d') (unat pos + 4096 * i) 4096 = buffers ! i"
    "\<And>i. i < length buffers \<Longrightarrow> rs ! i \<noteq> Ok () \<Longrightarrow>
      \<exists>j. unat pos + 4096 * i \<le> j \<and> j < unat pos + 4096 * length buffers \<and> broken d j"
proof -
  obtain b rest where b: "buffers = b # rest" using ne by (cases buffers) simp_all
  let ?s = "\<lparr>vw_remaining = sum_list (map length buffers), vw_pos = pos, vw_bufs = buffers, vw_results = [], vw_dev = d\<rparr>"
  have "write_inv d (unat pos) buffers 4096 ?s"
    using sum_list_const [OF len] by (simp add: write_inv_def)
  from write_loop_inv [OF refl len room this] obtain s where s: "write_loop vio 4096 ?s = Some (Ok (), s)"
    "write_inv d (unat pos) buffers 4096 s" "vw_remaining s = 0" by blast
  then have n: "length (vw_results s) = length buffers" by (auto simp: write_inv_def Let_def)
  have "list_all (\<lambda>x. length x = 4096) buffers" using len by (simp add: list_all_iff)
  then have "write_blocks vio buffers pos d = Some (Ok (vw_results s), vw_dev s)"
    using s(1) len by (simp add: write_blocks_def b)
  with s(2) n show thesis by (intro that [of "vw_results s" "vw_dev s"]) (auto simp: write_inv_def Let_def)
qed

end

end
