(* ===== verification/Ramdisk.thy ===== *)
theory Ramdisk
  imports Vectored_Io
begin

text \<open>
  \<open>src/io_engine/ramdisk.rs\<close>: the device in memory the code tests its block io on. Io that touches a broken page fails as a
  whole. Where the source would copy from or to memory behind the buffer, which is undefined, the model panics.
\<close>

record ramdisk =
  rk_data :: bytes
  rk_invalid :: "u32 set"

definition ramdisk_new :: "(nat \<Rightarrow> u8) \<Rightarrow> u32 \<Rightarrow> ramdisk" where
  "ramdisk_new memory size_bytes = \<lparr>rk_data = map memory [0..<unat size_bytes], rk_invalid = {}\<rparr>"

text \<open>\<open>div_up\<close> on \<open>u32\<close>; the sum wraps.\<close>

definition div_up32 :: "u32 \<Rightarrow> u32 \<Rightarrow> u32" where
  "div_up32 v divisor = (v + (divisor - 1)) div divisor"

definition page_range :: "u32 \<Rightarrow> u32 \<Rightarrow> u32 list" where
  "page_range b e = map word_of_nat [unat (drop_bit 12 b) ..< unat (div_up32 e 4096)]"

definition invalidate :: "u32 \<Rightarrow> u32 \<Rightarrow> ramdisk \<Rightarrow> ramdisk" where
  "invalidate b e d = d\<lparr>rk_invalid := rk_invalid d \<union> set (page_range b e)\<rparr>"

definition is_valid_range :: "u32 set \<Rightarrow> u32 \<Rightarrow> u32 \<Rightarrow> bool" where
  "is_valid_range invalid_pages b e = list_all (\<lambda>i. i \<notin> invalid_pages) (page_range b e)"

fun ramdisk_read_loop :: "ramdisk \<Rightarrow> u32 \<Rightarrow> nat list \<Rightarrow> (unit, u32) result \<times> bytes" where
  "ramdisk_read_loop d b [] = (Ok b, [])"
| "ramdisk_read_loop d b (l # ls) =
    (if l mod 4096 \<noteq> 0 then (Err (), [])
     else if \<not> is_valid_range (rk_invalid d) b (b + word_of_nat l) then (Err (), [])
     else if length (rk_data d) < unat b + l then (Panic, [])
     else (case ramdisk_read_loop d (b + word_of_nat l) ls of (r, data) \<Rightarrow> (r, take l (drop (unat b) (rk_data d)) @ data)))"

fun ramdisk_write_loop :: "u32 \<Rightarrow> bytes list \<Rightarrow> ramdisk \<Rightarrow> (unit, u32) result \<times> ramdisk" where
  "ramdisk_write_loop b [] d = (Ok b, d)"
| "ramdisk_write_loop b (buf # bufs) d =
    (if length buf mod 4096 \<noteq> 0 then (Err (), d)
     else if \<not> is_valid_range (rk_invalid d) b (b + word_of_nat (length buf)) then (Err (), d)
     else if length (rk_data d) < unat b + length buf then (Panic, d)
     else ramdisk_write_loop (b + word_of_nat (length buf)) bufs
       (d\<lparr>rk_data := take (unat b) (rk_data d) @ buf @ drop (unat b + length buf) (rk_data d)\<rparr>))"

text \<open>\<open>begin as usize - pos as usize\<close>\<close>

definition moved :: "u64 \<Rightarrow> u32 \<Rightarrow> nat" where
  "moved pos b = unat (ucast b - pos)"

definition ramdisk_vio :: "ramdisk vectored_io" where
  "ramdisk_vio = \<lparr>
     vio_read = (\<lambda>ls pos d. case ramdisk_read_loop d (ucast pos) ls of (r, data) \<Rightarrow> (mapr (moved pos) r, data, d)),
     vio_write = (\<lambda>bufs pos d. case ramdisk_write_loop (ucast pos) bufs d of (r, d) \<Rightarrow> (mapr (moved pos) r, d))\<rparr>"

text \<open>\<open>FileExt\<close>: a read or write of one buffer, through \<open>read_exact_at\<close> and \<open>write_all_at\<close>, which call \<open>read_at\<close> and \<open>write_at\<close>
  once as these transfer everything.\<close>

definition ramdisk_fx :: "ramdisk file_ext" where
  "ramdisk_fx = \<lparr>
     fx_read_exact = (\<lambda>n pos d.
       if \<not> is_valid_range (rk_invalid d) (ucast pos) (ucast pos + word_of_nat n) then (False, [], d)
       else (True, take n (drop (unat pos) (rk_data d)), d)),
     fx_write_all = (\<lambda>buf pos d.
       if \<not> is_valid_range (rk_invalid d) (ucast pos) (ucast pos + word_of_nat (length buf)) then (False, d)
       else (True, d\<lparr>rk_data := take (unat pos) (rk_data d) @ buf @ drop (unat pos + length buf) (rk_data d)\<rparr>))\<rparr>"

section \<open>It is a vectored device\<close>

definition ramdisk_size :: "ramdisk \<Rightarrow> nat" where
  "ramdisk_size d = (if length (rk_data d) < 2 ^ 32 then length (rk_data d) else 0)"

definition ramdisk_content :: "ramdisk \<Rightarrow> nat \<Rightarrow> u8" where
  "ramdisk_content d i = (if i < length (rk_data d) then rk_data d ! i else 0)"

definition ramdisk_broken :: "ramdisk \<Rightarrow> nat \<Rightarrow> bool" where
  "ramdisk_broken d i = (word_of_nat (i div 4096) \<in> rk_invalid d)"

lemma page_range_bytes:
  assumes "p \<in> set (page_range b e)" "unat b < unat e"
  shows "\<exists>j. unat b \<le> j \<and> j < unat e \<and> p = word_of_nat (j div 4096)"
proof -
  obtain i where i: "p = word_of_nat i" "unat b div 4096 \<le> i" "i < unat (div_up32 e 4096)"
    using assms(1) by (auto simp: page_range_def unat_drop_div)
  have "unat (div_up32 e 4096) \<le> (unat e + 4095) div 4096"
    unfolding div_up32_def unat_div by (simp add: unat_word_ariths div_le_mono)
  with i(3) have lt: "i * 4096 < unat e" by linarith
  show ?thesis
  proof (cases "unat b \<le> i * 4096")
    case True
    with lt i(1) show ?thesis by (intro exI [of _ "i * 4096"]) simp
  next
    case False
    with i(2) have "unat b div 4096 = i" by (intro antisym) (simp_all add: less_mult_imp_div_less less_Suc_eq_le [symmetric])
    with assms(2) i(1) show ?thesis by (intro exI [of _ "unat b"]) simp
  qed
qed

lemma unat32_add: "unat b + l < 2 ^ 32 \<Longrightarrow> unat ((b :: u32) + word_of_nat l) = unat b + l"
  using unat_of_nat_eq [of l, where 'a = 32] by (intro trans [OF unat_plus_no_overflow]) simp_all

lemma moved_ucast: "unat pos + n < 2 ^ 32 \<Longrightarrow> moved pos (ucast pos + word_of_nat n) = n"
proof -
  assume a: "unat pos + n < 2 ^ 32"
  have "unat (ucast pos :: u32) = unat pos" using a by (intro unat_ucast_small) simp
  then have "unat (ucast pos + word_of_nat n :: u32) = unat pos + n" using a unat32_add [of "ucast pos" n] by simp
  then have "unat (ucast (ucast pos + word_of_nat n :: u32) :: u64) = unat pos + n"
    using a by (subst unat_ucast_small) simp_all
  moreover from this have "pos \<le> ucast (ucast pos + word_of_nat n :: u32)" by (simp add: word_le_nat_alt)
  ultimately show ?thesis unfolding moved_def by (subst unat_sub) simp_all
qed

lemma ramdisk_read_loop_spec:
  assumes "length (rk_data d) < 2 ^ 32"
  shows "\<forall>l \<in> set ls. 0 < l \<and> l mod 4096 = 0 \<Longrightarrow> unat b + sum_list ls \<le> length (rk_data d) \<Longrightarrow>
    (case ramdisk_read_loop d b ls of (r, data) \<Rightarrow>
      r = Ok (b + word_of_nat (sum_list ls)) \<and> data = take (sum_list ls) (drop (unat b) (rk_data d)) \<or>
      r = Err () \<and> (\<exists>j. unat b \<le> j \<and> j < unat b + sum_list ls \<and> ramdisk_broken d j))"
proof (induction ls arbitrary: b)
  case (Cons l ls)
  have l: "0 < l" "l mod 4096 = 0" using Cons.prems(1) by simp_all
  have fit: "unat (b + word_of_nat l) = unat b + l" using Cons.prems(2) assms by (intro unat32_add) simp
  have room: "\<not> length (rk_data d) < unat b + l" using Cons.prems(2) by simp
  show ?case
  proof (cases "is_valid_range (rk_invalid d) b (b + word_of_nat l)")
    case False
    then obtain p where "p \<in> set (page_range b (b + word_of_nat l))" "p \<in> rk_invalid d"
      by (auto simp: is_valid_range_def list_all_iff)
    with page_range_bytes [OF this(1)] l(1) fit have "\<exists>j. unat b \<le> j \<and> j < unat b + l \<and> ramdisk_broken d j"
      by (auto simp: ramdisk_broken_def)
    then have "\<exists>j. unat b \<le> j \<and> j < unat b + (l + sum_list ls) \<and> ramdisk_broken d j" by (metis add.assoc trans_less_add1)
    with False l show ?thesis by simp
  next
    case True
    obtain r data where rd: "ramdisk_read_loop d (b + word_of_nat l) ls = (r, data)" by fastforce
    have "take (l + sum_list ls) (drop (unat b) (rk_data d)) =
        take l (drop (unat b) (rk_data d)) @ take (sum_list ls) (drop (unat b + l) (rk_data d))"
      by (simp add: take_add add.commute)
    with Cons.IH [of "b + word_of_nat l"] Cons.prems fit True l room rd show ?thesis
      by (auto simp: add.assoc intro: exI [of _ "_ :: nat"])
  qed
qed simp

definition put :: "nat \<Rightarrow> bytes \<Rightarrow> bytes \<Rightarrow> bytes" where
  "put b buf data = take b data @ buf @ drop (b + length buf) data"

lemma put_facts:
  assumes "b + length buf \<le> length data"
  shows "length (put b buf data) = length data" "i < b \<or> b + length buf \<le> i \<Longrightarrow> i < length data \<Longrightarrow> put b buf data ! i = data ! i"
    "take (length buf) (drop b (put b buf data)) = buf"
  using assms by (auto simp: put_def nth_append)

lemma ramdisk_write_loop_spec:
  "length (rk_data d) < 2 ^ 32 \<Longrightarrow> \<forall>b \<in> set bufs. 0 < length b \<and> length b mod 4096 = 0 \<Longrightarrow>
    unat b + length (concat bufs) \<le> length (rk_data d) \<Longrightarrow>
    (case ramdisk_write_loop b bufs d of (r, d') \<Rightarrow>
      length (rk_data d') = length (rk_data d) \<and> rk_invalid d' = rk_invalid d \<and>
      (\<forall>i. (i < unat b \<or> unat b + length (concat bufs) \<le> i) \<and> i < length (rk_data d) \<longrightarrow> rk_data d' ! i = rk_data d ! i) \<and>
      (r = Ok (b + word_of_nat (length (concat bufs))) \<and> take (length (concat bufs)) (drop (unat b) (rk_data d')) = concat bufs \<or>
       r = Err () \<and> (\<exists>j. unat b \<le> j \<and> j < unat b + length (concat bufs) \<and> ramdisk_broken d j)))"
proof (induction bufs arbitrary: b d)
  case (Cons buf bufs)
  let ?l = "length buf"
  have l: "0 < ?l" "?l mod 4096 = 0" using Cons.prems(2) by simp_all
  have fit: "unat (b + word_of_nat ?l) = unat b + ?l" using Cons.prems(1,3) by (intro unat32_add) simp
  have room: "\<not> length (rk_data d) < unat b + ?l" "unat b + ?l \<le> length (rk_data d)" using Cons.prems(3) by simp_all
  show ?case
  proof (cases "is_valid_range (rk_invalid d) b (b + word_of_nat ?l)")
    case False
    then obtain p where "p \<in> set (page_range b (b + word_of_nat ?l))" "p \<in> rk_invalid d"
      by (auto simp: is_valid_range_def list_all_iff)
    with page_range_bytes [OF this(1)] l(1) fit have "\<exists>j. unat b \<le> j \<and> j < unat b + ?l \<and> ramdisk_broken d j"
      by (auto simp: ramdisk_broken_def)
    then have "\<exists>j. unat b \<le> j \<and> j < unat b + (?l + length (concat bufs)) \<and> ramdisk_broken d j" by (metis add.assoc trans_less_add1)
    with False l show ?thesis by simp
  next
    case True
    define d1 where "d1 = d\<lparr>rk_data := put (unat b) buf (rk_data d)\<rparr>"
    obtain r d' where wr: "ramdisk_write_loop (b + word_of_nat ?l) bufs d1 = (r, d')" by fastforce
    have d1: "length (rk_data d1) = length (rk_data d)" "rk_invalid d1 = rk_invalid d" "ramdisk_broken d1 = ramdisk_broken d"
      using put_facts(1) [OF room(2)] by (simp_all add: d1_def ramdisk_broken_def fun_eq_iff)
    note ih = Cons.IH [of d1 "b + word_of_nat ?l", unfolded wr prod.case fit d1]
    have ih': "length (rk_data d') = length (rk_data d)" "rk_invalid d' = rk_invalid d"
      "\<And>i. (i < unat b + ?l \<or> unat b + ?l + length (concat bufs) \<le> i) \<Longrightarrow> i < length (rk_data d) \<Longrightarrow> rk_data d' ! i = rk_data d1 ! i"
      "r = Ok (b + word_of_nat ?l + word_of_nat (length (concat bufs))) \<and>
         take (length (concat bufs)) (drop (unat b + ?l) (rk_data d')) = concat bufs \<or>
       r = Err () \<and> (\<exists>j. unat b + ?l \<le> j \<and> j < unat b + ?l + length (concat bufs) \<and> ramdisk_broken d j)"
      using ih Cons.prems by simp_all
    have eq: "ramdisk_write_loop b (buf # bufs) d = (r, d')" using True l room wr by (simp add: d1_def put_def)
    have "take ?l (drop (unat b) (rk_data d')) = take ?l (drop (unat b) (rk_data d1))"
      using ih'(1,3) d1(1) room(2) by (intro nth_equalityI) auto
    then have first: "take ?l (drop (unat b) (rk_data d')) = buf" using put_facts(3) [OF room(2)] by (simp add: d1_def)
    have "take (?l + length (concat bufs)) (drop (unat b) (rk_data d')) =
        take ?l (drop (unat b) (rk_data d')) @ take (length (concat bufs)) (drop (unat b + ?l) (rk_data d'))"
      by (simp add: take_add add.commute)
    then have "r = Ok (b + word_of_nat (length (concat (buf # bufs)))) \<and>
         take (length (concat (buf # bufs))) (drop (unat b) (rk_data d')) = concat (buf # bufs) \<or>
       r = Err () \<and> (\<exists>j. unat b \<le> j \<and> j < unat b + length (concat (buf # bufs)) \<and> ramdisk_broken d j)"
      using ih'(4) first by (auto simp: add.assoc)
    moreover have "rk_data d' ! i = rk_data d ! i"
      if "i < unat b \<or> unat b + length (concat (buf # bufs)) \<le> i" "i < length (rk_data d)" for i
    proof -
      have "i < unat b \<or> unat b + ?l \<le> i" using that(1) by auto
      from put_facts(2) [OF room(2) this that(2)] have "rk_data d1 ! i = rk_data d ! i" by (simp add: d1_def)
      then show ?thesis using ih'(3) [of i] that by auto
    qed
    ultimately show ?thesis unfolding eq prod.case using ih'(1,2) by simp
  qed
qed simp

interpretation ramdisk: vectored_device ramdisk_vio ramdisk_size ramdisk_content ramdisk_broken
proof unfold_locales
  show "ramdisk_size d < 2 ^ 64" for d by (simp add: ramdisk_size_def)
next
  fix ls pos d r data d'
  assume a: "vio_read ramdisk_vio ls pos d = (r, data, d')" "whole_pages ls" "unat pos + sum_list ls \<le> ramdisk_size d"
  let ?n = "sum_list ls"
  obtain r0 where r0: "ramdisk_read_loop d (ucast pos) ls = (r0, data)" "r = mapr (moved pos) r0" "d' = d"
    using a(1) by (auto simp: ramdisk_vio_def split: prod.splits)
  have pages: "\<forall>l \<in> set ls. 0 < l \<and> l mod 4096 = 0" using a(2) by (simp add: whole_pages_def)
  have pos: "0 < ?n" "?n mod 4096 = 0"
  proof -
    obtain l ls' where "ls = l # ls'" "0 < l" using a(2) by (cases ls) (auto simp: whole_pages_def)
    then show "0 < ?n" by simp
    show "?n mod 4096 = 0" using pages by (induction ls) auto
  qed
  then have len: "length (rk_data d) < 2 ^ 32" "unat pos + ?n \<le> length (rk_data d)"
    using a(3) by (auto simp: ramdisk_size_def split: if_splits)
  then have u: "unat (ucast pos :: u32) = unat pos" by (intro unat_ucast_small) simp
  from ramdisk_read_loop_spec [OF len(1) pages, of "ucast pos"] len(2)
  have "r = Ok ?n \<and> data = take ?n (drop (unat pos) (rk_data d)) \<or> r = Err () \<and> (\<exists>j. unat pos \<le> j \<and> j < unat pos + ?n \<and> ramdisk_broken d j)"
    using moved_ucast [of pos ?n] len by (auto simp: r0 u)
  moreover have "take ?n (drop (unat pos) (rk_data d)) = bytes_at (ramdisk_content d) (unat pos) ?n"
    using len(2) by (intro nth_equalityI) (simp_all add: bytes_at_def ramdisk_content_def)
  ultimately show "r \<noteq> Panic \<and> ramdisk_size d' = ramdisk_size d \<and> ramdisk_content d' = ramdisk_content d \<and> ramdisk_broken d' = ramdisk_broken d \<and>
      (\<forall>n. r = Ok n \<longrightarrow> 0 < n \<and> n mod 4096 = 0 \<and> n \<le> sum_list ls \<and> take n data = bytes_at (ramdisk_content d) (unat pos) n) \<and>
      (is_ok r \<or> (\<exists>i\<ge>unat pos. i < unat pos + sum_list ls \<and> ramdisk_broken d i))"
    using pos r0(3) len(2) by auto
next
  fix bs pos d r d'
  assume a: "vio_write ramdisk_vio bs pos d = (r, d')" "whole_pages (map length bs)" "unat pos + length (concat bs) \<le> ramdisk_size d"
  let ?n = "length (concat bs)"
  obtain r0 where r0: "ramdisk_write_loop (ucast pos) bs d = (r0, d')" "r = mapr (moved pos) r0"
    using a(1) by (auto simp: ramdisk_vio_def split: prod.splits)
  have pages: "\<forall>b \<in> set bs. 0 < length b \<and> length b mod 4096 = 0" using a(2) by (simp add: whole_pages_def)
  have pos: "0 < ?n" "?n mod 4096 = 0"
  proof -
    obtain b bs' where "bs = b # bs'" "0 < length b" using a(2) by (cases bs) (auto simp: whole_pages_def)
    then show "0 < ?n" by simp
    show "?n mod 4096 = 0" using pages by (induction bs) auto
  qed
  then have len: "length (rk_data d) < 2 ^ 32" "unat pos + ?n \<le> length (rk_data d)"
    using a(3) by (auto simp: ramdisk_size_def split: if_splits)
  then have u: "unat (ucast pos :: u32) = unat pos" by (intro unat_ucast_small) simp
  from ramdisk_write_loop_spec [OF len(1) pages, of "ucast pos"] len(2)
  have w: "length (rk_data d') = length (rk_data d)" "rk_invalid d' = rk_invalid d"
    "\<And>i. (i < unat pos \<or> unat pos + ?n \<le> i) \<Longrightarrow> i < length (rk_data d) \<Longrightarrow> rk_data d' ! i = rk_data d ! i"
    "r = Ok ?n \<and> take ?n (drop (unat pos) (rk_data d')) = concat bs \<or>
     r = Err () \<and> (\<exists>j. unat pos \<le> j \<and> j < unat pos + ?n \<and> ramdisk_broken d j)"
    using moved_ucast [of pos ?n] len by (auto simp: r0 u)
  have "take ?n (drop (unat pos) (rk_data d')) = bytes_at (ramdisk_content d') (unat pos) ?n"
    using len(2) w(1) by (intro nth_equalityI) (simp_all add: bytes_at_def ramdisk_content_def)
  with w pos show "r \<noteq> Panic \<and> ramdisk_size d' = ramdisk_size d \<and> ramdisk_broken d' = ramdisk_broken d \<and>
      (\<forall>n. r = Ok n \<longrightarrow> 0 < n \<and> n mod 4096 = 0 \<and> n \<le> length (concat bs) \<and> bytes_at (ramdisk_content d') (unat pos) n = take n (concat bs)) \<and>
      (\<forall>i. i < unat pos \<or> unat pos + length (concat bs) \<le> i \<longrightarrow> ramdisk_content d' i = ramdisk_content d i) \<and>
      (is_ok r \<or> (\<exists>i\<ge>unat pos. i < unat pos + length (concat bs) \<and> ramdisk_broken d i))"
    by (auto simp: ramdisk_size_def ramdisk_broken_def ramdisk_content_def fun_eq_iff)
qed

end
