(* ===== verification/Sync_Engine.thy ===== *)
theory Sync_Engine
  imports Ramdisk
begin

text \<open>
  \<open>SyncIoEngine\<close> of \<open>src/io_engine/sync.rs\<close>: many blocks are read with one vectored read per batch of runs and gaps, and
  written with one vectored write per run. The buffers of a vectored read are the memory of the blocks themselves: what the
  device puts there is stored back into them.
\<close>

section \<open>Reading\<close>

definition GAP_THRESHOLD :: u64 where "GAP_THRESHOLD = 8"
definition UIO_MAXIOV :: u64 where "UIO_MAXIOV = 1024"

record 'd sync_read =
  sr_blocks :: "block option list"
  sr_issued :: nat
  sr_results :: "(unit, block) result list"
  sr_index :: nat
  sr_dev :: 'd

text \<open>The buffers of a batch, each with the index of the block it belongs to; a gap has a buffer of its own.\<close>

type_synonym io_buffers = "(nat option \<times> bytes) list \<times> nat"

definition wanted_buffer :: "block option list \<Rightarrow> u64 \<Rightarrow> io_buffers \<Rightarrow> (unit, unit) result \<times> io_buffers" where
  "wanted_buffer bs b = (\<lambda>(bufs, issued).
     if issued < length bs then
       (case bs ! issued of
          Some (loc, data) \<Rightarrow> if b = loc then (Ok (), bufs @ [(Some issued, data)], issued + 1) else (Panic, bufs, issued)
        | None \<Rightarrow> (Panic, bufs, issued))
     else (Panic, bufs, issued))"

definition gap_buffer :: "(u64 \<Rightarrow> bytes) \<Rightarrow> u64 \<Rightarrow> io_buffers \<Rightarrow> (unit, unit) result \<times> io_buffers" where
  "gap_buffer fresh loc = (\<lambda>(bufs, issued). (Ok (), bufs @ [(None, fresh loc)], issued))"

definition build_op :: "(u64 \<Rightarrow> bytes) \<Rightarrow> block option list \<Rightarrow> run_op \<Rightarrow> u64 option \<times> io_buffers \<Rightarrow>
    (unit, unit) result \<times> u64 option \<times> io_buffers" where
  "build_op fresh bs op = (\<lambda>(first, s).
     let first = (case first of None \<Rightarrow> Some (op_begin op) | Some b \<Rightarrow> Some b) in
     case op of
       Run b e \<Rightarrow> on_snd (for_each (wanted_buffer bs) (range64 b e)) (first, s)
     | Gap b e \<Rightarrow> on_snd (for_each (gap_buffer fresh) (range64 b e)) (first, s))"

text \<open>What was read goes to the blocks.\<close>

definition store_buffer :: "nat option \<times> bytes \<Rightarrow> block option list \<Rightarrow> block option list" where
  "store_buffer = (\<lambda>(slot, data) bs. case slot of None \<Rightarrow> bs | Some i \<Rightarrow> bs[i := map_option (\<lambda>(loc, _). (loc, data)) (bs ! i)])"

definition bad_read :: "(unit, block) result" where
  "bad_read = Err ()"

definition select_block :: "block_results \<Rightarrow> u64 \<Rightarrow> nat \<times> 'd sync_read \<Rightarrow> (unit, unit) result \<times> nat \<times> 'd sync_read" where
  "select_block results i = (\<lambda>(rindex, s).
     if length results \<le> rindex then (Panic, rindex, s)
     else if results ! rindex \<noteq> Ok () then
       (Ok (), rindex + 1, s\<lparr>sr_results := sr_results s @ [bad_read], sr_index := sr_index s + 1\<rparr>)
     else if length (sr_blocks s) \<le> sr_index s then (Panic, rindex, s)
     else (case sr_blocks s ! sr_index s of
         None \<Rightarrow> (Panic, rindex, s)
       | Some b \<Rightarrow> let s = s\<lparr>sr_blocks := (sr_blocks s)[sr_index s := None]\<rparr> in
           if i \<noteq> fst b then (Panic, rindex, s)
           else (Ok (), rindex + 1, s\<lparr>sr_results := sr_results s @ [Ok b], sr_index := sr_index s + 1\<rparr>)))"

definition select_op :: "block_results \<Rightarrow> run_op \<Rightarrow> nat \<times> 'd sync_read \<Rightarrow> (unit, unit) result \<times> nat \<times> 'd sync_read" where
  "select_op results op = (\<lambda>(rindex, s). case op of
     Run b e \<Rightarrow> for_each (select_block results) (range64 b e) (rindex, s)
   | Gap b e \<Rightarrow> (Ok (), rindex + unat (e - b), s))"

definition error_op :: "run_op \<Rightarrow> 'd sync_read \<Rightarrow> (unit, unit) result \<times> 'd sync_read" where
  "error_op op s = (case op of
     Run b e \<Rightarrow> for_each (\<lambda>_ s. (Ok (), s\<lparr>sr_results := sr_results s @ [bad_read], sr_index := sr_index s + 1\<rparr>)) (range64 b e) s
   | Gap b e \<Rightarrow> (Ok (), s))"

definition read_batch :: "'d vectored_io \<Rightarrow> (u64 \<Rightarrow> bytes) \<Rightarrow> run_op list \<Rightarrow> 'd sync_read \<Rightarrow> (unit, unit) result \<times> 'd sync_read" where
  "read_batch vio fresh batch s =
    (case for_each (build_op fresh (sr_blocks s)) batch (None, [], sr_issued s) of
       (Ok _, Some first, bufs, issued) \<Rightarrow>
         (case read_blocks vio False (map snd bufs) (first * word_of_nat BLOCK_SIZE) (sr_dev s) of (r, datas, d) \<Rightarrow>
           let s = s\<lparr>sr_issued := issued, sr_dev := d,
                 sr_blocks := fold store_buffer (zip (map fst bufs) datas) (sr_blocks s)\<rparr> in
           case r of
             Ok results \<Rightarrow> (case for_each (select_op results) batch (0, s) of (r, _, s) \<Rightarrow> (r, s))
           | Err _ \<Rightarrow> for_each error_op batch s
           | Panic \<Rightarrow> (Panic, s))
     | _ \<Rightarrow> (Panic, s))"

definition sync_read_many :: "'d vectored_io \<Rightarrow> (u64 \<Rightarrow> bytes) \<Rightarrow> u64 list \<Rightarrow> 'd \<Rightarrow>
    ((unit, (unit, block) result list) result \<times> 'd) option" where
  "sync_read_many vio fresh blocks d =
    (if blocks = [] then Some (Ok [], d) else
     map_option (\<lambda>batches.
       case for_each (read_batch vio fresh) batches \<lparr>sr_blocks = map (\<lambda>loc. Some (loc, fresh loc)) blocks, sr_issued = 0,
           sr_results = [], sr_index = 0, sr_dev = d\<rparr> of
         (Ok _, s) \<Rightarrow> (assertr (length (sr_results s) = length blocks) (Ok (sr_results s)), sr_dev s)
       | (_, s) \<Rightarrow> (Panic, sr_dev s))
     (generate_runs blocks GAP_THRESHOLD UIO_MAXIOV))"

section \<open>Writing\<close>

definition nogap_step :: "nat \<Rightarrow> block \<Rightarrow> (u64 \<times> nat) list \<times> u64 \<times> nat \<Rightarrow> (u64 \<times> nat) list \<times> u64 \<times> nat" where
  "nogap_step max_len b = (\<lambda>(runs, begin, len).
     if fst b = begin + word_of_nat len \<and> len < max_len then (runs, begin, len + 1) else (runs @ [(begin, len)], fst b, 1))"

definition find_runs_nogap :: "block list \<Rightarrow> nat \<Rightarrow> (u64 \<times> nat) list" where
  "find_runs_nogap blocks max_len = (case blocks of
     [] \<Rightarrow> []
   | [b] \<Rightarrow> [(fst b, 1)]
   | b # bs \<Rightarrow> (case fold (nogap_step max_len) bs ([], fst b, 1) of (runs, begin, len) \<Rightarrow> runs @ [(begin, len)]))"

record 'd sync_write =
  sw_issued :: nat
  sw_results :: "(unit, unit) result list"
  sw_dev :: 'd

definition bad_write :: "(unit, unit) result" where
  "bad_write = Err ()"

definition write_batch :: "'d vectored_io \<Rightarrow> block list \<Rightarrow> u64 \<times> nat \<Rightarrow> 'd sync_write \<Rightarrow> ((unit, unit) result \<times> 'd sync_write) option" where
  "write_batch vio blocks = (\<lambda>(batch_start, batch_size) s.
     if batch_size = 0 \<or> length blocks < sw_issued s + batch_size then Some (Panic, s) else
     map_option (\<lambda>(r, d). let s = s\<lparr>sw_issued := sw_issued s + batch_size, sw_dev := d\<rparr> in
         case r of
           Ok run_results \<Rightarrow> (Ok (), s\<lparr>sw_results := sw_results s @ map (\<lambda>r. if r = Ok () then Ok () else bad_write) run_results\<rparr>)
         | Err _ \<Rightarrow> (Ok (), s\<lparr>sw_results := sw_results s @ replicate batch_size bad_write\<rparr>)
         | Panic \<Rightarrow> (Panic, s))
       (write_blocks vio (map snd (take batch_size (drop (sw_issued s) blocks))) (batch_start * word_of_nat BLOCK_SIZE) (sw_dev s)))"

fun write_batches :: "'d vectored_io \<Rightarrow> block list \<Rightarrow> (u64 \<times> nat) list \<Rightarrow> 'd sync_write \<Rightarrow> ((unit, unit) result \<times> 'd sync_write) option" where
  "write_batches vio blocks [] s = Some (Ok (), s)"
| "write_batches vio blocks (b # bs) s = (case write_batch vio blocks b s of
     Some (Ok _, s) \<Rightarrow> write_batches vio blocks bs s | x \<Rightarrow> x)"

definition sync_write_many :: "'d vectored_io \<Rightarrow> block list \<Rightarrow> 'd \<Rightarrow> ((unit, (unit, unit) result list) result \<times> 'd) option" where
  "sync_write_many vio blocks d =
    (if blocks = [] then Some (Ok [], d) else
     map_option (\<lambda>(r, s). (mapr (\<lambda>_. sw_results s) r, sw_dev s))
       (write_batches vio blocks (find_runs_nogap blocks (unat UIO_MAXIOV)) \<lparr>sw_issued = 0, sw_results = [], sw_dev = d\<rparr>))"

section \<open>Single blocks\<close>

text \<open>\<open>IoEngine::read\<close> and \<open>write\<close> of one block.\<close>

definition sync_read_block :: "'d file_ext \<Rightarrow> (u64 \<Rightarrow> bytes) \<Rightarrow> u64 \<Rightarrow> 'd \<Rightarrow> (unit, block) result \<times> 'd" where
  "sync_read_block fx fresh loc d = (case fx_read_exact fx BLOCK_SIZE (loc * word_of_nat BLOCK_SIZE) d of (r, data, d) \<Rightarrow>
     (if r then Ok (loc, hd (scatter data [fresh loc])) else Err (), d))"

definition sync_write_block :: "'d file_ext \<Rightarrow> block \<Rightarrow> 'd \<Rightarrow> (unit, unit) result \<times> 'd" where
  "sync_write_block fx b d = (case fx_write_all fx (snd b) (fst b * word_of_nat BLOCK_SIZE) d of (r, d) \<Rightarrow>
     (if r then Ok () else Err (), d))"

section \<open>Batches, block by block\<close>

text \<open>The blocks the buffers of a batch belong to.\<close>

fun slots :: "nat \<Rightarrow> (bool \<times> u64) list \<Rightarrow> nat option list" where
  "slots k [] = []"
| "slots k ((w, _) # xs) = (if w then Some k # slots (Suc k) xs else None # slots k xs)"

lemma slots_length [simp]: "length (slots k xs) = length xs"
  by (induction k xs rule: slots.induct) simp_all

lemma wanted_map [simp]: "wanted (map (Pair True) xs) = xs" "wanted (map (Pair False) xs) = []"
  by (induction xs) simp_all

lemma slots_append: "slots k (xs @ ys) = slots k xs @ slots (k + length (wanted xs)) ys"
  by (induction k xs rule: slots.induct) simp_all

text \<open>The blocks from \<open>k\<close> on are there and hold what is wanted.\<close>

definition blocks_ready :: "block option list \<Rightarrow> nat \<Rightarrow> u64 list \<Rightarrow> bool" where
  "blocks_ready bs k xs \<longleftrightarrow> k + length xs \<le> length bs \<and>
     (\<forall>j < length xs. \<exists>data. bs ! (k + j) = Some (xs ! j, data) \<and> length data = 4096)"

lemma blocks_ready_Cons: "blocks_ready bs k (x # xs) \<longleftrightarrow> k < length bs \<and> (\<exists>data. bs ! k = Some (x, data) \<and> length data = 4096) \<and>
    blocks_ready bs (Suc k) xs"
  by (auto simp: blocks_ready_def All_less_Suc2)

lemma blocks_ready_append: "blocks_ready bs k (xs @ ys) \<longleftrightarrow> blocks_ready bs k xs \<and> blocks_ready bs (k + length xs) ys"
proof (induction xs arbitrary: k)
  case Nil
  show ?case by (auto simp: blocks_ready_def)
next
  case (Cons x xs)
  then show ?case by (simp add: blocks_ready_Cons)
qed

lemma blocks_ready_drop:
  assumes "blocks_ready bs k xs" "drop k bs' = drop k bs" "length bs' = length bs"
  shows "blocks_ready bs' k xs"
proof -
  have "bs' ! (k + j) = bs ! (k + j)" if "k + j < length bs" for j
    using arg_cong [OF assms(2), of "\<lambda>l. l ! j"] that assms(3) by simp
  then show ?thesis using assms(1,3) by (auto simp: blocks_ready_def)
qed

lemma wanted_buffers:
  "blocks_ready bs k xs \<Longrightarrow> \<exists>more. for_each (wanted_buffer bs) xs (bufs, k) = (Ok (), bufs @ more, k + length xs) \<and>
    map fst more = slots k (map (Pair True) xs) \<and> (\<forall>b \<in> set more. length (snd b) = 4096)"
proof (induction xs arbitrary: bufs k)
  case (Cons x xs)
  then obtain data where d: "k < length bs" "bs ! k = Some (x, data)" "length data = 4096" "blocks_ready bs (Suc k) xs"
    by (auto simp: blocks_ready_Cons)
  from Cons.IH [OF d(4), of "bufs @ [(Some k, data)]"] d(1-3) show ?case
    by (auto simp: wanted_buffer_def intro: exI [of _ "(Some k, data) # _"])
qed simp

lemma gap_buffers:
  "\<forall>x. length (fresh x) = 4096 \<Longrightarrow> \<exists>more. for_each (gap_buffer fresh) xs (bufs, k) = (Ok (), bufs @ more, k) \<and>
    map fst more = slots k (map (Pair False) xs) \<and> (\<forall>b \<in> set more. length (snd b) = 4096)"
proof (induction xs arbitrary: bufs)
  case (Cons x xs)
  from Cons.IH [OF Cons.prems, of "bufs @ [(None, fresh x)]"] Cons.prems show ?case
    by (auto simp: gap_buffer_def intro: exI [of _ "(None, fresh x) # _"])
qed simp

lemma build_ops:
  assumes "\<forall>x. length (fresh x) = 4096"
  shows "blocks_ready bs k (wanted (ops_blocks ops)) \<Longrightarrow> \<exists>more. for_each (build_op fresh bs) ops (first, bufs, k) =
      (Ok (), (if first = None then map_option op_begin (case ops of [] \<Rightarrow> None | op # _ \<Rightarrow> Some op) else first), bufs @ more,
        k + length (wanted (ops_blocks ops))) \<and>
    map fst more = slots k (ops_blocks ops) \<and> (\<forall>b \<in> set more. length (snd b) = 4096)"
proof (induction ops arbitrary: first bufs k)
  case (Cons op ops)
  let ?first = "case first of None \<Rightarrow> Some (op_begin op) | Some b \<Rightarrow> Some b"
  have r: "blocks_ready bs k (wanted (op_blocks op))" "blocks_ready bs (k + length (wanted (op_blocks op))) (wanted (ops_blocks ops))"
    using Cons.prems by (simp_all add: blocks_ready_append)
  have "\<exists>more. build_op fresh bs op (first, bufs, k) = (Ok (), ?first, bufs @ more, k + length (wanted (op_blocks op))) \<and>
      map fst more = slots k (op_blocks op) \<and> (\<forall>b \<in> set more. length (snd b) = 4096)"
  proof (cases op)
    case (Run b e)
    from wanted_buffers [of bs k "range64 b e" bufs] r(1) show ?thesis
      by (auto simp: Run build_op_def Let_def op_blocks_def on_snd_def split: option.split)
  next
    case (Gap b e)
    from gap_buffers [OF assms, of "range64 b e" bufs k] show ?thesis
      by (auto simp: Gap build_op_def Let_def op_blocks_def on_snd_def split: option.split)
  qed
  then obtain m1 where m1: "build_op fresh bs op (first, bufs, k) = (Ok (), ?first, bufs @ m1, k + length (wanted (op_blocks op)))"
    "map fst m1 = slots k (op_blocks op)" "\<forall>b \<in> set m1. length (snd b) = 4096" by blast
  from Cons.IH [OF r(2), of ?first "bufs @ m1"] obtain m2 where "for_each (build_op fresh bs) ops (?first, bufs @ m1, k + length (wanted (op_blocks op))) =
      (Ok (), ?first, (bufs @ m1) @ m2, k + length (wanted (op_blocks op)) + length (wanted (ops_blocks ops)))"
    "map fst m2 = slots (k + length (wanted (op_blocks op))) (ops_blocks ops)" "\<forall>b \<in> set m2. length (snd b) = 4096"
    by (auto split: option.splits)
  with m1 show ?case by (intro exI [of _ "m1 @ m2"]) (auto simp: slots_append split: option.split)
qed simp

text \<open>The wanted blocks with what was read for them.\<close>

definition picked :: "(bool \<times> u64) list \<Rightarrow> bytes list \<Rightarrow> block list" where
  "picked xs datas = map (\<lambda>((w, x), d). (x, d)) (filter (\<lambda>((w, x), d). w) (zip xs datas))"

lemma picked_simps [simp]:
  "picked [] datas = []" "picked ((w, x) # xs) (d # datas) = (if w then (x, d) # picked xs datas else picked xs datas)"
  by (simp_all add: picked_def)

lemma picked_append: "length datas = length xs \<Longrightarrow> picked (xs @ ys) (datas @ datas') = picked xs datas @ picked ys datas'"
  by (simp add: picked_def)

lemma length_picked: "length datas = length xs \<Longrightarrow> length (picked xs datas) = length (wanted xs)"
proof (induction xs arbitrary: datas)
  case (Cons x xs)
  then show ?case by (cases datas; cases x) auto
qed simp

lemma picked_map [simp]: "length datas = length xs \<Longrightarrow> picked (map (Pair True) xs) datas = zip xs datas"
  "length datas = length xs \<Longrightarrow> picked (map (Pair False) xs) datas = []"
proof -
  have "length datas = length xs \<Longrightarrow> picked (map (Pair True) xs) datas = zip xs datas \<and> picked (map (Pair False) xs) datas = []"
  proof (induction xs arbitrary: datas)
    case (Cons x xs)
    then show ?case by (cases datas) auto
  qed simp
  then show "length datas = length xs \<Longrightarrow> picked (map (Pair True) xs) datas = zip xs datas"
    "length datas = length xs \<Longrightarrow> picked (map (Pair False) xs) datas = []" by simp_all
qed

lemma store_buffers:
  "blocks_ready bs k (wanted xs) \<Longrightarrow> length datas = length xs \<Longrightarrow>
    fold store_buffer (zip (slots k xs) datas) bs = take k bs @ map Some (picked xs datas) @ drop (k + length (wanted xs)) bs"
proof (induction xs arbitrary: k bs datas)
  case (Cons wx xs)
  obtain w x where wx: "wx = (w, x)" by fastforce
  obtain d ds where ds: "datas = d # ds" "length ds = length xs" using Cons.prems(2) by (cases datas) simp_all
  show ?case
  proof (cases w)
    case False
    with Cons ds show ?thesis by (simp add: wx store_buffer_def)
  next
    case True
    then obtain data where r: "k < length bs" "bs ! k = Some (x, data)" "blocks_ready bs (Suc k) (wanted xs)"
      using Cons.prems(1) by (auto simp: wx blocks_ready_Cons)
    let ?bs = "bs[k := Some (x, d)]"
    have "blocks_ready ?bs (Suc k) (wanted xs)" using r(3) by (simp add: blocks_ready_def)
    from Cons.IH [OF this ds(2)] r(1,2) True show ?thesis
      by (simp add: wx ds(1) store_buffer_def take_Suc_conv_app_nth)
  qed
qed simp

text \<open>What a wanted block becomes: the block with its data, or an error.\<close>

definition outcome :: "(u64 \<Rightarrow> bytes \<Rightarrow> (block_io_error, unit) result \<Rightarrow> bool) \<Rightarrow> u64 \<Rightarrow> (unit, block) result \<Rightarrow> bool" where
  "outcome Q x out \<longleftrightarrow> (\<exists>d. out = Ok (x, d) \<and> Q x d (Ok ())) \<or> (out = bad_read \<and> (\<exists>d r. r \<noteq> Ok () \<and> Q x d r))"

lemma take_drop_Cons: "take (Suc n) (drop i xs) = y # ys \<longleftrightarrow> i < length xs \<and> xs ! i = y \<and> take n (drop (Suc i) xs) = ys"
  by (cases "i < length xs") (simp_all flip: Cons_nth_drop_Suc)

lemma select_blocks:
  "list_all2 (\<lambda>x (d, r). Q x d r) xs drs \<Longrightarrow> take (length xs) (drop rindex rs) = map snd drs \<Longrightarrow>
    take (length xs) (drop (sr_index s) (sr_blocks s)) = map Some (zip xs (map fst drs)) \<Longrightarrow>
    \<exists>s' outs. for_each (select_block rs) xs (rindex, s) = (Ok (), rindex + length xs, s') \<and> sr_results s' = sr_results s @ outs \<and>
      list_all2 (outcome Q) xs outs \<and> sr_index s' = sr_index s + length xs \<and>
      drop (sr_index s') (sr_blocks s') = drop (sr_index s') (sr_blocks s) \<and> sr_issued s' = sr_issued s \<and> sr_dev s' = sr_dev s \<and> length (sr_blocks s') = length (sr_blocks s)"
proof (induction xs arbitrary: drs rindex s)
  case (Cons x xs)
  obtain d r drs' where drs: "drs = (d, r) # drs'" "Q x d r" "list_all2 (\<lambda>x (d, r). Q x d r) xs drs'"
    using Cons.prems(1) by (auto simp: list_all2_Cons1)
  have ri: "rindex < length rs" "rs ! rindex = r" "take (length xs) (drop (Suc rindex) rs) = map snd drs'"
    using Cons.prems(2) by (simp_all add: drs take_drop_Cons)
  have ix: "sr_index s < length (sr_blocks s)" "sr_blocks s ! sr_index s = Some (x, d)"
    "take (length xs) (drop (Suc (sr_index s)) (sr_blocks s)) = map Some (zip xs (map fst drs'))"
    using Cons.prems(3) by (simp_all add: drs take_drop_Cons)
  define out where "out = (if r = Ok () then Ok (x, d) else bad_read)"
  obtain s1 where s1: "select_block rs x (rindex, s) = (Ok (), Suc rindex, s1)" "sr_results s1 = sr_results s @ [out]"
    "sr_index s1 = Suc (sr_index s)" "drop (Suc (sr_index s)) (sr_blocks s1) = drop (Suc (sr_index s)) (sr_blocks s)"
    "sr_issued s1 = sr_issued s" "sr_dev s1 = sr_dev s" "length (sr_blocks s1) = length (sr_blocks s)"
    using ri(1,2) ix(1,2) by (cases "r = Ok ()") (auto simp: select_block_def Let_def out_def)
  have "outcome Q x out" using drs(2) by (auto simp: outcome_def out_def)
  moreover from Cons.IH [OF drs(3), of "Suc rindex" s1] ri(3) ix(3) s1(3,4) obtain s' outs where
    "for_each (select_block rs) xs (Suc rindex, s1) = (Ok (), Suc rindex + length xs, s')" "sr_results s' = sr_results s1 @ outs"
    "list_all2 (outcome Q) xs outs" "sr_index s' = sr_index s1 + length xs"
    "drop (sr_index s') (sr_blocks s') = drop (sr_index s') (sr_blocks s1)" "sr_issued s' = sr_issued s1" "sr_dev s' = sr_dev s1"
    "length (sr_blocks s') = length (sr_blocks s1)" by auto
  moreover from this(4,5) s1(3,4) have "drop (sr_index s') (sr_blocks s') = drop (sr_index s') (sr_blocks s)"
    by (metis add.commute drop_drop)
  ultimately show ?case using s1 by (intro exI [of _ s'] exI [of _ "out # outs"]) auto
qed simp

lemma list_all2_append_left:
  assumes "list_all2 P (xs @ ys) zs"
  obtains us vs where "zs = us @ vs" "list_all2 P xs us" "list_all2 P ys vs" "length us = length xs"
  using assms by (auto simp: list_all2_append1)

lemma select_ops:
  "\<forall>op \<in> set ops. op_begin op \<le> op_end op \<Longrightarrow> list_all2 (\<lambda>(w, x) (d, r). Q x d r) (ops_blocks ops) drs \<Longrightarrow>
    take (length (ops_blocks ops)) (drop rindex rs) = map snd drs \<Longrightarrow>
    take (length (wanted (ops_blocks ops))) (drop (sr_index s) (sr_blocks s)) = map Some (picked (ops_blocks ops) (map fst drs)) \<Longrightarrow>
    \<exists>s' outs. for_each (select_op rs) ops (rindex, s) = (Ok (), rindex + length (ops_blocks ops), s') \<and> sr_results s' = sr_results s @ outs \<and>
      list_all2 (outcome Q) (wanted (ops_blocks ops)) outs \<and> sr_index s' = sr_index s + length (wanted (ops_blocks ops)) \<and>
      drop (sr_index s') (sr_blocks s') = drop (sr_index s') (sr_blocks s) \<and> sr_issued s' = sr_issued s \<and> sr_dev s' = sr_dev s \<and> length (sr_blocks s') = length (sr_blocks s)"
proof (induction ops arbitrary: drs rindex s)
  case (Cons op ops)
  let ?n = "length (op_blocks op)" and ?m = "length (wanted (op_blocks op))"
  obtain d1 d2 where d: "drs = d1 @ d2" "list_all2 (\<lambda>(w, x) (d, r). Q x d r) (op_blocks op) d1"
    "list_all2 (\<lambda>(w, x) (d, r). Q x d r) (ops_blocks ops) d2" "length d1 = ?n"
    using Cons.prems(2) by (auto elim: list_all2_append_left)
  have le: "op_begin op \<le> op_end op" "\<forall>op \<in> set ops. op_begin op \<le> op_end op" using Cons.prems(1) by simp_all
  have "take ?n (take (length (ops_blocks (op # ops))) (drop rindex rs)) = map snd d1"
    "drop ?n (take (length (ops_blocks (op # ops))) (drop rindex rs)) = map snd d2"
    unfolding Cons.prems(3) using d(1,4) by simp_all
  then have r: "take ?n (drop rindex rs) = map snd d1" "take (length (ops_blocks ops)) (drop (rindex + ?n) rs) = map snd d2"
    by (simp_all add: drop_take add.commute)
  have p: "picked (ops_blocks (op # ops)) (map fst drs) = picked (op_blocks op) (map fst d1) @ picked (ops_blocks ops) (map fst d2)"
    "length (picked (op_blocks op) (map fst d1)) = ?m"
    using d(1,4) by (simp_all add: picked_append length_picked)
  have "take ?m (take (length (wanted (ops_blocks (op # ops)))) (drop (sr_index s) (sr_blocks s))) = map Some (picked (op_blocks op) (map fst d1))"
    "drop ?m (take (length (wanted (ops_blocks (op # ops)))) (drop (sr_index s) (sr_blocks s))) = map Some (picked (ops_blocks ops) (map fst d2))"
    unfolding Cons.prems(4) p(1) using p(2) by simp_all
  then have b: "take ?m (drop (sr_index s) (sr_blocks s)) = map Some (picked (op_blocks op) (map fst d1))"
    "take (length (wanted (ops_blocks ops))) (drop (sr_index s + ?m) (sr_blocks s)) = map Some (picked (ops_blocks ops) (map fst d2))"
    by (simp_all add: drop_take add.commute)
  have "\<exists>s1 outs. select_op rs op (rindex, s) = (Ok (), rindex + ?n, s1) \<and> sr_results s1 = sr_results s @ outs \<and>
      list_all2 (outcome Q) (wanted (op_blocks op)) outs \<and> sr_index s1 = sr_index s + ?m \<and>
      drop (sr_index s1) (sr_blocks s1) = drop (sr_index s1) (sr_blocks s) \<and> sr_issued s1 = sr_issued s \<and> sr_dev s1 = sr_dev s \<and>
      length (sr_blocks s1) = length (sr_blocks s)"
  proof (cases op)
    case (Run b' e)
    then show ?thesis using select_blocks [of Q "range64 b' e" d1 rindex rs s] d(2,4) r(1) b(1)
      by (auto simp: select_op_def op_blocks_def list_all2_map1)
  next
    case (Gap b' e)
    then have "?n = unat (e - b')" "?m = 0" using le(1) by (simp_all add: op_blocks_def unat_sub)
    then show ?thesis by (intro exI [of _ s] exI [of _ "[]"]) (simp add: Gap select_op_def)
  qed
  then obtain s1 o1 where s1: "select_op rs op (rindex, s) = (Ok (), rindex + ?n, s1)" "sr_results s1 = sr_results s @ o1"
    "list_all2 (outcome Q) (wanted (op_blocks op)) o1" "sr_index s1 = sr_index s + ?m"
    "drop (sr_index s1) (sr_blocks s1) = drop (sr_index s1) (sr_blocks s)" "sr_issued s1 = sr_issued s" "sr_dev s1 = sr_dev s"
    "length (sr_blocks s1) = length (sr_blocks s)" by blast
  have "take (length (wanted (ops_blocks ops))) (drop (sr_index s1) (sr_blocks s1)) = map Some (picked (ops_blocks ops) (map fst d2))"
    using b(2) s1(5) by (simp add: s1(4))
  from Cons.IH [OF le(2) d(3) r(2) this] obtain s' o2 where
    s': "for_each (select_op rs) ops (rindex + ?n, s1) = (Ok (), rindex + ?n + length (ops_blocks ops), s')" "sr_results s' = sr_results s1 @ o2"
    "list_all2 (outcome Q) (wanted (ops_blocks ops)) o2" "sr_index s' = sr_index s1 + length (wanted (ops_blocks ops))"
    "drop (sr_index s') (sr_blocks s') = drop (sr_index s') (sr_blocks s1)" "sr_issued s' = sr_issued s1" "sr_dev s' = sr_dev s1"
    "length (sr_blocks s') = length (sr_blocks s1)" by blast
  have "drop (sr_index s') (sr_blocks s') = drop (sr_index s') (sr_blocks s)"
    using s'(4,5) s1(5) by (metis add.commute drop_drop)
  with s1 s' show ?case by (intro exI [of _ s'] exI [of _ "o1 @ o2"]) (simp add: list_all2_appendI)
qed simp

text \<open>A batch within the device.\<close>

definition block_at :: "(nat \<Rightarrow> u8) \<Rightarrow> u64 \<Rightarrow> bytes" where
  "block_at content b = bytes_at content (4096 * unat b) 4096"

context vectored_device begin

text \<open>A block of a batch: either its data is there, or something from it on, within the length of a batch, is broken.\<close>

definition read_ok :: "'d \<Rightarrow> u64 \<Rightarrow> bytes \<Rightarrow> (block_io_error, unit) result \<Rightarrow> bool" where
  "read_ok d x data r \<longleftrightarrow> (if r = Ok () then data = block_at (content d) x
     else \<exists>j. 4096 * unat x \<le> j \<and> j < 4096 * (unat x + 1024) \<and> broken d j)"

definition same_device :: "'d \<Rightarrow> 'd \<Rightarrow> bool" where
  "same_device d d' \<longleftrightarrow> dev_size d' = dev_size d \<and> content d' = content d \<and> broken d' = broken d"

lemma read_batch_spec:
  assumes fresh: "\<forall>x. length (fresh x) = 4096" and bt: "io_batch UIO_MAXIOV bt"
    and ready: "blocks_ready (sr_blocks s) (sr_issued s) (wanted (ops_blocks bt))" and idx: "sr_index s = sr_issued s"
    and room: "\<forall>x \<in> snd ` set (ops_blocks bt). 4096 * (unat x + 1) \<le> dev_size (sr_dev s)"
  shows "\<exists>s' outs. read_batch vio fresh bt s = (Ok (), s') \<and> sr_results s' = sr_results s @ outs \<and>
    list_all2 (outcome (read_ok (sr_dev s))) (wanted (ops_blocks bt)) outs \<and> same_device (sr_dev s) (sr_dev s') \<and>
    sr_issued s' = sr_issued s + length (wanted (ops_blocks bt)) \<and> sr_index s' = sr_issued s' \<and>
    drop (sr_issued s') (sr_blocks s') = drop (sr_issued s') (sr_blocks s) \<and> length (sr_blocks s') = length (sr_blocks s)"
proof -
  define xs where "xs = ops_blocks bt"
  obtain b e where be: "chain b bt e" "b < e" "unat e - unat b \<le> 1024" using bt by (auto simp: io_batch_def UIO_MAXIOV_def)
  have blocks: "map snd xs = range64 b e" unfolding xs_def by (rule chain_blocks [OF be(1)])
  then have len: "length xs = unat e - unat b" by (metis length_map length_range64)
  have at: "unat (snd (xs ! i)) = unat b + i" if "i < length xs" for i
  proof -
    have "snd (xs ! i) = word_of_nat (unat b + i)"
      using arg_cong [OF blocks, of "\<lambda>l. l ! i"] that len by (simp add: range64_def)
    moreover have "unat b + i < 2 ^ 64" using that len unat_lt2p [of e] by simp
    ultimately show ?thesis using pos_add [OF refl, of b i] by simp
  qed
  have pos: "0 < length xs" using len be(2) by (simp add: word_less_nat_alt)
  obtain first bufs where build: "for_each (build_op fresh (sr_blocks s)) bt (None, [], sr_issued s) =
      (Ok (), Some b, bufs, sr_issued s + length (wanted xs))" "map fst bufs = slots (sr_issued s) xs" "\<forall>b \<in> set bufs. length (snd b) = 4096"
  proof -
    obtain op ops where "bt = op # ops" "op_begin op = b" using be(1,2) by (cases bt) auto
    with build_ops [OF fresh ready, of None "[]"] that show thesis by (auto simp: xs_def)
  qed
  have nb: "length bufs = length xs" using arg_cong [OF build(2), of length] by simp
  have "4096 * (unat e - 1 + 1) \<le> dev_size (sr_dev s)"
  proof -
    have "snd (xs ! (length xs - 1)) \<in> snd ` set (ops_blocks bt)" using pos by (simp add: xs_def)
    moreover have "unat (snd (xs ! (length xs - 1))) = unat e - 1"
      using at [of "length xs - 1"] pos len by simp
    ultimately show ?thesis using room by metis
  qed
  then have size: "4096 * unat e \<le> dev_size (sr_dev s)" using be(2) by (simp add: word_less_nat_alt)
  have first: "unat (b * word_of_nat BLOCK_SIZE) = 4096 * unat b"
  proof -
    have "4096 * unat b < 2 ^ 64" using size be(2) size64 [of "sr_dev s"] by (simp add: word_less_nat_alt)
    then show ?thesis by (simp add: BLOCK_SIZE_def unat_word_ariths mult.commute)
  qed
  have span: "4096 * unat b + 4096 * length xs = 4096 * unat e" using len be(2) by (simp add: word_less_nat_alt)
  have room': "unat (b * word_of_nat BLOCK_SIZE) + 4096 * length (map snd bufs) \<le> dev_size (sr_dev s)"
    using size span by (simp add: first nb)
  obtain rs datas d where rd: "read_blocks vio False (map snd bufs) (b * word_of_nat BLOCK_SIZE) (sr_dev s) = (Ok rs, datas, d)"
    "length rs = length bufs" "length datas = length bufs" "dev_size d = dev_size (sr_dev s)" "content d = content (sr_dev s)"
    "broken d = broken (sr_dev s)"
    "\<And>i. i < length bufs \<Longrightarrow> rs ! i = Ok () \<Longrightarrow> datas ! i = bytes_at (content (sr_dev s)) (4096 * unat b + 4096 * i) 4096"
    "\<And>i. i < length bufs \<Longrightarrow> rs ! i \<noteq> Ok () \<Longrightarrow>
      \<exists>j. 4096 * unat b + 4096 * i \<le> j \<and> j < 4096 * unat b + 4096 * length bufs \<and> broken (sr_dev s) j"
  proof (rule read_blocks_spec [OF _ _ room', of False])
    show "map snd bufs \<noteq> []" using nb pos by auto
    show "\<forall>b \<in> set (map snd bufs). length b = 4096" using build(3) by simp
    show "block_buffers 4096" by (simp add: block_buffers_def)
  qed (use that first in simp_all)
  define drs where "drs = zip datas rs"
  have drs: "map fst drs = datas" "map snd drs = rs" "length drs = length xs" using rd(2,3) nb by (simp_all add: drs_def)
  have Q: "list_all2 (\<lambda>(w, x) (da, r). read_ok (sr_dev s) x da r) xs drs"
  proof (rule list_all2_all_nthI)
    show "length xs = length drs" using drs by simp
    fix i assume i: "i < length xs"
    have x: "4096 * unat b + 4096 * i = 4096 * unat (snd (xs ! i))" using at [OF i] by simp
    have "4096 * unat b + 4096 * length bufs \<le> 4096 * (unat (snd (xs ! i)) + 1024)" using at [OF i] be(3) len nb by simp
    then show "(case xs ! i of (w, x) \<Rightarrow> \<lambda>(da, r). read_ok (sr_dev s) x da r) (drs ! i)"
      using rd(7,8) [of i] i nb rd(2,3) x
      by (auto simp: read_ok_def block_at_def drs_def split: prod.splits) (meson order_less_le_trans)
  qed
  define s1 where "s1 = s\<lparr>sr_issued := sr_issued s + length (wanted xs), sr_dev := d,
      sr_blocks := fold store_buffer (zip (map fst bufs) datas) (sr_blocks s)\<rparr>"
  have room1: "sr_issued s + length (wanted xs) \<le> length (sr_blocks s)" using ready by (simp add: blocks_ready_def xs_def)
  have stored: "sr_blocks s1 = take (sr_issued s) (sr_blocks s) @ map Some (picked xs datas) @ drop (sr_issued s + length (wanted xs)) (sr_blocks s)"
    using store_buffers [OF ready [folded xs_def], of datas] rd(3) nb by (simp add: s1_def build(2))
  have pl: "length (picked xs datas) = length (wanted xs)" using rd(3) nb by (simp add: length_picked)
  have "\<forall>op \<in> set bt. op_begin op \<le> op_end op" using be(1) by (rule chain_ordered)
  moreover have "take (length (wanted xs)) (drop (sr_index s1) (sr_blocks s1)) = map Some (picked xs (map fst drs))"
    using stored room1 pl by (simp add: s1_def idx drs)
  moreover have "take (length xs) (drop 0 rs) = map snd drs" using drs rd(2) nb by simp
  ultimately obtain s' outs where sel: "for_each (select_op rs) bt (0, s1) = (Ok (), 0 + length xs, s')" "sr_results s' = sr_results s1 @ outs"
      "list_all2 (outcome (read_ok (sr_dev s))) (wanted xs) outs" "sr_index s' = sr_index s1 + length (wanted xs)"
      "drop (sr_index s') (sr_blocks s') = drop (sr_index s') (sr_blocks s1)" "sr_issued s' = sr_issued s1" "sr_dev s' = sr_dev s1" "length (sr_blocks s') = length (sr_blocks s1)"
    using select_ops [of bt "read_ok (sr_dev s)" drs 0 rs s1] Q unfolding xs_def by blast
  have "read_batch vio fresh bt s = (Ok (), s')"
    using build(1) rd(1) sel(1) by (simp add: read_batch_def Let_def xs_def s1_def)
  moreover have "drop (sr_issued s') (sr_blocks s') = drop (sr_issued s') (sr_blocks s)"
    using sel(4-6) stored room1 pl by (simp add: s1_def idx)
  moreover have "length (sr_blocks s1) = length (sr_blocks s)" using stored room1 pl by simp
  ultimately show ?thesis using sel rd(4-6) by (intro exI [of _ s'] exI [of _ outs]) (simp add: same_device_def s1_def idx xs_def)
qed

lemma read_batches_spec:
  assumes fresh: "\<forall>x. length (fresh x) = 4096"
  shows "Ball (set bts) (io_batch UIO_MAXIOV) \<Longrightarrow> blocks_ready (sr_blocks s) (sr_issued s) (wanted (ops_blocks (concat bts))) \<Longrightarrow>
    sr_index s = sr_issued s \<Longrightarrow> \<forall>x \<in> snd ` set (ops_blocks (concat bts)). 4096 * (unat x + 1) \<le> dev_size (sr_dev s) \<Longrightarrow>
    \<exists>s' outs. for_each (read_batch vio fresh) bts s = (Ok (), s') \<and> sr_results s' = sr_results s @ outs \<and>
      list_all2 (outcome (read_ok (sr_dev s))) (wanted (ops_blocks (concat bts))) outs \<and> same_device (sr_dev s) (sr_dev s')"
proof (induction bts arbitrary: s)
  case Nil
  show ?case by (simp add: same_device_def)
next
  case (Cons bt bts)
  have r: "blocks_ready (sr_blocks s) (sr_issued s) (wanted (ops_blocks bt))"
    "blocks_ready (sr_blocks s) (sr_issued s + length (wanted (ops_blocks bt))) (wanted (ops_blocks (concat bts)))"
    using Cons.prems(2) by (simp_all add: blocks_ready_append)
  obtain s1 o1 where s1: "read_batch vio fresh bt s = (Ok (), s1)" "sr_results s1 = sr_results s @ o1"
    "list_all2 (outcome (read_ok (sr_dev s))) (wanted (ops_blocks bt)) o1" "same_device (sr_dev s) (sr_dev s1)"
    "sr_issued s1 = sr_issued s + length (wanted (ops_blocks bt))" "sr_index s1 = sr_issued s1"
    "drop (sr_issued s1) (sr_blocks s1) = drop (sr_issued s1) (sr_blocks s)" "length (sr_blocks s1) = length (sr_blocks s)"
    using read_batch_spec [OF fresh, of bt s] Cons.prems r(1) by auto
  have "blocks_ready (sr_blocks s1) (sr_issued s1) (wanted (ops_blocks (concat bts)))"
    using r(2) s1(7,8) unfolding s1(5) by (rule blocks_ready_drop)
  moreover have "read_ok (sr_dev s1) = read_ok (sr_dev s)" using s1(4) unfolding same_device_def by (intro ext) (simp add: read_ok_def)
  ultimately obtain s' o2 where s': "for_each (read_batch vio fresh) bts s1 = (Ok (), s')" "sr_results s' = sr_results s1 @ o2"
    "list_all2 (outcome (read_ok (sr_dev s))) (wanted (ops_blocks (concat bts))) o2" "same_device (sr_dev s1) (sr_dev s')"
    using Cons.IH [of s1] Cons.prems(1,4) s1(4,6) by (auto simp: same_device_def)
  with s1 show ?case by (intro exI [of _ s'] exI [of _ "o1 @ o2"]) (simp add: list_all2_appendI same_device_def)
qed

lemma sync_read_many_spec:
  assumes fresh: "\<forall>x. length (fresh x) = 4096" and room: "\<forall>b \<in> set blocks. 4096 * (unat b + 1) \<le> dev_size d"
  shows "\<exists>rs d'. sync_read_many vio fresh blocks d = Some (Ok rs, d') \<and> same_device d d' \<and> list_all2 (outcome (read_ok d)) blocks rs"
proof (cases "blocks = []")
  case True
  then show ?thesis by (simp add: sync_read_many_def same_device_def)
next
  case False
  have "b \<noteq> -1" if "b \<in> set blocks" for b
  proof
    assume "b = -1"
    then have "unat b = 2 ^ 64 - 1" by (simp add: unsigned_minus_1_eq_mask mask_eq_exp_minus_1)
    with bspec [OF room that] size64 [of d] show False by simp
  qed
  then obtain bts where g: "generate_runs blocks GAP_THRESHOLD UIO_MAXIOV = Some bts" "Ball (set bts) (io_batch UIO_MAXIOV)"
    "wanted (ops_blocks (concat bts)) = blocks" "\<forall>x \<in> snd ` set (ops_blocks (concat bts)). \<exists>y \<in> set blocks. x \<le> y"
    using generate_runs_batches [of blocks UIO_MAXIOV GAP_THRESHOLD] by (auto simp: UIO_MAXIOV_def)
  define s where "s = \<lparr>sr_blocks = map (\<lambda>loc. Some (loc, fresh loc)) blocks, sr_issued = 0, sr_results = [], sr_index = 0, sr_dev = d\<rparr>"
  have "blocks_ready (sr_blocks s) (sr_issued s) (wanted (ops_blocks (concat bts)))"
    using fresh by (simp add: blocks_ready_def s_def g(3))
  moreover have "\<forall>x \<in> snd ` set (ops_blocks (concat bts)). 4096 * (unat x + 1) \<le> dev_size (sr_dev s)"
  proof
    fix x assume "x \<in> snd ` set (ops_blocks (concat bts))"
    then obtain y where "y \<in> set blocks" "x \<le> y" using g(4) by blast
    with bspec [OF room this(1)] show "4096 * (unat x + 1) \<le> dev_size (sr_dev s)" by (simp add: s_def word_le_nat_alt)
  qed
  ultimately obtain s' outs where s': "for_each (read_batch vio fresh) bts s = (Ok (), s')" "sr_results s' = sr_results s @ outs"
    "list_all2 (outcome (read_ok d)) blocks outs" "same_device d (sr_dev s')"
    using read_batches_spec [OF fresh g(2), of s] by (auto simp: g(3)) (auto simp: s_def)
  then have "sr_results s' = outs" "length outs = length blocks" by (auto simp: s_def list_all2_lengthD)
  with s' False g(1) show ?thesis by (simp add: sync_read_many_def s_def)
qed

end

section \<open>Runs of blocks to write\<close>

definition run_locs :: "u64 \<times> nat \<Rightarrow> u64 list" where
  "run_locs = (\<lambda>(b, n). map (\<lambda>i. b + word_of_nat i) [0..<n])"

definition nogap_ok :: "nat \<Rightarrow> u64 \<times> nat \<Rightarrow> bool" where
  "nogap_ok mx = (\<lambda>(b, n). 0 < n \<and> n \<le> mx)"

lemma nogap_fold:
  assumes "0 < mx"
  shows "fold (nogap_step mx) bs (runs, b, n) = (runs', b', n') \<Longrightarrow> Ball (set runs) (nogap_ok mx) \<Longrightarrow> nogap_ok mx (b, n) \<Longrightarrow>
    Ball (set (runs' @ [(b', n')])) (nogap_ok mx) \<and>
    concat (map run_locs (runs' @ [(b', n')])) = concat (map run_locs (runs @ [(b, n)])) @ map fst bs"
proof (induction bs arbitrary: runs b n)
  case (Cons x bs)
  show ?case
  proof (cases "fst x = b + word_of_nat n \<and> n < mx")
    case True
    with Cons.IH [of runs b "Suc n"] Cons.prems show ?thesis by (simp add: nogap_step_def nogap_ok_def run_locs_def)
  next
    case False
    then have "nogap_step mx x (runs, b, n) = (runs @ [(b, n)], fst x, 1)" by (auto simp: nogap_step_def)
    with Cons.IH [of "runs @ [(b, n)]" "fst x" 1] Cons.prems assms show ?thesis by (auto simp: nogap_ok_def run_locs_def)
  qed
qed simp

lemma find_runs_nogap_spec:
  assumes "0 < mx"
  shows "Ball (set (find_runs_nogap blocks mx)) (nogap_ok mx)" "concat (map run_locs (find_runs_nogap blocks mx)) = map fst blocks"
proof -
  have "Ball (set (find_runs_nogap blocks mx)) (nogap_ok mx) \<and> concat (map run_locs (find_runs_nogap blocks mx)) = map fst blocks"
  proof (cases blocks)
    case Nil
    then show ?thesis by (simp add: find_runs_nogap_def)
  next
    case (Cons b bs)
    obtain runs' b' n' where f: "fold (nogap_step mx) bs ([], fst b, 1) = (runs', b', n')" by (metis prod_cases3)
    have "find_runs_nogap blocks mx = runs' @ [(b', n')]"
      using f by (cases bs) (simp_all add: Cons find_runs_nogap_def)
    with nogap_fold [OF assms f] assms show ?thesis by (simp add: Cons nogap_ok_def run_locs_def)
  qed
  then show "Ball (set (find_runs_nogap blocks mx)) (nogap_ok mx)" "concat (map run_locs (find_runs_nogap blocks mx)) = map fst blocks"
    by simp_all
qed

context vectored_device begin

text \<open>The blocks \<open>bs\<close> were written: the last one of a location that was written without an error is there; other blocks keep
  their content; an error means that something from the block on, within the length of a batch, is broken.\<close>

definition write_ok :: "'d \<Rightarrow> 'd \<Rightarrow> block list \<Rightarrow> (unit, unit) result list \<Rightarrow> bool" where
  "write_ok d d' bs rs \<longleftrightarrow> dev_size d' = dev_size d \<and> broken d' = broken d \<and> length rs = length bs \<and>
     (\<forall>j. (\<forall>b \<in> set bs. j div 4096 \<noteq> unat (fst b)) \<longrightarrow> content d' j = content d j) \<and>
     (\<forall>i < length bs. if rs ! i = Ok () then fst (bs ! i) \<notin> fst ` set (drop (Suc i) bs) \<longrightarrow> block_at (content d') (fst (bs ! i)) = snd (bs ! i)
       else rs ! i = bad_write \<and> (\<exists>j. 4096 * unat (fst (bs ! i)) \<le> j \<and> j < 4096 * (unat (fst (bs ! i)) + 1024) \<and> broken d j))"

lemma block_at_other:
  assumes "\<And>j. j div 4096 = unat b \<Longrightarrow> c j = c' j"
  shows "block_at c b = block_at c' b"
  unfolding block_at_def bytes_at_def
proof (rule map_cong [OF refl])
  fix j assume "j \<in> set [4096 * unat b..<4096 * unat b + 4096]"
  then have "j div 4096 = unat b" by (intro div_nat_eqI) simp_all
  then show "c j = c' j" by (rule assms)
qed

lemma write_ok_append:
  assumes a: "write_ok d d1 bs rs" and b: "write_ok d1 d2 bs' rs'"
  shows "write_ok d d2 (bs @ bs') (rs @ rs')"
proof -
  have l: "length rs = length bs" "length rs' = length bs'" "broken d1 = broken d" using a b by (simp_all add: write_ok_def)
  have "if (rs @ rs') ! i = Ok () then fst ((bs @ bs') ! i) \<notin> fst ` set (drop (Suc i) (bs @ bs')) \<longrightarrow>
        block_at (content d2) (fst ((bs @ bs') ! i)) = snd ((bs @ bs') ! i)
      else (rs @ rs') ! i = bad_write \<and> (\<exists>j. 4096 * unat (fst ((bs @ bs') ! i)) \<le> j \<and> j < 4096 * (unat (fst ((bs @ bs') ! i)) + 1024) \<and> broken d j)"
    if "i < length (bs @ bs')" for i
  proof (cases "i < length bs")
    case True
    have keep: "block_at (content d2) (fst (bs ! i)) = block_at (content d1) (fst (bs ! i))" if "fst (bs ! i) \<notin> fst ` set bs'"
      using that b by (intro block_at_other) (auto simp: write_ok_def image_iff word_unat_eq_iff)
    have "if rs ! i = Ok () then fst (bs ! i) \<notin> fst ` set (drop (Suc i) bs) \<longrightarrow> block_at (content d1) (fst (bs ! i)) = snd (bs ! i)
        else rs ! i = bad_write \<and> (\<exists>j. 4096 * unat (fst (bs ! i)) \<le> j \<and> j < 4096 * (unat (fst (bs ! i)) + 1024) \<and> broken d j)"
      using a True unfolding write_ok_def by blast
    moreover have "(rs @ rs') ! i = rs ! i" "(bs @ bs') ! i = bs ! i" "drop (Suc i) (bs @ bs') = drop (Suc i) bs @ bs'"
      using True l(1) by (simp_all add: nth_append)
    ultimately show ?thesis using keep by (simp add: image_Un split: if_splits)
  next
    case False
    then have i: "(rs @ rs') ! i = rs' ! (i - length bs)" "(bs @ bs') ! i = bs' ! (i - length bs)" "i - length bs < length bs'"
      "drop (Suc i) (bs @ bs') = drop (Suc (i - length bs)) bs'"
      using that l by (simp_all add: nth_append Suc_diff_le)
    show ?thesis using b i(3) unfolding i(1,2,4) l(3) [symmetric] write_ok_def by blast
  qed
  then have "\<forall>i < length (bs @ bs'). if (rs @ rs') ! i = Ok () then fst ((bs @ bs') ! i) \<notin> fst ` set (drop (Suc i) (bs @ bs')) \<longrightarrow>
        block_at (content d2) (fst ((bs @ bs') ! i)) = snd ((bs @ bs') ! i)
      else (rs @ rs') ! i = bad_write \<and> (\<exists>j. 4096 * unat (fst ((bs @ bs') ! i)) \<le> j \<and> j < 4096 * (unat (fst ((bs @ bs') ! i)) + 1024) \<and> broken d j)"
    by blast
  moreover have "dev_size d2 = dev_size d" "broken d2 = broken d" "length (rs @ rs') = length (bs @ bs')"
    "\<forall>j. (\<forall>b \<in> set (bs @ bs'). j div 4096 \<noteq> unat (fst b)) \<longrightarrow> content d2 j = content d j"
    using a b by (simp_all add: write_ok_def)
  ultimately show ?thesis unfolding write_ok_def by (intro conjI)
qed

lemma write_batch_spec:
  assumes run: "nogap_ok 1024 (b, n)" and locs: "map fst bs = run_locs (b, n)"
    and issued: "take n (drop (sw_issued s) blocks) = bs" and len: "\<forall>b \<in> set bs. length (snd b) = 4096"
    and room: "\<forall>b \<in> set bs. 4096 * (unat (fst b) + 1) \<le> dev_size (sw_dev s)"
  shows "\<exists>s' rs. write_batch vio blocks (b, n) s = Some (Ok (), s') \<and> sw_results s' = sw_results s @ rs \<and>
    write_ok (sw_dev s) (sw_dev s') bs rs \<and> sw_issued s' = sw_issued s + n"
proof -
  have n: "0 < n" "n \<le> 1024" "length bs = n" using run arg_cong [OF locs, of length] by (simp_all add: nogap_ok_def run_locs_def)
  have fstb: "fst (bs ! i) = b + word_of_nat i" if "i < n" for i
    using arg_cong [OF locs, of "\<lambda>l. l ! i"] that n(3) by (simp add: run_locs_def)
  have top: "4096 * (unat (b + word_of_nat i) + 1) \<le> dev_size (sw_dev s)" if "i < n" for i
    using room fstb [OF that] that n(3) nth_mem by metis
  have small: "unat b + i < 2 ^ 64 \<and> unat (b + word_of_nat i) = unat b + i" if "i < n" for i
    using that
  proof (induction i)
    case (Suc i)
    then have ih: "unat (b + word_of_nat i) = unat b + i" by simp
    have "4096 * (unat b + i + 1) < 2 ^ 64" using top [of i] Suc.prems size64 [of "sw_dev s"] unfolding ih by simp
    then have lt: "unat b + Suc i < 2 ^ 64" by simp
    with pos_add [OF refl, of b "Suc i"] show ?case by simp
  qed (use unat_lt2p [of b] in simp)
  have size: "4096 * unat b + 4096 * n \<le> dev_size (sw_dev s)"
    using top [of "n - 1"] small [of "n - 1"] n(1) by simp
  have pos: "unat (b * word_of_nat BLOCK_SIZE) = 4096 * unat b"
  proof -
    have "4096 * unat b < 2 ^ 64" using size n(1) size64 [of "sw_dev s"] by simp
    then show ?thesis by (simp add: BLOCK_SIZE_def unat_word_ariths mult.commute)
  qed
  have room': "unat (b * word_of_nat BLOCK_SIZE) + 4096 * length (map snd bs) \<le> dev_size (sw_dev s)" using size by (simp add: pos n(3))
  obtain rs d where wr: "write_blocks vio (map snd bs) (b * word_of_nat BLOCK_SIZE) (sw_dev s) = Some (Ok rs, d)" "length rs = n"
    "dev_size d = dev_size (sw_dev s)" "broken d = broken (sw_dev s)"
    "\<And>j. j < 4096 * unat b \<or> 4096 * unat b + 4096 * n \<le> j \<Longrightarrow> content d j = content (sw_dev s) j"
    "\<And>i. i < n \<Longrightarrow> rs ! i = Ok () \<Longrightarrow> bytes_at (content d) (4096 * unat b + 4096 * i) 4096 = map snd bs ! i"
    "\<And>i. i < n \<Longrightarrow> rs ! i \<noteq> Ok () \<Longrightarrow> \<exists>j. 4096 * unat b + 4096 * i \<le> j \<and> j < 4096 * unat b + 4096 * n \<and> broken (sw_dev s) j"
  proof (rule write_blocks_spec [OF _ _ room'])
    show "map snd bs \<noteq> []" using n by auto
    show "\<forall>b \<in> set (map snd bs). length b = 4096" using len by auto
  qed (use that pos n(3) in simp_all)
  define out where "out = map (\<lambda>r. if r = Ok () then Ok () else bad_write) rs"
  have "write_ok (sw_dev s) d bs out"
    unfolding write_ok_def
  proof (intro conjI allI impI)
    fix j assume j: "\<forall>b \<in> set bs. j div 4096 \<noteq> unat (fst b)"
    have "j < 4096 * unat b \<or> 4096 * unat b + 4096 * n \<le> j"
    proof (rule ccontr)
      assume "\<not> ?thesis"
      then have "unat b \<le> j div 4096" "j div 4096 < unat b + n" by (auto simp: less_mult_imp_div_less)
      then have "j div 4096 - unat b < n" "j div 4096 = unat b + (j div 4096 - unat b)" by simp_all
      with j fstb small n(3) nth_mem [of "j div 4096 - unat b" bs] show False by fastforce
    qed
    then show "content d j = content (sw_dev s) j" by (rule wr(5))
  next
    fix i assume i: "i < length bs"
    have at: "4096 * unat b + 4096 * i = 4096 * unat (fst (bs ! i))" using fstb small i n(3) by simp
    have "4096 * unat b + 4096 * n \<le> 4096 * (unat (fst (bs ! i)) + 1024)" using fstb small i n by simp
    then show "if out ! i = Ok () then fst (bs ! i) \<notin> fst ` set (drop (Suc i) bs) \<longrightarrow> block_at (content d) (fst (bs ! i)) = snd (bs ! i)
        else out ! i = bad_write \<and> (\<exists>j. 4096 * unat (fst (bs ! i)) \<le> j \<and> j < 4096 * (unat (fst (bs ! i)) + 1024) \<and> broken (sw_dev s) j)"
      using wr(6,7) [of i] i n(3) wr(2) at by (auto simp: out_def block_at_def bad_write_def) (meson order_less_le_trans)
  qed (use wr n in \<open>simp_all add: out_def\<close>)
  moreover have "\<not> length blocks < sw_issued s + n" using arg_cong [OF issued, of length] n(1,3) by auto
  ultimately show ?thesis using wr(1) n issued by (simp add: write_batch_def Let_def out_def)
qed

lemma write_batches_spec:
  "Ball (set runs) (nogap_ok 1024) \<Longrightarrow> map fst bs = concat (map run_locs runs) \<Longrightarrow> drop (sw_issued s) blocks = bs \<Longrightarrow>
    \<forall>b \<in> set bs. length (snd b) = 4096 \<Longrightarrow> \<forall>b \<in> set bs. 4096 * (unat (fst b) + 1) \<le> dev_size (sw_dev s) \<Longrightarrow>
    \<exists>s' rs. write_batches vio blocks runs s = Some (Ok (), s') \<and> sw_results s' = sw_results s @ rs \<and> write_ok (sw_dev s) (sw_dev s') bs rs"
proof (induction runs arbitrary: bs s)
  case Nil
  then show ?case by (simp add: write_ok_def)
next
  case (Cons run runs)
  obtain b n where run: "run = (b, n)" by fastforce
  let ?b1 = "take n bs" and ?b2 = "drop n bs"
  have l: "length (run_locs run) = n" by (simp add: run run_locs_def)
  have f: "map fst ?b1 = run_locs (b, n)" "map fst ?b2 = concat (map run_locs runs)"
    using arg_cong [OF Cons.prems(2), of "take n"] arg_cong [OF Cons.prems(2), of "drop n"] l by (simp_all add: run take_map drop_map)
  have sub: "\<forall>b \<in> set ?b1. length (snd b) = 4096" "\<forall>b \<in> set ?b1. 4096 * (unat (fst b) + 1) \<le> dev_size (sw_dev s)"
    "\<forall>b \<in> set ?b2. length (snd b) = 4096" "\<forall>b \<in> set ?b2. 4096 * (unat (fst b) + 1) \<le> dev_size (sw_dev s)"
    using Cons.prems(4,5) set_take_subset [of n bs] set_drop_subset [of n bs] by blast+
  obtain s1 r1 where s1: "write_batch vio blocks (b, n) s = Some (Ok (), s1)" "sw_results s1 = sw_results s @ r1"
    "write_ok (sw_dev s) (sw_dev s1) ?b1 r1" "sw_issued s1 = sw_issued s + n"
    using write_batch_spec [OF _ f(1) _ sub(1,2), of blocks] Cons.prems(1,3) by (auto simp: run)
  have "drop (sw_issued s1) blocks = ?b2" using Cons.prems(3) by (auto simp: s1(4) add.commute)
  moreover have "dev_size (sw_dev s1) = dev_size (sw_dev s)" using s1(3) by (simp add: write_ok_def)
  ultimately obtain s' r2 where s': "write_batches vio blocks runs s1 = Some (Ok (), s')" "sw_results s' = sw_results s1 @ r2"
    "write_ok (sw_dev s1) (sw_dev s') ?b2 r2"
    using Cons.IH [of ?b2 s1] Cons.prems(1) f(2) sub(3,4) by auto
  from write_ok_append [OF s1(3) s'(3)] s1(1,2) s'(1,2) show ?case by (simp add: run)
qed

lemma sync_write_many_spec:
  assumes "\<forall>b \<in> set blocks. length (snd b) = 4096" "\<forall>b \<in> set blocks. 4096 * (unat (fst b) + 1) \<le> dev_size d"
  shows "\<exists>rs d'. sync_write_many vio blocks d = Some (Ok rs, d') \<and> write_ok d d' blocks rs"
proof (cases "blocks = []")
  case True
  then show ?thesis by (simp add: sync_write_many_def write_ok_def)
next
  case False
  have mx: "unat UIO_MAXIOV = 1024" by (simp add: UIO_MAXIOV_def)
  note runs = find_runs_nogap_spec [of 1024 blocks]
  from write_batches_spec [OF runs(1), of blocks "\<lparr>sw_issued = 0, sw_results = [], sw_dev = d\<rparr>" blocks] runs(2) assms False
  show ?thesis by (auto simp: sync_write_many_def mx)
qed

end

lemma last_index_of:
  "b \<in> fst ` set xs \<Longrightarrow> \<exists>i < length xs. fst (xs ! i) = b \<and> b \<notin> fst ` set (drop (Suc i) xs)"
proof (induction xs)
  case (Cons x xs)
  show ?case
  proof (cases "b \<in> fst ` set xs")
    case True
    with Cons.IH obtain i where "i < length xs" "fst (xs ! i) = b" "b \<notin> fst ` set (drop (Suc i) xs)" by blast
    then show ?thesis by (intro exI [of _ "Suc i"]) simp
  qed (use Cons.prems in \<open>intro exI [of _ 0], auto\<close>)
qed simp

section \<open>Properties\<close>

text \<open>C11: Reading many blocks at once from a device that keeps to the laws of vectored io refines reading them one by one: it
  returns, the device is as before, and there is one result for each block asked for, in the order asked, duplicates and
  unordered lists included: the block with its content, or an error, and then something from that block on, within the length
  of a batch, is broken.\<close>

theorem sync_read_many_refines:
  assumes "vectored_device vio dev_size content broken" "\<forall>x. length (fresh x) = 4096"
    and "\<forall>b \<in> set blocks. 4096 * (unat b + 1) \<le> dev_size d"
  shows "\<exists>rs d'. sync_read_many vio fresh blocks d = Some (Ok rs, d') \<and> content d' = content d \<and>
    list_all2 (\<lambda>b r. r = Ok (b, block_at (content d) b) \<or>
      r = Err () \<and> (\<exists>j. 4096 * unat b \<le> j \<and> j < 4096 * (unat b + 1024) \<and> broken d j)) blocks rs"
proof -
  obtain rs d' where rs: "sync_read_many vio fresh blocks d = Some (Ok rs, d')" "vectored_device.same_device dev_size content broken d d'"
    "list_all2 (outcome (vectored_device.read_ok content broken d)) blocks rs"
    using vectored_device.sync_read_many_spec [OF assms] by blast
  have "list_all2 (\<lambda>b r. r = Ok (b, block_at (content d) b) \<or>
      r = Err () \<and> (\<exists>j. 4096 * unat b \<le> j \<and> j < 4096 * (unat b + 1024) \<and> broken d j)) blocks rs"
    using rs(3) by (rule list_all2_mono)
      (auto simp: outcome_def vectored_device.read_ok_def [OF assms(1)] bad_read_def split: if_splits)
  with rs(1,2) show ?thesis by (auto simp: vectored_device.same_device_def [OF assms(1)])
qed

definition sample_ramdisk :: ramdisk where
  "sample_ramdisk = \<lparr>rk_data = replicate 16384 7, rk_invalid = {2}\<rparr>"

lemma sample_ramdisk_size: "ramdisk_size sample_ramdisk = 16384"
  by (simp add: ramdisk_size_def sample_ramdisk_def)

theorem sync_read_many_refines_witness:
  "\<exists>rs d'. sync_read_many ramdisk_vio (\<lambda>_. replicate 4096 0) [3, 0, 3, 1] sample_ramdisk = Some (Ok rs, d') \<and> length rs = 4"
proof -
  have "\<forall>b \<in> set [3, 0, 3, 1 :: u64]. 4096 * (unat b + 1) \<le> ramdisk_size sample_ramdisk" by (simp add: sample_ramdisk_size)
  from sync_read_many_refines [OF ramdisk.vectored_device_axioms _ this, of "\<lambda>_. replicate 4096 0"]
  show ?thesis by (fastforce dest: list_all2_lengthD)
qed

text \<open>C12: Writing many blocks at once returns one result for each block; a block that was written without an error, and is not
  written again later in the list, is on the device afterwards; other blocks keep their content; an error means that
  something from the block on, within the length of a batch, is broken.\<close>

theorem sync_write_many_refines:
  assumes "vectored_device vio dev_size content broken" "\<forall>b \<in> set blocks. length (snd b) = 4096"
    and "\<forall>b \<in> set blocks. 4096 * (unat (fst b) + 1) \<le> dev_size d"
  shows "\<exists>rs d'. sync_write_many vio blocks d = Some (Ok rs, d') \<and> length rs = length blocks \<and>
    (\<forall>b. b \<notin> fst ` set blocks \<longrightarrow> block_at (content d') b = block_at (content d) b) \<and>
    (\<forall>i < length blocks. rs ! i = Ok () \<and> fst (blocks ! i) \<notin> fst ` set (drop (Suc i) blocks) \<longrightarrow>
       block_at (content d') (fst (blocks ! i)) = snd (blocks ! i)) \<and>
    (\<forall>i < length blocks. rs ! i = Ok () \<or>
       (\<exists>j. 4096 * unat (fst (blocks ! i)) \<le> j \<and> j < 4096 * (unat (fst (blocks ! i)) + 1024) \<and> broken d j))"
proof -
  obtain rs d' where w: "sync_write_many vio blocks d = Some (Ok rs, d')" "vectored_device.write_ok dev_size content broken d d' blocks rs"
    using vectored_device.sync_write_many_spec [OF assms] by blast
  note ok = w(2) [unfolded vectored_device.write_ok_def [OF assms(1)]]
  have "block_at (content d') b = block_at (content d) b" if "b \<notin> fst ` set blocks" for b
    using that ok by (intro vectored_device.block_at_other [OF assms(1)]) (auto simp: image_iff word_unat_eq_iff)
  moreover have "rs ! i = Ok () \<and> fst (blocks ! i) \<notin> fst ` set (drop (Suc i) blocks) \<longrightarrow>
       block_at (content d') (fst (blocks ! i)) = snd (blocks ! i)"
    "rs ! i = Ok () \<or> (\<exists>j. 4096 * unat (fst (blocks ! i)) \<le> j \<and> j < 4096 * (unat (fst (blocks ! i)) + 1024) \<and> broken d j)"
    if "i < length blocks" for i using ok that by metis+
  ultimately show ?thesis using w(1) ok by blast
qed

theorem sync_write_many_refines_witness:
  "\<exists>rs d'. sync_write_many ramdisk_vio [(1, replicate 4096 5), (0, replicate 4096 6), (1, replicate 4096 9)] sample_ramdisk = Some (Ok rs, d') \<and>
    length rs = 3 \<and> block_at (ramdisk_content d') 3 = block_at (ramdisk_content sample_ramdisk) 3"
proof -
  let ?bs = "[(1, replicate 4096 5), (0, replicate 4096 6), (1, replicate 4096 9)] :: block list"
  have "\<forall>b \<in> set ?bs. 4096 * (unat (fst b) + 1) \<le> ramdisk_size sample_ramdisk" by (simp add: sample_ramdisk_size)
  moreover have "\<forall>b \<in> set ?bs. length (snd b) = 4096" by simp
  ultimately obtain rs d' where "sync_write_many ramdisk_vio ?bs sample_ramdisk = Some (Ok rs, d')" "length rs = length ?bs"
    "\<forall>b. b \<notin> fst ` set ?bs \<longrightarrow> block_at (ramdisk_content d') b = block_at (ramdisk_content sample_ramdisk) b"
    using sync_write_many_refines [OF ramdisk.vectored_device_axioms, of ?bs sample_ramdisk] by blast
  then show ?thesis by auto
qed

text \<open>C10: On a device on which nothing is broken every request is served: writing returns \<open>Ok\<close> for every block, and reading the
  same locations then returns what was written last to each.\<close>

theorem sync_io_served:
  assumes "vectored_device vio dev_size content broken" "\<forall>x. length (fresh x) = 4096" "\<forall>j. \<not> broken d j"
    and "\<forall>b \<in> set blocks. length (snd b) = 4096" "\<forall>b \<in> set blocks. 4096 * (unat (fst b) + 1) \<le> dev_size d"
  shows "\<exists>d' d''. sync_write_many vio blocks d = Some (Ok (replicate (length blocks) (Ok ())), d') \<and>
    sync_read_many vio fresh (map fst blocks) d' =
      Some (Ok (map (\<lambda>b. Ok (fst b, the (map_of (rev blocks) (fst b)))) blocks), d'')"
proof -
  obtain rs d' where w: "sync_write_many vio blocks d = Some (Ok rs, d')" "vectored_device.write_ok dev_size content broken d d' blocks rs"
    using vectored_device.sync_write_many_spec [OF assms(1,4,5)] by blast
  note ok = w(2) [unfolded vectored_device.write_ok_def [OF assms(1)]]
  then have rs: "rs = replicate (length blocks) (Ok ())" using assms(3) by (intro nth_equalityI) (auto split: if_splits)
  have last: "block_at (content d') b = the (map_of (rev blocks) b)" if b: "b \<in> fst ` set blocks" for b
  proof -
    obtain i where i: "i < length blocks" "fst (blocks ! i) = b" "b \<notin> fst ` set (drop (Suc i) blocks)"
      using last_index_of [OF b] by blast
    then have "block_at (content d') b = snd (blocks ! i)" using ok rs by auto
    moreover have "map_of (rev blocks) b = Some (snd (blocks ! i))"
    proof -
      have "rev blocks = rev (drop (Suc i) blocks) @ blocks ! i # rev (take i blocks)"
        using i(1) by (metis id_take_nth_drop rev_append rev.simps(2) append_assoc append_Cons append_Nil)
      moreover have "map_of (rev (drop (Suc i) blocks)) b = None" using i(3) by (simp add: map_of_eq_None_iff)
      ultimately show ?thesis using i(2) by (cases "blocks ! i") (simp add: map_add_def)
    qed
    ultimately show ?thesis by simp
  qed
  have "\<forall>b \<in> set (map fst blocks). 4096 * (unat b + 1) \<le> dev_size d'" using assms(5) ok by simp
  from vectored_device.sync_read_many_spec [OF assms(1,2) this] obtain rs' d'' where
    r: "sync_read_many vio fresh (map fst blocks) d' = Some (Ok rs', d'')" "list_all2 (outcome (vectored_device.read_ok content broken d')) (map fst blocks) rs'"
    by blast
  have "rs' = map (\<lambda>b. Ok (fst b, the (map_of (rev blocks) (fst b)))) blocks"
  proof (rule nth_equalityI)
    show len: "length rs' = length (map (\<lambda>b. Ok (fst b, the (map_of (rev blocks) (fst b)))) blocks)"
      using list_all2_lengthD [OF r(2)] by simp
    fix i assume "i < length rs'"
    then have i: "i < length blocks" using len by simp
    have "broken d' = broken d" using ok by simp
    with list_all2_nthD [OF r(2), of i] i assms(3) have "rs' ! i = Ok (fst (blocks ! i), block_at (content d') (fst (blocks ! i)))"
      by (auto simp: outcome_def vectored_device.read_ok_def [OF assms(1)])
    with last i show "rs' ! i = map (\<lambda>b. Ok (fst b, the (map_of (rev blocks) (fst b)))) blocks ! i" by simp
  qed
  with w(1) rs r(1) show ?thesis by blast
qed

theorem sync_io_served_witness:
  "\<exists>d' d''. sync_write_many ramdisk_vio [(1, replicate 4096 5), (0, replicate 4096 6), (1, replicate 4096 9)]
       (sample_ramdisk\<lparr>rk_invalid := {}\<rparr>) = Some (Ok [Ok (), Ok (), Ok ()], d') \<and>
    sync_read_many ramdisk_vio (\<lambda>_. replicate 4096 0) [1, 0, 1] d' =
      Some (Ok [Ok (1, replicate 4096 9), Ok (0, replicate 4096 6), Ok (1, replicate 4096 9)], d'')"
proof -
  let ?bs = "[(1, replicate 4096 5), (0, replicate 4096 6), (1, replicate 4096 9)] :: block list" and ?d = "sample_ramdisk\<lparr>rk_invalid := {}\<rparr>"
  have "\<forall>b \<in> set ?bs. 4096 * (unat (fst b) + 1) \<le> ramdisk_size ?d" "\<forall>b \<in> set ?bs. length (snd b) = 4096" "\<forall>j. \<not> ramdisk_broken ?d j"
    by (simp_all add: ramdisk_size_def sample_ramdisk_def ramdisk_broken_def)
  from sync_io_served [OF ramdisk.vectored_device_axioms _ this(3,2,1), of "\<lambda>_. replicate 4096 0"]
  have "\<exists>d' d''. sync_write_many ramdisk_vio ?bs ?d = Some (Ok (replicate (length ?bs) (Ok ())), d') \<and>
      sync_read_many ramdisk_vio (\<lambda>_. replicate 4096 0) (map fst ?bs) d' =
        Some (Ok (map (\<lambda>b. Ok (fst b, the (map_of (rev ?bs) (fst b)))) ?bs), d'')" by simp
  moreover have "replicate (length ?bs) (Ok ()) = [Ok (), Ok (), Ok ()]" by (simp add: eval_nat_numeral)
  ultimately show ?thesis by simp
qed

end
