(* ===== verification/Spec2Isabelle.thy ===== *)
theory Spec2Isabelle
  imports Aggregator Node_Encode Restricted_Space_Map Superblock Btree_Path Space_Map_Disk Units Delta_Xml Sync_Engine
begin

text \<open>
  A model of the core of \<open>thin-provisioning-tools\<close>: how the metadata of the device mapper's thin, cache and era
  targets is laid out on disk, read, checked, walked, built and compared.

  \<^bold>\<open>The program.\<close> The metadata lives in blocks of 4096 bytes. A block carries a CRC salted with its kind
  (\<open>src/checksum.rs\<close>). A superblock (\<open>src/thin\<close>, \<open>src/cache\<close>, \<open>src/era\<close>) points to b-trees
  (\<open>src/pdata/btree*.rs\<close>) whose values have fixed encodings, and to space maps (\<open>src/pdata/space_map\<close>), which count the
  references to each block. Tools read trees with a walker that checks every node, and write trees bottom up through a
  batcher (\<open>src/write_batcher.rs\<close>) that allocates blocks from a space map and queues the writes to the io engine
  (\<open>src/io_engine\<close>). \<open>thin_delta\<close> (\<open>src/thin/delta*.rs\<close>) compares the trees of two devices. \<open>src/pack\<close> compresses
  metadata blocks.

  \<^bold>\<open>The theories,\<close> each named after what it models:
  \<^item> \<open>Prelude\<close>: machine integers, results (\<open>Ok\<close>, \<open>Err\<close>, \<open>Panic\<close>), methods on \<open>&mut self\<close> as functions that return the receiver,
    loops with an early exit. \<open>Bytes\<close>: the \<open>nom\<close> parsers and \<open>byteorder\<close> writers the code uses, the interface \<open>value_codec\<close>.
  \<^item> \<open>Checksum\<close>, \<open>Metadata_Codecs\<close>, \<open>Superblock\<close>: \<open>src/checksum.rs\<close>; the value types and on-disk records; the three superblocks.
  \<^item> \<open>Delta_List\<close>, \<open>Pack_VM\<close>, \<open>Node_Encode\<close>: \<open>src/pack\<close>.
  \<^item> \<open>Space_Map\<close>, \<open>Restricted_Space_Map\<close>: the space maps in memory (\<open>base.rs\<close>, \<open>allocated_blocks.rs\<close>).
  \<^item> \<open>Io_Engine\<close>, \<open>Write_Batcher\<close>: the in-memory engine and the batcher over it.
  \<^item> \<open>Btree_Node\<close>, \<open>Btree_Path\<close>, \<open>Btree_Lookup\<close>: node layout and checks, key ranges and encoded paths, lookup and depth
    (\<open>btree.rs\<close>, \<open>btree_error.rs\<close>, \<open>btree_utils.rs\<close>).
  \<^item> \<open>Btree_Tree\<close>: what a well formed tree on a device is, for readers and writers alike.
  \<^item> \<open>Btree_Builder\<close>, \<open>Space_Map_Disk\<close>: \<open>btree_builder.rs\<close>; the writers of the space maps (\<open>common.rs\<close>, \<open>disk.rs\<close>, \<open>metadata.rs\<close>).
  \<^item> \<open>Btree_Walker\<close>, \<open>Btree_Collect\<close>: \<open>btree_walker.rs\<close> and what its collectors return.
  \<^item> \<open>Thin_Delta\<close>, \<open>Xml\<close>, \<open>Delta_Xml\<close>: \<open>thin_delta\<close>, from the runs of a device to the XML.
  \<^item> \<open>Units\<close>: \<open>src/units.rs\<close>.

  \<^bold>\<open>State and operations.\<close> A struct is a record with the struct's fields, an enum a datatype, an integer a word of its width.
  A method on \<open>&mut self\<close> is a function from the receiver to a result and the receiver it leaves, on errors as well. The
  tools are built in the release profile: arithmetic wraps, and \<open>Panic\<close> is a failed assertion, an index out of range or an
  \<open>unwrap\<close> of nothing. Trait objects (\<open>IoEngine\<close>, \<open>NodeVisitor\<close>, \<open>DeltaVisitor\<close>, \<open>SpaceMap\<close>) are records of their methods or the
  parameters of a locale. The CRC, the bit set of \<open>fixedbitset\<close> and memory that was never written are parameters, with
  what the code relies on as named hypotheses.

  \<^bold>\<open>What is shown.\<close> Round trips of every codec, node, superblock and packed block; what each reader accepts is well formed,
  and no input makes the node reader panic; the space maps keep their counters in step with the counts and never hand out
  a block in use; the batcher reads back what was written, flushed or not; a tree built from ascending pairs is found on
  the device by lookup and by the strict walk, at the height the node size demands; a space map written to disk is read
  back count by count; walks end on every device, with cycles too; and two devices are compared block by block. Where
  the code does something else than it says, the exact behaviour is proved and listed as a finding.

  \<^bold>\<open>Bounds and fuel.\<close> Loops with a measure are total functions. Those that only end because of the data (the walk, the
  builder's layers, the writer loops) are partial functions into \<open>option\<close>, and that they return is part of what is proved;
  there is no fuel. Devices have fewer than \<open>2^63\<close> blocks where a bit set's length must fit a \<open>usize\<close>.

  \<^bold>\<open>Not modelled:\<close> concurrency (locks are taken and released within a call and one thread is modelled), the command line,
  progress reports, opening devices, \<open>ioctl\<close>s and asynchronous io; the checkers and repairers above the walker
  (\<open>thin/check.rs\<close>, \<open>metadata_repair.rs\<close>, \<open>space_map/aggregator*.rs\<close>); the remaining tools of the thin, cache and era
  suites; XML parsing.
\<close>

end
